(* ===== verification/Prelude.thy ===== *)
theory Prelude
  imports Main "HOL-Library.Word"
begin

text \<open>
  Shared material of the development: the machine types of the C++ program, the collections of
  facts the component theories extend, and the generic lemmas on lists, options and words that
  the component proofs use.
\<close>

section \<open>Machine types\<close>

text \<open>
  \<open>std::uint8_t\<close>, \<open>std::uint16_t\<close>, \<open>std::uint32_t\<close> and \<open>std::uint64_t\<close>. The platform is a
  64-bit one, so \<open>std::size_t\<close> is 64 bits wide.
\<close>

type_synonym u8 = "8 word"
type_synonym u16 = "16 word"
type_synonym u32 = "32 word"
type_synonym u64 = "64 word"

section \<open>Collections of facts\<close>

named_theorems op_defs \<open>definitions of the operations of a component, unfolded together\<close>
named_theorems inv_defs \<open>definitions of the invariants\<close>

section \<open>Wrap-around\<close>

text \<open>A counter decremented \<open>d\<close> times from zero.\<close>

lemma unat_minus_of_nat:
  assumes "0 < d" "d < 2 ^ LENGTH('a)"
  shows "unat (- of_nat d :: 'a :: len word) = 2 ^ LENGTH('a) - d"
proof -
  have "of_nat (2 ^ LENGTH('a) - d) + of_nat d = (of_nat (2 ^ LENGTH('a)) :: 'a word)"
    using assms(2) by (simp flip: of_nat_add)
  then have neg: "- of_nat d = (of_nat (2 ^ LENGTH('a) - d) :: 'a word)"
    by (simp add: neg_eq_iff_add_eq_0 add.commute)
  have "unat (of_nat (2 ^ LENGTH('a) - d) :: 'a word) = 2 ^ LENGTH('a) - d"
    using assms by (simp only: unsigned_of_nat) (simp add: take_bit_nat_eq_self_iff)
  then show ?thesis by (simp only: neg)
qed

end
