(* ===== verification/Op_Queue.thy ===== *)
theory Op_Queue
  imports Prelude
begin

text \<open>
  The intrusive queue of operations, \<open>src/ext/asio/asio/detail/op_queue.hpp\<close>. An operation is an
  address; the heap maps it to its \<open>next_\<close> pointer (\<open>None\<close> is the null pointer). The queue holds
  the addresses of its first and last operation. The pointer operations are shown to implement the
  FIFO interface, stated as a locale over an abstraction to lists; the components that own queues
  (the scheduler and the timer queue) work with the list.
\<close>

section \<open>The interface\<close>

locale fifo_queue =
  fixes rep :: "'q \<Rightarrow> 'a list \<Rightarrow> bool"
    and empty_q :: 'q
    and front_q :: "'q \<Rightarrow> 'a option"
    and push_q :: "'a \<Rightarrow> 'q \<Rightarrow> 'q"
    and pop_q :: "'q \<Rightarrow> 'q"
  assumes rep_empty: "rep empty_q []"
    and rep_front: "rep q xs \<Longrightarrow> front_q q = (case xs of [] \<Rightarrow> None | x # _ \<Rightarrow> Some x)"
    and rep_push: "rep q xs \<Longrightarrow> x \<notin> set xs \<Longrightarrow> rep (push_q x q) (xs @ [x])"
    and rep_pop: "rep q xs \<Longrightarrow> rep (pop_q q) (tl xs)"
begin

lemma rep_push_all:
  "rep q xs \<Longrightarrow> distinct ys \<Longrightarrow> set xs \<inter> set ys = {} \<Longrightarrow> rep (fold push_q ys q) (xs @ ys)"
proof (induction ys arbitrary: q xs)
  case (Cons y ys)
  then have "rep (push_q y q) (xs @ [y])"
    by (auto intro: rep_push)
  with Cons.prems Cons.IH [of "push_q y q" "xs @ [y]"] show ?case
    by auto
qed simp

lemma rep_pop_n: "rep q xs \<Longrightarrow> rep ((pop_q ^^ n) q) (drop n xs)"
  proof (induction n)
  case (Suc n)
  then have "rep (pop_q ((pop_q ^^ n) q)) (tl (drop n xs))"
    by (intro rep_pop) simp
  then show ?case
    by (simp add: drop_Suc tl_drop)
qed simp

text \<open>What is pushed comes out in the order it was pushed in.\<close>

lemma fifo_order:
  assumes "rep q xs" and "distinct ys" and "set xs \<inter> set ys = {}" and "i < length ys"
  shows "front_q ((pop_q ^^ (length xs + i)) (fold push_q ys q)) = Some (ys ! i)"
proof -
  have "rep ((pop_q ^^ (length xs + i)) (fold push_q ys q)) (drop (length xs + i) (xs @ ys))"
    using assms by (intro rep_pop_n rep_push_all)
  then show ?thesis
    using assms(4) by (simp add: rep_front Cons_nth_drop_Suc [symmetric])
qed

lemma front_empty_iff: "rep q xs \<Longrightarrow> front_q q = None \<longleftrightarrow> xs = []"
  by (simp add: rep_front split: list.splits)

end

section \<open>The pointer structure\<close>

type_synonym op_ptr = nat
type_synonym op_heap = "op_ptr \<Rightarrow> op_ptr option"

record op_queue =
  oq_front :: "op_ptr option"
  oq_back :: "op_ptr option"

definition op_queue_new :: op_queue where
  "op_queue_new = \<lparr>oq_front = None, oq_back = None\<rparr>"

definition op_queue_front :: "op_heap \<times> op_queue \<Rightarrow> op_ptr option" where
  "op_queue_front = (\<lambda>(h, q). oq_front q)"

definition op_queue_pop :: "op_heap \<times> op_queue \<Rightarrow> op_heap \<times> op_queue" where
  "op_queue_pop = (\<lambda>(h, q).
     (case oq_front q of
        None \<Rightarrow> (h, q)
      | Some tmp \<Rightarrow>
          (let q1 = q\<lparr>oq_front := h tmp\<rparr>;
               q2 = (if oq_front q1 = None then q1\<lparr>oq_back := None\<rparr> else q1)
           in (h(tmp := None), q2))))"

definition op_queue_push :: "op_ptr \<Rightarrow> op_heap \<times> op_queue \<Rightarrow> op_heap \<times> op_queue" where
  "op_queue_push x = (\<lambda>(h, q).
     (let h1 = h(x := None)
      in case oq_back q of
           Some b \<Rightarrow> (h1(b := Some x), q\<lparr>oq_back := Some x\<rparr>)
         | None \<Rightarrow> (h1, q\<lparr>oq_front := Some x, oq_back := Some x\<rparr>)))"

text \<open>\<open>push (op_queue<OtherOperation> & q)\<close>: the other queue is emptied.\<close>

definition op_queue_push_queue ::
  "op_heap \<Rightarrow> op_queue \<Rightarrow> op_queue \<Rightarrow> op_heap \<times> op_queue \<times> op_queue" where
  "op_queue_push_queue h this q =
     (case oq_front q of
        None \<Rightarrow> (h, this, q)
      | Some other_front \<Rightarrow>
          (let (h1, this1) =
             (case oq_back this of
                Some b \<Rightarrow> (h(b := Some other_front), this)
              | None \<Rightarrow> (h, this\<lparr>oq_front := Some other_front\<rparr>))
           in (h1, this1\<lparr>oq_back := oq_back q\<rparr>, q\<lparr>oq_front := None, oq_back := None\<rparr>)))"

definition op_queue_empty :: "op_queue \<Rightarrow> bool" where
  "op_queue_empty q \<longleftrightarrow> oq_front q = None"

definition op_queue_is_enqueued :: "op_heap \<Rightarrow> op_queue \<Rightarrow> op_ptr \<Rightarrow> bool" where
  "op_queue_is_enqueued h q x \<longleftrightarrow> h x \<noteq> None \<or> oq_back q = Some x"

text \<open>
  The destructor pops and destroys until the queue is empty. A loop over pointers need not end,
  so the result is an option; \<open>Some\<close> holds the operations destroyed, in order.
\<close>

partial_function (option) op_queue_destroy ::
  "op_heap \<Rightarrow> op_queue \<Rightarrow> op_ptr list \<Rightarrow> (op_heap \<times> op_queue \<times> op_ptr list) option" where
  "op_queue_destroy h q done =
     (case oq_front q of
        None \<Rightarrow> Some (h, q, done)
      | Some op \<Rightarrow>
          op_queue_destroy (fst (op_queue_pop (h, q))) (snd (op_queue_pop (h, q))) (done @ [op]))"

section \<open>Abstraction to lists\<close>

fun path :: "op_heap \<Rightarrow> op_ptr option \<Rightarrow> op_ptr list \<Rightarrow> bool" where
  "path h p [] \<longleftrightarrow> p = None"
| "path h p (x # xs) \<longleftrightarrow> p = Some x \<and> path h (h x) xs"

definition queue_rep :: "op_heap \<Rightarrow> op_queue \<Rightarrow> op_ptr list \<Rightarrow> bool" where
  "queue_rep h q xs \<longleftrightarrow>
     path h (oq_front q) xs \<and> distinct xs \<and> oq_back q = (if xs = [] then None else Some (last xs))"

lemma path_frame: "x \<notin> set xs \<Longrightarrow> path (h(x := v)) p xs = path h p xs"
  by (induction xs arbitrary: p) auto

lemma path_link:
  assumes "path h p xs" and "xs \<noteq> []" and "distinct xs" and "path h (Some y) ys"
    and "set xs \<inter> set ys = {}"
  shows "path (h(last xs := Some y)) p (xs @ ys)"
  using assms
proof (induction xs arbitrary: p)
  case (Cons x xs)
  show ?case
  proof (cases "xs = []")
    case True
    with Cons.prems path_frame [of x ys h "Some y" "Some y"] show ?thesis
      by (simp del: fun_upd_apply add: fun_upd_same)
  next
    case False
    then have "last xs \<in> set xs" by simp
    with Cons.prems False have "x \<noteq> last xs" by auto
    with Cons False show ?thesis by auto
  qed
qed simp

lemma queue_rep_new: "queue_rep h op_queue_new []"
  by (simp add: queue_rep_def op_queue_new_def)

lemma queue_rep_front:
  "queue_rep h q xs \<Longrightarrow> oq_front q = (case xs of [] \<Rightarrow> None | x # _ \<Rightarrow> Some x)"
  by (cases xs) (auto simp: queue_rep_def)

lemma queue_rep_push:
  assumes "queue_rep h q xs" and "x \<notin> set xs"
  shows "case_prod queue_rep (op_queue_push x (h, q)) (xs @ [x])"
proof (cases "xs = []")
  case True
  with assms show ?thesis
    by (simp add: queue_rep_def op_queue_push_def)
next
  case False
  have "path (h(x := None)) (oq_front q) xs" and "path (h(x := None)) (Some x) [x]"
    using assms by (simp_all add: queue_rep_def path_frame)
  with assms False have "path ((h(x := None))(last xs := Some x)) (oq_front q) (xs @ [x])"
    by (intro path_link) (auto simp: queue_rep_def)
  with assms False show ?thesis
    by (simp add: queue_rep_def op_queue_push_def)
qed

lemma queue_rep_pop:
  assumes "queue_rep h q xs"
  shows "case_prod queue_rep (op_queue_pop (h, q)) (tl xs)"
proof (cases xs)
  case Nil
  with assms show ?thesis
    by (simp add: queue_rep_def op_queue_pop_def)
next
  case (Cons x ys)
  with assms show ?thesis
    by (cases ys) (auto simp: queue_rep_def op_queue_pop_def path_frame Let_def)
qed

text \<open>A popped operation is unlinked, as \<open>op_queue_access::next (tmp, 0)\<close> requires.\<close>

lemma pop_unlinks: "oq_front q = Some x \<Longrightarrow> fst (op_queue_pop (h, q)) x = None"
  by (simp add: op_queue_pop_def Let_def)

interpretation opq: fifo_queue
  "\<lambda>hq. queue_rep (fst hq) (snd hq)" "(h0, op_queue_new)" op_queue_front op_queue_push op_queue_pop
  for h0
proof (unfold_locales, goal_cases)
  case 1
  then show ?case by (simp add: queue_rep_new)
next
  case (2 q xs)
  then show ?case by (cases q) (simp add: op_queue_front_def queue_rep_front)
next
  case (3 q xs x)
  then show ?case using queue_rep_push by (cases q) (simp add: case_prod_beta)
next
  case (4 q xs)
  then show ?case using queue_rep_pop by (cases q) (simp add: case_prod_beta)
qed

text \<open>The same interface on the lists the owning components use.\<close>

interpretation listq: fifo_queue
  "(=)" "[]" "\<lambda>xs. case xs of [] \<Rightarrow> None | x # _ \<Rightarrow> Some x" "\<lambda>x xs. xs @ [x]" tl
  by unfold_locales auto

section \<open>The other operations\<close>

lemma queue_rep_push_queue:
  assumes "queue_rep h this xs" and "queue_rep h q ys" and "set xs \<inter> set ys = {}"
  shows "case op_queue_push_queue h this q of
           (h', this', q') \<Rightarrow> queue_rep h' this' (xs @ ys) \<and> queue_rep h' q' []"
proof (cases ys)
  case Nil
  with assms show ?thesis
    by (simp add: queue_rep_def op_queue_push_queue_def)
next
  case (Cons y zs)
  then have q: "oq_front q = Some y" "oq_back q = Some (last ys)" "path h (Some y) ys" "distinct ys"
    using assms(2) by (auto simp: queue_rep_def)
  show ?thesis
  proof (cases "xs = []")
    case True
    with assms q Cons show ?thesis
      by (simp add: queue_rep_def op_queue_push_queue_def)
  next
    case False
    then have "path (h(last xs := Some y)) (oq_front this) (xs @ ys)"
      using assms q by (intro path_link) (auto simp: queue_rep_def)
    with assms q Cons False show ?thesis
      by (simp add: queue_rep_def op_queue_push_queue_def)
  qed
qed

lemma path_next_None_iff:
  "path h p xs \<Longrightarrow> distinct xs \<Longrightarrow> x \<in> set xs \<Longrightarrow> h x = None \<longleftrightarrow> x = last xs"
proof (induction xs arbitrary: p)
  case (Cons y ys)
  then show ?case by (cases ys) auto
qed simp

lemma op_queue_destroy_ends:
  "queue_rep h q xs \<Longrightarrow>
     \<exists>h' q'. op_queue_destroy h q ds = Some (h', q', ds @ xs) \<and> queue_rep h' q' []"
proof (induction xs arbitrary: h q ds)
  case Nil
  then show ?case
    by (subst op_queue_destroy.simps) (auto simp: queue_rep_def)
next
  case (Cons x xs)
  obtain h1 q1 where p: "op_queue_pop (h, q) = (h1, q1)"
    by (cases "op_queue_pop (h, q)")
  with queue_rep_pop [OF Cons.prems] have "queue_rep h1 q1 xs"
    by simp
  moreover have "oq_front q = Some x"
    using queue_rep_front [OF Cons.prems] by simp
  ultimately show ?case
    using Cons.IH [of h1 q1 "ds @ [x]"] p
    by (subst op_queue_destroy.simps) simp
qed

section \<open>What the pointer queue guarantees\<close>

text \<open>
  C17: The intrusive queue is first in, first out: of the operations pushed one after the other onto a
  well-formed queue, each comes to the front after exactly the operations before it were popped.
\<close>

theorem op_queue_fifo:
  assumes "queue_rep h q xs" "distinct ys" "set xs \<inter> set ys = {}" "i < length ys"
  shows "op_queue_front ((op_queue_pop ^^ (length xs + i)) (fold op_queue_push ys (h, q))) = Some (ys ! i)"
  using opq.fifo_order [of "(h, q)" xs ys i] assms by simp

theorem op_queue_fifo_witness:
  "op_queue_front ((op_queue_pop ^^ 1) (fold op_queue_push [7, 5] (\<lambda>_. None, op_queue_new))) = Some 5"
  using op_queue_fifo [of "\<lambda>_. None" op_queue_new "[]" "[7, 5]" 1] queue_rep_new by simp

text \<open>
  Pushing a whole queue splices it: the receiving queue holds its own operations followed by the
  other's, in order, and the other queue is empty; no operation is copied or lost.
\<close>

theorem op_queue_splice:
  assumes "queue_rep h this xs" "queue_rep h q ys" "set xs \<inter> set ys = {}"
  shows "case op_queue_push_queue h this q of
           (h', this', q') \<Rightarrow> queue_rep h' this' (xs @ ys) \<and> queue_rep h' q' []"
  using assms by (rule queue_rep_push_queue)

theorem op_queue_splice_witness:
  "case op_queue_push_queue ((\<lambda>_. None)(1 := Some 2)) \<lparr>oq_front = Some 1, oq_back = Some 2\<rparr>
       \<lparr>oq_front = Some 3, oq_back = Some 3\<rparr> of
     (h', this', q') \<Rightarrow> queue_rep h' this' ([1, 2] @ [3]) \<and> queue_rep h' q' []"
  by (rule op_queue_splice) (simp_all add: queue_rep_def)

text \<open>
  The destructor ends and destroys every operation that is still queued exactly once, in order.
\<close>

theorem op_queue_destroy_all:
  assumes "queue_rep h q xs"
  shows "\<exists>h' q'. op_queue_destroy h q [] = Some (h', q', xs) \<and> queue_rep h' q' []"
  using op_queue_destroy_ends [OF assms, of "[]"] by simp

theorem op_queue_destroy_all_witness:
  "\<exists>h' q'. op_queue_destroy ((\<lambda>_. None)(1 := Some 2)) \<lparr>oq_front = Some 1, oq_back = Some 2\<rparr> []
     = Some (h', q', [1, 2]) \<and> queue_rep h' q' []"
  by (rule op_queue_destroy_all) (simp add: queue_rep_def)

end
