(* ===== verification/Scheduler.thy ===== *)
theory Scheduler
  imports Op_Queue
begin

text \<open>
  The event loop behind \<open>asio::io_context\<close> and \<open>asio::thread_pool\<close>:
  \<open>src/ext/asio/asio/detail/impl/scheduler.ipp\<close> with its condition variable
  (\<open>detail/posix_event.hpp\<close>) and the concurrency-hint macros (\<open>detail/concurrency_hint.hpp\<close>).

  An operation is a value of the type parameter \<open>'op\<close>; the marker \<open>Task_operation\<close> stands for
  \<open>task_operation_\<close>, the reactor's place in the queue. The queue is the list that the pointer
  structure of \<open>Op_Queue\<close> represents. Running a handler (\<open>o->complete\<close>) is an argument: any
  function on the scheduler and the running thread's \<open>thread_info\<close>. The reactor (\<open>task_->run\<close>) is
  a script: the list of the operations it hands over in each of its runs. When the script is used up,
  a run with a timeout of 0 hands over nothing and a run without a timeout does not return. A thread
  that waits for another thread or for such an event of the reactor is \<open>Blocked\<close>.
\<close>

section \<open>State\<close>

datatype 'op operation = Task_operation | Op 'op

record 'op scheduler =
  one_thread :: bool
  mutex_enabled :: bool
  event_state :: nat
  task_set :: bool
  task_interrupted :: bool
  outstanding_work :: int
  op_queue :: "'op operation list"
  stopped :: bool
  shutdown_flag :: bool
  concurrency_hint :: int

record 'op thread_info =
  private_op_queue :: "'op operation list"
  private_outstanding_work :: int

type_synonym 'op sched_thread = "'op scheduler \<times> 'op thread_info"

section \<open>The condition variable\<close>

text \<open>Bit 0 of the state is the signal; the rest counts the waiting threads.\<close>

definition event_set_bit :: "nat \<Rightarrow> nat" where
  "event_set_bit st = (if even st then st + 1 else st)"

definition signal_all :: "'op scheduler \<Rightarrow> 'op scheduler" where
  "signal_all s = (if mutex_enabled s then s\<lparr>event_state := event_set_bit (event_state s)\<rparr> else s)"

definition unlock_and_signal_one :: "'op scheduler \<Rightarrow> 'op scheduler" where
  "unlock_and_signal_one s =
     (if mutex_enabled s then s\<lparr>event_state := event_set_bit (event_state s)\<rparr> else s)"

definition maybe_unlock_and_signal_one :: "'op scheduler \<Rightarrow> bool \<times> 'op scheduler" where
  "maybe_unlock_and_signal_one s =
     (if mutex_enabled s
      then (let st = event_set_bit (event_state s) in (st > 1, s\<lparr>event_state := st\<rparr>))
      else (False, s))"

definition event_clear :: "'op scheduler \<Rightarrow> 'op scheduler" where
  "event_clear s = (if mutex_enabled s then s\<lparr>event_state := event_state s - event_state s mod 2\<rparr> else s)"

text \<open>A thread that enters \<open>wait\<close> with the bit clear adds itself to the waiters.\<close>

definition event_wait :: "'op scheduler \<Rightarrow> 'op scheduler" where
  "event_wait s = (if mutex_enabled s \<and> even (event_state s) then s\<lparr>event_state := event_state s + 2\<rparr> else s)"

section \<open>Construction\<close>

text \<open>
  \<open>ASIO_CONCURRENCY_HINT_IS_LOCKING\<close>: the hint, as an unsigned 32-bit value, masked with the ID mask
  and the facility's bit and compared with the ID.
\<close>

unbundle bit_operations_syntax

definition hint_is_locking :: "u32 \<Rightarrow> int \<Rightarrow> bool" where
  "hint_is_locking facility hint \<longleftrightarrow>
     ((word_of_int hint AND (0xFFFF0000 OR facility)) XOR 0xA5100000 :: u32) \<noteq> 0"

abbreviation locking_scheduler :: u32 where
  "locking_scheduler \<equiv> 0x1"

abbreviation locking_reactor_io :: u32 where
  "locking_reactor_io \<equiv> 0x4"

definition new_scheduler :: "int \<Rightarrow> bool \<Rightarrow> 'op scheduler" where
  "new_scheduler hint own_thread =
     \<lparr>one_thread = (hint = 1 \<or> \<not> hint_is_locking locking_scheduler hint
                     \<or> \<not> hint_is_locking locking_reactor_io hint),
      mutex_enabled = hint_is_locking locking_scheduler hint,
      event_state = 0,
      task_set = False,
      task_interrupted = True,
      outstanding_work = (if own_thread then 1 else 0),
      op_queue = [],
      stopped = False,
      shutdown_flag = False,
      concurrency_hint = hint\<rparr>"

definition new_thread_info :: "'op thread_info" where
  "new_thread_info = \<lparr>private_op_queue = [], private_outstanding_work = 0\<rparr>"

section \<open>Stopping, waking and counting work\<close>

definition stop_all_threads :: "'op scheduler \<Rightarrow> 'op scheduler" where
  "stop_all_threads s =
     (let s1 = signal_all (s\<lparr>stopped := True\<rparr>)
      in if \<not> task_interrupted s1 \<and> task_set s1 then s1\<lparr>task_interrupted := True\<rparr> else s1)"

definition stop :: "'op scheduler \<Rightarrow> 'op scheduler" where
  "stop s = stop_all_threads s"

definition restart :: "'op scheduler \<Rightarrow> 'op scheduler" where
  "restart s = s\<lparr>stopped := False\<rparr>"

definition wake_one_thread_and_unlock :: "'op scheduler \<Rightarrow> 'op scheduler" where
  "wake_one_thread_and_unlock s =
     (let (signalled, s1) = maybe_unlock_and_signal_one s
      in if \<not> signalled \<and> \<not> task_interrupted s1 \<and> task_set s1
         then s1\<lparr>task_interrupted := True\<rparr> else s1)"

definition init_task :: "'op scheduler \<Rightarrow> 'op scheduler" where
  "init_task s =
     (if \<not> shutdown_flag s \<and> \<not> task_set s
      then wake_one_thread_and_unlock
             (s\<lparr>task_set := True, op_queue := op_queue s @ [Task_operation]\<rparr>)
      else s)"

definition work_started :: "'op scheduler \<Rightarrow> 'op scheduler" where
  "work_started s = s\<lparr>outstanding_work := outstanding_work s + 1\<rparr>"

definition work_finished :: "'op scheduler \<Rightarrow> 'op scheduler" where
  "work_finished s =
     (let s1 = s\<lparr>outstanding_work := outstanding_work s - 1\<rparr>
      in if outstanding_work s1 = 0 then stop s1 else s1)"

definition compensating_work_started :: "'op thread_info \<Rightarrow> 'op thread_info" where
  "compensating_work_started ti =
     ti\<lparr>private_outstanding_work := private_outstanding_work ti + 1\<rparr>"

section \<open>Posting\<close>

text \<open>
  The last argument is \<open>thread_call_stack::contains (this)\<close>: the caller's \<open>thread_info\<close> when the
  call comes from inside a handler of this scheduler.
\<close>

definition post_immediate_completion ::
  "'op \<Rightarrow> bool \<Rightarrow> 'op scheduler \<times> 'op thread_info option \<Rightarrow> 'op scheduler \<times> 'op thread_info option" where
  "post_immediate_completion op is_continuation = (\<lambda>(s, this_thread).
     (case (if one_thread s \<or> is_continuation then this_thread else None) of
        Some ti \<Rightarrow>
          (s, Some (ti\<lparr>private_outstanding_work := private_outstanding_work ti + 1,
                      private_op_queue := private_op_queue ti @ [Op op]\<rparr>))
      | None \<Rightarrow>
          (let s1 = work_started s
           in (wake_one_thread_and_unlock (s1\<lparr>op_queue := op_queue s1 @ [Op op]\<rparr>), this_thread))))"

definition post_immediate_completions ::
  "'op list \<Rightarrow> bool \<Rightarrow> 'op scheduler \<times> 'op thread_info option \<Rightarrow> 'op scheduler \<times> 'op thread_info option" where
  "post_immediate_completions ops is_continuation = (\<lambda>(s, this_thread).
     (case (if one_thread s \<or> is_continuation then this_thread else None) of
        Some ti \<Rightarrow>
          (s, Some (ti\<lparr>private_outstanding_work := private_outstanding_work ti + int (length ops),
                      private_op_queue := private_op_queue ti @ map Op ops\<rparr>))
      | None \<Rightarrow>
          (let s1 = s\<lparr>outstanding_work := outstanding_work s + int (length ops)\<rparr>
           in (wake_one_thread_and_unlock (s1\<lparr>op_queue := op_queue s1 @ map Op ops\<rparr>), this_thread))))"

definition post_deferred_completion ::
  "'op \<Rightarrow> 'op scheduler \<times> 'op thread_info option \<Rightarrow> 'op scheduler \<times> 'op thread_info option" where
  "post_deferred_completion op = (\<lambda>(s, this_thread).
     (case (if one_thread s then this_thread else None) of
        Some ti \<Rightarrow> (s, Some (ti\<lparr>private_op_queue := private_op_queue ti @ [Op op]\<rparr>))
      | None \<Rightarrow> (wake_one_thread_and_unlock (s\<lparr>op_queue := op_queue s @ [Op op]\<rparr>), this_thread)))"

definition post_deferred_completions ::
  "'op list \<Rightarrow> 'op scheduler \<times> 'op thread_info option \<Rightarrow> 'op scheduler \<times> 'op thread_info option" where
  "post_deferred_completions ops = (\<lambda>(s, this_thread).
     (if ops \<noteq> []
      then (case (if one_thread s then this_thread else None) of
              Some ti \<Rightarrow> (s, Some (ti\<lparr>private_op_queue := private_op_queue ti @ map Op ops\<rparr>))
            | None \<Rightarrow>
                (wake_one_thread_and_unlock (s\<lparr>op_queue := op_queue s @ map Op ops\<rparr>), this_thread))
      else (s, this_thread)))"

definition do_dispatch :: "'op \<Rightarrow> 'op scheduler \<Rightarrow> 'op scheduler" where
  "do_dispatch op s =
     (let s1 = work_started s
      in wake_one_thread_and_unlock (s1\<lparr>op_queue := op_queue s1 @ [Op op]\<rparr>))"

section \<open>Shutdown\<close>

text \<open>
  \<open>scheduler::shutdown\<close> (after the join of an own thread) destroys every queued handler; the second
  component is the list of destroyed operations. The task marker is not destroyed.
\<close>

fun queued_ops :: "'op operation list \<Rightarrow> 'op list" where
  "queued_ops [] = []"
| "queued_ops (Task_operation # q) = queued_ops q"
| "queued_ops (Op x # q) = x # queued_ops q"

definition scheduler_shutdown :: "bool \<Rightarrow> 'op scheduler \<Rightarrow> 'op scheduler \<times> 'op list" where
  "scheduler_shutdown own_thread s =
     (let s1 = s\<lparr>shutdown_flag := True\<rparr>;
          s2 = (if own_thread then stop_all_threads s1 else s1)
      in (s2\<lparr>op_queue := [], task_set := False\<rparr>, queued_ops (op_queue s2)))"

section \<open>Running\<close>

definition task_cleanup :: "'op sched_thread \<Rightarrow> 'op sched_thread" where
  "task_cleanup = (\<lambda>(s, ti).
     (let s1 = (if private_outstanding_work ti > 0
                then s\<lparr>outstanding_work := outstanding_work s + private_outstanding_work ti\<rparr> else s);
          s2 = s1\<lparr>task_interrupted := True,
                  op_queue := op_queue s1 @ private_op_queue ti @ [Task_operation]\<rparr>
      in (s2, ti\<lparr>private_outstanding_work := 0, private_op_queue := []\<rparr>)))"

definition work_cleanup :: "'op sched_thread \<Rightarrow> 'op sched_thread" where
  "work_cleanup = (\<lambda>(s, ti).
     (let s1 = (if private_outstanding_work ti > 1
                then s\<lparr>outstanding_work := outstanding_work s + (private_outstanding_work ti - 1)\<rparr>
                else if private_outstanding_work ti < 1 then work_finished s else s);
          ti1 = ti\<lparr>private_outstanding_work := 0\<rparr>
      in if private_op_queue ti1 \<noteq> []
         then (s1\<lparr>op_queue := op_queue s1 @ private_op_queue ti1\<rparr>, ti1\<lparr>private_op_queue := []\<rparr>)
         else (s1, ti1)))"

datatype 'op run_result = Ran 'op | Stopped | Blocked | Nothing_ready

text \<open>The branch of \<open>do_run_one\<close> that runs the reactor: \<open>r\<close> is what it hands over.\<close>

definition run_task :: "'op list \<Rightarrow> 'op operation list \<Rightarrow> 'op sched_thread \<Rightarrow> 'op sched_thread" where
  "run_task r q = (\<lambda>(s, ti).
     (let more_handlers = (q \<noteq> []);
          s1 = s\<lparr>op_queue := q, task_interrupted := more_handlers\<rparr>;
          s2 = (if more_handlers \<and> \<not> one_thread s1 then unlock_and_signal_one s1 else s1)
      in task_cleanup (s2, ti\<lparr>private_op_queue := private_op_queue ti @ map Op r\<rparr>)))"

text \<open>The branch that completes an operation; \<open>q\<close> is the queue after the operation is popped.\<close>

definition run_op ::
  "('op \<Rightarrow> 'op sched_thread \<Rightarrow> 'op sched_thread) \<Rightarrow> 'op \<Rightarrow> 'op operation list
     \<Rightarrow> 'op sched_thread \<Rightarrow> 'op sched_thread" where
  "run_op complete x q = (\<lambda>(s, ti).
     (let more_handlers = (q \<noteq> []);
          s1 = s\<lparr>op_queue := q\<rparr>;
          s2 = (if more_handlers \<and> \<not> one_thread s1 then wake_one_thread_and_unlock s1 else s1)
      in work_cleanup (complete x (s2, ti))))"

fun ran_ops :: "'op run_result \<Rightarrow> 'op list" where
  "ran_ops (Ran x) = [x]"
| "ran_ops Stopped = []"
| "ran_ops Blocked = []"
| "ran_ops Nothing_ready = []"

lemma run_task_queue:
  "run_task r q (s, ti) = (s', ti') \<Longrightarrow>
     op_queue s' = q @ private_op_queue ti @ map Op r @ [Task_operation]
       \<and> private_op_queue ti' = [] \<and> private_outstanding_work ti' = 0
       \<and> (stopped s' \<longleftrightarrow> stopped s)"
  by (auto simp: run_task_def task_cleanup_def unlock_and_signal_one_def Let_def split: if_splits)

definition next_run :: "'op list list \<Rightarrow> 'op list" where
  "next_run script = (case script of [] \<Rightarrow> [] | r # _ \<Rightarrow> r)"

text \<open>
  The loop goes round again only after a run of the reactor. The timeout of that run is 0 when more
  handlers are queued, and the thread waits in it (\<open>Blocked\<close>) only when none is and the script is used
  up; the marker is in the queue at most once, so \<open>q\<close> is empty then. Each run uses an entry of the script
  or, when there is none, moves the marker behind the handlers.
\<close>

function do_run_one ::
  "('op \<Rightarrow> 'op sched_thread \<Rightarrow> 'op sched_thread) \<Rightarrow> 'op list list \<Rightarrow> 'op sched_thread
     \<Rightarrow> 'op run_result \<times> 'op list list \<times> 'op sched_thread" where
  "do_run_one complete script (s, ti) =
     (if stopped s then (Stopped, script, (s, ti))
      else case op_queue s of
             [] \<Rightarrow> (Blocked, script, (event_wait (event_clear s), ti))
           | Op x # q \<Rightarrow> (Ran x, script, run_op complete x q (s, ti))
           | Task_operation # q \<Rightarrow>
               (if script = [] \<and> queued_ops q = [] then (Blocked, [], (s, ti))
                else do_run_one complete (tl script) (run_task (next_run script) q (s, ti))))"
  by pat_completeness auto

lemma leading_markers:
  "queued_ops q \<noteq> [] \<Longrightarrow>
     takeWhile (\<lambda>o1. o1 = Task_operation) (q @ q') = takeWhile (\<lambda>o1. o1 = Task_operation) q"
  by (induction q rule: queued_ops.induct) auto

termination do_run_one
proof (relation "measures [\<lambda>(complete, script, st). length script,
    \<lambda>(complete, script, st). length (takeWhile (\<lambda>o1. o1 = Task_operation) (op_queue (fst st)))]",
    goal_cases)
  case (2 complete script s ti o1 q)
  obtain s' ti' where r: "run_task (next_run script) q (s, ti) = (s', ti')"
    by (cases "run_task (next_run script) q (s, ti)")
  show ?case
  proof (cases script)
    case Nil
    then have "queued_ops q \<noteq> []" using 2 by simp
    then show ?thesis using 2 r run_task_queue [OF r] by (simp add: Nil leading_markers)
  next
    case (Cons rd rs)
    then show ?thesis by simp
  qed
qed simp

declare do_run_one.simps [simp del]

lemma do_run_one_induct [case_names Stopped Empty Handler Waits Task]:
  fixes P :: "'op list list \<Rightarrow> 'op scheduler \<Rightarrow> 'op thread_info \<Rightarrow> bool"
  assumes "\<And>script s ti. stopped s \<Longrightarrow> P script s ti"
    and "\<And>script s ti. \<not> stopped s \<Longrightarrow> op_queue s = [] \<Longrightarrow> P script s ti"
    and "\<And>script s ti x q. \<not> stopped s \<Longrightarrow> op_queue s = Op x # q \<Longrightarrow> P script s ti"
    and "\<And>s ti q. \<not> stopped s \<Longrightarrow> op_queue s = Task_operation # q \<Longrightarrow> queued_ops q = [] \<Longrightarrow> P [] s ti"
    and "\<And>script s ti q s1 ti1. \<not> stopped s \<Longrightarrow> op_queue s = Task_operation # q \<Longrightarrow>
      script \<noteq> [] \<or> queued_ops q \<noteq> [] \<Longrightarrow> run_task (next_run script) q (s, ti) = (s1, ti1) \<Longrightarrow>
      P (tl script) s1 ti1 \<Longrightarrow> P script s ti"
  shows "P script s ti"
proof -
  have "\<forall>s ti. st = (s, ti) \<longrightarrow> P script s ti" 
    for complete :: "'op \<Rightarrow> 'op sched_thread \<Rightarrow> 'op sched_thread" and script st
  proof (induction complete script st rule: do_run_one.induct)
    case (1 complete script s ti)
    show ?case
    proof (cases "stopped s")
      case False
      then show ?thesis
      proof (cases "op_queue s")
        case (Cons o1 q)
        then show ?thesis
        proof (cases o1)
          case Task_operation
          obtain s1 ti1 where r: "run_task (next_run script) q (s, ti) = (s1, ti1)"
            by (cases "run_task (next_run script) q (s, ti)")
          show ?thesis
            using 1 [OF False Cons Task_operation] assms(4) [of s q ti] assms(5) [of s q script ti s1 ti1]
              False Cons Task_operation r by fastforce
        qed (use assms(3) False Cons in auto)
      qed (use assms(2) in auto)
    qed (use assms(1) in auto)
  qed
  then show ?thesis by blast
qed

lemma do_run_one_branches:
  "stopped s \<Longrightarrow> do_run_one complete script (s, ti) = (Stopped, script, (s, ti))"
  "\<not> stopped s \<Longrightarrow> op_queue s = [] \<Longrightarrow>
     do_run_one complete script (s, ti) = (Blocked, script, (event_wait (event_clear s), ti))"
  "\<not> stopped s \<Longrightarrow> op_queue s = Op x # q \<Longrightarrow>
     do_run_one complete script (s, ti) = (Ran x, script, run_op complete x q (s, ti))"
  "\<not> stopped s \<Longrightarrow> op_queue s = Task_operation # q \<Longrightarrow> queued_ops q = [] \<Longrightarrow>
     do_run_one complete [] (s, ti) = (Blocked, [], (s, ti))"
  "\<not> stopped s \<Longrightarrow> op_queue s = Task_operation # q \<Longrightarrow> script \<noteq> [] \<or> queued_ops q \<noteq> [] \<Longrightarrow>
     do_run_one complete script (s, ti)
       = do_run_one complete (tl script) (run_task (next_run script) q (s, ti))"
  by (subst do_run_one.simps; auto)+

text \<open>
  \<open>do_poll_one\<close> runs the reactor at most once and never waits; an empty script means that the
  reactor has nothing to hand over.
\<close>

definition do_poll_one ::
  "('op \<Rightarrow> 'op sched_thread \<Rightarrow> 'op sched_thread) \<Rightarrow> 'op list list \<Rightarrow> 'op sched_thread
     \<Rightarrow> 'op run_result \<times> 'op list list \<times> 'op sched_thread" where
  "do_poll_one complete script = (\<lambda>(s, ti).
     (if stopped s then (Stopped, script, (s, ti))
      else
        (let (script1, (s1, ti1)) =
               (case op_queue s of
                  Task_operation # q \<Rightarrow>
                    (tl script,
                     task_cleanup (s\<lparr>op_queue := q\<rparr>,
                       ti\<lparr>private_op_queue := private_op_queue ti
                           @ map Op (case script of [] \<Rightarrow> [] | r # _ \<Rightarrow> r)\<rparr>))
                | _ \<Rightarrow> (script, (s, ti)))
         in case op_queue s1 of
              [] \<Rightarrow> (Nothing_ready, script1, (s1, ti1))
            | Task_operation # _ \<Rightarrow>
                (Nothing_ready, script1, (snd (maybe_unlock_and_signal_one s1), ti1))
            | Op x # q \<Rightarrow> (Ran x, script1, run_op complete x q (s1, ti1)))))"

text \<open>
  \<open>run\<close>: an early return when there is no work, then \<open>do_run_one\<close> until it returns 0. Handlers may
  post for ever, so the number of iterations is bounded by fuel, and running out is \<open>None\<close>. The
  result holds the operations run, whose number is the value returned (saturated at the maximum
  of \<open>std::size_t\<close>).
\<close>

fun run_loop ::
  "nat \<Rightarrow> ('op \<Rightarrow> 'op sched_thread \<Rightarrow> 'op sched_thread) \<Rightarrow> 'op list list \<Rightarrow> 'op sched_thread
     \<Rightarrow> 'op list \<Rightarrow> ('op list \<times> 'op run_result \<times> 'op list list \<times> 'op sched_thread) option" where
  "run_loop 0 complete script st hist = None"
| "run_loop (Suc fuel) complete script st hist =
     (case do_run_one complete script st of
        (Ran x, script', st') \<Rightarrow> run_loop fuel complete script' st' (hist @ [x])
      | (r, script', st') \<Rightarrow> Some (hist, r, script', st'))"

text \<open>The same loop observed after at most \<open>n\<close> handlers, whether or not it would go on.\<close>

fun run_turns ::
  "nat \<Rightarrow> ('op \<Rightarrow> 'op sched_thread \<Rightarrow> 'op sched_thread) \<Rightarrow> 'op list list \<Rightarrow> 'op sched_thread
     \<Rightarrow> 'op list \<times> 'op list list \<times> 'op sched_thread" where
  "run_turns 0 complete script st = ([], script, st)"
| "run_turns (Suc n) complete script st =
     (case do_run_one complete script st of
        (Ran x, script', st') \<Rightarrow>
          (case run_turns n complete script' st' of (hist, script'', st'') \<Rightarrow> (x # hist, script'', st''))
      | (r, script', st') \<Rightarrow> ([], script', st'))"

definition sched_run ::
  "nat \<Rightarrow> ('op \<Rightarrow> 'op sched_thread \<Rightarrow> 'op sched_thread) \<Rightarrow> 'op list list \<Rightarrow> 'op scheduler
     \<Rightarrow> ('op list \<times> 'op run_result \<times> 'op list list \<times> 'op sched_thread) option" where
  "sched_run fuel complete script s =
     (if outstanding_work s = 0 then Some ([], Stopped, script, (stop s, new_thread_info))
      else run_loop fuel complete script (s, new_thread_info) [])"

definition run_count :: "'op list \<Rightarrow> nat" where
  "run_count hist = min (length hist) (2 ^ 64 - 1)"

definition sched_run_one ::
  "('op \<Rightarrow> 'op sched_thread \<Rightarrow> 'op sched_thread) \<Rightarrow> 'op list list \<Rightarrow> 'op scheduler
     \<Rightarrow> 'op run_result \<times> 'op list list \<times> 'op sched_thread" where
  "sched_run_one complete script s =
     (if outstanding_work s = 0 then (Stopped, script, (stop s, new_thread_info))
      else do_run_one complete script (s, new_thread_info))"

section \<open>The work guard and the thread pool\<close>

text \<open>
  \<open>executor_work_guard\<close>: the flag \<open>owns_\<close>, and the scheduler whose work count the guard holds up.
\<close>

definition work_guard_new :: "'op scheduler \<Rightarrow> bool \<times> 'op scheduler" where
  "work_guard_new s = (True, work_started s)"

definition work_guard_reset :: "bool \<times> 'op scheduler \<Rightarrow> bool \<times> 'op scheduler" where
  "work_guard_reset = (\<lambda>(owns, s). if owns then (False, work_finished s) else (False, s))"

text \<open>\<open>clamp_thread_pool_size\<close>: out of range above \<open>0x7FFFFFFF\<close> (the exception is \<open>None\<close>).\<close>

definition clamp_thread_pool_size :: "u64 \<Rightarrow> u64 option" where
  "clamp_thread_pool_size n = (if n > 0x7FFFFFFF then None else Some (n AND 0x7FFFFFFF))"

record 'op thread_pool =
  pool_scheduler :: "'op scheduler"
  num_threads :: u64
  pool_threads :: nat

definition new_thread_pool :: "u64 \<Rightarrow> 'op thread_pool option" where
  "new_thread_pool n =
     (case clamp_thread_pool_size n of
        None \<Rightarrow> None
      | Some k \<Rightarrow>
          Some \<lparr>pool_scheduler = work_started (new_scheduler (if n = 1 then 1 else 0) False),
                num_threads = k, pool_threads = unat k\<rparr>)"

definition thread_pool_join :: "'op thread_pool \<Rightarrow> 'op thread_pool" where
  "thread_pool_join p =
     (if pool_threads p \<noteq> 0
      then p\<lparr>pool_scheduler := work_finished (pool_scheduler p), pool_threads := 0\<rparr>
      else p)"

section \<open>Frame facts\<close>

lemmas event_defs =
  signal_all_def unlock_and_signal_one_def maybe_unlock_and_signal_one_def event_clear_def
  event_wait_def Let_def

lemma wake_frame [simp]:
  "op_queue (wake_one_thread_and_unlock s) = op_queue s"
  "outstanding_work (wake_one_thread_and_unlock s) = outstanding_work s"
  "stopped (wake_one_thread_and_unlock s) = stopped s"
  "one_thread (wake_one_thread_and_unlock s) = one_thread s"
  by (simp_all add: wake_one_thread_and_unlock_def event_defs split: prod.splits)

lemma signal_frame [simp]:
  "op_queue (unlock_and_signal_one s) = op_queue s"
  "outstanding_work (unlock_and_signal_one s) = outstanding_work s"
  "stopped (unlock_and_signal_one s) = stopped s"
  by (simp_all add: unlock_and_signal_one_def)

lemma event_frame [simp]:
  "op_queue (event_wait (event_clear s)) = op_queue s"
  "outstanding_work (event_wait (event_clear s)) = outstanding_work s"
  "stopped (event_wait (event_clear s)) = stopped s"
  by (simp_all add: event_defs)

lemma stop_frame [simp]:
  "op_queue (stop s) = op_queue s"
  "outstanding_work (stop s) = outstanding_work s"
  "stopped (stop s)"
  "one_thread (stop s) = one_thread s"
  by (simp_all add: stop_def stop_all_threads_def event_defs)

lemma work_finished_frame [simp]:
  "op_queue (work_finished s) = op_queue s"
  "outstanding_work (work_finished s) = outstanding_work s - 1"
  "stopped (work_finished s) \<longleftrightarrow> stopped s \<or> outstanding_work s = 1"
  "one_thread (work_finished s) = one_thread s"
  by (simp_all add: work_finished_def Let_def)

lemma work_started_frame [simp]:
  "op_queue (work_started s) = op_queue s"
  "outstanding_work (work_started s) = outstanding_work s + 1"
  "stopped (work_started s) = stopped s"
  "one_thread (work_started s) = one_thread s"
  by (simp_all add: work_started_def)

lemma queued_ops_append [simp]: "queued_ops (p @ q) = queued_ops p @ queued_ops q"
  by (induction p rule: queued_ops.induct) auto

lemma queued_ops_map_Op [simp]: "queued_ops (map Op xs) = xs"
  by (induction xs) auto

section \<open>The handler contract\<close>

text \<open>
  Work account of a scheduler and one of its threads: the counted work that is in neither of the
  two queues (pending asynchronous operations, work guards).
\<close>

definition account :: "'op sched_thread \<Rightarrow> int" where
  "account = (\<lambda>(s, ti).
     outstanding_work s + private_outstanding_work ti
       - int (length (queued_ops (op_queue s))) - int (length (queued_ops (private_op_queue ti))))"

text \<open>
  What the loop needs of a handler: it adds operations to the queues at the back only, those of the
  main queue before those of the private queue, which are merged when it ends; and it counts what it
  adds.
\<close>

locale handler_contract =
  fixes complete :: "'op \<Rightarrow> 'op sched_thread \<Rightarrow> 'op sched_thread" and posts :: "'op \<Rightarrow> 'op list"
  assumes posts_at_back:
      "complete x (s, ti) = (s', ti') \<Longrightarrow>
         \<exists>now later. op_queue s' = op_queue s @ map Op now \<and>
           private_op_queue ti' = private_op_queue ti @ map Op later \<and> now @ later = posts x"
    and keeps_account: "account (complete x st) = account st"
    and private_work: "complete x (s, ti) = (s', ti') \<Longrightarrow> 0 \<le> private_outstanding_work ti \<Longrightarrow>
         0 \<le> private_outstanding_work ti'"
begin

lemma work_cleanup_queue:
  "work_cleanup (s, ti) = (s', ti') \<Longrightarrow>
     op_queue s' = op_queue s @ private_op_queue ti \<and> private_op_queue ti' = []
       \<and> private_outstanding_work ti' = 0"
  by (auto simp: work_cleanup_def Let_def split: if_splits)

lemma work_cleanup_account:
  assumes "0 \<le> private_outstanding_work ti"
  shows "account (work_cleanup (s, ti)) = account (s, ti) - 1"
proof -
  consider "private_outstanding_work ti > 1" | "private_outstanding_work ti = 1"
    | "private_outstanding_work ti = 0"
    using assms by linarith
  then show ?thesis
    by cases (auto simp: work_cleanup_def account_def Let_def)
qed

lemma run_task_account:
  assumes "0 \<le> private_outstanding_work ti"
  shows "account (run_task r q (s, ti))
           = account (s\<lparr>op_queue := q\<rparr>, ti) - int (length r)"
  using assms by (auto simp: run_task_def task_cleanup_def account_def Let_def)

text \<open>The state in which the handler runs: the operation is popped, another thread may be woken.\<close>

lemma run_op_unfold:
  obtains s2 s3 ti3
  where "op_queue s2 = q" "outstanding_work s2 = outstanding_work s" "stopped s2 = stopped s"
    "complete x (s2, ti) = (s3, ti3)" "run_op complete x q (s, ti) = work_cleanup (s3, ti3)"
proof -
  define s2 where "s2 = (if q \<noteq> [] \<and> \<not> one_thread s
    then wake_one_thread_and_unlock (s\<lparr>op_queue := q\<rparr>) else s\<lparr>op_queue := q\<rparr>)"
  obtain s3 ti3 where c: "complete x (s2, ti) = (s3, ti3)"
    by (cases "complete x (s2, ti)")
  show thesis
    by (rule that [OF _ _ _ c]) (use c in \<open>simp_all add: run_op_def s2_def Let_def\<close>)
qed

lemma run_op_queue:
  assumes "run_op complete x q (s, ti) = (s', ti')" "private_op_queue ti = []"
  shows "op_queue s' = q @ map Op (posts x)" "private_op_queue ti' = []"
    "private_outstanding_work ti' = 0"
proof -
  obtain s2 s3 ti3 where q: "op_queue s2 = q"
    and c: "complete x (s2, ti) = (s3, ti3)" and "run_op complete x q (s, ti) = work_cleanup (s3, ti3)"
    by (rule run_op_unfold)
  then have w: "work_cleanup (s3, ti3) = (s', ti')" using assms by simp
  obtain now later where "op_queue s3 = q @ map Op now" "private_op_queue ti3 = map Op later"
    "now @ later = posts x"
    using posts_at_back [OF c] assms(2) q by auto
  then show "op_queue s' = q @ map Op (posts x)" "private_op_queue ti' = []"
    "private_outstanding_work ti' = 0"
    using work_cleanup_queue [OF w] by (auto simp flip: map_append)
qed

lemma run_op_account:
  assumes "0 \<le> private_outstanding_work ti" and "op_queue s = Op x # q"
  shows "account (run_op complete x q (s, ti)) = account (s, ti)"
proof -
  obtain s2 s3 ti3 where s2: "op_queue s2 = q" "outstanding_work s2 = outstanding_work s"
    and c: "complete x (s2, ti) = (s3, ti3)" and r: "run_op complete x q (s, ti) = work_cleanup (s3, ti3)"
    by (rule run_op_unfold)
  have "account (s3, ti3) = account (s2, ti)"
    using keeps_account [of x "(s2, ti)"] c by simp
  moreover have "account (s2, ti) = account (s, ti) + 1"
    using assms s2 by (simp add: account_def)
  moreover have "account (work_cleanup (s3, ti3)) = account (s3, ti3) - 1"
    using work_cleanup_account private_work [OF c assms(1)] .
  ultimately show ?thesis using r by simp
qed

text \<open>
  One turn of the loop: what it ran and what is queued is what was queued, what the reactor handed
  over during the turn, and what the handler posted, in this order; and the account.
\<close>

lemma do_run_one_order:
  assumes "do_run_one complete script (s, ti) = (r, script', (s', ti'))"
    and "private_op_queue ti = []"
  shows "private_op_queue ti' = [] \<and>
    (\<exists>runs. script = runs @ script' \<and>
       ran_ops r @ queued_ops (op_queue s')
         = queued_ops (op_queue s) @ concat runs @ concat (map posts (ran_ops r)))"
  using assms
proof (induction script s ti rule: do_run_one_induct)
  case (Handler script s ti x q)
  then show ?case using run_op_queue [of x q s ti s' ti'] by (auto simp: do_run_one_branches)
next
  case (Task script s ti q s1 ti1)
  note rt = run_task_queue [OF Task(4)]
  have "do_run_one complete (tl script) (s1, ti1) = (r, script', (s', ti'))"
    using Task(1-4,6) by (simp add: do_run_one_branches)
  then obtain runs where p: "private_op_queue ti' = []" and runs: "tl script = runs @ script'"
    "ran_ops r @ queued_ops (op_queue s')
         = queued_ops (op_queue s1) @ concat runs @ concat (map posts (ran_ops r))"
    using Task(5) rt by blast
  show ?case
  proof (cases script)
    case Nil
    then show ?thesis using p runs rt Task(2,7) by (auto simp: next_run_def)
  next
    case (Cons rd rs)
    then have "script = (rd # runs) @ script'" using runs by simp
    moreover have "queued_ops (op_queue s1) = queued_ops (op_queue s) @ rd"
      using rt Task(2,7) Cons by (simp add: next_run_def)
    ultimately show ?thesis using p runs by (metis append.assoc concat.simps(2))
  qed
qed (auto simp: do_run_one_branches)

lemma do_run_one_rests:
  assumes "do_run_one complete script (s, ti) = (r, script', (s', ti'))"
  shows "r \<noteq> Nothing_ready \<and> (r = Stopped \<longrightarrow> stopped s') \<and>
    (r = Blocked \<longrightarrow> \<not> stopped s' \<and> queued_ops (op_queue s') = [] \<and>
       (script' = [] \<or> Task_operation \<notin> set (op_queue s')))"
  using assms
proof (induction script s ti rule: do_run_one_induct)
  case (Task script s ti q s1 ti1)
  have "do_run_one complete (tl script) (s1, ti1) = (r, script', (s', ti'))"
    using Task(1-4,6) by (simp add: do_run_one_branches)
  then show ?case using Task(5) by simp
qed (auto simp: do_run_one_branches)

lemma do_run_one_account:
  assumes "do_run_one complete script (s, ti) = (r, script', st')"
    and "0 \<le> private_outstanding_work ti"
  shows "account st' + int (length (concat script)) = account (s, ti) + int (length (concat script'))"
  using assms
proof (induction script s ti rule: do_run_one_induct)
  case (Task script s ti q s1 ti1)
  have d: "do_run_one complete (tl script) (s1, ti1) = (r, script', st')"
    using Task(1-4,6) by (simp add: do_run_one_branches)
  have "account (s\<lparr>op_queue := q\<rparr>, ti) = account (s, ti)"
    using Task(2) by (simp add: account_def)
  then have "account (s1, ti1) = account (s, ti) - int (length (next_run script))"
    using run_task_account [OF Task(7), of "next_run script" q s] Task(4) by simp
  moreover have "concat script = next_run script @ concat (tl script)"
    by (cases script) (simp_all add: next_run_def)
  ultimately show ?case using Task(5) [OF d] run_task_queue [OF Task(4)] by simp
qed (auto simp: do_run_one_branches account_def run_op_account [unfolded account_def])

end

text \<open>
  What enters the queue during a run, in order: \<open>reactor\<close> holds what the reactor handed over in its
  runs before each handler and after the last.
\<close>

fun arrivals :: "('op \<Rightarrow> 'op list) \<Rightarrow> 'op list list list \<Rightarrow> 'op list \<Rightarrow> 'op list" where
  "arrivals posts (runs # reactor) (x # hist) = concat runs @ posts x @ arrivals posts reactor hist"
| "arrivals posts reactor [] = concat (concat reactor)"
| "arrivals posts [] hist = []"

context handler_contract
begin

lemma run_turns_order:
  assumes "run_turns n complete script (s, ti) = (hist, script', (s', ti'))"
    and "private_op_queue ti = []"
  shows "\<exists>reactor. length reactor = Suc (length hist) \<and> script = concat reactor @ script' \<and>
    hist @ queued_ops (op_queue s') = queued_ops (op_queue s) @ arrivals posts reactor hist"
  using assms
proof (induction n arbitrary: script s ti hist)
  case 0
  then show ?case by (intro exI [of _ "[[]]"]) simp
next
  case (Suc n)
  obtain r sc1 s1 ti1 where d: "do_run_one complete script (s, ti) = (r, sc1, (s1, ti1))"
    by (cases "do_run_one complete script (s, ti)") auto
  from do_run_one_order [OF d Suc.prems(2)] obtain runs where p: "private_op_queue ti1 = []"
    and runs: "script = runs @ sc1" "ran_ops r @ queued_ops (op_queue s1)
         = queued_ops (op_queue s) @ concat runs @ concat (map posts (ran_ops r))" by blast
  show ?case
  proof (cases "\<exists>x. r = Ran x")
    case True
    then obtain x where x: "r = Ran x" ..
    obtain hist1 where h: "hist = x # hist1" "run_turns n complete sc1 (s1, ti1) = (hist1, script', (s', ti'))"
      using Suc.prems(1) d x by (auto split: prod.splits)
    from Suc.IH [OF h(2) p] obtain reactor where "length reactor = Suc (length hist1)"
      "sc1 = concat reactor @ script'"
      "hist1 @ queued_ops (op_queue s') = queued_ops (op_queue s1) @ arrivals posts reactor hist1" by blast
    then show ?thesis using runs h x by (intro exI [of _ "runs # reactor"]) auto
  next
    case False
    then have "hist = []" "script' = sc1" "s' = s1" using Suc.prems(1) d by (cases r; simp)+
    then show ?thesis using runs False by (intro exI [of _ "[runs]"]) (cases r; simp)
  qed
qed

text \<open>Fewer than \<open>n\<close> handlers were run only when the loop came to its end.\<close>

lemma run_turns_end:
  assumes "run_turns n complete script (s, ti) = (hist, script', (s', ti'))" "length hist < n"
  shows "\<exists>r. run_loop n complete script (s, ti) h = Some (h @ hist, r, script', (s', ti')) \<and>
    (r = Stopped \<and> stopped s' \<or> r = Blocked \<and> queued_ops (op_queue s') = [])"
  using assms
proof (induction n arbitrary: script s ti hist h)
  case (Suc n)
  obtain r sc1 s1 ti1 where d: "do_run_one complete script (s, ti) = (r, sc1, (s1, ti1))"
    by (cases "do_run_one complete script (s, ti)") auto
  show ?case
  proof (cases r)
    case (Ran x)
    then obtain hist1 where h: "hist = x # hist1" "run_turns n complete sc1 (s1, ti1) = (hist1, script', (s', ti'))"
      using Suc.prems(1) d by (auto split: prod.splits)
    then show ?thesis using Suc.IH [OF h(2), of "h @ [x]"] Suc.prems(2) d Ran by simp
  qed (use Suc.prems(1) do_run_one_rests [OF d] d in auto)
qed simp

end

section \<open>Work that runs out\<close>

text \<open>
  The weight of what is left to run, for handlers whose posts are lighter than themselves.
\<close>

definition run_weight :: "('op \<Rightarrow> nat) \<Rightarrow> 'op list list \<Rightarrow> 'op scheduler \<Rightarrow> nat" where
  "run_weight w script s =
     sum_list (map (Suc \<circ> w) (queued_ops (op_queue s))) + sum_list (map (Suc \<circ> w) (concat script))"

text \<open>
  Between two turns of the only thread: the work is counted as that of the queued handlers, of the
  operations that the reactor will hand over, and of \<open>other\<close> users (work guards, operations that never
  complete); the loop is stopped exactly when no work is left; and the reactor can hand over its
  operations because its marker is queued.
\<close>

definition accounted :: "nat \<Rightarrow> 'op list list \<Rightarrow> 'op sched_thread \<Rightarrow> bool" where
  "accounted other script = (\<lambda>(s, ti).
     private_op_queue ti = [] \<and> private_outstanding_work ti = 0 \<and>
     outstanding_work s = int (length (queued_ops (op_queue s)) + length (concat script) + other) \<and>
     (stopped s \<longleftrightarrow> outstanding_work s = 0) \<and>
     (Task_operation \<in> set (op_queue s) \<or> concat script = []))"

lemma nothing_counted [simp]:
  "int (length xs) + int (length ys) + int n = 0 \<longleftrightarrow> xs = [] \<and> ys = [] \<and> n = 0"
  by (cases xs; cases ys) auto

text \<open>A handler that neither stops the loop nor finishes work of others.\<close>

locale posting_contract = handler_contract +
  assumes keeps_running: "complete x (s, ti) = (s', ti') \<Longrightarrow>
      stopped s' = stopped s \<and> outstanding_work s \<le> outstanding_work s' \<and>
      private_outstanding_work ti \<le> private_outstanding_work ti'"
begin

lemma run_op_stops:
  assumes "run_op complete x q (s, ti) = (s', ti')" "\<not> stopped s" "0 < outstanding_work s"
    "private_outstanding_work ti = 0"
  shows "stopped s' \<longleftrightarrow> outstanding_work s' = 0"
proof -
  obtain s2 s3 ti3 where s2: "outstanding_work s2 = outstanding_work s" "stopped s2 = stopped s"
    and c: "complete x (s2, ti) = (s3, ti3)" and r: "run_op complete x q (s, ti) = work_cleanup (s3, ti3)"
    by (rule run_op_unfold)
  have "\<not> stopped s3" "0 < outstanding_work s3" "0 \<le> private_outstanding_work ti3"
    using keeps_running [OF c] assms s2 by simp_all
  then show ?thesis
    using assms(1) r by (auto simp: work_cleanup_def Let_def split: if_splits)
qed

lemma accounted_turn:
  assumes "do_run_one complete script (s, ti) = (r, script', (s', ti'))" "accounted other script (s, ti)"
  shows "accounted other script' (s', ti')"
  using assms
proof (induction script s ti rule: do_run_one_induct)
  case (Handler script s ti x q)
  then have r: "run_op complete x q (s, ti) = (s', ti')" "script' = script"
    and ti: "private_op_queue ti = []" "private_outstanding_work ti = 0"
    and w: "outstanding_work s = int (Suc (length (queued_ops q)) + length (concat script) + other)"
    and m: "Task_operation \<in> set q \<or> concat script = []"
    by (auto simp: do_run_one_branches accounted_def)
  note rq = run_op_queue [OF r(1) ti(1)]
  have "account (s', ti') = account (s, ti)" using run_op_account [of ti s x q] ti Handler(2) r by simp
  then have "outstanding_work s' = int (length (queued_ops (op_queue s')) + length (concat script) + other)"
    using rq ti w Handler(2) by (simp add: account_def)
  moreover have "stopped s' \<longleftrightarrow> outstanding_work s' = 0"
    using run_op_stops [OF r(1) Handler(1)] w ti by simp
  ultimately show ?case using rq m r(2) by (auto simp: accounted_def)
next
  case (Task script s ti q s1 ti1)
  note rt = run_task_queue [OF Task(4)]
  have d: "do_run_one complete (tl script) (s1, ti1) = (r, script', (s', ti'))"
    using Task(1-4,6) by (simp add: do_run_one_branches)
  have "account (s1, ti1) = account (s\<lparr>op_queue := q\<rparr>, ti) - int (length (next_run script))"
    using run_task_account [of ti "next_run script" q s] Task(4,7) by (simp add: accounted_def)
  moreover have "concat script = next_run script @ concat (tl script)"
    by (cases script) (simp_all add: next_run_def)
  ultimately have "accounted other (tl script) (s1, ti1)"
    using rt Task(1,2,7) by (auto simp: accounted_def account_def)
  then show ?case by (rule Task(5) [OF d])
qed (auto simp: do_run_one_branches accounted_def)

lemma turn_weight:
  assumes "\<And>x. sum_list (map (Suc \<circ> w) (posts x)) \<le> w x"
    and "do_run_one complete script (s, ti) = (Ran x, script', (s', ti'))" "private_op_queue ti = []"
  shows "run_weight w script' s' < run_weight w script s"
proof -
  from do_run_one_order [OF assms(2,3)] obtain runs where runs: "script = runs @ script'"
    "x # queued_ops (op_queue s') = queued_ops (op_queue s) @ concat runs @ posts x"
    by auto
  let ?sum = "\<lambda>xs. sum_list (map (Suc \<circ> w) xs)"
  have "Suc (w x) + ?sum (queued_ops (op_queue s')) = ?sum (queued_ops (op_queue s)) + ?sum (concat runs) + ?sum (posts x)"
    using arg_cong [where f = ?sum, OF runs(2)] by simp
  then show ?thesis using runs(1) assms(1) [of x] by (simp add: run_weight_def)
qed

lemma run_loop_ends:
  assumes "\<And>x. sum_list (map (Suc \<circ> w) (posts x)) \<le> w x"
    and "run_weight w script s < fuel" "accounted other script (s, ti)"
  shows "\<exists>hist r script' s' ti'. run_loop fuel complete script (s, ti) h = Some (hist, r, script', (s', ti')) \<and>
    queued_ops (op_queue s') = [] \<and> concat script' = [] \<and> outstanding_work s' = int other \<and>
    r = (if other = 0 then Stopped else Blocked)"
  using assms(2,3)
proof (induction fuel arbitrary: script s ti h)
  case (Suc fuel)
  obtain r script' s' ti' where d: "do_run_one complete script (s, ti) = (r, script', (s', ti'))"
    by (cases "do_run_one complete script (s, ti)") auto
  note acc = accounted_turn [OF d Suc.prems(2)]
  have priv: "private_op_queue ti = []" using Suc.prems(2) by (simp add: accounted_def)
  show ?case
  proof (cases r)
    case (Ran x)
    have "run_weight w script' s' < run_weight w script s"
      by (rule turn_weight [OF assms(1) d [unfolded Ran] priv])
    then show ?thesis using Suc.IH [OF _ acc] Suc.prems(1) d Ran by simp
  next
    case Stopped
    then show ?thesis using d acc do_run_one_rests [OF d] by (auto simp: accounted_def)
  next
    case Blocked
    then have "concat script' = []" "queued_ops (op_queue s') = []" "\<not> stopped s'"
      using acc do_run_one_rests [OF d] by (auto simp: accounted_def)
    then show ?thesis using d acc Blocked by (simp add: accounted_def del: concat_eq_Nil_conv)
  qed (use do_run_one_rests [OF d] in simp)
qed simp

end

section \<open>Handlers that post\<close>

text \<open>
  The handlers of the server do one thing to the scheduler: they post further operations
  (\<open>spawn x\<close>), through the main queue or, for a continuation, through the thread's private queue.
\<close>

definition posting_handler ::
  "('op \<Rightarrow> 'op list) \<Rightarrow> ('op \<Rightarrow> bool) \<Rightarrow> 'op \<Rightarrow> 'op sched_thread \<Rightarrow> 'op sched_thread" where
  "posting_handler spawn continuation x = (\<lambda>(s, ti).
     (case post_immediate_completions (spawn x) (continuation x) (s, Some ti) of
        (s', ti') \<Rightarrow> (s', the ti')))"

lemma posting_handler_cases:
  "posting_handler spawn cont x (s, ti) =
     (if one_thread s \<or> cont x
      then (s, ti\<lparr>private_outstanding_work := private_outstanding_work ti + int (length (spawn x)),
                  private_op_queue := private_op_queue ti @ map Op (spawn x)\<rparr>)
      else (wake_one_thread_and_unlock
              (s\<lparr>outstanding_work := outstanding_work s + int (length (spawn x)),
                 op_queue := op_queue s @ map Op (spawn x)\<rparr>), ti))"
  by (simp add: posting_handler_def post_immediate_completions_def Let_def)

interpretation posting: posting_contract "posting_handler spawn cont" spawn for spawn cont
proof (unfold_locales, goal_cases)
  case (1 x s ti s' ti')
  then show ?case by (cases "one_thread s \<or> cont x") (auto simp: posting_handler_cases)
next
  case (2 x st)
  then show ?case by (cases st) (simp add: posting_handler_cases account_def)
next
  case (3 x s ti s' ti')
  then show ?case by (auto simp: posting_handler_cases split: if_splits)
next
  case (4 x s ti s' ti')
  then show ?case by (auto simp: posting_handler_cases split: if_splits)
qed

section \<open>What the event loop guarantees\<close>

definition demo_scheduler :: "nat scheduler" where
  "demo_scheduler = (init_task (new_scheduler (- 1) False))
     \<lparr>op_queue := [Op 2, Task_operation, Op 1], outstanding_work := 3\<rparr>"

definition demo_spawn :: "nat \<Rightarrow> nat list" where
  "demo_spawn n = (if n = 0 then [] else [n - 1])"

text \<open>
  C15: Handlers run in the order in which they entered the queue, and they enter it in the order in
  which they were posted: what was run by any moment, followed by what is still queued, is what was
  queued at first, followed by what the reactor handed over before each handler and what that handler
  posted, in this order, and no entry of the reactor is lost or taken twice. Before \<open>n\<close> handlers have
  been run the loop has come to an end only if it was stopped or nothing is queued.
\<close>

theorem run_in_queue_order:
  assumes "run_turns n (posting_handler spawn cont) script (s, ti) = (hist, script', (s', ti'))"
    and "private_op_queue ti = []"
  shows "(\<exists>reactor. length reactor = Suc (length hist) \<and> script = concat reactor @ script' \<and>
      hist @ queued_ops (op_queue s') = queued_ops (op_queue s) @ arrivals spawn reactor hist) \<and>
    (length hist < n \<longrightarrow>
      (\<exists>r. run_loop n (posting_handler spawn cont) script (s, ti) [] = Some (hist, r, script', (s', ti')) \<and>
        (r = Stopped \<and> stopped s' \<or> r = Blocked \<and> queued_ops (op_queue s') = [])))"
  using posting.run_turns_order [OF assms] posting.run_turns_end [OF assms(1), of "[]"] by simp

theorem run_in_queue_order_witness:
  "\<exists>s' ti' reactor.
     run_turns 4 (posting_handler demo_spawn (\<lambda>_. True)) [[5, 6]] (demo_scheduler, new_thread_info)
       = ([2, 1, 1, 5], [], (s', ti')) \<and>
     [2, 1, 1, 5] @ queued_ops (op_queue s') = [2, 1] @ arrivals demo_spawn reactor [2, 1, 1, 5]"
proof -
  let ?run = "run_turns 4 (posting_handler demo_spawn (\<lambda>_. True)) [[5, 6]] (demo_scheduler, new_thread_info)"
  have "fst ?run = [2, 1, 1, 5]" "fst (snd ?run) = []" by code_simp+
  then obtain s' ti' where run: "?run = ([2, 1, 1, 5], [], (s', ti'))" by (cases ?run) auto
  have "private_op_queue (new_thread_info :: nat thread_info) = []" by (simp add: new_thread_info_def)
  moreover have "queued_ops (op_queue demo_scheduler) = [2, 1]" by code_simp
  ultimately show ?thesis using run_in_queue_order [OF run] run by auto
qed

text \<open>
  The work counter is exact: a turn of the loop changes the difference between counted work and
  queued operations only by the operations that the reactor hands over, whose work was counted when
  they were started. So the counter reaches zero exactly when nothing is queued or pending.
\<close>

theorem work_counter_exact:
  assumes "do_run_one (posting_handler spawn cont) script (s, ti) = (r, script', st')"
    and "0 \<le> private_outstanding_work ti"
  shows "account st' + int (length (concat script)) = account (s, ti) + int (length (concat script'))"
  using assms by (rule posting.do_run_one_account)

theorem work_counter_exact_witness:
  "account (snd (snd (do_run_one (posting_handler demo_spawn (\<lambda>_. True)) [] (demo_scheduler, new_thread_info))))
     = 1"
proof -
  let ?d = "do_run_one (posting_handler demo_spawn (\<lambda>_. True)) [] (demo_scheduler, new_thread_info)"
  obtain r script' st' where d: "?d = (r, script', st')" by (cases ?d) auto
  have "fst (snd ?d) = []" by code_simp
  then have "script' = []" by (simp add: d)
  moreover have "account (demo_scheduler, new_thread_info) = 1" by code_simp
  moreover have "0 \<le> private_outstanding_work (new_thread_info :: nat thread_info)"
    by (simp add: new_thread_info_def)
  ultimately show ?thesis using work_counter_exact [OF d] d by simp
qed

text \<open>
  C16: \<open>run\<close> ends whenever the chains of posts are finite: if every handler outweighs all it posts, then
  as many turns as the queued weight, plus one, are enough. At its end nothing is queued and the reactor
  has handed over all its operations. \<open>run\<close> has then returned, with the loop stopped, exactly when no
  other work was counted; otherwise (a work guard, an operation that never completes) the thread waits.
\<close>

theorem run_terminates:
  assumes "\<And>x. sum_list (map (Suc \<circ> w) (spawn x)) \<le> w x" and "run_weight w script s < fuel"
    and "\<not> stopped s" "Task_operation \<in> set (op_queue s) \<or> concat script = []"
    and "outstanding_work s = int (length (queued_ops (op_queue s)) + length (concat script) + other)"
  shows "\<exists>hist r script' s' ti'.
    sched_run fuel (posting_handler spawn cont) script s = Some (hist, r, script', (s', ti')) \<and>
    queued_ops (op_queue s') = [] \<and> concat script' = [] \<and> outstanding_work s' = int other \<and>
    r = (if other = 0 then Stopped else Blocked)"
proof (cases "outstanding_work s = 0")
  case True
  then show ?thesis using assms(5) by (simp add: sched_run_def)
next
  case False
  then have "accounted other script (s, new_thread_info)"
    using assms(3-5) by (simp add: accounted_def new_thread_info_def)
  then show ?thesis using posting.run_loop_ends [OF assms(1,2)] False by (simp add: sched_run_def)
qed

definition demo_work :: "nat scheduler" where
  "demo_work = demo_scheduler\<lparr>outstanding_work := 4\<rparr>"

theorem run_terminates_witness:
  "\<exists>hist script' s' ti'. sched_run 20 (posting_handler demo_spawn (\<lambda>_. False)) [[], [1, 0]] demo_work
     = Some (hist, Stopped, script', (s', ti')) \<and> outstanding_work s' = 0"
proof -
  have 1: "sum_list (map (Suc \<circ> id) (demo_spawn x)) \<le> id x" for x by (simp add: demo_spawn_def)
  have 2: "run_weight id [[], [1, 0]] demo_work < 20" by code_simp
  have 3: "\<not> stopped demo_work" by code_simp
  have 4: "op_queue demo_work = [Op 2, Task_operation, Op 1]" by code_simp
  have 5: "outstanding_work demo_work
      = int (length (queued_ops (op_queue demo_work)) + length (concat [[], [1::nat, 0]]) + 0)"
    by (simp add: 4) (simp add: demo_work_def)
  show ?thesis using run_terminates [OF 1 2 3 _ 5, of "\<lambda>_. False"] 4 by auto
qed

end
