(* ===== verification/Error_Codes.thy ===== *)
theory Error_Codes
  imports Prelude
begin

text \<open>
  Error codes as \<open>src/ext/asio/asio/error.hpp\<close> and \<open>ssl/error.hpp\<close> define them: the enumerations,
  their conversion to \<open>error_code\<close> (\<open>make_error_code\<close>), the category names and messages of
  \<open>impl/error.ipp\<close> and \<open>ssl/impl/error.ipp\<close>. Numeric values of the \<open>errno.h\<close> and \<open>netdb.h\<close>
  constants are those of Linux; OpenSSL is version 1.1 or later.
\<close>

section \<open>The enumerations\<close>

datatype basic_errors =
    access_denied | address_family_not_supported | address_in_use | already_connected
  | already_started | broken_pipe | connection_aborted | connection_refused | connection_reset
  | bad_descriptor | fault | host_unreachable | in_progress | interrupted | invalid_argument
  | message_size | name_too_long | network_down | network_reset | network_unreachable
  | no_descriptors | no_buffer_space | no_memory | no_permission | no_protocol_option
  | no_such_device | not_connected | not_socket | operation_aborted | operation_not_supported
  | shut_down | timed_out | try_again | would_block

datatype netdb_errors = host_not_found | host_not_found_try_again | no_data | no_recovery

datatype addrinfo_errors = service_not_found | socket_type_not_supported

datatype misc_errors = already_open | eof | not_found | fd_set_failure

datatype stream_errors = stream_truncated | unspecified_system_error | unexpected_result

fun basic_errors_value :: "basic_errors \<Rightarrow> int" where
  "basic_errors_value access_denied = 13"
| "basic_errors_value address_family_not_supported = 97"
| "basic_errors_value address_in_use = 98"
| "basic_errors_value already_connected = 106"
| "basic_errors_value already_started = 114"
| "basic_errors_value broken_pipe = 32"
| "basic_errors_value connection_aborted = 103"
| "basic_errors_value connection_refused = 111"
| "basic_errors_value connection_reset = 104"
| "basic_errors_value bad_descriptor = 9"
| "basic_errors_value fault = 14"
| "basic_errors_value host_unreachable = 113"
| "basic_errors_value in_progress = 115"
| "basic_errors_value interrupted = 4"
| "basic_errors_value invalid_argument = 22"
| "basic_errors_value message_size = 90"
| "basic_errors_value name_too_long = 36"
| "basic_errors_value network_down = 100"
| "basic_errors_value network_reset = 102"
| "basic_errors_value network_unreachable = 101"
| "basic_errors_value no_descriptors = 24"
| "basic_errors_value no_buffer_space = 105"
| "basic_errors_value no_memory = 12"
| "basic_errors_value no_permission = 1"
| "basic_errors_value no_protocol_option = 92"
| "basic_errors_value no_such_device = 19"
| "basic_errors_value not_connected = 107"
| "basic_errors_value not_socket = 88"
| "basic_errors_value operation_aborted = 125"
| "basic_errors_value operation_not_supported = 95"
| "basic_errors_value shut_down = 108"
| "basic_errors_value timed_out = 110"
| "basic_errors_value try_again = 11"
| "basic_errors_value would_block = 11"

fun netdb_errors_value :: "netdb_errors \<Rightarrow> int" where
  "netdb_errors_value host_not_found = 1"
| "netdb_errors_value host_not_found_try_again = 2"
| "netdb_errors_value no_data = 4"
| "netdb_errors_value no_recovery = 3"

fun addrinfo_errors_value :: "addrinfo_errors \<Rightarrow> int" where
  "addrinfo_errors_value service_not_found = - 8"
| "addrinfo_errors_value socket_type_not_supported = - 7"

text \<open>\<open>already_open = 1\<close>, and each following enumerator is one more.\<close>

fun misc_errors_value :: "misc_errors \<Rightarrow> int" where
  "misc_errors_value already_open = 1"
| "misc_errors_value eof = 2"
| "misc_errors_value not_found = 3"
| "misc_errors_value fd_set_failure = 4"

fun stream_errors_value :: "stream_errors \<Rightarrow> int" where
  "stream_errors_value stream_truncated = 1"
| "stream_errors_value unspecified_system_error = 2"
| "stream_errors_value unexpected_result = 3"

section \<open>Categories and error codes\<close>

datatype error_category =
    system_category | netdb_category | addrinfo_category | misc_category
  | ssl_category | stream_category

text \<open>
  \<open>std::error_code\<close>: a value and a category; it converts to \<open>true\<close> when the value is not 0,
  whatever the category, and two codes are equal when both parts are.
\<close>

record error_code =
  ec_value :: int
  ec_category :: error_category

definition ec_success :: error_code where
  "ec_success = \<lparr>ec_value = 0, ec_category = system_category\<rparr>"

definition ec_failed :: "error_code \<Rightarrow> bool" where
  "ec_failed ec \<longleftrightarrow> ec_value ec \<noteq> 0"

definition make_basic_error :: "basic_errors \<Rightarrow> error_code" where
  "make_basic_error e = \<lparr>ec_value = basic_errors_value e, ec_category = system_category\<rparr>"

definition make_netdb_error :: "netdb_errors \<Rightarrow> error_code" where
  "make_netdb_error e = \<lparr>ec_value = netdb_errors_value e, ec_category = netdb_category\<rparr>"

definition make_addrinfo_error :: "addrinfo_errors \<Rightarrow> error_code" where
  "make_addrinfo_error e =
     \<lparr>ec_value = addrinfo_errors_value e, ec_category = addrinfo_category\<rparr>"

definition make_misc_error :: "misc_errors \<Rightarrow> error_code" where
  "make_misc_error e = \<lparr>ec_value = misc_errors_value e, ec_category = misc_category\<rparr>"

definition make_stream_error :: "stream_errors \<Rightarrow> error_code" where
  "make_stream_error e = \<lparr>ec_value = stream_errors_value e, ec_category = stream_category\<rparr>"

section \<open>Names and messages\<close>

fun category_name :: "error_category \<Rightarrow> string" where
  "category_name system_category = ''system''"
| "category_name netdb_category = ''asio.netdb''"
| "category_name addrinfo_category = ''asio.addrinfo''"
| "category_name misc_category = ''asio.misc''"
| "category_name ssl_category = ''asio.ssl''"
| "category_name stream_category = ''asio.ssl.stream''"

definition netdb_message :: "int \<Rightarrow> string" where
  "netdb_message v =
     (if v = netdb_errors_value host_not_found then ''Host not found (authoritative)''
      else if v = netdb_errors_value host_not_found_try_again
        then ''Host not found (non-authoritative), try again later''
      else if v = netdb_errors_value no_data
        then ''The query is valid, but it does not have associated data''
      else if v = netdb_errors_value no_recovery
        then ''A non-recoverable error occurred during database lookup''
      else ''asio.netdb error'')"

definition addrinfo_message :: "int \<Rightarrow> string" where
  "addrinfo_message v =
     (if v = addrinfo_errors_value service_not_found then ''Service not found''
      else if v = addrinfo_errors_value socket_type_not_supported
        then ''Socket type not supported''
      else ''asio.addrinfo error'')"

definition misc_message :: "int \<Rightarrow> string" where
  "misc_message v =
     (if v = misc_errors_value already_open then ''Already open''
      else if v = misc_errors_value eof then ''End of file''
      else if v = misc_errors_value not_found then ''Element not found''
      else if v = misc_errors_value fd_set_failure
        then ''The descriptor does not fit into the select call's fd_set''
      else ''asio.misc error'')"

definition stream_message :: "int \<Rightarrow> string" where
  "stream_message v =
     (if v = stream_errors_value stream_truncated then ''stream truncated''
      else if v = stream_errors_value unspecified_system_error
        then ''unspecified system error''
      else if v = stream_errors_value unexpected_result then ''unexpected result''
      else ''asio.ssl.stream error'')"

text \<open>
  \<open>::ERR_reason_error_string\<close> belongs to OpenSSL and \<open>strerror\<close> to the operating system: both are
  arguments. The OpenSSL function may return a null pointer, here \<open>None\<close>.
\<close>

definition ssl_message :: "(int \<Rightarrow> string option) \<Rightarrow> int \<Rightarrow> string" where
  "ssl_message err_reason v = (case err_reason v of Some m \<Rightarrow> m | None \<Rightarrow> ''asio.ssl error'')"

definition ec_message :: "(int \<Rightarrow> string) \<Rightarrow> (int \<Rightarrow> string option) \<Rightarrow> error_code \<Rightarrow> string" where
  "ec_message strerror err_reason ec =
     (case ec_category ec of
        system_category \<Rightarrow> strerror (ec_value ec)
      | netdb_category \<Rightarrow> netdb_message (ec_value ec)
      | addrinfo_category \<Rightarrow> addrinfo_message (ec_value ec)
      | misc_category \<Rightarrow> misc_message (ec_value ec)
      | ssl_category \<Rightarrow> ssl_message err_reason (ec_value ec)
      | stream_category \<Rightarrow> stream_message (ec_value ec))"

section \<open>Exceptions\<close>

text \<open>
  \<open>asio::detail::throw_error (err, location)\<close> throws \<open>std::system_error (err, location)\<close> when the
  code is an error and returns otherwise (\<open>detail/throw_error.hpp\<close>). The \<open>what\<close> string of the
  exception is the location, a colon and the message.
\<close>

record system_error =
  se_code :: error_code
  se_location :: string

definition throw_error :: "error_code \<Rightarrow> string \<Rightarrow> system_error option" where
  "throw_error ec location =
     (if ec_failed ec then Some \<lparr>se_code = ec, se_location = location\<rparr> else None)"

definition what :: "(error_code \<Rightarrow> string) \<Rightarrow> system_error \<Rightarrow> string" where
  "what msg e = se_location e @ '': '' @ msg (se_code e)"

section \<open>Facts\<close>

lemma ec_success_not_failed [simp]: "\<not> ec_failed ec_success"
  by (simp add: ec_failed_def ec_success_def)

lemma basic_errors_value_nonzero [simp]: "basic_errors_value e \<noteq> 0"
  by (cases e) simp_all

lemma misc_errors_value_nonzero [simp]: "misc_errors_value e \<noteq> 0"
  by (cases e) simp_all

lemma stream_errors_value_nonzero [simp]: "stream_errors_value e \<noteq> 0"
  by (cases e) simp_all

lemma make_error_failed [simp]:
  "ec_failed (make_basic_error b)" "ec_failed (make_misc_error m)" "ec_failed (make_stream_error t)"
  by (simp_all add: ec_failed_def make_basic_error_def make_misc_error_def make_stream_error_def)

lemma make_error_not_success [simp]:
  "make_basic_error b \<noteq> ec_success" "make_misc_error m \<noteq> ec_success"
  "make_stream_error t \<noteq> ec_success"
  by (metis ec_success_not_failed make_error_failed)+

lemma make_error_categories_distinct [simp]:
  "make_basic_error b \<noteq> make_misc_error m" "make_basic_error b \<noteq> make_stream_error t"
  "make_misc_error m \<noteq> make_basic_error b" "make_misc_error m \<noteq> make_stream_error t"
  "make_stream_error t \<noteq> make_basic_error b" "make_stream_error t \<noteq> make_misc_error m"
  by (simp_all add: make_basic_error_def make_misc_error_def make_stream_error_def)

lemma make_misc_error_inject [simp]: "make_misc_error a = make_misc_error b \<longleftrightarrow> a = b"
  by (cases a; cases b) (simp_all add: make_misc_error_def)

lemma throw_error_None [simp]: "throw_error ec l = None \<longleftrightarrow> \<not> ec_failed ec"
  by (simp add: throw_error_def)

end
