(* ===== verification/Sockets.thy ===== *)
theory Sockets
  imports Error_Codes
begin

text \<open>
  The reactive socket service under \<open>basic_socket\<close> and \<open>basic_socket_acceptor\<close>:
  \<open>src/ext/asio/asio/detail/impl/reactive_socket_service_base.ipp\<close>,
  \<open>detail/reactive_socket_service.hpp\<close> and the calls of \<open>detail/impl/socket_ops.ipp\<close> they use
  (the POSIX branches). The result of a system call is an argument: \<open>Inl\<close> an \<open>errno\<close> value or
  \<open>Inr\<close> the value returned; where the value carries nothing, \<open>Some\<close> an \<open>errno\<close> value or \<open>None\<close>.
\<close>

unbundle bit_operations_syntax

section \<open>The socket implementation\<close>

text \<open>\<open>base_implementation_type\<close>: the native handle (\<open>None\<close> is \<open>invalid_socket\<close>) and the state bits.\<close>

record socket_impl =
  native :: "nat option"
  sock_state :: u8

abbreviation user_set_non_blocking :: u8 where "user_set_non_blocking \<equiv> 1"
abbreviation internal_non_blocking :: u8 where "internal_non_blocking \<equiv> 2"
abbreviation non_blocking :: u8 where "non_blocking \<equiv> 3"
abbreviation enable_connection_aborted :: u8 where "enable_connection_aborted \<equiv> 4"
abbreviation user_set_linger :: u8 where "user_set_linger \<equiv> 8"
abbreviation stream_oriented :: u8 where "stream_oriented \<equiv> 16"
abbreviation datagram_oriented :: u8 where "datagram_oriented \<equiv> 32"
abbreviation possible_dup :: u8 where "possible_dup \<equiv> 64"

datatype sock_type = SOCK_STREAM | SOCK_DGRAM | SOCK_OTHER

definition is_open :: "socket_impl \<Rightarrow> bool" where
  "is_open impl \<longleftrightarrow> native impl \<noteq> None"

definition sock_construct :: socket_impl where
  "sock_construct = \<lparr>native = None, sock_state = 0\<rparr>"

section \<open>System calls\<close>

text \<open>\<open>get_last_error\<close>: no error keeps the category and clears the value.\<close>

definition get_last_error :: "error_code \<Rightarrow> int option \<Rightarrow> error_code" where
  "get_last_error ec r =
     (case r of
        None \<Rightarrow> ec\<lparr>ec_value := 0\<rparr>
      | Some errno \<Rightarrow> \<lparr>ec_value = errno, ec_category = system_category\<rparr>)"

definition errno_of :: "int + 'a \<Rightarrow> int option" where
  "errno_of r = (case r of Inl e \<Rightarrow> Some e | Inr _ \<Rightarrow> None)"

definition ops_bind :: "nat option \<Rightarrow> int option \<Rightarrow> error_code \<Rightarrow> error_code" where
  "ops_bind s r ec = (if s = None then make_basic_error bad_descriptor else get_last_error ec r)"

definition ops_listen :: "nat option \<Rightarrow> int option \<Rightarrow> error_code \<Rightarrow> error_code" where
  "ops_listen s r ec = (if s = None then make_basic_error bad_descriptor else get_last_error ec r)"

definition ops_shutdown :: "nat option \<Rightarrow> int option \<Rightarrow> error_code \<Rightarrow> error_code" where
  "ops_shutdown s r ec = (if s = None then make_basic_error bad_descriptor else get_last_error ec r)"

text \<open>\<open>available\<close>: \<open>ENOTTY\<close> (25) becomes \<open>not_socket\<close>, and an error gives 0 bytes.\<close>

definition ops_available :: "nat option \<Rightarrow> int + nat \<Rightarrow> error_code \<Rightarrow> error_code \<times> nat" where
  "ops_available s r ec =
     (if s = None then (make_basic_error bad_descriptor, 0)
      else
        (let ec1 = get_last_error ec (errno_of r);
             ec2 = (if ec_value ec1 = 25 then make_basic_error not_socket else ec1)
         in (ec2, if ec_failed ec2 then 0 else (case r of Inl _ \<Rightarrow> 0 | Inr n \<Rightarrow> n))))"

text \<open>
  \<open>close\<close>: a linger option set by the user is cleared first on destruction (its result is ignored);
  a close that fails with \<open>would_block\<close> or \<open>try_again\<close> is tried once more after the descriptor is
  put back into blocking mode.
\<close>

definition ops_close ::
  "nat option \<Rightarrow> u8 \<Rightarrow> bool \<Rightarrow> int option \<Rightarrow> int option \<Rightarrow> error_code \<Rightarrow> error_code \<times> u8" where
  "ops_close s state destruction r1 r2 ec =
     (if s = None then (ec, state)
      else
        (let state1 = (if destruction \<and> state AND user_set_linger \<noteq> 0
                       then state OR user_set_linger else state);
             ec1 = get_last_error ec r1
         in if r1 \<noteq> None
               \<and> (ec1 = make_basic_error would_block \<or> ec1 = make_basic_error try_again)
            then (get_last_error ec1 r2, state1 AND NOT non_blocking)
            else (ec1, state1)))"

text \<open>
  \<open>setsockopt\<close>: two options live in asio itself (level \<open>custom_socket_option_level\<close>), and setting
  the linger option is recorded before the system call is made.
\<close>

datatype socket_option =
    Always_fail_option
  | Enable_connection_aborted_option nat int
  | Linger_option
  | Os_option

definition ops_setsockopt ::
  "nat option \<Rightarrow> u8 \<Rightarrow> socket_option \<Rightarrow> int option \<Rightarrow> error_code \<Rightarrow> error_code \<times> u8" where
  "ops_setsockopt s state opt r ec =
     (if s = None then (make_basic_error bad_descriptor, state)
      else case opt of
             Always_fail_option \<Rightarrow> (make_basic_error invalid_argument, state)
           | Enable_connection_aborted_option optlen optval \<Rightarrow>
               (if optlen \<noteq> 4 then (make_basic_error invalid_argument, state)
                else (ec\<lparr>ec_value := 0\<rparr>,
                      if optval \<noteq> 0 then state OR enable_connection_aborted
                      else state AND NOT enable_connection_aborted))
           | Linger_option \<Rightarrow> (get_last_error ec r, state OR user_set_linger)
           | Os_option \<Rightarrow> (get_last_error ec r, state))"

definition ops_set_user_non_blocking ::
  "nat option \<Rightarrow> u8 \<Rightarrow> bool \<Rightarrow> int option \<Rightarrow> error_code \<Rightarrow> bool \<times> error_code \<times> u8" where
  "ops_set_user_non_blocking s state v r ec =
     (if s = None then (False, make_basic_error bad_descriptor, state)
      else
        (let ec1 = get_last_error ec r
         in if r = None
            then (True, ec1,
                  if v then state OR user_set_non_blocking
                  else state AND NOT (user_set_non_blocking OR internal_non_blocking))
            else (False, ec1, state)))"

definition ops_set_internal_non_blocking ::
  "nat option \<Rightarrow> u8 \<Rightarrow> bool \<Rightarrow> int option \<Rightarrow> error_code \<Rightarrow> bool \<times> error_code \<times> u8" where
  "ops_set_internal_non_blocking s state v r ec =
     (if s = None then (False, make_basic_error bad_descriptor, state)
      else if \<not> v \<and> state AND user_set_non_blocking \<noteq> 0
           then (False, make_basic_error invalid_argument, state)
      else
        (let ec1 = get_last_error ec r
         in if r = None
            then (True, ec1,
                  if v then state OR internal_non_blocking else state AND NOT internal_non_blocking)
            else (False, ec1, state)))"

definition ops_accept :: "nat option \<Rightarrow> int + nat \<Rightarrow> error_code \<Rightarrow> error_code \<times> nat option" where
  "ops_accept s r ec =
     (if s = None then (make_basic_error bad_descriptor, None)
      else case r of
             Inl errno \<Rightarrow> (get_last_error ec (Some errno), None)
           | Inr new_s \<Rightarrow> ((get_last_error ec None)\<lparr>ec_value := 0\<rparr>, Some new_s))"

text \<open>
  \<open>non_blocking_accept\<close> loops while the call is interrupted: the list holds the results of the
  successive calls. The result is \<open>None\<close> when the list is used up (the loop has not ended yet),
  otherwise whether the operation is complete, the code and the new socket. \<open>EPROTO\<close> is 71.
\<close>

fun non_blocking_accept ::
  "nat option \<Rightarrow> u8 \<Rightarrow> (int + nat) list \<Rightarrow> error_code \<Rightarrow> (bool \<times> error_code \<times> nat option) option" where
  "non_blocking_accept s state [] ec = None"
| "non_blocking_accept s state (r # rs) ec =
     (case ops_accept s r ec of
        (ec1, Some new_s) \<Rightarrow> Some (True, ec1, Some new_s)
      | (ec1, None) \<Rightarrow>
          (if ec1 = make_basic_error interrupted then non_blocking_accept s state rs ec1
           else if ec1 = make_basic_error would_block \<or> ec1 = make_basic_error try_again
           then Some (False, ec1, None)
           else if ec1 = make_basic_error connection_aborted
           then Some (state AND enable_connection_aborted \<noteq> 0, ec1, None)
           else if ec_value ec1 = 71
           then Some (state AND enable_connection_aborted \<noteq> 0, ec1, None)
           else Some (True, ec1, None)))"

section \<open>The service\<close>

definition state_of_type :: "sock_type \<Rightarrow> u8" where
  "state_of_type type =
     (case type of SOCK_STREAM \<Rightarrow> stream_oriented | SOCK_DGRAM \<Rightarrow> datagram_oriented | SOCK_OTHER \<Rightarrow> 0)"

text \<open>\<open>do_open\<close>: \<open>r\<close> is the result of \<open>::socket\<close>, \<open>reg\<close> the \<open>errno\<close> of the reactor's registration (0 for none).\<close>

definition do_open :: "sock_type \<Rightarrow> int + nat \<Rightarrow> int \<Rightarrow> socket_impl \<Rightarrow> error_code \<times> socket_impl" where
  "do_open type r reg impl =
     (if is_open impl then (make_misc_error already_open, impl)
      else case r of
             Inl errno \<Rightarrow> (get_last_error ec_success (Some errno), impl)
           | Inr sock \<Rightarrow>
               (if reg \<noteq> 0 then (\<lparr>ec_value = reg, ec_category = system_category\<rparr>, impl)
                else (ec_success, \<lparr>native = Some sock, sock_state = state_of_type type\<rparr>)))"

definition do_assign :: "sock_type \<Rightarrow> nat \<Rightarrow> int \<Rightarrow> socket_impl \<Rightarrow> error_code \<times> socket_impl" where
  "do_assign type native_socket reg impl =
     (if is_open impl then (make_misc_error already_open, impl)
      else if reg \<noteq> 0 then (\<lparr>ec_value = reg, ec_category = system_category\<rparr>, impl)
      else (ec_success,
            \<lparr>native = Some native_socket, sock_state = state_of_type type OR possible_dup\<rparr>))"

text \<open>The descriptor counts as closed even if the system call fails (\<open>construct (impl)\<close>).\<close>

definition sock_close :: "int option \<Rightarrow> int option \<Rightarrow> socket_impl \<Rightarrow> error_code \<times> socket_impl" where
  "sock_close r1 r2 impl =
     (let ec = (if is_open impl
                then fst (ops_close (native impl) (sock_state impl) False r1 r2 ec_success)
                else ec_success)
      in (ec, sock_construct))"

definition sock_release :: "socket_impl \<Rightarrow> error_code \<times> nat option \<times> socket_impl" where
  "sock_release impl =
     (if \<not> is_open impl then (make_basic_error bad_descriptor, None, impl)
      else (ec_success, native impl, sock_construct))"

text \<open>\<open>cancel\<close>: what becomes of the pending operations is the caller's part.\<close>

definition sock_cancel :: "socket_impl \<Rightarrow> error_code" where
  "sock_cancel impl = (if \<not> is_open impl then make_basic_error bad_descriptor else ec_success)"

definition sock_bind :: "int option \<Rightarrow> socket_impl \<Rightarrow> error_code" where
  "sock_bind r impl = ops_bind (native impl) r ec_success"

definition sock_listen :: "int option \<Rightarrow> socket_impl \<Rightarrow> error_code" where
  "sock_listen r impl = ops_listen (native impl) r ec_success"

definition sock_shutdown :: "int option \<Rightarrow> socket_impl \<Rightarrow> error_code" where
  "sock_shutdown r impl = ops_shutdown (native impl) r ec_success"

definition sock_available :: "int + nat \<Rightarrow> socket_impl \<Rightarrow> error_code \<times> nat" where
  "sock_available r impl = ops_available (native impl) r ec_success"

definition sock_set_option :: "socket_option \<Rightarrow> int option \<Rightarrow> socket_impl \<Rightarrow> error_code \<times> socket_impl" where
  "sock_set_option opt r impl =
     (let (ec, st) = ops_setsockopt (native impl) (sock_state impl) opt r ec_success
      in (ec, impl\<lparr>sock_state := st\<rparr>))"

section \<open>Facts\<close>

lemmas sock_defs =
  sock_bind_def sock_listen_def sock_shutdown_def sock_available_def sock_cancel_def
  ops_bind_def ops_listen_def ops_shutdown_def ops_available_def

lemma is_open_construct [simp]: "\<not> is_open sock_construct"
  by (simp add: is_open_def sock_construct_def)

lemma sock_close_closes [simp]: "\<not> is_open (snd (sock_close r1 r2 impl))"
  by (simp add: sock_close_def)

lemma get_last_error_None [simp]: "get_last_error ec_success None = ec_success"
  by (simp add: get_last_error_def ec_success_def)

lemma get_last_error_failed [simp]:
  "ec_failed (get_last_error ec_success r) \<longleftrightarrow> r \<noteq> None \<and> r \<noteq> Some 0"
  by (auto simp: get_last_error_def ec_failed_def ec_success_def split: option.splits)

lemma closed_bad_descriptor:
  assumes "\<not> is_open impl"
  shows "sock_bind r impl = make_basic_error bad_descriptor"
    and "sock_listen r impl = make_basic_error bad_descriptor"
    and "sock_shutdown r impl = make_basic_error bad_descriptor"
    and "sock_cancel impl = make_basic_error bad_descriptor"
    and "fst (sock_available n impl) = make_basic_error bad_descriptor"
    and "fst (sock_set_option opt r impl) = make_basic_error bad_descriptor"
  using assms by (simp_all add: sock_defs sock_set_option_def ops_setsockopt_def is_open_def Let_def)

lemma open_cancel [simp]: "is_open impl \<Longrightarrow> sock_cancel impl = ec_success"
  by (simp add: sock_cancel_def)

lemma open_listen:
  "is_open impl \<Longrightarrow> sock_listen r impl = get_last_error ec_success r"
  by (auto simp: sock_listen_def ops_listen_def is_open_def)

text \<open>The interrupted calls of an accept are retried; the first other result decides.\<close>

lemma non_blocking_accept_interrupted:
  "s \<noteq> None \<Longrightarrow>
     non_blocking_accept s st (replicate n (Inl 4) @ rs) (make_basic_error interrupted)
       = non_blocking_accept s st rs (make_basic_error interrupted)"
  by (induction n) (auto simp: ops_accept_def get_last_error_def make_basic_error_def)

end
