(* ===== verification/Ssl_Context.thy ===== *)
theory Ssl_Context
  imports Error_Codes
begin

text \<open>
  The part of \<open>asio::ssl::context\<close> (\<open>src/ext/asio/asio/ssl/impl/context.ipp\<close>) the server uses. The
  state is what OpenSSL keeps in the \<open>SSL_CTX\<close>: the option bits, the verification mode and the
  files loaded, with the range of protocol versions. Whether OpenSSL accepts a file is an argument: \<open>None\<close> when the call returns 1,
  otherwise \<open>Some\<close> the value of \<open>ERR_get_error\<close>.
\<close>

unbundle bit_operations_syntax

record ssl_context =
  ctx_options :: u64
  ctx_verify_mode :: int
  ctx_protocols :: "int \<times> int"
  ctx_certificate :: "string option"
  ctx_private_key :: "string option"

text \<open>\<open>SSL_CTX_set_options\<close> adds bits and never removes any.\<close>

definition set_options :: "u64 \<Rightarrow> ssl_context \<Rightarrow> ssl_context" where
  "set_options o1 c = c\<lparr>ctx_options := ctx_options c OR o1\<rparr>"

text \<open>
  The constructor with \<open>tlsv12_server\<close>, when OpenSSL returns a context: TLS 1.2 (\<open>0x303\<close>) only, no
  verification (\<open>SSL_VERIFY_NONE\<close> is 0), and the option \<open>no_compression\<close> (\<open>0x20000\<close>) added to
  those of a fresh \<open>SSL_CTX\<close>, of which only the bits set through this interface are recorded.
\<close>

definition new_ssl_context :: ssl_context where
  "new_ssl_context = set_options 0x20000
     \<lparr>ctx_options = 0, ctx_verify_mode = 0, ctx_protocols = (0x303, 0x303), ctx_certificate = None,
      ctx_private_key = None\<rparr>"

datatype file_format = asn1 | pem | other_format

definition set_verify_mode :: "int \<Rightarrow> ssl_context \<Rightarrow> ssl_context" where
  "set_verify_mode v c = c\<lparr>ctx_verify_mode := v\<rparr>"

definition use_certificate_file ::
  "string \<Rightarrow> file_format \<Rightarrow> int option \<Rightarrow> ssl_context \<Rightarrow> error_code \<times> ssl_context" where
  "use_certificate_file filename fmt r c =
     (if fmt = other_format then (make_basic_error invalid_argument, c)
      else case r of
             Some err \<Rightarrow> (\<lparr>ec_value = err, ec_category = ssl_category\<rparr>, c)
           | None \<Rightarrow> (ec_success, c\<lparr>ctx_certificate := Some filename\<rparr>))"

definition use_rsa_private_key_file ::
  "string \<Rightarrow> file_format \<Rightarrow> int option \<Rightarrow> ssl_context \<Rightarrow> error_code \<times> ssl_context" where
  "use_rsa_private_key_file filename fmt r c =
     (if fmt = other_format then (make_basic_error invalid_argument, c)
      else case r of
             Some err \<Rightarrow> (\<lparr>ec_value = err, ec_category = ssl_category\<rparr>, c)
           | None \<Rightarrow> (ec_success, c\<lparr>ctx_private_key := Some filename\<rparr>))"

end
