(* ===== verification/Decimal.thy ===== *)
theory Decimal
  imports Prelude
begin

text \<open>
  Decimal numbers as the standard library prints them (\<open>operator<<\<close> and \<open>%u\<close>) and reads them back.
\<close>

fun show_digits :: "nat \<Rightarrow> string" where
  "show_digits n =
     (if n < 10 then [char_of (48 + n)] else show_digits (n div 10) @ [char_of (48 + n mod 10)])"

declare show_digits.simps [simp del]

fun read_digits :: "string \<Rightarrow> nat \<Rightarrow> nat" where
  "read_digits [] acc = acc"
| "read_digits (c # cs) acc = read_digits cs (10 * acc + (of_char c - 48))"

lemma read_digits_append: "read_digits (xs @ ys) acc = read_digits ys (read_digits xs acc)"
  by (induction xs arbitrary: acc) auto

lemma of_char_digit: "n < 10 \<Longrightarrow> of_char (char_of (48 + n) :: char) = 48 + (n :: nat)"
  by (simp add: take_bit_nat_eq_self_iff)

lemma read_show_digits: "read_digits (show_digits n) 0 = n"
proof (induction n rule: show_digits.induct)
  case (1 n)
  show ?case
  proof (cases "n < 10")
    case True
    then show ?thesis
      by (subst show_digits.simps) (simp add: of_char_digit)
  next
    case False
    then have "read_digits (show_digits (n div 10)) 0 = n div 10"
      using "1.IH" by simp
    with False show ?thesis
      by (subst show_digits.simps) (simp add: read_digits_append of_char_digit)
  qed
qed

lemma show_digits_inject: "show_digits m = show_digits n \<longleftrightarrow> m = n"
  by (metis read_show_digits)

text \<open>The digits are digits, so a printed number never holds a separator.\<close>

lemma show_digits_range: "c \<in> set (show_digits n) \<Longrightarrow> of_char c \<in> {48 .. (57::nat)}"
proof (induction n rule: show_digits.induct)
  case (1 n)
  then show ?case
    by (subst (asm) show_digits.simps) (auto simp: of_char_digit split: if_splits)
qed

lemma show_digits_nonempty [simp]: "show_digits n \<noteq> []"
  by (subst show_digits.simps) simp

end
