(* ===== verification/Server_Logger.thy ===== *)
theory Server_Logger
  imports Error_Codes Decimal
begin

text \<open>
  \<open>class Server_logger\<close> of \<open>src/include/server_logger.h\<close>. The two output streams are the state; each
  of the four methods holds \<open>m_print_mutex\<close> for its whole body, so a call is one step and its text
  is contiguous in the stream. The variadic arguments are a list of printable values.
\<close>

section \<open>Printing of the argument types\<close>

text \<open>The argument types the program passes: C strings, unsigned integers, \<open>char\<close>, \<open>error_code\<close>.\<close>

datatype log_arg = Log_str string | Log_num nat | Log_chr char | Log_ec error_code

definition show_int :: "int \<Rightarrow> string" where
  "show_int i = (if i < 0 then CHR ''-'' # show_digits (nat (- i)) else show_digits (nat i))"

text \<open>\<open>operator<<\<close> on an \<open>error_code\<close> prints the category's name, a colon and the value.\<close>

fun show_log_arg :: "log_arg \<Rightarrow> string" where
  "show_log_arg (Log_str t) = t"
| "show_log_arg (Log_num n) = show_digits n"
| "show_log_arg (Log_chr c) = [c]"
| "show_log_arg (Log_ec ec) = category_name (ec_category ec) @ '':'' @ show_int (ec_value ec)"

section \<open>The four methods\<close>

record console =
  cout :: string
  cerr :: string

abbreviation newline :: char where
  "newline \<equiv> char_of (10 :: nat)"

abbreviation tab :: char where
  "tab \<equiv> char_of (9 :: nat)"

definition server_log :: "log_arg list \<Rightarrow> console \<Rightarrow> console" where
  "server_log args c =
     c\<lparr>cout := cout c @ ''[server] : '' @ concat (map (\<lambda>a. show_log_arg a @ '' '') args) @ [newline]\<rparr>"

definition error_log :: "log_arg list \<Rightarrow> console \<Rightarrow> console" where
  "error_log args c =
     c\<lparr>cerr := cerr c @ ''[error_] : '' @ concat (map (\<lambda>a. show_log_arg a @ '' '') args) @ [newline]\<rparr>"

definition receive_log :: "u64 \<Rightarrow> string \<Rightarrow> console \<Rightarrow> console" where
  "receive_log client_id message c =
     c\<lparr>cout := cout c @ [newline] @ ''*** message from client ['' @ show_digits (unat client_id) @ '']''
        @ [newline, newline, tab] @ ''--- START MESSAGE ---'' @ [newline]
        @ message @ [newline, tab] @ ''--- END MESSAGE---'' @ [newline, newline]\<rparr>"

definition send_log :: "u64 \<Rightarrow> string \<Rightarrow> console \<Rightarrow> console" where
  "send_log client_id message c =
     c\<lparr>cout := cout c @ [newline] @ ''*** response sent to client ['' @ show_digits (unat client_id) @ '']''
        @ [newline, newline, tab] @ ''--- START RESPONSE ---'' @ [newline]
        @ message @ [newline, tab] @ ''--- END RESPONSE---'' @ [newline, newline]\<rparr>"

section \<open>Facts\<close>

text \<open>What a call appends does not depend on what the stream held, and the other stream is untouched.\<close>

lemma log_appends:
  "\<exists>t. cout (server_log as c) = cout c @ t @ [newline] \<and> cerr (server_log as c) = cerr c"
  "\<exists>t. cerr (error_log as c) = cerr c @ t @ [newline] \<and> cout (error_log as c) = cout c"
  by (simp_all add: server_log_def error_log_def)

section \<open>What the log guarantees\<close>

text \<open>
  A number printed into the log is read back as the same number, so client ids and byte counts in
  the log identify what they name.
\<close>

theorem log_number_roundtrip: "read_digits (show_log_arg (Log_num n)) 0 = n"
  by (simp add: read_show_digits)

end
