(* ===== verification/Tcp_Server.thy ===== *)
theory Tcp_Server
  imports Scheduler Sockets Ssl_Context Server_Logger
begin

text \<open>
  \<open>class Tcp_server\<close>: \<open>src/include/tcp_server.h\<close> and \<open>src/src/tcp_server.cc\<close>. The members of the
  class are the fields of the record \<open>server\<close> under their own names, followed by what the running
  program holds outside the object: the sockets and packaged tasks its lambdas share, the
  asynchronous operations in progress, the handlers a worker thread has taken from the queue, and
  the reason of a \<open>std::terminate\<close>, if there was one.

  A lambda given to \<open>asio::post\<close> or to an asynchronous operation is a value of the type
  \<open>handler\<close> that holds its captures; \<open>exec\<close> runs it. Results of system calls, of OpenSSL and of
  the random generator come from the argument \<open>env\<close>.
\<close>

unbundle bit_operations_syntax

section \<open>Data\<close>

type_synonym client_id = u64
type_synonym sock_ref = nat
type_synonym task_ref = nat

record Network_message =
  nm_ssl_socket :: sock_ref
  nm_content :: string
  nm_client_id :: client_id

datatype handler =
    Run_listen
  | Run_connection_timeout
  | Run_client_id_task task_ref
  | Run_attempt_handshake sock_ref client_id
  | Run_read_message sock_ref client_id
  | Run_process_message Network_message error_code
  | Run_shutdown_socket sock_ref client_id
  | On_connection_attempt sock_ref task_ref "error_code + nat"
  | On_timeout error_code
  | On_handshake sock_ref client_id error_code
  | On_read_wait_over sock_ref client_id error_code
  | On_read sock_ref client_id string error_code nat
  | On_write sock_ref client_id error_code nat

text \<open>
  Asynchronous operations in progress. A read holds the buffer it fills, a write the bytes it
  sends.
\<close>

datatype async_op =
    Async_accept sock_ref task_ref
  | Async_timer
  | Async_handshake sock_ref client_id
  | Async_wait_read sock_ref client_id
  | Async_read sock_ref client_id string
  | Async_write sock_ref client_id string

text \<open>Why the process was terminated: an exception left a \<open>noexcept\<close> function or a thread, or an \<open>assert\<close> failed.\<close>

datatype fault = Uncaught_exception system_error | Assertion_failed

record server =
  m_io_context :: "handler scheduler"
  m_ssl_context :: ssl_context
  m_executor_guard :: bool
  m_acceptor :: socket_impl
  m_active_client_ids :: "client_id set"
  m_received_messages :: "client_id \<rightharpoonup> string"
  m_server_running :: bool
  m_active_connections :: u32
  m_logger :: console
  m_listen_port :: u16
  m_auth_dir :: string
  m_thread_count :: u8
  m_thread_pool :: "unit thread_pool"
  sockets :: "sock_ref \<Rightarrow> socket_impl"
  id_tasks :: "task_ref \<Rightarrow> client_id option"
  next_ref :: nat
  pending :: "async_op list"
  running :: "handler list"
  fault :: "fault option"

record env =
  os_socket :: "int + nat"
  os_register :: int
  os_setsockopt :: "int option"
  os_bind :: "int option"
  os_listen :: "int option"
  os_close :: "int option"
  os_close_retry :: "int option"
  os_shutdown :: "int option"
  os_available :: "int + nat"
  ssl_certificate_file :: "string \<Rightarrow> int option"
  ssl_private_key_file :: "string \<Rightarrow> int option"
  SSL_OP_ALL :: u64
  SSL_VERIFY_PEER :: u64
  message_of :: "error_code \<Rightarrow> string"
  random_ids :: "nat \<Rightarrow> u64"

abbreviation minimum_thread_count :: u8 where "minimum_thread_count \<equiv> 1"
abbreviation max_connections :: u32 where "max_connections \<equiv> 100"
abbreviation timeout_seconds :: nat where "timeout_seconds \<equiv> 5"

section \<open>Construction\<close>

text \<open>
  The constructor: the members with default initialisers, \<open>m_io_context\<close> with the default
  concurrency hint -1, the work guard on it, and a thread pool of \<open>max (thread_count, 1)\<close> threads.
  The acceptor registers the reactor with the scheduler (\<open>init_task\<close>).
\<close>

definition new_server :: "u8 \<Rightarrow> u16 \<Rightarrow> string \<Rightarrow> server" where
  "new_server thread_count listen_port auth_dir =
     (let count = max thread_count minimum_thread_count;
          (guard, io) = work_guard_new (new_scheduler (- 1) False)
      in \<lparr>m_io_context = init_task io,
          m_ssl_context = new_ssl_context,
          m_executor_guard = guard,
          m_acceptor = sock_construct,
          m_active_client_ids = {},
          m_received_messages = Map.empty,
          m_server_running = False,
          m_active_connections = 0,
          m_logger = \<lparr>cout = [], cerr = []\<rparr>,
          m_listen_port = listen_port,
          m_auth_dir = auth_dir,
          m_thread_count = count,
          m_thread_pool = the (new_thread_pool (ucast count)),
          sockets = (\<lambda>_. sock_construct),
          id_tasks = (\<lambda>_. None),
          next_ref = 0,
          pending = [],
          running = [],
          fault = None\<rparr>)"

section \<open>Effects the methods are made of\<close>

definition log_server :: "log_arg list \<Rightarrow> server \<Rightarrow> server" where
  "log_server args s = s\<lparr>m_logger := server_log args (m_logger s)\<rparr>"

definition log_error :: "log_arg list \<Rightarrow> server \<Rightarrow> server" where
  "log_error args s = s\<lparr>m_logger := error_log args (m_logger s)\<rparr>"

text \<open>\<open>m_logger.error_log (error_code, error_code.message ())\<close>.\<close>

definition log_ec :: "env \<Rightarrow> error_code \<Rightarrow> server \<Rightarrow> server" where
  "log_ec env ec = log_error [Log_ec ec, Log_str (message_of env ec)]"

definition raise :: "system_error \<Rightarrow> server \<Rightarrow> server" where
  "raise e s = s\<lparr>fault := Some (Uncaught_exception e)\<rparr>"

text \<open>The statements after one that terminated the process do not run.\<close>

definition and_then :: "(server \<Rightarrow> server) \<Rightarrow> (server \<Rightarrow> server) \<Rightarrow> server \<Rightarrow> server" where
  "and_then f g s = (let s1 = f s in if fault s1 = None then g s1 else s1)"

text \<open>\<open>asio::post (m_io_context, h)\<close>.\<close>

definition io_post :: "handler \<Rightarrow> server \<Rightarrow> server" where
  "io_post h s = s\<lparr>m_io_context := fst (post_immediate_completion h False (m_io_context s, None))\<rparr>"

text \<open>An initiating function: the operation is handed to the reactor and counted as work.\<close>

definition start_async :: "async_op \<Rightarrow> server \<Rightarrow> server" where
  "start_async op s = s\<lparr>pending := pending s @ [op], m_io_context := work_started (m_io_context s)\<rparr>"

text \<open>
  \<open>cancel\<close> and \<open>close\<close> of the acceptor complete its pending accepts with \<open>operation_aborted\<close>
  (\<open>epoll_reactor::cancel_ops\<close>, \<open>deregister_descriptor\<close>).
\<close>

fun aborted_accept :: "async_op \<Rightarrow> handler list" where
  "aborted_accept (Async_accept sock t) =
     [On_connection_attempt sock t (Inl (make_basic_error operation_aborted))]"
| "aborted_accept _ = []"

definition abort_accepts :: "server \<Rightarrow> server" where
  "abort_accepts s =
     s\<lparr>m_io_context :=
         fst (post_deferred_completions (concat (map aborted_accept (pending s))) (m_io_context s, None)),
       pending := filter (\<lambda>op. aborted_accept op = []) (pending s)\<rparr>"

definition acceptor_cancel :: "server \<Rightarrow> server" where
  "acceptor_cancel s =
     (case throw_error (sock_cancel (m_acceptor s)) ''cancel'' of
        Some e \<Rightarrow> raise e s
      | None \<Rightarrow> abort_accepts s)"

definition acceptor_close :: "env \<Rightarrow> server \<Rightarrow> server" where
  "acceptor_close env s =
     (let (ec, impl) = sock_close (os_close env) (os_close_retry env) (m_acceptor s);
          s1 = (if is_open (m_acceptor s) then abort_accepts s else s)\<lparr>m_acceptor := impl\<rparr>
      in case throw_error ec ''close'' of Some e \<Rightarrow> raise e s1 | None \<Rightarrow> s1)"

section \<open>The methods\<close>

text \<open>
  \<open>get_random_spare_id\<close>: draws until an id is not active. The loop need not end, so the result is
  an option; \<open>rnd\<close> is the sequence the generator produces and the number is the position in it.
\<close>

partial_function (option) spare_id_loop ::
  "(nat \<Rightarrow> u64) \<Rightarrow> client_id set \<Rightarrow> nat \<Rightarrow> client_id option" where
  "spare_id_loop rnd ids n =
     (let unique_id = rnd n in if unique_id \<in> ids then spare_id_loop rnd ids (Suc n) else Some unique_id)"

declare spare_id_loop.simps [code]

definition get_random_spare_id :: "env \<Rightarrow> server \<Rightarrow> client_id option" where
  "get_random_spare_id env s = spare_id_loop (random_ids env) (m_active_client_ids s) 0"

definition connection_timeout :: "server \<Rightarrow> server" where
  "connection_timeout =
     and_then acceptor_cancel
       (\<lambda>s. start_async Async_timer (log_server [Log_str ''deaf state''] s))"

definition on_timeout :: "env \<Rightarrow> error_code \<Rightarrow> server \<Rightarrow> server" where
  "on_timeout env ec s =
     (if \<not> ec_failed ec
      then io_post Run_listen
             (log_server [Log_str ''connection timeout over. shifting to listening state''] s)
      else log_ec env ec s)"

text \<open>
  \<open>shutdown_socket\<close>: the assertion is enabled (the build sets no \<open>NDEBUG\<close>); an exception of
  \<open>shutdown\<close> skips \<open>close\<close> and is caught; the counter is decremented in every case.
\<close>

definition shutdown_socket :: "env \<Rightarrow> sock_ref \<Rightarrow> client_id \<Rightarrow> server \<Rightarrow> server" where
  "shutdown_socket env sock client_id s =
     (if client_id \<notin> m_active_client_ids s then s\<lparr>fault := Some Assertion_failed\<rparr>
      else
        (let s1 = s\<lparr>m_active_client_ids := m_active_client_ids s - {client_id}\<rparr>;
             s2 =
               (case throw_error (sock_shutdown (os_shutdown env) (sockets s1 sock)) ''shutdown'' of
                  Some e \<Rightarrow> log_error [Log_str (what (message_of env) e)] s1
                | None \<Rightarrow>
                    (let (ec, impl) = sock_close (os_close env) (os_close_retry env) (sockets s1 sock);
                         s3 = s1\<lparr>sockets := (sockets s1)(sock := impl)\<rparr>
                     in case throw_error ec ''close'' of
                          Some e \<Rightarrow> log_error [Log_str (what (message_of env) e)] s3
                        | None \<Rightarrow>
                            log_server [Log_str ''connection closed with client ['',
                              Log_num (unat client_id), Log_chr (CHR '']'')] s3))
         in s2\<lparr>m_active_connections := m_active_connections s2 - 1\<rparr>))"

text \<open>
  \<open>m_acceptor.async_accept\<close>: on an acceptor that is not open the operation completes at once with
  \<open>bad_descriptor\<close>.
\<close>

definition async_accept :: "sock_ref \<Rightarrow> task_ref \<Rightarrow> server \<Rightarrow> server" where
  "async_accept sock t s =
     (if is_open (m_acceptor s) then start_async (Async_accept sock t) s
      else io_post (On_connection_attempt sock t (Inl (make_basic_error bad_descriptor))) s)"

definition listen :: "env \<Rightarrow> server \<Rightarrow> server" where
  "listen env s =
     (case throw_error (sock_listen (os_listen env) (m_acceptor s)) ''listen'' of
        Some e \<Rightarrow> raise e s
      | None \<Rightarrow>
          (let s1 = log_server [Log_str ''listening state''] s
           in if m_active_connections s1 > max_connections
              then io_post Run_connection_timeout
                     (log_error [Log_str ''max connections reached. taking a connection timeout for'',
                        Log_num timeout_seconds, Log_str ''seconds''] s1)
              else
                (let client_id_task = next_ref s1;
                     s2 = io_post (Run_client_id_task client_id_task)
                            (s1\<lparr>id_tasks := (id_tasks s1)(client_id_task := None)\<rparr>);
                     ssl_socket = Suc (next_ref s1);
                     s3 = s2\<lparr>sockets := (sockets s2)(ssl_socket := sock_construct),
                             next_ref := next_ref s1 + 2\<rparr>
                 in async_accept ssl_socket client_id_task s3)))"

text \<open>The packaged task: its result is stored where the future finds it.\<close>

definition client_id_task :: "env \<Rightarrow> task_ref \<Rightarrow> server \<Rightarrow> server" where
  "client_id_task env t s =
     (case get_random_spare_id env s of
        None \<Rightarrow> s
      | Some i \<Rightarrow> s\<lparr>id_tasks := (id_tasks s)(t := Some i)\<rparr>)"

definition on_connection_attempt ::
  "env \<Rightarrow> sock_ref \<Rightarrow> task_ref \<Rightarrow> error_code \<Rightarrow> server \<Rightarrow> server" where
  "on_connection_attempt env sock t ec s =
     (if \<not> ec_failed ec
      then
        (let new_client_id = the (id_tasks s t);
             s1 = s\<lparr>m_active_client_ids := insert new_client_id (m_active_client_ids s)\<rparr>;
             s2 = log_server [Log_str ''new client ['', Log_num (unat new_client_id),
                    Log_str ''] attempting to connect. handshake pending''] s1
         in io_post Run_listen (io_post (Run_attempt_handshake sock new_client_id) s2))
      else log_ec env ec s)"

text \<open>
  Completion of the accept (\<open>reactive_socket_accept_op::do_complete\<close>): a new native socket is
  assigned to the peer object before the handler runs.
\<close>

definition assign_peer ::
  "env \<Rightarrow> sock_ref \<Rightarrow> error_code + nat \<Rightarrow> server \<Rightarrow> error_code \<times> socket_impl" where
  "assign_peer env sock r s =
     (case r of
        Inl ec \<Rightarrow> (ec, sockets s sock)
      | Inr n \<Rightarrow> do_assign SOCK_STREAM n (os_register env) (sockets s sock))"

definition complete_accept ::
  "env \<Rightarrow> sock_ref \<Rightarrow> task_ref \<Rightarrow> error_code + nat \<Rightarrow> server \<Rightarrow> server" where
  "complete_accept env sock t r s =
     (let (ec, impl) = assign_peer env sock r s
      in on_connection_attempt env sock t ec (s\<lparr>sockets := (sockets s)(sock := impl)\<rparr>))"

definition attempt_handshake :: "sock_ref \<Rightarrow> client_id \<Rightarrow> server \<Rightarrow> server" where
  "attempt_handshake sock client_id s =
     start_async (Async_handshake sock client_id)
       (log_server [Log_str ''handshake attempt with client ['', Log_num (unat client_id),
          Log_chr (CHR '']'')] s)"

definition on_handshake :: "env \<Rightarrow> sock_ref \<Rightarrow> client_id \<Rightarrow> error_code \<Rightarrow> server \<Rightarrow> server" where
  "on_handshake env sock client_id ec s =
     (if \<not> ec_failed ec
      then
        (let s1 = log_server [Log_str ''handshake successful with client ['',
                    Log_num (unat client_id), Log_chr (CHR '']'')] s;
             s2 = s1\<lparr>m_active_connections := m_active_connections s1 + 1\<rparr>
         in io_post (Run_read_message sock client_id) s2)
      else io_post (Run_shutdown_socket sock client_id) (log_ec env ec s))"

definition read_message :: "sock_ref \<Rightarrow> client_id \<Rightarrow> server \<Rightarrow> server" where
  "read_message sock client_id s = start_async (Async_wait_read sock client_id) s"

text \<open>
  \<open>on_read_wait_over\<close>: \<open>available\<close> may throw, and nothing between here and the thread's entry
  function catches it. The buffer starts as that many NUL bytes.
\<close>

definition on_read_wait_over :: "env \<Rightarrow> sock_ref \<Rightarrow> client_id \<Rightarrow> error_code \<Rightarrow> server \<Rightarrow> server" where
  "on_read_wait_over env sock client_id ec s =
     (if \<not> ec_failed ec
      then
        (let s1 = log_server [Log_str ''message received from client ['',
                    Log_num (unat client_id), Log_chr (CHR '']'')] s;
             (aec, n) = sock_available (os_available env) (sockets s1 sock)
         in case throw_error aec ''available'' of
              Some e \<Rightarrow> raise e s1
            | None \<Rightarrow> start_async (Async_read sock client_id (replicate n (char_of (0::nat)))) s1)
      else io_post (Run_shutdown_socket sock client_id) (log_ec env ec s))"

definition received_valid_message :: "error_code \<Rightarrow> nat \<Rightarrow> bool" where
  "received_valid_message ec bytes_read \<longleftrightarrow>
     bytes_read \<noteq> 0 \<and>
     (\<not> ec_failed ec \<or> ec = make_misc_error eof \<or> ec = make_basic_error no_permission)"

definition on_read ::
  "env \<Rightarrow> sock_ref \<Rightarrow> client_id \<Rightarrow> string \<Rightarrow> error_code \<Rightarrow> nat \<Rightarrow> server \<Rightarrow> server" where
  "on_read env sock client_id read_buffer ec bytes_read s =
     (if received_valid_message ec bytes_read
      then io_post (Run_process_message
             \<lparr>nm_ssl_socket = sock, nm_content = read_buffer, nm_client_id = client_id\<rparr> ec) s
      else io_post (Run_shutdown_socket sock client_id) (log_ec env ec s))"

text \<open>
  \<open>process_message\<close>: the message is appended to what the client sent before; a read that ended
  with an error code (end of file) starts the response, any other the next read.
\<close>

definition process_message :: "Network_message \<Rightarrow> error_code \<Rightarrow> server \<Rightarrow> server" where
  "process_message message connection_code s =
     (let client_id = nm_client_id message;
          s1 = log_server [Log_str ''processing message from client ['', Log_num (unat client_id),
                 Log_chr (CHR '']'')] s;
          s2 = s1\<lparr>m_logger := receive_log client_id (nm_content message) (m_logger s1)\<rparr>;
          s3 = (case m_received_messages s2 client_id of
                  Some old \<Rightarrow>
                    s2\<lparr>m_received_messages :=
                         (m_received_messages s2)(client_id \<mapsto> old @ nm_content message)\<rparr>
                | None \<Rightarrow>
                    s2\<lparr>m_received_messages :=
                         (m_received_messages s2)(client_id \<mapsto> nm_content message)\<rparr>)
      in if ec_failed connection_code
         then start_async (Async_write (nm_ssl_socket message) client_id
                (the (m_received_messages s3 client_id))) s3
         else io_post (Run_read_message (nm_ssl_socket message) client_id) s3)"

text \<open>
  \<open>on_write\<close>: \<open>m_received_messages[client_id]\<close> creates an empty entry when there is none, so the
  assertion after it always holds.
\<close>

definition on_write :: "env \<Rightarrow> sock_ref \<Rightarrow> client_id \<Rightarrow> error_code \<Rightarrow> nat \<Rightarrow> server \<Rightarrow> server" where
  "on_write env sock client_id ec bytes_sent s =
     io_post (Run_shutdown_socket sock client_id)
       (if \<not> ec_failed ec
        then
          (let s1 = log_server [Log_num bytes_sent, Log_str ''bytes sent to client ['',
                      Log_num (unat client_id), Log_chr (CHR '']'')] s;
               s2 = (case m_received_messages s1 client_id of
                       Some _ \<Rightarrow> s1
                     | None \<Rightarrow>
                         s1\<lparr>m_received_messages := (m_received_messages s1)(client_id \<mapsto> [])\<rparr>)
           in s2\<lparr>m_logger :=
                send_log client_id (the (m_received_messages s2 client_id)) (m_logger s2)\<rparr>)
        else log_ec env ec s)"

section \<open>Start and shutdown\<close>

text \<open>
  \<open>shutdown\<close> up to the join of the thread pool, which waits for the handlers in progress and is
  the separate step \<open>shutdown_join\<close>.
\<close>

definition shutdown_begin :: "env \<Rightarrow> server \<Rightarrow> server" where
  "shutdown_begin env s =
     (if \<not> m_server_running s then s
      else
        (let s1 = (log_server [Log_str ''shutting down''] s)\<lparr>m_server_running := False\<rparr>;
             (guard, io) = work_guard_reset (m_executor_guard s1, m_io_context s1);
             s2 = s1\<lparr>m_executor_guard := guard, m_io_context := io\<rparr>
         in and_then acceptor_cancel
              (and_then (acceptor_close env)
                (\<lambda>s3. s3\<lparr>m_io_context := stop (m_io_context s3)\<rparr>)) s2))"

definition shutdown_join :: "server \<Rightarrow> server" where
  "shutdown_join s =
     log_server [Log_str ''shutdown''] (s\<lparr>m_thread_pool := thread_pool_join (m_thread_pool s)\<rparr>)"

text \<open>
  The whole of \<open>shutdown\<close> when no handler is in progress, so that the join does not wait: the call
  from \<open>configure_ssl_context\<close>.
\<close>

definition shutdown :: "env \<Rightarrow> server \<Rightarrow> server" where
  "shutdown env s =
     (if \<not> m_server_running s then s else and_then (shutdown_begin env) shutdown_join s)"

definition configure_ssl_context :: "env \<Rightarrow> server \<Rightarrow> server" where
  "configure_ssl_context env s =
     (let s1 = s\<lparr>m_ssl_context := set_options (SSL_OP_ALL env OR SSL_VERIFY_PEER env) (m_ssl_context s)\<rparr>;
          failed = (\<lambda>e s. shutdown env
             (log_error [Log_str (what (message_of env) e),
                Log_str ''. Try after running generate_scripts.sh''] s));
          (ec1, ctx1) = use_certificate_file (m_auth_dir s1 @ ''certificate.pem'') pem
             (ssl_certificate_file env (m_auth_dir s1 @ ''certificate.pem'')) (m_ssl_context s1);
          s2 = s1\<lparr>m_ssl_context := ctx1\<rparr>
      in case throw_error ec1 ''use_certificate_file'' of
           Some e \<Rightarrow> failed e s2
         | None \<Rightarrow>
             (let (ec2, ctx2) = use_rsa_private_key_file (m_auth_dir s2 @ ''private_key.pem'') pem
                    (ssl_private_key_file env (m_auth_dir s2 @ ''private_key.pem'')) (m_ssl_context s2);
                  s3 = s2\<lparr>m_ssl_context := ctx2\<rparr>
              in case throw_error ec2 ''use_rsa_private_key_file'' of
                   Some e \<Rightarrow> failed e s3
                 | None \<Rightarrow> s3))"

text \<open>\<open>configure_acceptor\<close>: open, \<open>SO_REUSEADDR\<close>, bind; each may throw out of the \<open>noexcept\<close> method.\<close>

definition configure_acceptor :: "env \<Rightarrow> server \<Rightarrow> server" where
  "configure_acceptor env s =
     (let (ec1, impl1) = do_open SOCK_STREAM (os_socket env) (os_register env) (m_acceptor s);
          s1 = s\<lparr>m_acceptor := impl1\<rparr>
      in case throw_error ec1 ''open'' of
           Some e \<Rightarrow> raise e s1
         | None \<Rightarrow>
             (let (ec2, impl2) = sock_set_option Os_option (os_setsockopt env) (m_acceptor s1);
                  s2 = s1\<lparr>m_acceptor := impl2\<rparr>
              in case throw_error ec2 ''set_option'' of
                   Some e \<Rightarrow> raise e s2
                 | None \<Rightarrow>
                     (case throw_error (sock_bind (os_bind env) (m_acceptor s2)) ''bind'' of
                        Some e \<Rightarrow> raise e s2
                      | None \<Rightarrow> log_server [Log_str ''acceptor bound to port number'',
                          Log_num (unat (m_listen_port s2))] s2)))"

text \<open>The workers are posted to the thread pool, one for each \<open>i < m_thread_count\<close>.\<close>

definition post_worker :: "server \<Rightarrow> server" where
  "post_worker s =
     s\<lparr>m_thread_pool := (m_thread_pool s)\<lparr>pool_scheduler :=
        fst (post_immediate_completion () False (pool_scheduler (m_thread_pool s), None))\<rparr>\<rparr>"

definition start :: "env \<Rightarrow> server \<Rightarrow> server" where
  "start env s =
     (if m_server_running s then s
      else
        (let s1 = s\<lparr>m_server_running := True\<rparr>;
             s2 = (post_worker ^^ unat (m_thread_count s1)) s1;
             s3 = log_server [Log_str ''started with'', Log_num (unat (m_thread_count s2)),
                    Log_str ''threads''] s2
         in and_then (configure_ssl_context env)
              (and_then (configure_acceptor env) (io_post Run_listen)) s3))"

section \<open>Running a handler\<close>

fun exec :: "env \<Rightarrow> handler \<Rightarrow> server \<Rightarrow> server" where
  "exec env Run_listen s = listen env s"
| "exec env Run_connection_timeout s = connection_timeout s"
| "exec env (Run_client_id_task t) s = client_id_task env t s"
| "exec env (Run_attempt_handshake sock i) s = attempt_handshake sock i s"
| "exec env (Run_read_message sock i) s = read_message sock i s"
| "exec env (Run_process_message m ec) s = process_message m ec s"
| "exec env (Run_shutdown_socket sock i) s = shutdown_socket env sock i s"
| "exec env (On_connection_attempt sock t r) s = complete_accept env sock t r s"
| "exec env (On_timeout ec) s = on_timeout env ec s"
| "exec env (On_handshake sock i ec) s = on_handshake env sock i ec s"
| "exec env (On_read_wait_over sock i ec) s = on_read_wait_over env sock i ec s"
| "exec env (On_read sock i buf ec n) s = on_read env sock i buf ec n s"
| "exec env (On_write sock i ec n) s = on_write env sock i ec n s"

text \<open>
  A handler can run to its end unless it waits: the accept handler, when the accept succeeded, waits
  on the future of its packaged task, and the packaged task ends when the generator produces an unused id.
\<close>

fun can_finish :: "env \<Rightarrow> handler \<Rightarrow> server \<Rightarrow> bool" where
  "can_finish env (On_connection_attempt sock t r) s \<longleftrightarrow>
     ec_failed (fst (assign_peer env sock r s)) \<or> id_tasks s t \<noteq> None"
| "can_finish env (Run_client_id_task t) s \<longleftrightarrow> get_random_spare_id env s \<noteq> None"
| "can_finish env _ s \<longleftrightarrow> True"

text \<open>The threads that run the event loop: pool threads that have taken a worker.\<close>

definition capacity :: "server \<Rightarrow> nat" where
  "capacity s = min (pool_threads (m_thread_pool s))
     (length (queued_ops (Scheduler.op_queue (pool_scheduler (m_thread_pool s)))))"

end
