(* ===== verification/Server_Steps.thy ===== *)
theory Server_Steps
  imports Tcp_Server
begin

text \<open>
  The program as a state machine. A configuration is the place of the main thread in
  \<open>src/src/main.cc\<close> and the server. The worker threads of the pool take handlers from the front of
  the queue and run them; the effect of a handler is one step, taken at any time after the handler
  was taken from the queue, so handlers of different threads interleave in every order. The reactor
  completes pending operations in any order and with any result the operation allows.
\<close>

section \<open>Completion of asynchronous operations\<close>

datatype io_result =
    Result_ec error_code
  | Result_socket nat
  | Result_read error_code string
  | Result_write error_code nat

text \<open>
  The handler that a pending operation puts into the queue, given its result. A composed read or
  write without an error has moved all the bytes of its buffer (\<open>transfer_all\<close>).
\<close>

fun completion_handler :: "async_op \<Rightarrow> io_result \<Rightarrow> handler option" where
  "completion_handler (Async_accept sock t) (Result_socket n) =
     Some (On_connection_attempt sock t (Inr n))"
| "completion_handler (Async_accept sock t) (Result_ec ec) =
     (if ec_failed ec then Some (On_connection_attempt sock t (Inl ec)) else None)"
| "completion_handler Async_timer (Result_ec ec) = Some (On_timeout ec)"
| "completion_handler (Async_handshake sock i) (Result_ec ec) = Some (On_handshake sock i ec)"
| "completion_handler (Async_wait_read sock i) (Result_ec ec) = Some (On_read_wait_over sock i ec)"
| "completion_handler (Async_read sock i buf) (Result_read ec bytes) =
     (if length bytes \<le> length buf \<and> (ec_failed ec \<or> length bytes = length buf)
      then Some (On_read sock i (bytes @ drop (length bytes) buf) ec (length bytes))
      else None)"
| "completion_handler (Async_write sock i bytes) (Result_write ec n) =
     (if n \<le> length bytes \<and> (ec_failed ec \<or> n = length bytes) then Some (On_write sock i ec n)
      else None)"
| "completion_handler _ _ = None"

section \<open>Configurations and steps\<close>

datatype main_pc = Main_start | Main_sleep | Main_join | Main_end

type_synonym config = "main_pc \<times> server"

text \<open>\<open>main\<close>: three threads, port 1234.\<close>

definition main_config :: config where
  "main_config = (Main_start, new_server 3 1234 ''../certs/'')"

datatype action =
    Start env
  | Shutdown env
  | Join
  | Reactor
  | Take
  | Complete nat io_result
  | Run env nat

definition remove_nth :: "nat \<Rightarrow> 'a list \<Rightarrow> 'a list" where
  "remove_nth n xs = take n xs @ drop (Suc n) xs"

text \<open>The end of a handler: \<open>work_cleanup\<close> of the scheduler.\<close>

definition finish_handler :: "server \<Rightarrow> server" where
  "finish_handler s = s\<lparr>m_io_context := work_finished (m_io_context s)\<rparr>"

definition can_take :: "server \<Rightarrow> bool" where
  "can_take s \<longleftrightarrow> \<not> stopped (m_io_context s) \<and> length (running s) < capacity s"

inductive step :: "config \<Rightarrow> action \<Rightarrow> config \<Rightarrow> bool" where
  step_start:
    "fault s = None \<Longrightarrow> step (Main_start, s) (Start env) (Main_sleep, start env s)"
| step_shutdown:
    "fault s = None \<Longrightarrow> m_server_running s \<Longrightarrow>
       step (Main_sleep, s) (Shutdown env) (Main_join, shutdown_begin env s)"
| step_not_running:
    "fault s = None \<Longrightarrow> \<not> m_server_running s \<Longrightarrow>
       step (Main_sleep, s) (Shutdown env) (Main_end, s)"
| step_join:
    "fault s = None \<Longrightarrow> running s = [] \<Longrightarrow>
       step (Main_join, s) Join (Main_end, shutdown_join s)"
| step_reactor:
    "fault s = None \<Longrightarrow> can_take s \<Longrightarrow>
       Scheduler.op_queue (m_io_context s) = Task_operation # q \<Longrightarrow>
       step (pc, s) Reactor
         (pc, s\<lparr>m_io_context := fst (run_task [] q (m_io_context s, new_thread_info))\<rparr>)"
| step_take:
    "fault s = None \<Longrightarrow> can_take s \<Longrightarrow>
       Scheduler.op_queue (m_io_context s) = Op h # q \<Longrightarrow>
       step (pc, s) Take
         (pc, s\<lparr>m_io_context := (m_io_context s)\<lparr>Scheduler.op_queue := q\<rparr>,
               running := running s @ [h]\<rparr>)"
| step_complete:
    "fault s = None \<Longrightarrow> n < length (pending s) \<Longrightarrow>
       completion_handler (pending s ! n) r = Some h \<Longrightarrow>
       step (pc, s) (Complete n r)
         (pc, s\<lparr>pending := remove_nth n (pending s),
               m_io_context := fst (post_deferred_completion h (m_io_context s, None))\<rparr>)"
| step_run:
    "fault s = None \<Longrightarrow> n < length (running s) \<Longrightarrow> can_finish env (running s ! n) s \<Longrightarrow>
       step (pc, s) (Run env n)
         (pc, finish_handler
            (exec env (running s ! n) (s\<lparr>running := remove_nth n (running s)\<rparr>)))"

inductive_simps step_simps:
  "step c (Start env) c'" "step c (Shutdown env) c'" "step c Join c'" "step c Reactor c'"
  "step c Take c'" "step c (Complete n r) c'" "step c (Run env n) c'"

text \<open>The same steps as a function, for execution.\<close>

fun do_step :: "config \<Rightarrow> action \<Rightarrow> config option" where
  "do_step (pc, s) (Start env) =
     (if fault s = None \<and> pc = Main_start then Some (Main_sleep, start env s) else None)"
| "do_step (pc, s) (Shutdown env) =
     (if fault s = None \<and> pc = Main_sleep
      then Some (if m_server_running s then (Main_join, shutdown_begin env s) else (Main_end, s))
      else None)"
| "do_step (pc, s) Join =
     (if fault s = None \<and> pc = Main_join \<and> running s = []
      then Some (Main_end, shutdown_join s) else None)"
| "do_step (pc, s) Reactor =
     (if fault s = None \<and> can_take s
      then (case Scheduler.op_queue (m_io_context s) of
              Task_operation # q \<Rightarrow>
                Some (pc, s\<lparr>m_io_context := fst (run_task [] q (m_io_context s, new_thread_info))\<rparr>)
            | _ \<Rightarrow> None)
      else None)"
| "do_step (pc, s) Take =
     (if fault s = None \<and> can_take s
      then (case Scheduler.op_queue (m_io_context s) of
              Op h # q \<Rightarrow>
                Some (pc, s\<lparr>m_io_context := (m_io_context s)\<lparr>Scheduler.op_queue := q\<rparr>,
                            running := running s @ [h]\<rparr>)
            | _ \<Rightarrow> None)
      else None)"
| "do_step (pc, s) (Complete n r) =
     (if fault s = None \<and> n < length (pending s)
      then (case completion_handler (pending s ! n) r of
              Some h \<Rightarrow>
                Some (pc, s\<lparr>pending := remove_nth n (pending s),
                            m_io_context := fst (post_deferred_completion h (m_io_context s, None))\<rparr>)
            | None \<Rightarrow> None)
      else None)"
| "do_step (pc, s) (Run env n) =
     (if fault s = None \<and> n < length (running s) \<and> can_finish env (running s ! n) s
      then Some (pc, finish_handler
             (exec env (running s ! n) (s\<lparr>running := remove_nth n (running s)\<rparr>)))
      else None)"

lemma step_do_step: "step c a c' \<longleftrightarrow> do_step c a = Some c'"
proof -
  obtain pc s where c: "c = (pc, s)" by (cases c)
  show ?thesis
    unfolding c
    by (cases a)
      (auto simp: step_simps split: if_splits list.splits operation.splits option.splits)
qed

fun run_actions :: "config \<Rightarrow> action list \<Rightarrow> config option" where
  "run_actions c [] = Some c"
| "run_actions c (a # as) = (case do_step c a of None \<Rightarrow> None | Some c' \<Rightarrow> run_actions c' as)"

section \<open>Reachable configurations\<close>

text \<open>
  Reachable from a server built with any arguments; the list holds the handlers that were run, in
  order.
\<close>

fun handler_run :: "config \<Rightarrow> action \<Rightarrow> handler list" where
  "handler_run (pc, s) (Run env n) = [running s ! n]"
| "handler_run (pc, s) (Start env) = []"
| "handler_run (pc, s) (Shutdown env) = []"
| "handler_run (pc, s) Join = []"
| "handler_run (pc, s) Reactor = []"
| "handler_run (pc, s) Take = []"
| "handler_run (pc, s) (Complete n r) = []"

inductive reachable :: "handler list \<Rightarrow> config \<Rightarrow> bool" where
  reachable_init: "reachable [] (Main_start, new_server threads port dir)"
| reachable_step: "reachable hist c \<Longrightarrow> step c a c' \<Longrightarrow> reachable (hist @ handler_run c a) c'"

fun run_history :: "config \<Rightarrow> action list \<Rightarrow> handler list" where
  "run_history c [] = []"
| "run_history c (a # as) =
     handler_run c a @ (case do_step c a of None \<Rightarrow> [] | Some c' \<Rightarrow> run_history c' as)"

lemma run_actions_reachable:
  "reachable hist c \<Longrightarrow> run_actions c as = Some c' \<Longrightarrow> reachable (hist @ run_history c as) c'"
proof (induction as arbitrary: c hist)
  case (Cons a as)
  from Cons.prems(2) obtain d where d: "do_step c a = Some d" "run_actions d as = Some c'"
    by (auto split: option.splits)
  from d(1) have "step c a d" by (simp add: step_do_step)
  from Cons.IH [OF reachable_step [OF Cons.prems(1) this] d(2)] d(1) show ?case by simp
qed auto

lemma main_reachable:
  "run_actions main_config as = Some c \<Longrightarrow> reachable (run_history main_config as) c"
  using run_actions_reachable [OF reachable_init] by (fastforce simp: main_config_def)

end
