(* ===== verification/Server_Tokens.thy ===== *)
theory Server_Tokens
  imports Server_Steps "HOL-Library.Multiset"
begin

text \<open>
  The bookkeeping behind the server's invariants. Every handler in the queue, every handler a
  thread has taken and every pending operation is a token; a handler that runs is replaced by the
  handlers it posts and the operations it starts (\<open>posted\<close>, \<open>started\<close>). The locale
  \<open>token_measure\<close> sums a weight over all tokens and shows once how each step of the server
  changes the sum; the invariants use it with client ids, accept tasks, the listen chain, the
  established connections and plain counting as weights.
\<close>

section \<open>Frame facts\<close>

definition handler_queue :: "server \<Rightarrow> handler list" where
  "handler_queue s = queued_ops (Scheduler.op_queue (m_io_context s))"

abbreviation work_count :: "server \<Rightarrow> int" where
  "work_count s \<equiv> outstanding_work (m_io_context s)"

abbreviation loop_stopped :: "server \<Rightarrow> bool" where
  "loop_stopped s \<equiv> stopped (m_io_context s)"

lemma post_immediate_frame [simp]:
  "Scheduler.op_queue (fst (post_immediate_completion h c (sch, None))) = Scheduler.op_queue sch @ [Op h]"
  "outstanding_work (fst (post_immediate_completion h c (sch, None))) = outstanding_work sch + 1"
  "stopped (fst (post_immediate_completion h c (sch, None))) = stopped sch"
  by (simp_all add: post_immediate_completion_def Let_def)

lemma post_deferred_frame [simp]:
  "Scheduler.op_queue (fst (post_deferred_completion h (sch, None))) = Scheduler.op_queue sch @ [Op h]"
  "outstanding_work (fst (post_deferred_completion h (sch, None))) = outstanding_work sch"
  "stopped (fst (post_deferred_completion h (sch, None))) = stopped sch"
  by (simp_all add: post_deferred_completion_def)

lemma post_deferreds_frame [simp]:
  "Scheduler.op_queue (fst (post_deferred_completions hs (sch, None))) = Scheduler.op_queue sch @ map Op hs"
  "outstanding_work (fst (post_deferred_completions hs (sch, None))) = outstanding_work sch"
  "stopped (fst (post_deferred_completions hs (sch, None))) = stopped sch"
  by (simp_all add: post_deferred_completions_def)

lemma run_task_frame [simp]:
  "queued_ops (Scheduler.op_queue (fst (run_task [] q (sch, new_thread_info)))) = queued_ops q"
  "outstanding_work (fst (run_task [] q (sch, new_thread_info))) = outstanding_work sch"
  "stopped (fst (run_task [] q (sch, new_thread_info))) = stopped sch"
  by (simp_all add: run_task_def task_cleanup_def new_thread_info_def Let_def)

lemma log_server_frame [simp]:
  "m_executor_guard (log_server a s) = m_executor_guard s"
  "m_acceptor (log_server a s) = m_acceptor s"
  "m_active_client_ids (log_server a s) = m_active_client_ids s"
  "m_received_messages (log_server a s) = m_received_messages s"
  "m_server_running (log_server a s) = m_server_running s"
  "m_active_connections (log_server a s) = m_active_connections s"
  "m_thread_pool (log_server a s) = m_thread_pool s"
  "id_tasks (log_server a s) = id_tasks s"
  "next_ref (log_server a s) = next_ref s"
  "sockets (log_server a s) = sockets s"
  "pending (log_server a s) = pending s"
  "running (log_server a s) = running s"
  "fault (log_server a s) = fault s"
  "handler_queue (log_server a s) = handler_queue s"
  "m_io_context (log_server a s) = m_io_context s"
  by (simp_all add: log_server_def handler_queue_def)

lemma log_error_frame [simp]:
  "m_executor_guard (log_error a s) = m_executor_guard s"
  "m_acceptor (log_error a s) = m_acceptor s"
  "m_active_client_ids (log_error a s) = m_active_client_ids s"
  "m_received_messages (log_error a s) = m_received_messages s"
  "m_server_running (log_error a s) = m_server_running s"
  "m_active_connections (log_error a s) = m_active_connections s"
  "m_thread_pool (log_error a s) = m_thread_pool s"
  "id_tasks (log_error a s) = id_tasks s"
  "next_ref (log_error a s) = next_ref s"
  "sockets (log_error a s) = sockets s"
  "pending (log_error a s) = pending s"
  "running (log_error a s) = running s"
  "fault (log_error a s) = fault s"
  "handler_queue (log_error a s) = handler_queue s"
  "m_io_context (log_error a s) = m_io_context s"
  by (simp_all add: log_error_def handler_queue_def)

lemma log_ec_frame [simp]:
  "m_executor_guard (log_ec env ec s) = m_executor_guard s"
  "m_acceptor (log_ec env ec s) = m_acceptor s"
  "m_active_client_ids (log_ec env ec s) = m_active_client_ids s"
  "m_received_messages (log_ec env ec s) = m_received_messages s"
  "m_server_running (log_ec env ec s) = m_server_running s"
  "m_active_connections (log_ec env ec s) = m_active_connections s"
  "m_thread_pool (log_ec env ec s) = m_thread_pool s"
  "id_tasks (log_ec env ec s) = id_tasks s"
  "next_ref (log_ec env ec s) = next_ref s"
  "sockets (log_ec env ec s) = sockets s"
  "pending (log_ec env ec s) = pending s"
  "running (log_ec env ec s) = running s"
  "fault (log_ec env ec s) = fault s"
  "handler_queue (log_ec env ec s) = handler_queue s"
  "m_io_context (log_ec env ec s) = m_io_context s"
  by (simp_all add: log_ec_def)

lemma raise_frame [simp]:
  "m_executor_guard (raise e s) = m_executor_guard s"
  "m_acceptor (raise e s) = m_acceptor s"
  "m_active_client_ids (raise e s) = m_active_client_ids s"
  "m_received_messages (raise e s) = m_received_messages s"
  "m_server_running (raise e s) = m_server_running s"
  "m_active_connections (raise e s) = m_active_connections s"
  "m_thread_pool (raise e s) = m_thread_pool s"
  "id_tasks (raise e s) = id_tasks s"
  "next_ref (raise e s) = next_ref s"
  "sockets (raise e s) = sockets s"
  "pending (raise e s) = pending s"
  "running (raise e s) = running s"
  "handler_queue (raise e s) = handler_queue s"
  "m_io_context (raise e s) = m_io_context s"
  by (simp_all add: raise_def handler_queue_def)

lemma io_post_frame [simp]:
  "m_executor_guard (io_post h s) = m_executor_guard s"
  "m_acceptor (io_post h s) = m_acceptor s"
  "m_active_client_ids (io_post h s) = m_active_client_ids s"
  "m_received_messages (io_post h s) = m_received_messages s"
  "m_server_running (io_post h s) = m_server_running s"
  "m_active_connections (io_post h s) = m_active_connections s"
  "m_thread_pool (io_post h s) = m_thread_pool s"
  "id_tasks (io_post h s) = id_tasks s"
  "next_ref (io_post h s) = next_ref s"
  "sockets (io_post h s) = sockets s"
  "pending (io_post h s) = pending s"
  "running (io_post h s) = running s"
  "fault (io_post h s) = fault s"
  by (simp_all add: io_post_def)

lemma start_async_frame [simp]:
  "m_executor_guard (start_async op s) = m_executor_guard s"
  "m_acceptor (start_async op s) = m_acceptor s"
  "m_active_client_ids (start_async op s) = m_active_client_ids s"
  "m_received_messages (start_async op s) = m_received_messages s"
  "m_server_running (start_async op s) = m_server_running s"
  "m_active_connections (start_async op s) = m_active_connections s"
  "m_thread_pool (start_async op s) = m_thread_pool s"
  "id_tasks (start_async op s) = id_tasks s"
  "next_ref (start_async op s) = next_ref s"
  "sockets (start_async op s) = sockets s"
  "running (start_async op s) = running s"
  "fault (start_async op s) = fault s"
  by (simp_all add: start_async_def)

lemma abort_accepts_frame [simp]:
  "m_executor_guard (abort_accepts s) = m_executor_guard s"
  "m_acceptor (abort_accepts s) = m_acceptor s"
  "m_active_client_ids (abort_accepts s) = m_active_client_ids s"
  "m_received_messages (abort_accepts s) = m_received_messages s"
  "m_server_running (abort_accepts s) = m_server_running s"
  "m_active_connections (abort_accepts s) = m_active_connections s"
  "m_thread_pool (abort_accepts s) = m_thread_pool s"
  "id_tasks (abort_accepts s) = id_tasks s"
  "next_ref (abort_accepts s) = next_ref s"
  "sockets (abort_accepts s) = sockets s"
  "running (abort_accepts s) = running s"
  "fault (abort_accepts s) = fault s"
  by (simp_all add: abort_accepts_def)

lemma io_post_effect [simp]:
  "handler_queue (io_post h s) = handler_queue s @ [h]"
  "work_count (io_post h s) = work_count s + 1"
  "loop_stopped (io_post h s) = loop_stopped s"
  by (simp_all add: io_post_def handler_queue_def)

lemma start_async_effect [simp]:
  "handler_queue (start_async op s) = handler_queue s"
  "pending (start_async op s) = pending s @ [op]"
  "work_count (start_async op s) = work_count s + 1"
  "loop_stopped (start_async op s) = loop_stopped s"
  by (simp_all add: start_async_def handler_queue_def)

lemma abort_accepts_effect [simp]:
  "handler_queue (abort_accepts s) = handler_queue s @ concat (map aborted_accept (pending s))"
  "pending (abort_accepts s) = filter (\<lambda>op. aborted_accept op = []) (pending s)"
  "work_count (abort_accepts s) = work_count s"
  "loop_stopped (abort_accepts s) = loop_stopped s"
  by (simp_all add: abort_accepts_def handler_queue_def)

lemma raise_fault [simp]: "fault (raise e s) = Some (Uncaught_exception e)"
  by (simp add: raise_def)

lemma handler_queue_frame [simp]:
  "handler_queue (s\<lparr>m_executor_guard := v_m_executor_guard\<rparr>) = handler_queue s"
  "handler_queue (s\<lparr>m_acceptor := v_m_acceptor\<rparr>) = handler_queue s"
  "handler_queue (s\<lparr>m_active_client_ids := v_m_active_client_ids\<rparr>) = handler_queue s"
  "handler_queue (s\<lparr>m_received_messages := v_m_received_messages\<rparr>) = handler_queue s"
  "handler_queue (s\<lparr>m_server_running := v_m_server_running\<rparr>) = handler_queue s"
  "handler_queue (s\<lparr>m_active_connections := v_m_active_connections\<rparr>) = handler_queue s"
  "handler_queue (s\<lparr>m_thread_pool := v_m_thread_pool\<rparr>) = handler_queue s"
  "handler_queue (s\<lparr>id_tasks := v_id_tasks\<rparr>) = handler_queue s"
  "handler_queue (s\<lparr>next_ref := v_next_ref\<rparr>) = handler_queue s"
  "handler_queue (s\<lparr>pending := v_pending\<rparr>) = handler_queue s"
  "handler_queue (s\<lparr>running := v_running\<rparr>) = handler_queue s"
  "handler_queue (s\<lparr>fault := v_fault\<rparr>) = handler_queue s"
  "handler_queue (s\<lparr>m_logger := v_m_logger\<rparr>) = handler_queue s"
  "handler_queue (s\<lparr>sockets := v_sockets\<rparr>) = handler_queue s"
  "handler_queue (s\<lparr>m_ssl_context := v_m_ssl_context\<rparr>) = handler_queue s"
  by (simp_all add: handler_queue_def)

section \<open>What a handler leaves behind\<close>

definition listen_fails :: "env \<Rightarrow> server \<Rightarrow> bool" where
  "listen_fails env s \<longleftrightarrow> ec_failed (sock_listen (os_listen env) (m_acceptor s))"

definition accept_fails :: "env \<Rightarrow> sock_ref \<Rightarrow> error_code + nat \<Rightarrow> server \<Rightarrow> bool" where
  "accept_fails env sock r s \<longleftrightarrow> ec_failed (fst (assign_peer env sock r s))"

definition available_fails :: "env \<Rightarrow> sock_ref \<Rightarrow> server \<Rightarrow> bool" where
  "available_fails env sock s \<longleftrightarrow> ec_failed (fst (sock_available (os_available env) (sockets s sock)))"

fun posted :: "env \<Rightarrow> handler \<Rightarrow> server \<Rightarrow> handler list" where
  "posted env Run_listen s =
     (if listen_fails env s then []
      else if m_active_connections s > max_connections then [Run_connection_timeout]
      else [Run_client_id_task (next_ref s)])"
| "posted env (On_connection_attempt sock t r) s =
     (if accept_fails env sock r s then []
      else [Run_attempt_handshake sock (the (id_tasks s t)), Run_listen])"
| "posted env (On_timeout ec) s = (if ec_failed ec then [] else [Run_listen])"
| "posted env (On_handshake sock i ec) s =
     (if ec_failed ec then [Run_shutdown_socket sock i] else [Run_read_message sock i])"
| "posted env (On_read_wait_over sock i ec) s =
     (if ec_failed ec then [Run_shutdown_socket sock i] else [])"
| "posted env (On_read sock i buf ec n) s =
     (if received_valid_message ec n
      then [Run_process_message \<lparr>nm_ssl_socket = sock, nm_content = buf, nm_client_id = i\<rparr> ec]
      else [Run_shutdown_socket sock i])"
| "posted env (Run_process_message m ec) s =
     (if ec_failed ec then [] else [Run_read_message (nm_ssl_socket m) (nm_client_id m)])"
| "posted env (On_write sock i ec n) s = [Run_shutdown_socket sock i]"
| "posted env _ s = []"

definition response :: "Network_message \<Rightarrow> server \<Rightarrow> string" where
  "response m s =
     (case m_received_messages s (nm_client_id m) of None \<Rightarrow> [] | Some old \<Rightarrow> old) @ nm_content m"

fun started :: "env \<Rightarrow> handler \<Rightarrow> server \<Rightarrow> async_op list" where
  "started env Run_listen s =
     (if listen_fails env s \<or> m_active_connections s > max_connections then []
      else [Async_accept (Suc (next_ref s)) (next_ref s)])"
| "started env Run_connection_timeout s = (if is_open (m_acceptor s) then [Async_timer] else [])"
| "started env (Run_attempt_handshake sock i) s = [Async_handshake sock i]"
| "started env (Run_read_message sock i) s = [Async_wait_read sock i]"
| "started env (On_read_wait_over sock i ec) s =
     (if ec_failed ec \<or> available_fails env sock s then []
      else [Async_read sock i
              (replicate (snd (sock_available (os_available env) (sockets s sock))) (char_of (0::nat)))])"
| "started env (Run_process_message m ec) s =
     (if ec_failed ec then [Async_write (nm_ssl_socket m) (nm_client_id m) (response m s)] else [])"
| "started env _ s = []"

fun aborts :: "handler \<Rightarrow> server \<Rightarrow> bool" where
  "aborts Run_connection_timeout s \<longleftrightarrow> is_open (m_acceptor s)"
| "aborts _ s \<longleftrightarrow> False"

lemmas method_defs =
  listen_def connection_timeout_def client_id_task_def attempt_handshake_def read_message_def
  process_message_def complete_accept_def on_connection_attempt_def on_timeout_def on_handshake_def
  on_read_wait_over_def on_read_def on_write_def async_accept_def and_then_def acceptor_cancel_def

lemma listen_ok_open: "\<not> listen_fails env s \<Longrightarrow> is_open (m_acceptor s)"
  by (cases "is_open (m_acceptor s)") (simp_all add: listen_fails_def closed_bad_descriptor)

lemma cancel_fails [simp]: "ec_failed (sock_cancel impl) \<longleftrightarrow> \<not> is_open impl"
  by (cases "is_open impl") (simp_all add: closed_bad_descriptor)

lemma throw_error_cases:
  "(case throw_error ec l of Some e \<Rightarrow> f e | None \<Rightarrow> g)
     = (if ec_failed ec then f \<lparr>se_code = ec, se_location = l\<rparr> else g)"
  by (simp add: throw_error_def)

lemma shutdown_socket_frame [simp]:
  "handler_queue (shutdown_socket env sock i s) = handler_queue s"
  "pending (shutdown_socket env sock i s) = pending s"
  "running (shutdown_socket env sock i s) = running s"
  "m_io_context (shutdown_socket env sock i s) = m_io_context s"
  "id_tasks (shutdown_socket env sock i s) = id_tasks s"
  "next_ref (shutdown_socket env sock i s) = next_ref s"
  "m_received_messages (shutdown_socket env sock i s) = m_received_messages s"
  "m_executor_guard (shutdown_socket env sock i s) = m_executor_guard s"
  "m_server_running (shutdown_socket env sock i s) = m_server_running s"
  "m_acceptor (shutdown_socket env sock i s) = m_acceptor s"
  "m_thread_pool (shutdown_socket env sock i s) = m_thread_pool s"
  by (simp_all add: shutdown_socket_def throw_error_cases Let_def split: prod.splits)

lemma exec_queue:
  "handler_queue (exec env h s)
     = handler_queue s @ (if aborts h s then concat (map aborted_accept (pending s)) else [])
         @ posted env h s"
  by (cases h)
    (auto simp: method_defs throw_error_cases accept_fails_def available_fails_def Let_def
      listen_fails_def [symmetric] listen_ok_open split: prod.splits option.splits)

lemma exec_pending:
  "fault s = None \<Longrightarrow> pending (exec env h s)
     = (if aborts h s then filter (\<lambda>op. aborted_accept op = []) (pending s) else pending s)
         @ started env h s"
  by (cases h)
    (auto simp: method_defs throw_error_cases accept_fails_def available_fails_def response_def
      Let_def
      listen_fails_def [symmetric] listen_ok_open split: prod.splits option.splits)


section \<open>Weights summed over the tokens\<close>

lemma sum_list_remove_nth:
  fixes f :: "'a \<Rightarrow> 'm :: comm_monoid_add"
  assumes "n < length xs"
  shows "sum_list (map f xs) = f (xs ! n) + sum_list (map f (remove_nth n xs))"
proof -
  have "sum_list (map f xs) = sum_list (map f (take n xs @ xs ! n # drop (Suc n) xs))"
    using assms by (simp add: id_take_nth_drop [symmetric])
  then show ?thesis by (simp add: remove_nth_def ac_simps)
qed

locale token_measure =
  fixes hm :: "handler \<Rightarrow> 'm :: comm_monoid_add"
    and om :: "async_op \<Rightarrow> 'm"
  assumes completion_keeps: "completion_handler op r = Some h \<Longrightarrow> hm h = om op"
    and abort_keeps: "aborted_accept op = [h] \<Longrightarrow> hm h = om op"
begin

definition total :: "server \<Rightarrow> 'm" where
  "total s = sum_list (map hm (handler_queue s)) + sum_list (map hm (running s))
     + sum_list (map om (pending s))"

definition gain :: "env \<Rightarrow> handler \<Rightarrow> server \<Rightarrow> 'm" where
  "gain env h s = sum_list (map hm (posted env h s)) + sum_list (map om (started env h s))"

lemma abort_sum:
  "sum_list (map hm (concat (map aborted_accept ops)))
     + sum_list (map om (filter (\<lambda>op. aborted_accept op = []) ops)) = sum_list (map om ops)"
proof (induction ops)
  case (Cons op ops)
  show ?case
  proof (cases "\<exists>sock t. op = Async_accept sock t")
    case True
    then obtain h where "aborted_accept op = [h]" by auto
    then show ?thesis using Cons abort_keeps [of op h] by (simp add: ac_simps)
  next
    case False
    then have "aborted_accept op = []" by (cases op) auto
    then show ?thesis using Cons by (simp add: ac_simps)
  qed
qed simp

lemma total_abort [simp]: "total (abort_accepts s) = total s"
  using abort_sum [of "pending s"] by (simp add: total_def ac_simps)

lemma total_io_post [simp]: "total (io_post h s) = hm h + total s"
  by (simp add: total_def ac_simps)

lemma total_frame:
  "handler_queue s' = handler_queue s \<Longrightarrow> running s' = running s \<Longrightarrow> pending s' = pending s
     \<Longrightarrow> total s' = total s"
  by (simp add: total_def)

lemma running_frame: "running (exec env h s) = running s"
  by (cases h)
    (auto simp: method_defs throw_error_cases Let_def split: prod.splits option.splits)

lemma total_exec:
  assumes "fault s = None"
  shows "total (exec env h s) = gain env h s + total s"
proof (cases "aborts h s")
  case True
  then show ?thesis
    using abort_sum [of "pending s"] assms
    by (simp add: total_def gain_def exec_queue exec_pending running_frame ac_simps)
next
  case False
  then show ?thesis
    using assms by (simp add: total_def gain_def exec_queue exec_pending running_frame ac_simps)
qed

lemma total_remove_running:
  "n < length (running s) \<Longrightarrow>
     total s = hm (running s ! n) + total (s\<lparr>running := remove_nth n (running s)\<rparr>)"
  by (simp add: total_def sum_list_remove_nth ac_simps)

lemma total_finish [simp]: "total (finish_handler s) = total s"
  by (rule total_frame) (simp_all add: finish_handler_def handler_queue_def)

lemma total_run:
  assumes "fault s = None" "n < length (running s)"
  shows "total (finish_handler (exec env (running s ! n) (s\<lparr>running := remove_nth n (running s)\<rparr>)))
           + hm (running s ! n)
         = gain env (running s ! n) (s\<lparr>running := remove_nth n (running s)\<rparr>) + total s"
  using assms by (simp add: total_exec total_remove_running ac_simps)

lemma total_complete:
  assumes "n < length (pending s)" "completion_handler (pending s ! n) r = Some h"
  shows "total (s\<lparr>pending := remove_nth n (pending s),
               m_io_context := fst (post_deferred_completion h (m_io_context s, None))\<rparr>) = total s"
  using assms completion_keeps [OF assms(2)]
  by (simp add: total_def handler_queue_def sum_list_remove_nth [of n "pending s"] ac_simps)

lemma total_take:
  assumes "Scheduler.op_queue (m_io_context s) = Op h # q"
  shows "total (s\<lparr>m_io_context := (m_io_context s)\<lparr>Scheduler.op_queue := q\<rparr>,
               running := running s @ [h]\<rparr>) = total s"
  using assms by (simp add: total_def handler_queue_def ac_simps)

lemma total_reactor:
  assumes "Scheduler.op_queue (m_io_context s) = Task_operation # q"
  shows "total (s\<lparr>m_io_context := fst (run_task [] q (m_io_context s, new_thread_info))\<rparr>) = total s"
  using assms by (simp add: total_def handler_queue_def)

end

end
