(* ===== verification/Server_Lifecycle.thy ===== *)
theory Server_Lifecycle
  imports Server_Tokens
begin

text \<open>
  The life of the server as \<open>main\<close> drives it: what holds before \<open>start\<close>, while it serves, and
  after \<open>shutdown\<close>. The induction rule \<open>reachable_server_induct\<close> at the end is the form in which the
  other invariants are proved: the steps that only move tokens are one case.
\<close>

section \<open>Effects of the methods on the life of the server\<close>

lemma exec_life_frame [simp]:
  "m_server_running (exec env h s) = m_server_running s"
  "m_executor_guard (exec env h s) = m_executor_guard s"
  "m_acceptor (exec env h s) = m_acceptor s"
  "m_thread_pool (exec env h s) = m_thread_pool s"
  "loop_stopped (exec env h s) = loop_stopped s"
  by (cases h;
      auto simp: method_defs throw_error_cases Let_def split: prod.splits option.splits)+

lemma finish_handler_frame [simp]:
  "m_server_running (finish_handler s) = m_server_running s"
  "m_executor_guard (finish_handler s) = m_executor_guard s"
  "m_acceptor (finish_handler s) = m_acceptor s"
  "m_thread_pool (finish_handler s) = m_thread_pool s"
  "m_active_client_ids (finish_handler s) = m_active_client_ids s"
  "m_received_messages (finish_handler s) = m_received_messages s"
  "m_active_connections (finish_handler s) = m_active_connections s"
  "id_tasks (finish_handler s) = id_tasks s"
  "next_ref (finish_handler s) = next_ref s"
  "pending (finish_handler s) = pending s"
  "running (finish_handler s) = running s"
  "fault (finish_handler s) = fault s"
  "handler_queue (finish_handler s) = handler_queue s"
  "work_count (finish_handler s) = work_count s - 1"
  "loop_stopped (finish_handler s) \<longleftrightarrow> loop_stopped s \<or> work_count s = 1"
  by (simp_all add: finish_handler_def handler_queue_def)

text \<open>A server that was not started.\<close>

lemma new_server_data [simp]:
  "fault (new_server th port dir) = None"
  "m_server_running (new_server th port dir) = False"
  "m_executor_guard (new_server th port dir)"
  "\<not> is_open (m_acceptor (new_server th port dir))"
  "m_active_client_ids (new_server th port dir) = {}"
  "m_received_messages (new_server th port dir) = Map.empty"
  "m_active_connections (new_server th port dir) = 0"
  "id_tasks (new_server th port dir) = (\<lambda>_. None)"
  "next_ref (new_server th port dir) = 0"
  "pending (new_server th port dir) = []"
  "running (new_server th port dir) = []"
  "handler_queue (new_server th port dir) = []"
  "work_count (new_server th port dir) = 1"
  "loop_stopped (new_server th port dir) = False"
  by (simp_all add: new_server_def work_guard_new_def new_scheduler_def init_task_def handler_queue_def
      Let_def)

lemma new_server_capacity [simp]: "capacity (new_server th port dir) = 0"
proof -
  have "ucast c \<le> (0x7FFFFFFF :: u64)" for c :: u8
  proof -
    have "unat (ucast c :: u64) \<le> unat c"
      by (simp add: unsigned_ucast_eq take_bit_nat_less_eq_self)
    moreover have "unat c < 2 ^ 8" using unsigned_less [of c, where 'a = nat] by simp
    ultimately have "unat (ucast c :: u64) \<le> unat (0x7FFFFFFF :: u64)" by simp
    then show ?thesis by (simp add: word_le_nat_alt)
  qed
  then show ?thesis
    by (simp add: capacity_def new_server_def work_guard_new_def new_thread_pool_def
        clamp_thread_pool_size_def new_scheduler_def linorder_not_le [symmetric] Let_def)
qed


text \<open>\<open>start\<close> from there: the workers do not touch the event loop's state.\<close>

lemma post_workers_frame:
  "\<exists>p. (post_worker ^^ k) s = s\<lparr>m_thread_pool := p\<rparr>"
proof (induction k)
  case 0
  show ?case by (rule exI [of _ "m_thread_pool s"]) simp
next
  case (Suc k)
  then obtain p where "(post_worker ^^ k) s = s\<lparr>m_thread_pool := p\<rparr>" ..
  then have "(post_worker ^^ Suc k) s = post_worker (s\<lparr>m_thread_pool := p\<rparr>)" by simp
  also have "\<dots> = s\<lparr>m_thread_pool := m_thread_pool (post_worker (s\<lparr>m_thread_pool := p\<rparr>))\<rparr>"
    by (simp add: post_worker_def)
  finally show ?case by blast
qed

text \<open>
  A certificate or key that cannot be read makes \<open>configure_ssl_context\<close> call \<open>shutdown\<close>, whose
  \<open>cancel\<close> throws because the acceptor was never opened.
\<close>

lemma shutdown_before_open:
  "m_server_running s \<Longrightarrow> \<not> is_open (m_acceptor s) \<Longrightarrow>
     fault (shutdown env s) = Some (Uncaught_exception
       \<lparr>se_code = make_basic_error bad_descriptor, se_location = ''cancel''\<rparr>)"
  by (simp add: shutdown_def shutdown_begin_def and_then_def acceptor_cancel_def throw_error_cases
      closed_bad_descriptor Let_def split: prod.splits)

lemma configure_ssl_ok:
  assumes "m_server_running s" "\<not> is_open (m_acceptor s)"
    and "fault (configure_ssl_context env s) = None"
  shows "\<exists>ctx. configure_ssl_context env s = s\<lparr>m_ssl_context := ctx\<rparr>"
  using assms
  by (auto simp: configure_ssl_context_def throw_error_cases shutdown_before_open Let_def
      split: prod.splits if_splits)

lemma configure_acceptor_frame [simp]:
  "m_server_running (configure_acceptor env s) = m_server_running s"
  "m_executor_guard (configure_acceptor env s) = m_executor_guard s"
  "m_active_client_ids (configure_acceptor env s) = m_active_client_ids s"
  "m_received_messages (configure_acceptor env s) = m_received_messages s"
  "m_active_connections (configure_acceptor env s) = m_active_connections s"
  "id_tasks (configure_acceptor env s) = id_tasks s"
  "next_ref (configure_acceptor env s) = next_ref s"
  "pending (configure_acceptor env s) = pending s"
  "running (configure_acceptor env s) = running s"
  "m_io_context (configure_acceptor env s) = m_io_context s"
  "handler_queue (configure_acceptor env s) = handler_queue s"
  by (simp_all add: configure_acceptor_def throw_error_cases Let_def split: prod.splits)

lemma configure_acceptor_ok:
  assumes "fault s = None" "fault (configure_acceptor env s) = None" "\<not> is_open (m_acceptor s)"
  shows "is_open (m_acceptor (configure_acceptor env s))"
  using assms
  by (auto simp: configure_acceptor_def throw_error_cases do_open_def sock_set_option_def is_open_def
      get_last_error_def ec_failed_def ops_setsockopt_def make_basic_error_def Let_def
      split: prod.splits if_splits sum.splits)


definition started_server :: "server \<Rightarrow> bool" where
  "started_server s \<longleftrightarrow>
     m_server_running s \<and> m_executor_guard s \<and> is_open (m_acceptor s) \<and> \<not> loop_stopped s \<and>
     handler_queue s = [Run_listen] \<and> work_count s = 2"

definition fresh_server :: "server \<Rightarrow> bool" where
  "fresh_server s \<longleftrightarrow>
     m_active_client_ids s = {} \<and> m_received_messages s = Map.empty \<and> m_active_connections s = 0 \<and>
     pending s = [] \<and> running s = [] \<and> fault s \<noteq> Some Assertion_failed \<and>
     (handler_queue s = [] \<or> handler_queue s = [Run_listen])"

lemma fresh_configure_ssl:
  assumes "fresh_server s" "m_server_running s" "\<not> is_open (m_acceptor s)"
  shows "fresh_server (configure_ssl_context env s)"
proof -
  have "fresh_server (shutdown env s')"
    if "fresh_server s'" "m_server_running s'" "\<not> is_open (m_acceptor s')" for s'
    using that
    by (auto simp: fresh_server_def shutdown_def shutdown_begin_def and_then_def acceptor_cancel_def
        throw_error_cases closed_bad_descriptor work_guard_reset_def handler_queue_def Let_def
        split: prod.splits)
  then show ?thesis
    using assms
    by (simp add: configure_ssl_context_def throw_error_cases fresh_server_def Let_def
        split: prod.splits)
qed

lemma fresh_configure_acceptor:
  "fresh_server s \<Longrightarrow> fresh_server (configure_acceptor env s)"
  by (simp add: fresh_server_def)
    (simp add: configure_acceptor_def throw_error_cases Let_def split: prod.splits)

lemma start_new_server:
  "fresh_server (start env (new_server th port dir))"
  "fault (start env (new_server th port dir)) = None \<Longrightarrow>
     started_server (start env (new_server th port dir))"
proof -
  let ?s0 = "(new_server th port dir)\<lparr>m_server_running := True\<rparr>"
  obtain p where p: "(post_worker ^^ unat (m_thread_count ?s0)) ?s0 = ?s0\<lparr>m_thread_pool := p\<rparr>"
    using post_workers_frame by blast
  define s1 where "s1 = log_server [Log_str ''started with'', Log_num (unat (m_thread_count ?s0)),
    Log_str ''threads''] (?s0\<lparr>m_thread_pool := p\<rparr>)"
  define s2 where "s2 = configure_ssl_context env s1"
  have start: "start env (new_server th port dir)
      = (if fault s2 = None then and_then (configure_acceptor env) (io_post Run_listen) s2 else s2)"
    using p by (simp add: start_def and_then_def s1_def s2_def Let_def)
  have s1: "fresh_server s1" "m_server_running s1" "\<not> is_open (m_acceptor s1)" "m_executor_guard s1"
    "handler_queue s1 = []" "work_count s1 = 1" "\<not> loop_stopped s1"
    by (simp_all add: s1_def fresh_server_def)
  then have s2: "fresh_server s2" unfolding s2_def by (intro fresh_configure_ssl)
  have "fresh_server (configure_acceptor env s2)" using s2 by (rule fresh_configure_acceptor)
  moreover have "handler_queue (configure_acceptor env s2) = []" if "fault s2 = None"
    using configure_ssl_ok [OF s1(2,3), of env] that s1(5) by (auto simp: s2_def)
  ultimately show "fresh_server (start env (new_server th port dir))"
    unfolding start using s2 by (simp add: and_then_def fresh_server_def Let_def)
  show "started_server (start env (new_server th port dir))"
    if ok: "fault (start env (new_server th port dir)) = None"
  proof -
    have f2: "fault s2 = None" using ok by (simp add: start split: if_splits)
    then obtain ctx where ctx: "s2 = s1\<lparr>m_ssl_context := ctx\<rparr>"
      unfolding s2_def using configure_ssl_ok [OF s1(2,3)] by blast
    have "fault (configure_acceptor env s2) = None"
      using ok f2 by (auto simp: start and_then_def Let_def split: if_splits)
    moreover have "is_open (m_acceptor (configure_acceptor env s2))"
      using configure_acceptor_ok [OF f2 calculation] s1 by (simp add: ctx)
    ultimately show ?thesis
      using s1 f2 by (simp add: start and_then_def started_server_def ctx Let_def)
  qed
qed


section \<open>Shutdown\<close>

lemma shutdown_begin_frame [simp]:
  "m_active_client_ids (shutdown_begin env s) = m_active_client_ids s"
  "m_received_messages (shutdown_begin env s) = m_received_messages s"
  "m_active_connections (shutdown_begin env s) = m_active_connections s"
  "id_tasks (shutdown_begin env s) = id_tasks s"
  "next_ref (shutdown_begin env s) = next_ref s"
  "running (shutdown_begin env s) = running s"
  "m_thread_pool (shutdown_begin env s) = m_thread_pool s"
  by (simp_all add: shutdown_begin_def and_then_def acceptor_cancel_def acceptor_close_def
      throw_error_cases Let_def split: prod.splits)

lemma filter_aborted_twice [simp]:
  "concat (map aborted_accept (filter (\<lambda>op. aborted_accept op = []) ops)) = []"
  by (induction ops) auto

lemma guard_reset_queue [simp]:
  "Scheduler.op_queue (snd (work_guard_reset (g, sch))) = Scheduler.op_queue sch"
  by (simp add: work_guard_reset_def)

lemma shutdown_begin_queue:
  assumes "m_server_running s" "fault s = None"
  shows "handler_queue (shutdown_begin env s) = handler_queue s
           @ (if is_open (m_acceptor s) then concat (map aborted_accept (pending s)) else [])"
    and "pending (shutdown_begin env s)
           = (if is_open (m_acceptor s) then filter (\<lambda>op. aborted_accept op = []) (pending s)
              else pending s)"
    and "m_executor_guard (shutdown_begin env s) = False"
    and "m_server_running (shutdown_begin env s) = False"
    and "work_count (shutdown_begin env s) = work_count s - (if m_executor_guard s then 1 else 0)"
    and "fault (shutdown_begin env s) \<noteq> Some Assertion_failed"
  using assms
  by (simp_all add: shutdown_begin_def and_then_def acceptor_cancel_def acceptor_close_def handler_queue_def
      work_guard_reset_def abort_accepts_def throw_error_cases Let_def split: prod.splits)

lemma shutdown_begin_ok:
  assumes "m_server_running s" "fault s = None" "fault (shutdown_begin env s) = None"
  shows "\<not> is_open (m_acceptor (shutdown_begin env s))" "loop_stopped (shutdown_begin env s)"
proof -
  have "\<not> is_open impl" if "sock_close r1 r2 a = (ec, impl)" for r1 r2 a ec impl
    using that sock_close_closes [of r1 r2 a] by simp
  then show "\<not> is_open (m_acceptor (shutdown_begin env s))" "loop_stopped (shutdown_begin env s)"
    using assms
    by (auto simp: shutdown_begin_def and_then_def acceptor_cancel_def acceptor_close_def
        throw_error_cases Let_def split: prod.splits if_splits)
qed

section \<open>The life of the server\<close>

fun life :: "main_pc \<Rightarrow> server \<Rightarrow> bool" where
  "life Main_start s \<longleftrightarrow> (\<exists>th port dir. s = new_server th port dir)"
| "life Main_sleep s \<longleftrightarrow> m_server_running s \<and> m_executor_guard s \<and> is_open (m_acceptor s)"
| "life Main_join s \<longleftrightarrow>
     \<not> m_server_running s \<and> \<not> m_executor_guard s \<and> \<not> is_open (m_acceptor s) \<and> loop_stopped s"
| "life Main_end s \<longleftrightarrow>
     \<not> m_server_running s \<and> \<not> m_executor_guard s \<and> \<not> is_open (m_acceptor s) \<and> loop_stopped s"

definition quiet_action :: "action \<Rightarrow> bool" where
  "quiet_action a \<longleftrightarrow> (case a of Join \<Rightarrow> True | Reactor \<Rightarrow> True | Take \<Rightarrow> True | Complete n r \<Rightarrow> True | _ \<Rightarrow> False)"

definition same_data :: "server \<Rightarrow> server \<Rightarrow> bool" where
  "same_data s s' \<longleftrightarrow>
     m_active_client_ids s' = m_active_client_ids s \<and> m_received_messages s' = m_received_messages s \<and>
     m_active_connections s' = m_active_connections s \<and> id_tasks s' = id_tasks s \<and>
     next_ref s' = next_ref s \<and> fault s' = fault s \<and> m_executor_guard s' = m_executor_guard s \<and>
     m_server_running s' = m_server_running s \<and> m_acceptor s' = m_acceptor s \<and>
     work_count s' = work_count s \<and> loop_stopped s' = loop_stopped s"

lemma quiet_same_data:
  "step (pc, s) a (pc', s') \<Longrightarrow> quiet_action a \<Longrightarrow> same_data s s'"
  by (auto simp: quiet_action_def same_data_def step_simps shutdown_join_def split: action.splits)

lemma quiet_pc:
  "step (pc, s) a (pc', s') \<Longrightarrow> quiet_action a \<Longrightarrow> pc' = pc \<or> pc = Main_join \<and> pc' = Main_end"
  by (auto simp: quiet_action_def step_simps split: action.splits)

lemma no_step_before_start:
  "step (Main_start, new_server th port dir) a c' \<Longrightarrow> \<exists>env. a = Start env"
  by (cases a) (auto simp: step_simps can_take_def)

text \<open>The actions that are not quiet: start, shutdown and the run of a handler.\<close>

lemma step_kinds:
  assumes "step (pc, s) a (pc', s')"
  obtains (Start) env where "a = Start env" "pc = Main_start" "pc' = Main_sleep" "s' = start env s"
  | (Shutdown) env where "a = Shutdown env" "pc = Main_sleep" "pc' = Main_join" "m_server_running s"
      "s' = shutdown_begin env s"
  | (Not_running) env where "a = Shutdown env" "pc = Main_sleep" "pc' = Main_end"
      "\<not> m_server_running s" "s' = s"
  | (Quiet) "quiet_action a" "handler_run (pc, s) a = []"
  | (Run) env n where "a = Run env n" "pc' = pc" "n < length (running s)"
      "can_finish env (running s ! n) s"
      "s' = finish_handler (exec env (running s ! n) (s\<lparr>running := remove_nth n (running s)\<rparr>))"
proof (cases a)
  case (Start env)
  then show thesis using assms that(1) by (auto simp: step_simps)
next
  case (Shutdown env)
  then show thesis using assms that(2,3) by (auto simp: step_simps)
next
  case (Run env n)
  then show thesis using assms that(5) by (auto simp: step_simps)
qed (auto simp: quiet_action_def intro: that(4))

lemma step_fault: "step (pc, s) a c' \<Longrightarrow> fault s = None"
  by (cases a) (auto simp: step_simps)

lemma reachable_life_aux:
  "reachable hist c \<Longrightarrow>
     (fst c = Main_start \<longrightarrow> hist = [] \<and> life (fst c) (snd c)) \<and>
     (fault (snd c) = None \<longrightarrow> life (fst c) (snd c))"
proof (induction rule: reachable.induct)
  case (reachable_init threads port dir)
  show ?case by auto
next
  case (reachable_step hist c a c')
  obtain pc s pc' s' where c: "c = (pc, s)" "c' = (pc', s')" by (cases c, cases c') auto
  from reachable_step have st: "step (pc, s) a (pc', s')" by (simp add: c)
  then have "fault s = None" by (rule step_fault)
  then have l: "life pc s" using reachable_step.IH by (simp add: c)
  have ns: "pc \<noteq> Main_start" if "\<nexists>env. a = Start env"
    using l st that by (cases pc) (auto dest: no_step_before_start)
  from st have "(pc' = Main_start \<longrightarrow> hist @ handler_run (pc, s) a = [] \<and> life pc' s') \<and>
      (fault s' = None \<longrightarrow> life pc' s')"
  proof (cases rule: step_kinds)
    case (Start env)
    then obtain th port dir where "s' = start env (new_server th port dir)" using l by auto
    then show ?thesis using Start start_new_server(2) by (auto simp: started_server_def)
  next
    case (Shutdown env)
    then show ?thesis
      using shutdown_begin_ok [of s env] shutdown_begin_queue(3,4) [of s env] \<open>fault s = None\<close> by simp
  next
    case Not_running
    then show ?thesis using l by simp
  next
    case Quiet
    then have "pc \<noteq> Main_start" using ns by (cases a) (auto simp: quiet_action_def)
    then show ?thesis
      using quiet_same_data [OF st Quiet(1)] quiet_pc [OF st Quiet(1)] l
      by (cases pc) (auto simp: same_data_def)
  next
    case (Run env n)
    then have "pc \<noteq> Main_start" using ns by auto
    then show ?thesis using Run l by (cases pc) auto
  qed
  then show ?case by (simp add: c)
qed

lemma reachable_life: "reachable hist (pc, s) \<Longrightarrow> fault s = None \<Longrightarrow> life pc s"
  using reachable_life_aux by fastforce

lemma reachable_main_start:
  "reachable hist (Main_start, s) \<Longrightarrow> hist = [] \<and> (\<exists>th port dir. s = new_server th port dir)"
  using reachable_life_aux by fastforce

section \<open>Induction over the reachable states\<close>

lemma reachable_server_induct_aux:
  assumes "reachable hist c"
    and init: "\<And>th port dir. P [] Main_start (new_server th port dir)"
    and start: "\<And>th port dir env. P [] Main_sleep (start env (new_server th port dir))"
    and shutdown: "\<And>hist s env. reachable hist (Main_sleep, s) \<Longrightarrow> P hist Main_sleep s \<Longrightarrow>
      fault s = None \<Longrightarrow> m_server_running s \<Longrightarrow> is_open (m_acceptor s) \<Longrightarrow> m_executor_guard s \<Longrightarrow>
      P hist Main_join (shutdown_begin env s)"
    and quiet: "\<And>hist pc s a pc' s'. reachable hist (pc, s) \<Longrightarrow> P hist pc s \<Longrightarrow> fault s = None \<Longrightarrow>
      step (pc, s) a (pc', s') \<Longrightarrow> quiet_action a \<Longrightarrow> same_data s s' \<Longrightarrow> P hist pc' s'"
    and run: "\<And>hist pc s env n. reachable hist (pc, s) \<Longrightarrow> P hist pc s \<Longrightarrow> fault s = None \<Longrightarrow>
      n < length (running s) \<Longrightarrow> can_finish env (running s ! n) s \<Longrightarrow>
      P (hist @ [running s ! n]) pc
        (finish_handler (exec env (running s ! n) (s\<lparr>running := remove_nth n (running s)\<rparr>)))"
  shows "P hist (fst c) (snd c)"
  using assms(1)
proof (induction rule: reachable.induct)
  case (reachable_init threads port dir)
  show ?case by (simp add: init)
next
  case (reachable_step hist c a c')
  obtain pc s pc' s' where c: "c = (pc, s)" "c' = (pc', s')" by (cases c, cases c') auto
  from reachable_step have st: "step (pc, s) a (pc', s')" and r: "reachable hist (pc, s)"
    and IH: "P hist pc s" by (simp_all add: c)
  from st have f: "fault s = None" by (rule step_fault)
  from r f have l: "life pc s" by (rule reachable_life)
  from st have "P (hist @ handler_run (pc, s) a) pc' s'"
  proof (cases rule: step_kinds)
    case (Start env)
    then show ?thesis using reachable_main_start [of hist s] r start by auto
  next
    case (Shutdown env)
    then show ?thesis using shutdown [of hist s env] r IH f l by simp
  next
    case Not_running
    then show ?thesis using l by simp
  next
    case Quiet
    then show ?thesis using quiet [OF r IH f st Quiet(1) quiet_same_data [OF st Quiet(1)]] by simp
  next
    case (Run env n)
    then show ?thesis using run [OF r IH f Run(3,4)] by simp
  qed
  then show ?case by (simp add: c)
qed

lemmas reachable_server_induct =
  reachable_server_induct_aux
    [where c = "(pc, s)" for pc s, simplified fst_conv snd_conv,
     consumes 1, case_names init start shutdown quiet run]

end
