(* ===== verification/Server_Invariants.thy ===== *)
theory Server_Invariants
  imports Server_Lifecycle
begin

text \<open>
  The invariants of the server over all interleavings: who holds which client id, the one chain of
  listen, accept and timeout, the packaged task that picks an id, the work count of the event loop
  and the counter of connections.
\<close>

section \<open>Totals along the steps of the program\<close>

context token_measure
begin

lemma total_join [simp]: "total (shutdown_join s) = total s"
  by (rule total_frame) (simp_all add: shutdown_join_def)

lemma total_quiet:
  "step (pc, s) a (pc', s') \<Longrightarrow> quiet_action a \<Longrightarrow> total s' = total s"
  by (cases a)
    (auto simp: quiet_action_def step_simps total_take total_complete total_reactor)

lemma total_shutdown_begin:
  assumes "m_server_running s" "fault s = None"
  shows "total (shutdown_begin env s) = total s"
  using abort_sum [of "pending s"] by (simp add: total_def shutdown_begin_queue [OF assms] ac_simps)

lemma total_new_server [simp]: "total (new_server th port dir) = 0"
  by (simp add: total_def)

lemma total_start:
  "total (start env (new_server th port dir)) = 0 \<or>
   total (start env (new_server th port dir)) = hm Run_listen"
  using start_new_server(1) [of env th port dir] by (auto simp: total_def fresh_server_def)

end

section \<open>The weights\<close>

text \<open>The client a token works for.\<close>

fun holder_h :: "handler \<Rightarrow> client_id multiset" where
  "holder_h (Run_attempt_handshake sock i) = {#i#}"
| "holder_h (Run_read_message sock i) = {#i#}"
| "holder_h (Run_process_message m ec) = {#nm_client_id m#}"
| "holder_h (Run_shutdown_socket sock i) = {#i#}"
| "holder_h (On_handshake sock i ec) = {#i#}"
| "holder_h (On_read_wait_over sock i ec) = {#i#}"
| "holder_h (On_read sock i buf ec n) = {#i#}"
| "holder_h (On_write sock i ec n) = {#i#}"
| "holder_h _ = {#}"

fun holder_o :: "async_op \<Rightarrow> client_id multiset" where
  "holder_o (Async_handshake sock i) = {#i#}"
| "holder_o (Async_wait_read sock i) = {#i#}"
| "holder_o (Async_read sock i buf) = {#i#}"
| "holder_o (Async_write sock i bytes) = {#i#}"
| "holder_o _ = {#}"

text \<open>The chain that listens: at each moment a \<open>listen\<close>, an accept or a timeout.\<close>

fun listener_h :: "handler \<Rightarrow> nat" where
  "listener_h Run_listen = 1"
| "listener_h Run_connection_timeout = 1"
| "listener_h (On_connection_attempt sock t r) = 1"
| "listener_h (On_timeout ec) = 1"
| "listener_h _ = 0"

fun listener_o :: "async_op \<Rightarrow> nat" where
  "listener_o (Async_accept sock t) = 1"
| "listener_o Async_timer = 1"
| "listener_o _ = 0"

text \<open>The packaged task of an accept.\<close>

fun accept_h :: "handler \<Rightarrow> task_ref multiset" where
  "accept_h (On_connection_attempt sock t r) = {#t#}"
| "accept_h _ = {#}"

fun accept_o :: "async_op \<Rightarrow> task_ref multiset" where
  "accept_o (Async_accept sock t) = {#t#}"
| "accept_o _ = {#}"

text \<open>
  Connections whose handshake is over, with success or not, and that were not yet shut down.
\<close>

fun established_h :: "handler \<Rightarrow> nat" where
  "established_h (Run_read_message sock i) = 1"
| "established_h (Run_process_message m ec) = 1"
| "established_h (Run_shutdown_socket sock i) = 1"
| "established_h (On_read_wait_over sock i ec) = 1"
| "established_h (On_read sock i buf ec n) = 1"
| "established_h (On_write sock i ec n) = 1"
| "established_h _ = 0"

fun established_o :: "async_op \<Rightarrow> nat" where
  "established_o (Async_wait_read sock i) = 1"
| "established_o (Async_read sock i buf) = 1"
| "established_o (Async_write sock i bytes) = 1"
| "established_o _ = 0"

text \<open>Every token once.\<close>

fun count_h :: "handler \<Rightarrow> nat" where
  "count_h h = 1"

fun count_o :: "async_op \<Rightarrow> nat" where
  "count_o op = 1"

lemma completion_handler_cases:
  assumes "completion_handler op r = Some h"
  obtains sock t a where "op = Async_accept sock t" "h = On_connection_attempt sock t a"
  | ec where "op = Async_timer" "h = On_timeout ec"
  | sock i ec where "op = Async_handshake sock i" "h = On_handshake sock i ec"
  | sock i ec where "op = Async_wait_read sock i" "h = On_read_wait_over sock i ec"
  | sock i buf buf' ec n where "op = Async_read sock i buf" "h = On_read sock i buf' ec n"
      "length buf' = length buf"
  | sock i bytes ec n where "op = Async_write sock i bytes" "h = On_write sock i ec n"
  using assms by (cases "(op, r)" rule: completion_handler.cases) (auto split: if_splits)

lemma aborted_accept_cases:
  assumes "aborted_accept op = [h]"
  obtains sock t a where "op = Async_accept sock t" "h = On_connection_attempt sock t a"
  using assms by (cases op) auto

interpretation held: token_measure holder_h holder_o
  by unfold_locales (auto elim: completion_handler_cases aborted_accept_cases)

interpretation listener: token_measure listener_h listener_o
  by unfold_locales (auto elim: completion_handler_cases aborted_accept_cases)

interpretation accepting: token_measure accept_h accept_o
  by unfold_locales (auto elim: completion_handler_cases aborted_accept_cases)

interpretation established: token_measure established_h established_o
  by unfold_locales (auto elim: completion_handler_cases aborted_accept_cases)

interpretation tokens: token_measure count_h count_o
  by unfold_locales auto

section \<open>The listen chain\<close>

lemma listener_gain: "listener.gain env h s \<le> listener_h h"
  by (cases h) (auto simp: listener.gain_def)

lemma listener_at_most_one: "reachable hist (pc, s) \<Longrightarrow> listener.total s \<le> 1"
proof (induction rule: reachable_server_induct)
  case (start th port dir env)
  show ?case using listener.total_start [of env th port dir] by auto
next
  case (shutdown hist s env)
  then show ?case by (simp add: listener.total_shutdown_begin)
next
  case (quiet hist pc s a pc' s')
  then show ?case by (simp add: listener.total_quiet)
next
  case (run hist pc s env n)
  let ?s = "s\<lparr>running := remove_nth n (running s)\<rparr>"
  show ?case
    using listener.total_run [of s n env] listener_gain [of env "running s ! n" ?s] run by linarith
qed simp


lemma accepting_size: "size (accepting.total s) \<le> listener.total s"
proof -
  have "size (accept_h h) \<le> listener_h h" for h by (cases h) auto
  then have h: "size (sum_list (map accept_h hs)) \<le> sum_list (map listener_h hs)" for hs
    by (induction hs) (auto intro: add_mono)
  have "size (accept_o op) \<le> listener_o op" for op by (cases op) auto
  then have "size (sum_list (map accept_o ops)) \<le> sum_list (map listener_o ops)" for ops
    by (induction ops) (auto intro: add_mono)
  with h show ?thesis
    unfolding accepting.total_def listener.total_def size_union by (intro add_mono) auto
qed

lemma accepting_at_most_one:
  "reachable hist (pc, s) \<Longrightarrow> size (accepting.total s) \<le> 1"
  using accepting_size [of s] listener_at_most_one [of hist pc s] by linarith

section \<open>Client ids\<close>

lemma exec_ids:
  "m_active_client_ids (exec env h s) =
     (case h of
        On_connection_attempt sock t r \<Rightarrow>
          if accept_fails env sock r s then m_active_client_ids s
          else insert (the (id_tasks s t)) (m_active_client_ids s)
      | Run_shutdown_socket sock i \<Rightarrow> m_active_client_ids s - {i}
      | _ \<Rightarrow> m_active_client_ids s)"
  by (cases h)
    (auto simp: method_defs throw_error_cases shutdown_socket_def accept_fails_def Let_def
      split: prod.splits option.splits)

lemma exec_id_tasks:
  "id_tasks (exec env h s) =
     (case h of
        Run_listen \<Rightarrow>
          if listen_fails env s \<or> m_active_connections s > max_connections then id_tasks s
          else (id_tasks s)(next_ref s := None)
      | Run_client_id_task t \<Rightarrow>
          (case get_random_spare_id env s of
             None \<Rightarrow> id_tasks s | Some i \<Rightarrow> (id_tasks s)(t := Some i))
      | _ \<Rightarrow> id_tasks s)"
  by (cases h)
    (auto simp: method_defs throw_error_cases listen_fails_def Let_def
      split: prod.splits option.splits)

text \<open>The draw loop returns only ids that are not active, and returns when the generator produces one.\<close>

lemma spare_id_loop_fresh: "spare_id_loop rnd ids n = Some i \<Longrightarrow> i \<notin> ids \<and> (\<exists>k. i = rnd k)"
  by (rule spare_id_loop.raw_induct [of "\<lambda>rnd ids n i. i \<notin> ids \<and> (\<exists>k. i = rnd k)" rnd ids n i])
    (auto simp: Let_def split: if_splits)

lemma spare_id_loop_returns:
  "rnd (n + k) \<notin> ids \<Longrightarrow> \<exists>i. spare_id_loop rnd ids n = Some i"
proof (induction k arbitrary: n)
  case 0
  then show ?case by (subst spare_id_loop.simps) (simp add: Let_def)
next
  case (Suc k)
  then show ?case using Suc.IH [of "Suc n"] by (subst spare_id_loop.simps) (auto simp: Let_def)
qed

definition ids_held :: "server \<Rightarrow> bool" where
  "ids_held s \<longleftrightarrow> finite (m_active_client_ids s) \<and> held.total s = mset_set (m_active_client_ids s)"

definition spare_ids_fresh :: "server \<Rightarrow> bool" where
  "spare_ids_fresh s \<longleftrightarrow>
     (\<forall>t i. t \<in># accepting.total s \<longrightarrow> id_tasks s t = Some i \<longrightarrow> i \<notin> m_active_client_ids s)"

lemma exec_assertion:
  assumes "fault s = None"
  shows "fault (exec env h s) = Some Assertion_failed \<longleftrightarrow>
           (\<exists>sock i. h = Run_shutdown_socket sock i \<and> i \<notin> m_active_client_ids s)"
  using assms
  by (cases h)
    (auto simp: method_defs throw_error_cases shutdown_socket_def Let_def
      split: prod.splits option.splits)

lemma exec_available:
  assumes "fault s = None" "fault (exec env (On_read_wait_over sock i ec) s) = None"
  shows "ec_failed ec \<or> \<not> available_fails env sock s"
  using assms by (auto simp: on_read_wait_over_def available_fails_def throw_error_cases Let_def split: prod.splits)

text \<open>A handler hands the client it works for to exactly one successor.\<close>

lemma held_gain:
  assumes "fault s = None" "fault (exec env h s) = None"
  shows "held.gain env h s =
     (case h of
        On_connection_attempt sock t r \<Rightarrow>
          if accept_fails env sock r s then {#} else {#the (id_tasks s t)#}
      | Run_shutdown_socket sock i \<Rightarrow> {#}
      | _ \<Rightarrow> holder_h h)"
  using assms exec_available [of s env]
  by (cases h) (auto simp: held.gain_def simp del: exec.simps)

lemma held_step:
  assumes inv: "ids_held s" "spare_ids_fresh s" "fault s = None" and n: "n < length (running s)"
    and fin: "can_finish env (running s ! n) s"
    and ok: "fault (finish_handler (exec env (running s ! n) (s\<lparr>running := remove_nth n (running s)\<rparr>))) = None"
  shows "ids_held (finish_handler (exec env (running s ! n) (s\<lparr>running := remove_nth n (running s)\<rparr>)))"
proof -
  define h where "h = running s ! n"
  let ?r = "s\<lparr>running := remove_nth n (running s)\<rparr>"
  let ?s' = "finish_handler (exec env h ?r)"
  have total: "held.total ?s' + holder_h h = held.gain env h ?r + held.total s"
    using held.total_run [OF inv(3) n] by (simp add: h_def)
  have gain: "held.gain env h ?r =
     (case h of
        On_connection_attempt sock t r \<Rightarrow>
          if accept_fails env sock r ?r then {#} else {#the (id_tasks ?r t)#}
      | Run_shutdown_socket sock i \<Rightarrow> {#}
      | _ \<Rightarrow> holder_h h)"
    using held_gain [of ?r env h] ok inv(3) by (simp add: h_def)
  have fin_ids: "finite (m_active_client_ids s)" and tot: "held.total s = mset_set (m_active_client_ids s)"
    using inv(1) by (auto simp: ids_held_def)
  show ?thesis unfolding h_def [symmetric]
  proof (cases h)
    case (On_connection_attempt sock t r)
    show "ids_held ?s'"
    proof (cases "accept_fails env sock r ?r")
      case True
      then show ?thesis using total gain fin_ids tot by (simp add: On_connection_attempt ids_held_def exec_ids del: exec.simps)
    next
      case False
      then obtain i where i: "id_tasks s t = Some i"
        using fin by (auto simp: On_connection_attempt h_def [symmetric] accept_fails_def assign_peer_def
            split: sum.splits)
      have "h \<in> set (running s)" using n by (simp add: h_def)
      then have "t \<in># accepting.total s"
        by (force simp: accepting.total_def On_connection_attempt)
      then have "i \<notin> m_active_client_ids s" using inv(2) i by (auto simp: spare_ids_fresh_def)
      then show ?thesis
        using total gain fin_ids tot False i
        by (simp add: On_connection_attempt ids_held_def exec_ids del: exec.simps)
    qed
  next
    case (Run_shutdown_socket sock i)
    then have t: "held.total ?s' + {#i#} = mset_set (m_active_client_ids s)"
      using total gain tot by simp
    then have "i \<in># mset_set (m_active_client_ids s)" by (metis union_single_eq_member add.commute union_commute multi_member_this)
    then have "i \<in> m_active_client_ids s" using fin_ids by simp
    then show "ids_held ?s'"
      using t fin_ids by (simp add: Run_shutdown_socket ids_held_def exec_ids mset_set_Diff del: exec.simps)
         (metis add_mset_remove_trivial)
  qed (use total gain fin_ids tot in \<open>simp_all add: ids_held_def exec_ids del: exec.simps\<close>)
qed


lemma accepting_gain:
  "accepting.gain env h s =
     (if h = Run_listen \<and> \<not> listen_fails env s \<and> \<not> m_active_connections s > max_connections
      then {#next_ref s#} else {#})"
  by (cases h) (auto simp: accepting.gain_def)

lemma accepting_running:
  "On_connection_attempt sock t r \<in> set (running s) \<Longrightarrow> t \<in># accepting.total s"
  by (force simp: accepting.total_def)

lemma held_running: "h \<in> set (running s) \<Longrightarrow> i \<in># holder_h h \<Longrightarrow> i \<in># held.total s"
  by (auto simp: held.total_def)

lemma spare_ids_fresh_step:
  assumes inv: "spare_ids_fresh s" "size (accepting.total s) \<le> 1" "fault s = None"
    and n: "n < length (running s)"
  shows "spare_ids_fresh (finish_handler (exec env (running s ! n) (s\<lparr>running := remove_nth n (running s)\<rparr>)))"
proof -
  define h where "h = running s ! n"
  let ?r = "s\<lparr>running := remove_nth n (running s)\<rparr>"
  let ?s' = "finish_handler (exec env h ?r)"
  have total: "accepting.total ?s' + accept_h h = accepting.gain env h ?r + accepting.total s"
    using accepting.total_run [OF inv(3) n] by (simp add: h_def)
  have old: "t \<in># accepting.total s" if "t \<in># accepting.total ?s'" "h \<noteq> Run_listen" for t
  proof -
    have "t \<in># accepting.total ?s' + accept_h h" using that(1) by simp
    then show ?thesis using that(2) unfolding total accepting_gain by simp
  qed
  have fr: "\<And>t i. t \<in># accepting.total s \<Longrightarrow> id_tasks s t = Some i \<Longrightarrow> i \<notin> m_active_client_ids s"
    using inv(1) by (auto simp: spare_ids_fresh_def)
  show ?thesis unfolding h_def [symmetric]
  proof (cases h)
    case (On_connection_attempt sock t r)
    have "t \<in># accepting.total s"
      using n On_connection_attempt by (metis accepting_running h_def nth_mem)
    then obtain M where "accepting.total s = add_mset t M" by (auto dest: mset_add)
    then have "accepting.total s = {#t#}" using inv(2) by simp
    then have "accepting.total ?s' = {#}"
      using total by (simp add: accepting_gain On_connection_attempt)
    then show "spare_ids_fresh ?s'" by (simp add: spare_ids_fresh_def)
  next
    case Run_listen
    have "t \<in># accepting.total s \<or>
        t = next_ref s \<and> \<not> listen_fails env ?r \<and> \<not> m_active_connections s > max_connections"
      if "t \<in># accepting.total ?s'" for t
    proof -
      have "t \<in># accepting.gain env h ?r + accepting.total s" using that total by (metis union_iff)
      then show ?thesis by (auto simp: accepting_gain split: if_splits)
    qed
    then show "spare_ids_fresh ?s'"
      using fr by (auto simp: spare_ids_fresh_def exec_ids exec_id_tasks Run_listen simp del: exec.simps
          split: if_splits)
  next
    case (Run_client_id_task t)
    have "i \<notin> m_active_client_ids s" if "get_random_spare_id env ?r = Some i" for i
      using that spare_id_loop_fresh by (fastforce simp: get_random_spare_id_def)
    then show "spare_ids_fresh ?s'"
      using fr old by (auto simp: spare_ids_fresh_def exec_ids exec_id_tasks Run_client_id_task
          simp del: exec.simps split: if_splits option.splits)
  qed (use fr old in \<open>auto simp: spare_ids_fresh_def exec_ids exec_id_tasks simp del: exec.simps\<close>)
qed

lemma reachable_ids:
  "reachable hist (pc, s) \<Longrightarrow>
     (fault s = None \<longrightarrow> ids_held s \<and> spare_ids_fresh s) \<and> fault s \<noteq> Some Assertion_failed"
proof (induction rule: reachable_server_induct)
  case (init th port dir)
  show ?case by (simp add: ids_held_def spare_ids_fresh_def)
next
  case (start th port dir env)
  have "accepting.total (start env (new_server th port dir)) = {#}"
    using accepting.total_start [of env th port dir] by simp
  moreover have "held.total (start env (new_server th port dir)) = {#}"
    using held.total_start [of env th port dir] by simp
  ultimately show ?case
    using start_new_server(1) [of env th port dir]
    by (auto simp: ids_held_def spare_ids_fresh_def fresh_server_def)
next
  case (shutdown hist s env)
  then show ?case
    by (simp add: ids_held_def spare_ids_fresh_def held.total_shutdown_begin
        accepting.total_shutdown_begin shutdown_begin_queue)
next
  case (quiet hist pc s a pc' s')
  then show ?case
    by (simp add: ids_held_def spare_ids_fresh_def held.total_quiet accepting.total_quiet same_data_def)
next
  case (run hist pc s env n)
  then have n: "n < length (running s)" and f: "ids_held s" and r: "reachable hist (pc, s)" by simp_all
  have "\<exists>sock i. running s ! n = Run_shutdown_socket sock i \<and> i \<notin> m_active_client_ids s \<Longrightarrow> False"
  proof -
    assume "\<exists>sock i. running s ! n = Run_shutdown_socket sock i \<and> i \<notin> m_active_client_ids s"
    then obtain sock i where i: "running s ! n = Run_shutdown_socket sock i" "i \<notin> m_active_client_ids s"
      by blast
    then have "i \<in># held.total s"
      using held_running [OF nth_mem [OF n], of i] by simp
    then show False using i f by (auto simp: ids_held_def)
  qed
  then show ?case
    using run held_step spare_ids_fresh_step accepting_at_most_one [OF r]
      exec_assertion [of "s\<lparr>running := remove_nth n (running s)\<rparr>" env "running s ! n"]
    by auto
qed

end
