(* ===== verification/Server_Safety.thy ===== *)
theory Server_Safety
  imports Server_Invariants
begin

text \<open>
  Further invariants over all interleavings: the work count that keeps the event loop alive, the
  counter of connections, the messages of a client and the response made of them, and the absence
  of a deadlock on the future of the id task.
\<close>

section \<open>Work accounting\<close>

lemma exec_work:
  assumes "fault s = None"
  shows "work_count (exec env h s) = work_count s + int (tokens.gain env h s)"
  using assms
  by (cases h)
    (auto simp: tokens.gain_def method_defs throw_error_cases accept_fails_def available_fails_def
      listen_fails_def [symmetric] listen_ok_open Let_def split: prod.splits option.splits)

definition work_accounted :: "server \<Rightarrow> bool" where
  "work_accounted s \<longleftrightarrow>
     work_count s = int (tokens.total s) + (if m_executor_guard s then 1 else 0) \<and>
     (m_executor_guard s \<longrightarrow> \<not> loop_stopped s)"

lemma reachable_work: "reachable hist (pc, s) \<Longrightarrow> fault s = None \<longrightarrow> work_accounted s"
proof (induction rule: reachable_server_induct)
  case (init th port dir)
  show ?case by (simp add: work_accounted_def)
next
  case (start th port dir env)
  show ?case
    using start_new_server [of env th port dir]
    by (auto simp: work_accounted_def started_server_def fresh_server_def tokens.total_def)
next
  case (shutdown hist s env)
  then show ?case
    by (simp add: work_accounted_def tokens.total_shutdown_begin shutdown_begin_queue)
next
  case (quiet hist pc s a pc' s')
  then show ?case by (simp add: work_accounted_def tokens.total_quiet same_data_def)
next
  case (run hist pc s env n)
  then show ?case
    using tokens.total_run [of s n env]
      exec_work [of "s\<lparr>running := remove_nth n (running s)\<rparr>" env "running s ! n"]
    by (auto simp: work_accounted_def)
qed

section \<open>The counter of connections\<close>

fun failed_handshake :: "handler \<Rightarrow> bool" where
  "failed_handshake (On_handshake sock i ec) \<longleftrightarrow> ec_failed ec"
| "failed_handshake _ \<longleftrightarrow> False"

definition failed_handshakes :: "handler list \<Rightarrow> nat" where
  "failed_handshakes hist = length (filter failed_handshake hist)"

lemma exec_connections:
  "m_active_connections (exec env h s) =
     (case h of
        On_handshake sock i ec \<Rightarrow>
          if ec_failed ec then m_active_connections s else m_active_connections s + 1
      | Run_shutdown_socket sock i \<Rightarrow>
          if i \<in> m_active_client_ids s then m_active_connections s - 1 else m_active_connections s
      | _ \<Rightarrow> m_active_connections s)"
  by (cases h)
    (auto simp: method_defs throw_error_cases shutdown_socket_def Let_def
      split: prod.splits option.splits)

lemma established_gain:
  assumes "fault s = None" "fault (exec env h s) = None"
  shows "established.gain env h s =
     (case h of On_handshake sock i ec \<Rightarrow> 1 | Run_shutdown_socket sock i \<Rightarrow> 0 | _ \<Rightarrow> established_h h)"
  using assms exec_available [of s env]
  by (cases h) (auto simp: established.gain_def simp del: exec.simps)

lemma reachable_connections:
  "reachable hist (pc, s) \<Longrightarrow> fault s = None \<longrightarrow>
     m_active_connections s = of_nat (established.total s) - of_nat (failed_handshakes hist)"
proof (induction rule: reachable_server_induct)
  case (init th port dir)
  show ?case by (simp add: failed_handshakes_def)
next
  case (start th port dir env)
  show ?case
    using start_new_server(1) [of env th port dir] established.total_start [of env th port dir]
    by (auto simp: failed_handshakes_def fresh_server_def)
next
  case (shutdown hist s env)
  then show ?case by (simp add: established.total_shutdown_begin)
next
  case (quiet hist pc s a pc' s')
  then show ?case by (simp add: established.total_quiet same_data_def)
next
  case (run hist pc s env n)
  let ?r = "s\<lparr>running := remove_nth n (running s)\<rparr>"
  define h where "h = running s ! n"
  let ?s' = "finish_handler (exec env h ?r)"
  have held: "ids_held s" using reachable_ids run by blast
  have n: "h \<in> set (running s)" using run by (simp add: h_def)
  have mem: "i \<in> m_active_client_ids s" if "h = Run_shutdown_socket sock i" for sock i
    using held_running [OF n, of i] held that by (auto simp: ids_held_def)
  have total: "of_nat (established.total ?s') + of_nat (established_h h)
      = (of_nat (established.gain env h ?r) + of_nat (established.total s) :: u32)"
    using established.total_run [of s n env] run by (simp add: h_def flip: of_nat_add)
  have "m_active_connections ?s'
      = of_nat (established.total ?s') - of_nat (failed_handshakes (hist @ [h]))"
    if "fault ?s' = None"
    using total established_gain [of ?r env h] that run mem
    by (cases h) (auto simp: exec_connections failed_handshakes_def algebra_simps simp del: exec.simps)
  then show ?case by (simp add: h_def)
qed


section \<open>Messages and responses\<close>

fun message_of_client :: "client_id \<Rightarrow> handler \<Rightarrow> string list" where
  "message_of_client i (Run_process_message m ec) = (if nm_client_id m = i then [nm_content m] else [])"
| "message_of_client i _ = []"

definition messages :: "handler list \<Rightarrow> client_id \<Rightarrow> string list" where
  "messages hist i = concat (map (message_of_client i) hist)"

fun writer_h :: "handler \<Rightarrow> client_id multiset" where
  "writer_h (On_write sock i ec n) = {#i#}"
| "writer_h _ = {#}"

fun writer_o :: "async_op \<Rightarrow> client_id multiset" where
  "writer_o (Async_write sock i bytes) = {#i#}"
| "writer_o _ = {#}"

interpretation writer: token_measure writer_h writer_o
  by unfold_locales (auto elim: completion_handler_cases aborted_accept_cases)

lemma writer_gain:
  "writer.gain env h s =
     (case h of
        Run_process_message m ec \<Rightarrow> if ec_failed ec then {#nm_client_id m#} else {#}
      | _ \<Rightarrow> {#})"
  by (cases h) (auto simp: writer.gain_def)

lemma exec_messages:
  "m_received_messages (exec env h s) =
     (case h of
        Run_process_message m ec \<Rightarrow> (m_received_messages s)(nm_client_id m \<mapsto> response m s)
      | On_write sock i ec n \<Rightarrow>
          if ec_failed ec \<or> m_received_messages s i \<noteq> None then m_received_messages s
          else (m_received_messages s)(i \<mapsto> [])
      | _ \<Rightarrow> m_received_messages s)"
  by (cases h)
    (auto simp: method_defs throw_error_cases response_def Let_def split: prod.splits option.splits)

definition messages_recorded :: "handler list \<Rightarrow> server \<Rightarrow> bool" where
  "messages_recorded hist s \<longleftrightarrow>
     (\<forall>i. m_received_messages s i =
        (if messages hist i = [] then None else Some (concat (messages hist i)))) \<and>
     (\<forall>i. i \<in># writer.total s \<longrightarrow> messages hist i \<noteq> [])"

lemma messages_snoc [simp]: "messages (hist @ [h]) i = messages hist i @ message_of_client i h"
  by (simp add: messages_def)

lemma reachable_messages: "reachable hist (pc, s) \<Longrightarrow> fault s = None \<longrightarrow> messages_recorded hist s"
proof (induction rule: reachable_server_induct)
  case (init th port dir)
  show ?case by (simp add: messages_recorded_def messages_def)
next
  case (start th port dir env)
  show ?case
    using start_new_server(1) [of env th port dir] writer.total_start [of env th port dir]
    by (auto simp: messages_recorded_def fresh_server_def messages_def)
next
  case (shutdown hist s env)
  then show ?case by (simp add: messages_recorded_def writer.total_shutdown_begin)
next
  case (quiet hist pc s a pc' s')
  then show ?case by (simp add: messages_recorded_def writer.total_quiet same_data_def)
next
  case (run hist pc s env n)
  let ?r = "s\<lparr>running := remove_nth n (running s)\<rparr>"
  define h where "h = running s ! n"
  let ?s' = "finish_handler (exec env h ?r)"
  have inv: "messages_recorded hist s" using run by simp
  have "h \<in> set (running s)" using run by (simp add: h_def)
  then have w: "i \<in># writer.total s" if "i \<in># writer_h h" for i
    using that by (auto simp: writer.total_def)
  have "writer.total ?s' + writer_h h = writer.gain env h ?r + writer.total s"
    using writer.total_run [of s n env] run by (simp add: h_def)
  then have total: "i \<in># writer.gain env h ?r \<or> i \<in># writer.total s" if "i \<in># writer.total ?s'" for i
    using that by (metis union_iff)
  have msgs: "m_received_messages ?s' = m_received_messages s"
    if "\<nexists>m ec. h = Run_process_message m ec"
    using that inv w by (cases h) (auto simp: exec_messages messages_recorded_def simp del: exec.simps)
  have "messages_recorded (hist @ [h]) ?s'"
  proof (cases "\<exists>m ec. h = Run_process_message m ec")
    case True
    then obtain m ec where h: "h = Run_process_message m ec" by blast
    have "i = nm_client_id m \<or> i \<in># writer.total s" if "i \<in># writer.total ?s'" for i
      using total [OF that] by (auto simp: writer_gain h split: if_splits)
    then show ?thesis
      using inv
      by (auto simp: messages_recorded_def exec_messages h response_def
          simp del: exec.simps split: if_splits)
  next
    case False
    then have "message_of_client i h = []" for i by (cases h) auto
    moreover note msgs [OF False]
    moreover have "writer.gain env h ?r = {#}" using False by (cases h) (auto simp: writer_gain)
    ultimately show ?thesis using inv total by (auto simp: messages_recorded_def simp del: exec.simps)
  qed
  then show ?case by (simp add: h_def)
qed

text \<open>A write in progress sends what is recorded for its client.\<close>

definition writes_current :: "server \<Rightarrow> bool" where
  "writes_current s \<longleftrightarrow>
     (\<forall>sock i d. Async_write sock i d \<in> set (pending s) \<longrightarrow> m_received_messages s i = Some d)"

lemma set_remove_nth: "set (remove_nth n xs) \<subseteq> set xs"
  by (auto simp: remove_nth_def dest: in_set_takeD in_set_dropD)

lemma quiet_pending: "step (pc, s) a (pc', s') \<Longrightarrow> quiet_action a \<Longrightarrow> set (pending s') \<subseteq> set (pending s)"
  using set_remove_nth
  by (cases a) (auto simp: quiet_action_def step_simps shutdown_join_def, fastforce)

text \<open>A client with a write in progress is worked on by nothing else.\<close>

lemma count_sum_list:
  assumes "x \<in> set xs" "i \<in># f x"
  shows "count (sum_list (map f xs)) i \<ge> 1"
proof -
  have "i \<in># sum_list (map f xs)" using assms by auto
  then show ?thesis by (simp add: Suc_le_eq)
qed

lemma held_exclusive:
  assumes "ids_held s" "h \<in> set (running s)" "i \<in># holder_h h" "op \<in> set (pending s)"
  shows "i \<notin># holder_o op"
proof
  assume "i \<in># holder_o op"
  have "count (held.total s) i \<ge> 2"
    using count_sum_list [where f = holder_h, OF assms(2,3)]
      count_sum_list [where f = holder_o, OF assms(4) \<open>i \<in># holder_o op\<close>]
    unfolding held.total_def plus_multiset.rep_eq by linarith
  moreover have "count (held.total s) i \<le> 1"
    using assms(1) by (simp add: ids_held_def count_mset_set')
  ultimately show False by simp
qed

lemma reachable_writes: "reachable hist (pc, s) \<Longrightarrow> fault s = None \<longrightarrow> writes_current s"
proof (induction rule: reachable_server_induct)
  case (init th port dir)
  show ?case by (simp add: writes_current_def)
next
  case (start th port dir env)
  show ?case
    using start_new_server(1) [of env th port dir] by (auto simp: writes_current_def fresh_server_def)
next
  case (shutdown hist s env)
  then show ?case by (auto simp: writes_current_def shutdown_begin_queue)
next
  case (quiet hist pc s a pc' s')
  then show ?case using quiet_pending [of pc s a pc' s'] by (auto simp: writes_current_def same_data_def)
next
  case (run hist pc s env n)
  let ?r = "s\<lparr>running := remove_nth n (running s)\<rparr>"
  define h where "h = running s ! n"
  let ?s' = "finish_handler (exec env h ?r)"
  have inv: "writes_current s" and f: "fault s = None" using run by simp_all
  have held: "ids_held s" using reachable_ids run by blast
  have n: "h \<in> set (running s)" using run by (simp add: h_def)
  have "m_received_messages ?s' i = Some d" if "Async_write sock i d \<in> set (pending ?s')" for sock i d
  proof (cases "Async_write sock i d \<in> set (pending s)")
    case True
    then have "i \<notin># holder_h h" using held_exclusive [OF held n _ True] by auto
    then have "m_received_messages ?s' i = m_received_messages s i"
      by (cases h) (auto simp: exec_messages simp del: exec.simps)
    then show ?thesis using True inv by (auto simp: writes_current_def)
  next
    case False
    then have "Async_write sock i d \<in> set (started env h ?r)"
      using that f by (auto simp: exec_pending split: if_splits)
    then show ?thesis
      by (cases h) (auto simp: exec_messages simp del: exec.simps split: if_splits)
  qed
  then show ?case by (simp add: writes_current_def h_def)
qed


section \<open>No deadlock on the future\<close>

definition waits :: "handler list \<Rightarrow> task_ref set" where
  "waits hs = (\<Union>h \<in> set hs. set_mset (accept_h h))"

fun task_of :: "handler \<Rightarrow> task_ref set" where
  "task_of (Run_client_id_task t) = {t}"
| "task_of _ = {}"

definition tasks :: "handler list \<Rightarrow> task_ref set" where
  "tasks hs = (\<Union>h \<in> set hs. task_of h)"

lemma waits_simps [simp]:
  "waits [] = {}" "waits (h # q) = set_mset (accept_h h) \<union> waits q" "waits (p @ q) = waits p \<union> waits q"
  by (auto simp: waits_def)

lemma tasks_simps [simp]:
  "tasks [] = {}" "tasks (h # q) = task_of h \<union> tasks q" "tasks (p @ q) = tasks p \<union> tasks q"
  by (auto simp: tasks_def)

text \<open>In the queue, the id task of an accept is never behind the accept's handler.\<close>

fun tasks_first :: "handler list \<Rightarrow> bool" where
  "tasks_first [] \<longleftrightarrow> True"
| "tasks_first (h # q) \<longleftrightarrow> set_mset (accept_h h) \<inter> tasks q = {} \<and> tasks_first q"

lemma tasks_first_append:
  "tasks_first (p @ q) \<longleftrightarrow> tasks_first p \<and> tasks_first q \<and> waits p \<inter> tasks q = {}"
  by (induction p) auto

definition future_safe :: "server \<Rightarrow> bool" where
  "future_safe s \<longleftrightarrow>
     (\<forall>t. t \<in># accepting.total s \<longrightarrow> t < next_ref s) \<and>
     (\<forall>t. t \<in># accepting.total s \<longrightarrow> id_tasks s t = None \<longrightarrow>
        t \<in> tasks (handler_queue s) \<union> tasks (running s)) \<and>
     tasks_first (handler_queue s) \<and> waits (running s) \<inter> tasks (handler_queue s) = {}"

lemma tasks_first_no_tasks: "tasks q = {} \<Longrightarrow> tasks_first q"
  by (induction q) auto

lemma no_tasks_aborted [simp]: "tasks (concat (map aborted_accept ops)) = {}"
proof -
  have "tasks (aborted_accept op) = {}" for op by (cases op) auto
  then show ?thesis by (induction ops) auto
qed

text \<open>Tokens may move to the queue's end, as long as they are not id tasks.\<close>

lemma future_safe_append:
  assumes "future_safe s" "tasks hs = {}"
    and "handler_queue s' = handler_queue s @ hs" "running s' = running s"
    and "accepting.total s' = accepting.total s" "id_tasks s' = id_tasks s" "next_ref s' = next_ref s"
  shows "future_safe s'"
  using assms tasks_first_no_tasks [OF assms(2)]
  by (auto simp: future_safe_def tasks_first_append)

lemma future_safe_move:
  assumes "future_safe s" "handler_queue s = h # handler_queue s'" "running s' = running s @ [h]"
    and "accepting.total s' = accepting.total s" "id_tasks s' = id_tasks s" "next_ref s' = next_ref s"
  shows "future_safe s'"
proof -
  let ?A = "accepting.total s" and ?q = "handler_queue s'"
  have bound: "\<forall>t. t \<in># ?A \<longrightarrow> t < next_ref s"
    and progress: "\<forall>t. t \<in># ?A \<longrightarrow> id_tasks s t = None \<longrightarrow> t \<in> tasks (h # ?q) \<union> tasks (running s)"
    and order: "tasks_first (h # ?q)" and wait: "waits (running s) \<inter> tasks (h # ?q) = {}"
    using assms(1) unfolding future_safe_def assms(2) by simp_all
  have "tasks (h # ?q) \<union> tasks (running s) = tasks ?q \<union> tasks (running s')" by (auto simp: assms(3))
  moreover have "waits (running s') \<inter> tasks ?q = {}"
    using order wait by (simp add: assms(3) Int_Un_distrib Int_Un_distrib2)
  moreover have "tasks_first ?q" using order by simp
  ultimately show ?thesis
    using bound progress unfolding future_safe_def assms(4-6) by simp
qed

lemma future_safe_take:
  assumes "future_safe s" "Scheduler.op_queue (m_io_context s) = Op h # q"
  shows "future_safe (s\<lparr>m_io_context := (m_io_context s)\<lparr>Scheduler.op_queue := q\<rparr>,
               running := running s @ [h]\<rparr>)"
  using assms(1)
  by (rule future_safe_move) (simp_all add: accepting.total_take assms(2) handler_queue_def)

lemma future_safe_quiet:
  assumes "future_safe s" "step (pc, s) a (pc', s')" "quiet_action a"
  shows "future_safe s'"
proof (cases a)
  case Take
  then show ?thesis using assms future_safe_take by (auto simp: step_simps)
next
  case Reactor
  then obtain q where q: "Scheduler.op_queue (m_io_context s) = Task_operation # q"
    "s' = s\<lparr>m_io_context := fst (run_task [] q (m_io_context s, new_thread_info))\<rparr>"
    using assms(2) by (auto simp: step_simps)
  have "handler_queue s' = handler_queue s @ []" by (simp add: q handler_queue_def)
  from future_safe_append [OF assms(1) _ this _ accepting.total_quiet [OF assms(2,3)]] show ?thesis
    by (simp add: q)
next
  case Join
  then have s': "s' = shutdown_join s" using assms(2) by (auto simp: step_simps)
  have "handler_queue s' = handler_queue s @ []" by (simp add: s' shutdown_join_def)
  from future_safe_append [OF assms(1) _ this _ accepting.total_quiet [OF assms(2,3)]] show ?thesis
    by (simp add: s' shutdown_join_def)
next
  case (Complete n r)
  then obtain h where h: "completion_handler (pending s ! n) r = Some h"
    "s' = s\<lparr>pending := remove_nth n (pending s),
               m_io_context := fst (post_deferred_completion h (m_io_context s, None))\<rparr>"
    using assms(2) by (auto simp: step_simps)
  have "tasks [h] = {}" using h(1) by (auto elim: completion_handler_cases)
  moreover have "handler_queue s' = handler_queue s @ [h]" by (simp add: h(2) handler_queue_def)
  ultimately show ?thesis
    by (rule future_safe_append [OF assms(1) _ _ _ accepting.total_quiet [OF assms(2,3)]])
      (simp_all add: h(2))
qed (use assms in \<open>auto simp: quiet_action_def\<close>)


lemma exec_next_ref: "next_ref s \<le> next_ref (exec env h s)"
  by (cases h)
    (auto simp: method_defs throw_error_cases Let_def split: prod.splits option.splits)

lemma exec_next_ref_listen:
  "\<not> listen_fails env s \<Longrightarrow> \<not> m_active_connections s > max_connections \<Longrightarrow>
     next_ref (exec env Run_listen s) = next_ref s + 2"
  by (simp add: listen_def throw_error_cases listen_fails_def async_accept_def Let_def)

lemma posted_tasks:
  "tasks (posted env h s) =
     (if h = Run_listen \<and> \<not> listen_fails env s \<and> \<not> m_active_connections s > max_connections
      then {next_ref s} else {})"
  by (cases h) auto

lemma tasks_remove_nth: "tasks xs \<subseteq> tasks (remove_nth n xs) \<union> task_of (xs ! n)"
proof (cases "n < length xs")
  case True
  then have "tasks xs = tasks (take n xs @ xs ! n # drop (Suc n) xs)"
    by (simp add: id_take_nth_drop [symmetric])
  then show ?thesis by (auto simp: remove_nth_def)
qed (simp add: remove_nth_def)

lemma waits_accepting: "waits (handler_queue s) \<union> waits (running s) \<subseteq> set_mset (accepting.total s)"
  by (auto simp: waits_def accepting.total_def)

lemma waits_remove_nth: "waits (remove_nth n xs) \<subseteq> waits xs"
  using set_remove_nth [of n xs] by (auto simp: waits_def)

lemma future_safe_run:
  assumes inv: "future_safe s" "fault s = None" and n: "n < length (running s)"
    and fin: "can_finish env (running s ! n) s"
  shows "future_safe (finish_handler (exec env (running s ! n) (s\<lparr>running := remove_nth n (running s)\<rparr>)))"
proof -
  define h where "h = running s ! n"
  define r where "r = s\<lparr>running := remove_nth n (running s)\<rparr>"
  define s' where "s' = finish_handler (exec env h r)"
  define new where "new = tasks (posted env h r)"
  define app where "app = (if aborts h r then concat (map aborted_accept (pending r)) else [])
     @ posted env h r"
  have r: "handler_queue r = handler_queue s" "fault r = None" "next_ref r = next_ref s"
    "id_tasks r = id_tasks s" "running r = remove_nth n (running s)"
    using inv(2) by (simp_all add: r_def)
  have queue: "handler_queue s' = handler_queue s @ app"
    by (simp add: s'_def exec_queue r app_def)
  have app: "tasks app = new" by (simp add: app_def new_def)
  have new: "new \<subseteq> {next_ref s}" by (simp add: new_def posted_tasks r)
  have run: "running s' = remove_nth n (running s)"
    by (simp add: s'_def accepting.running_frame r)
  have "accepting.total s' + accept_h h = accepting.gain env h r + accepting.total s"
    using accepting.total_run [OF inv(2) n] by (simp add: h_def r_def s'_def)
  then have "t \<in># accepting.gain env h r + accepting.total s" if "t \<in># accepting.total s'" for t
    using that by (metis union_iff)
  then have total: "t \<in> new \<or> t \<in># accepting.total s" if "t \<in># accepting.total s'" for t
    using that by (fastforce simp: accepting_gain new_def posted_tasks split: if_splits)
  note safe = inv(1) [unfolded future_safe_def]
  have listens: "next_ref s' = next_ref s + 2 \<and> id_tasks s' (next_ref s) = None" if "new \<noteq> {}"
    using that exec_next_ref_listen [of env r]
    by (auto simp: new_def posted_tasks s'_def exec_id_tasks r simp del: exec.simps split: if_splits)
  have mono: "next_ref s \<le> next_ref s'"
    using exec_next_ref [of r env h] by (simp add: s'_def r)
  have bound: "t < next_ref s'" if "t \<in># accepting.total s'" for t
  proof (cases "t \<in> new")
    case True
    then show ?thesis using new listens by fastforce
  next
    case False
    then show ?thesis using total [OF that] safe mono by fastforce
  qed
  have progress: "t \<in> tasks (handler_queue s') \<union> tasks (running s')"
    if "t \<in># accepting.total s'" "id_tasks s' t = None" for t
  proof (cases "t \<in> new")
    case True
    then show ?thesis using app by (simp add: queue)
  next
    case False
    then have t: "t \<in># accepting.total s" using total that by blast
    then have "t \<noteq> next_ref s" using safe by blast
    then have "id_tasks s t = None"
      using that(2) by (cases h) (auto simp: s'_def exec_id_tasks r simp del: exec.simps
          split: if_splits option.splits)
    moreover have "t \<notin> task_of h"
      using that(2) fin
      by (cases h) (auto simp: s'_def exec_id_tasks r_def h_def [symmetric] get_random_spare_id_def
          simp del: exec.simps)
    ultimately show ?thesis
      using safe t tasks_remove_nth [of "running s" n] by (auto simp: queue run h_def)
  qed
  have fresh: "t \<notin> new" if "t \<in> waits (handler_queue s) \<union> waits (running s)" for t
    using that waits_accepting [of s] safe new by fastforce
  have "tasks_first app"
    by (cases h) (auto simp: app_def intro: tasks_first_no_tasks)
  then have order: "tasks_first (handler_queue s')"
    using safe fresh by (auto simp: queue tasks_first_append app)
  have "waits (running s') \<inter> tasks (handler_queue s') = {}"
    using safe fresh waits_remove_nth [of n "running s"] by (auto simp: queue run app)
  with bound progress order show ?thesis
    unfolding h_def [symmetric] r_def [symmetric] s'_def [symmetric] future_safe_def by blast
qed


lemma reachable_future_safe: "reachable hist (pc, s) \<Longrightarrow> fault s = None \<longrightarrow> future_safe s"
proof (induction rule: reachable_server_induct)
  case (init th port dir)
  show ?case by (simp add: future_safe_def)
next
  case (start th port dir env)
  have "accepting.total (start env (new_server th port dir)) = {#}"
    using accepting.total_start [of env th port dir] by simp
  then show ?case
    using start_new_server(1) [of env th port dir] by (auto simp: future_safe_def fresh_server_def)
next
  case (shutdown hist s env)
  then have "future_safe s" by simp
  then have "future_safe (shutdown_begin env s)"
    by (rule future_safe_append [where hs = "concat (map aborted_accept (pending s))"])
      (use shutdown in \<open>simp_all add: shutdown_begin_queue accepting.total_shutdown_begin\<close>)
  then show ?case ..
next
  case (quiet hist pc s a pc' s')
  then show ?case using future_safe_quiet by blast
next
  case (run hist pc s env n)
  then show ?case using future_safe_run by blast
qed

lemma can_finish_unless_waiting:
  assumes "random_ids env k \<notin> m_active_client_ids s"
    and "\<And>sock t r. h = On_connection_attempt sock t r \<Longrightarrow> id_tasks s t \<noteq> None"
  shows "can_finish env h s"
  using assms spare_id_loop_returns [of "random_ids env" 0 k "m_active_client_ids s"]
  by (cases h) (auto simp: get_random_spare_id_def)

lemma some_handler_finishes:
  assumes "future_safe s" "random_ids env k \<notin> m_active_client_ids s" "running s \<noteq> []"
  shows "\<exists>n. n < length (running s) \<and> can_finish env (running s ! n) s"
proof (cases "\<exists>h \<in> set (running s). can_finish env h s")
  case True
  then show ?thesis by (auto simp: in_set_conv_nth)
next
  case False
  then have no: "\<not> can_finish env h s" if "h \<in> set (running s)" for h using that by blast
  have "hd (running s) \<in> set (running s)" using assms(3) by simp
  then obtain sock t r where h: "On_connection_attempt sock t r \<in> set (running s)" "id_tasks s t = None"
    using no can_finish_unless_waiting [OF assms(2)] by metis
  then have "t \<in># accepting.total s" by (intro accepting_running)
  moreover have "t \<in> waits (running s)" using h(1) by (force simp: waits_def)
  ultimately have "t \<in> tasks (running s)" using assms(1) h(2) by (auto simp: future_safe_def)
  then obtain h' where "h' \<in> set (running s)" "t \<in> task_of h'" by (auto simp: tasks_def)
  moreover have "h' = Run_client_id_task t" using \<open>t \<in> task_of h'\<close> by (cases h' rule: task_of.cases) auto
  ultimately have "Run_client_id_task t \<in> set (running s)" by simp
  then show ?thesis using no can_finish_unless_waiting [OF assms(2)] by blast
qed

end
