(* ===== verification/Server_Reads.thy ===== *)
theory Server_Reads
  imports Server_Safety
begin

text \<open>
  What the server records of what a client sent. The steps of \<open>Server_Steps\<close> are observed at the two
  places where a read meets the outside: the number that \<open>available\<close> announces to \<open>on_read_wait_over\<close>
  (\<open>src/src/tcp_server.cc\<close>), and the bytes and the error code with which the composed read completes. The
  messages processed are then a function of these observations.
\<close>

section \<open>Observations\<close>

datatype observation = Announced client_id nat | Arrived client_id error_code string

fun observe :: "config \<Rightarrow> action \<Rightarrow> observation list" where
  "observe (pc, s) (Run env n) =
     (case running s ! n of
        On_read_wait_over sock i ec \<Rightarrow>
          (case sock_available (os_available env) (sockets s sock) of
             (aec, k) \<Rightarrow> if ec_failed ec \<or> ec_failed aec then [] else [Announced i k])
      | _ \<Rightarrow> [])"
| "observe (pc, s) (Complete n (Result_read ec bytes)) =
     (case pending s ! n of Async_read sock i buf \<Rightarrow> [Arrived i ec bytes] | _ \<Rightarrow> [])"
| "observe c a = []"

text \<open>Reachable configurations with the observations and the handlers run on the way.\<close>

inductive observed :: "observation list \<Rightarrow> handler list \<Rightarrow> config \<Rightarrow> bool" where
  observed_init: "observed [] [] (Main_start, new_server threads port dir)"
| observed_step: "observed obs hist c \<Longrightarrow> step c a c' \<Longrightarrow>
     observed (obs @ observe c a) (hist @ handler_run c a) c'"

lemma observed_reachable: "observed obs hist c \<Longrightarrow> reachable hist c"
  by (induction rule: observed.induct) (auto intro: reachable.intros)

lemma reachable_observed: "reachable hist c \<Longrightarrow> \<exists>obs. observed obs hist c"
  by (induction rule: reachable.induct) (auto intro: observed.intros)

fun run_observations :: "config \<Rightarrow> action list \<Rightarrow> observation list" where
  "run_observations c [] = []"
| "run_observations c (a # as) =
     observe c a @ (case do_step c a of None \<Rightarrow> [] | Some c' \<Rightarrow> run_observations c' as)"

lemma run_actions_observed:
  "observed obs hist c \<Longrightarrow> run_actions c as = Some c' \<Longrightarrow>
     observed (obs @ run_observations c as) (hist @ run_history c as) c'"
proof (induction as arbitrary: c hist obs)
  case (Cons a as)
  from Cons.prems(2) obtain d where d: "do_step c a = Some d" "run_actions d as = Some c'"
    by (auto split: option.splits)
  from d(1) have "step c a d" by (simp add: step_do_step)
  from Cons.IH [OF observed_step [OF Cons.prems(1) this] d(2)] d(1) show ?case by simp
qed auto

section \<open>The messages that the observations stand for\<close>

text \<open>The number last announced for a client.\<close>

fun announced :: "client_id \<Rightarrow> nat \<Rightarrow> observation list \<Rightarrow> nat" where
  "announced i n [] = n"
| "announced i n (Announced j k # obs) = announced i (if j = i then k else n) obs"
| "announced i n (Arrived j ec bytes # obs) = announced i n obs"

text \<open>A valid read is recorded at the announced length: the bytes that arrived, then NUL bytes.\<close>

fun read_messages :: "client_id \<Rightarrow> nat \<Rightarrow> observation list \<Rightarrow> string list" where
  "read_messages i n [] = []"
| "read_messages i n (Announced j k # obs) = read_messages i (if j = i then k else n) obs"
| "read_messages i n (Arrived j ec bytes # obs) =
     (if j = i \<and> received_valid_message ec (length bytes)
      then [bytes @ replicate (n - length bytes) (char_of (0::nat))] else [])
     @ read_messages i n obs"

lemma announced_append [simp]: "announced i n (xs @ ys) = announced i (announced i n xs) ys"
  by (induction i n xs rule: announced.induct) auto

lemma read_messages_append [simp]:
  "read_messages i n (xs @ ys) = read_messages i n xs @ read_messages i (announced i n xs) ys"
  by (induction i n xs rule: read_messages.induct) auto

text \<open>A message that was read and not yet processed.\<close>

fun unread :: "client_id \<Rightarrow> handler \<Rightarrow> string list" where
  "unread i (On_read sock j buf ec n) = (if j = i \<and> received_valid_message ec n then [buf] else [])"
| "unread i (Run_process_message m ec) = (if nm_client_id m = i then [nm_content m] else [])"
| "unread i _ = []"

definition unprocessed :: "client_id \<Rightarrow> server \<Rightarrow> string list" where
  "unprocessed i s = concat (map (unread i) (running s @ handler_queue s))"

lemma unread_holder: "unread i h \<noteq> [] \<Longrightarrow> i \<in># holder_h h"
  by (cases h) (auto split: if_splits)

lemma unread_aborted [simp]: "h \<in> set (aborted_accept op) \<Longrightarrow> unread i h = []"
  by (cases op) auto

text \<open>A handler processes the message it holds or hands it on.\<close>

lemma unread_moves: "message_of_client i h @ concat (map (unread i) (posted env h s)) = unread i h"
  by (cases h) auto

section \<open>One token works for a client\<close>

lemma count_sum_list_remove:
  assumes "n < length xs" "i \<in># f (xs ! n)" "x \<in> set (remove_nth n xs)" "i \<in># f x"
  shows "count (sum_list (map f xs)) i \<ge> 2"
proof -
  have "count (f (xs ! n)) i \<ge> 1" using assms(2) by (simp add: Suc_le_eq)
  moreover have "count (sum_list (map f (remove_nth n xs))) i \<ge> 1"
    by (rule count_sum_list [where f = f, OF assms(3,4)])
  ultimately show ?thesis
    unfolding sum_list_remove_nth [where f = f, OF assms(1)] plus_multiset.rep_eq by linarith
qed

lemma held_once: "ids_held s \<Longrightarrow> count (held.total s) i \<le> 1"
  by (simp add: ids_held_def count_mset_set')

text \<open>Nothing else that is queued or running holds the client of a running handler.\<close>

lemma others_unread:
  assumes "ids_held s" "n < length (running s)" "i \<in># holder_h (running s ! n)"
  shows "concat (map (unread i) (remove_nth n (running s) @ handler_queue s)) = []"
proof -
  have "unread i h = []" if "h \<in> set (remove_nth n (running s) @ handler_queue s)" for h
  proof (rule ccontr)
    assume "unread i h \<noteq> []"
    then have h: "i \<in># holder_h h" by (rule unread_holder)
    consider "h \<in> set (remove_nth n (running s))" | "h \<in> set (handler_queue s)" using \<open>h \<in> _\<close> by auto
    then have "count (held.total s) i \<ge> 2"
    proof cases
      case 1
      show ?thesis
        using count_sum_list_remove [OF assms(2), of i holder_h, OF assms(3) 1 h]
        unfolding held.total_def plus_multiset.rep_eq by linarith
    next
      case 2
      show ?thesis
        using count_sum_list [where f = holder_h, OF 2 h]
          count_sum_list [where f = holder_h, OF nth_mem [OF assms(2)] assms(3)]
        unfolding held.total_def plus_multiset.rep_eq by linarith
    qed
    with held_once [OF assms(1), of i] show False by simp
  qed
  then show ?thesis by (auto simp: concat_eq_Nil_conv)
qed

lemma pending_unread:
  assumes "ids_held s" "op \<in> set (pending s)" "i \<in># holder_o op"
  shows "unprocessed i s = []"
proof -
  have "unread i h = []" if "h \<in> set (running s @ handler_queue s)" for h
  proof (rule ccontr)
    assume "unread i h \<noteq> []"
    then have h: "i \<in># holder_h h" by (rule unread_holder)
    have "count (sum_list (map holder_h (running s))) i \<ge> 1 \<or> count (sum_list (map holder_h (handler_queue s))) i \<ge> 1"
      using that count_sum_list [where f = holder_h, OF _ h] by auto
    then have "count (held.total s) i \<ge> 2"
      using count_sum_list [where f = holder_o, OF assms(2,3)]
      unfolding held.total_def plus_multiset.rep_eq by linarith
    with held_once [OF assms(1), of i] show False by simp
  qed
  then show ?thesis by (auto simp: unprocessed_def concat_eq_Nil_conv)
qed

lemma concat_map_remove_nth:
  "n < length xs \<Longrightarrow> f (xs ! n) = [] \<Longrightarrow> concat (map f (remove_nth n xs)) = concat (map f xs)"
  by (subst (2) id_take_nth_drop [of n]) (simp_all add: remove_nth_def)

section \<open>Every message is a padded read\<close>

definition reads_recorded :: "observation list \<Rightarrow> handler list \<Rightarrow> server \<Rightarrow> bool" where
  "reads_recorded obs hist s \<longleftrightarrow>
     (\<forall>i. messages hist i @ unprocessed i s = read_messages i 0 obs) \<and>
     (\<forall>sock i buf. Async_read sock i buf \<in> set (pending s) \<longrightarrow>
        buf = replicate (announced i 0 obs) (char_of (0::nat)))"

lemma reads_quiet:
  assumes "step (pc, s) a (pc', s')" "quiet_action a" "ids_held s" "reads_recorded obs hist s"
  shows "reads_recorded (obs @ observe (pc, s) a) hist s'"
proof (cases "\<exists>n r. a = Complete n r")
  case True
  then obtain n r where a: "a = Complete n r" by blast
  then obtain h where n: "n < length (pending s)" and h: "completion_handler (pending s ! n) r = Some h"
    and s': "s' = s\<lparr>pending := remove_nth n (pending s),
       m_io_context := fst (post_deferred_completion h (m_io_context s, None))\<rparr>"
    using assms(1) by (auto simp: step_simps)
  have un: "unprocessed i s' = unprocessed i s @ unread i h" for i
    by (simp add: unprocessed_def s' handler_queue_def)
  have sub: "set (pending s') \<subseteq> set (pending s)" using set_remove_nth [of n "pending s"] by (simp add: s')
  show ?thesis
  proof (cases "\<exists>sock j buf. pending s ! n = Async_read sock j buf")
    case True
    then obtain sock j buf where op: "pending s ! n = Async_read sock j buf" by blast
    then have mem: "Async_read sock j buf \<in> set (pending s)" using nth_mem [OF n] by simp
    then have buf: "buf = replicate (announced j 0 obs) (char_of (0::nat))"
      using assms(4) by (auto simp: reads_recorded_def)
    obtain ec bytes where r: "r = Result_read ec bytes" "length bytes \<le> length buf"
      "h = On_read sock j (bytes @ drop (length bytes) buf) ec (length bytes)"
      using h op by (cases r) (auto split: if_splits)
    have "unprocessed j s = []" by (rule pending_unread [OF assms(3) mem]) simp
    then have "messages hist i @ unprocessed i s' = read_messages i 0 (obs @ [Arrived j ec bytes])" for i
      using assms(4) r by (auto simp: reads_recorded_def un buf)
    then show ?thesis using sub assms(4) by (auto simp: reads_recorded_def a r(1) op)
  next
    case False
    have "unread i h = []" for i using h False by (auto elim!: completion_handler_cases)
    moreover have "observe (pc, s) a = []"
      using False by (cases "pending s ! n"; cases r) (auto simp: a)
    ultimately show ?thesis using sub assms(4) by (auto simp: reads_recorded_def un)
  qed
next
  case False
  then have "observe (pc, s) a = []" using assms(2) by (cases a) (auto simp: quiet_action_def)
  moreover have "running s' @ handler_queue s' = running s @ handler_queue s" "pending s' = pending s"
    using assms(1,2) False by (cases a; auto simp: quiet_action_def step_simps shutdown_join_def handler_queue_def)+
  ultimately show ?thesis using assms(4) by (simp add: reads_recorded_def unprocessed_def)
qed

lemma reads_run:
  assumes "fault s = None" "n < length (running s)" "ids_held s" "reads_recorded obs hist s"
  shows "reads_recorded (obs @ observe (pc, s) (Run env n)) (hist @ [running s ! n])
    (finish_handler (exec env (running s ! n) (s\<lparr>running := remove_nth n (running s)\<rparr>)))"
proof -
  define h where "h = running s ! n"
  let ?r = "s\<lparr>running := remove_nth n (running s)\<rparr>"
  let ?s' = "finish_handler (exec env h ?r)"
  have un: "unprocessed i ?s' = concat (map (unread i) (remove_nth n (running s) @ handler_queue s))
      @ concat (map (unread i) (posted env h ?r))" for i
    by (auto simp: unprocessed_def exec_queue held.running_frame simp del: exec.simps)
  have alone: "unprocessed i s = unread i h \<and>
      concat (map (unread i) (remove_nth n (running s) @ handler_queue s)) = []" if "unread i h \<noteq> []" for i
  proof -
    have others: "concat (map (unread i) (remove_nth n (running s) @ handler_queue s)) = []"
      using others_unread [OF assms(3,2)] unread_holder [OF that] by (simp add: h_def)
    have "concat (map (unread i) (running s))
        = concat (map (unread i) (take n (running s) @ h # drop (Suc n) (running s)))"
      unfolding h_def by (rule arg_cong, rule id_take_nth_drop [OF assms(2)])
    then show ?thesis using others by (simp add: unprocessed_def remove_nth_def del: concat_eq_Nil_conv)
  qed
  have "messages (hist @ [h]) i @ unprocessed i ?s' = messages hist i @ unprocessed i s" for i
  proof (cases "unread i h = []")
    case True
    then have "unprocessed i s = concat (map (unread i) (remove_nth n (running s) @ handler_queue s))"
      using concat_map_remove_nth [OF assms(2), of "unread i"] by (simp add: h_def unprocessed_def)
    then show ?thesis
      using unread_moves [of i h env ?r] True by (simp add: un del: concat_eq_Nil_conv)
  next
    case False
    then show ?thesis using unread_moves [of i h env ?r] alone [OF False] by (simp add: un del: concat_eq_Nil_conv)
  qed
  moreover have "read_messages i m (observe (pc, s) (Run env n)) = []" for i m
    by (simp split: handler.splits prod.splits)
  moreover have "buf = replicate (announced i 0 (obs @ observe (pc, s) (Run env n))) (char_of (0::nat))"
    if "Async_read sock i buf \<in> set (pending ?s')" for sock i buf
  proof (cases "Async_read sock i buf \<in> set (pending s)")
    case True
    have "h \<in> set (running s)" using assms(2) by (simp add: h_def)
    then have "i \<notin># holder_h h" using held_exclusive [OF assms(3), of h i "Async_read sock i buf"] True by auto
    then have "announced i m (observe (pc, s) (Run env n)) = m" for m
      by (cases h) (simp_all add: h_def [symmetric] split: prod.splits)
    then show ?thesis using True assms(4) by (auto simp: reads_recorded_def simp del: observe.simps)
  next
    case False
    then have "Async_read sock i buf \<in> set (started env h ?r)"
      using that assms(1) by (auto simp: exec_pending split: if_splits)
    then show ?thesis
      by (cases h) (auto simp: h_def [symmetric] available_fails_def split: if_splits prod.splits)
  qed
  ultimately show ?thesis using assms(4) by (simp add: reads_recorded_def h_def del: observe.simps messages_snoc exec.simps)
qed

lemma observed_reads: "observed obs hist c \<Longrightarrow> fault (snd c) = None \<longrightarrow> reads_recorded obs hist (snd c)"
proof (induction rule: observed.induct)
  case (observed_init threads port dir)
  show ?case by (simp add: reads_recorded_def unprocessed_def messages_def)
next
  case (observed_step obs hist c a c')
  obtain pc s pc' s' where c: "c = (pc, s)" "c' = (pc', s')" by (cases c, cases c') auto
  from observed_step have st: "step (pc, s) a (pc', s')" and r: "reachable hist (pc, s)"
    by (simp_all add: c observed_reachable)
  from st have f: "fault s = None" by (rule step_fault)
  then have inv: "reads_recorded obs hist s" and held: "ids_held s"
    using observed_step.IH reachable_ids [OF r] by (simp_all add: c)
  from st have "reads_recorded (obs @ observe (pc, s) a) (hist @ handler_run (pc, s) a) s'"
  proof (cases rule: step_kinds)
    case (Start env)
    have new: "hist = []" "\<exists>th port dir. s = new_server th port dir"
      using reachable_main_start [of hist s] r Start(2) by auto
    then have "fresh_server s'" using start_new_server(1) Start(4) by auto
    moreover have "handler_queue s = []" "running s = []" using new(2) by auto
    ultimately show ?thesis
      using inv Start(1) by (auto simp: reads_recorded_def unprocessed_def fresh_server_def)
  next
    case (Shutdown env)
    have "set (pending s') \<subseteq> set (pending s)" using shutdown_begin_queue(2) [OF Shutdown(4) f] Shutdown(5) by auto
    moreover have "unprocessed i s' = unprocessed i s" for i
      using shutdown_begin_queue(1) [OF Shutdown(4) f] Shutdown(5) by (auto simp: unprocessed_def)
    ultimately show ?thesis using inv Shutdown(1) by (auto simp: reads_recorded_def)
  next
    case Not_running
    then show ?thesis using inv by simp
  next
    case Quiet
    then show ?thesis using reads_quiet [OF st Quiet(1) held inv] by simp
  next
    case (Run env n)
    then show ?thesis using reads_run [OF f Run(3) held inv] by simp
  qed
  then show ?case by (simp add: c)
qed

end
