(* ===== verification/Server_Properties.thy ===== *)
theory Server_Properties
  imports Server_Reads
begin

text \<open>
  What the server guarantees, stated over every reachable configuration of the program: any number
  of threads, any interleaving of handlers, any results of the system calls, of OpenSSL and of the
  random generator. The runs at the start are concrete executions used to instantiate the
  statements.
\<close>

section \<open>Concrete runs\<close>

definition demo_env :: env where
  "demo_env = \<lparr>os_socket = Inr 3, os_register = 0, os_setsockopt = None, os_bind = None,
     os_listen = None, os_close = None, os_close_retry = None, os_shutdown = None,
     os_available = Inr 4, ssl_certificate_file = (\<lambda>_. None), ssl_private_key_file = (\<lambda>_. None),
     SSL_OP_ALL = 0x80000850, SSL_VERIFY_PEER = 1, message_of = (\<lambda>ec. ''error''),
     random_ids = of_nat\<rparr>"

text \<open>Up to the first accept; up to the accepted client; up to its completed handshake.\<close>

definition demo_listen :: "action list" where
  "demo_listen = [Start demo_env, Reactor, Take, Run demo_env 0]"

definition demo_accept :: "action list" where
  "demo_accept = demo_listen @ [Complete 0 (Result_socket 7), Reactor, Take, Take, Run demo_env 0]"

definition demo_handshake :: "error_code \<Rightarrow> action list" where
  "demo_handshake ec = demo_accept @ [Run demo_env 0, Reactor, Take, Run demo_env 0,
     Complete 0 (Result_ec ec), Take, Reactor, Take, Run demo_env 1]"

text \<open>A client sends \<open>hi\<close>, of which two of four announced bytes arrive before the end of the stream.\<close>

definition demo_write :: "action list" where
  "demo_write = demo_handshake ec_success @ [Reactor, Take, Run demo_env 1,
     Complete 0 (Result_ec ec_success), Reactor, Take, Run demo_env 1,
     Complete 0 (Result_read (make_misc_error eof) ''hi''), Reactor, Take, Run demo_env 1,
     Reactor, Take, Run demo_env 1]"

text \<open>A client whose handshake failed and whose socket was shut down.\<close>

definition demo_deaf :: "action list" where
  "demo_deaf = demo_handshake (make_misc_error eof) @ [Reactor, Take, Run demo_env 1]"

definition demo_shutdown :: "action list" where
  "demo_shutdown = demo_handshake ec_success @ [Shutdown demo_env]"

definition after :: "action list \<Rightarrow> config" where
  "after as = the (run_actions main_config as)"

lemma after_reachable:
  "run_actions main_config as \<noteq> None \<Longrightarrow>
     reachable (run_history main_config as) (fst (after as), snd (after as))"
  using main_reachable [of as "after as"] by (auto simp: after_def)

lemma demo_runs:
  "run_actions main_config demo_listen \<noteq> None"
  "run_actions main_config demo_accept \<noteq> None"
  "run_actions main_config (demo_handshake (make_misc_error eof)) \<noteq> None"
  "run_actions main_config demo_write \<noteq> None"
  "run_actions main_config demo_shutdown \<noteq> None"
  "run_actions main_config demo_deaf \<noteq> None"
  by code_simp+


section \<open>Clients\<close>

text \<open>
  C1: While the process lives, the active client ids are exactly the ids that the queued handlers,
  the running handlers and the pending operations work for, each id held by exactly one of them: no
  two connections share an id and no active id is forgotten.
\<close>

theorem active_ids_exclusive:
  assumes "reachable hist (pc, s)" "fault s = None"
  shows "finite (m_active_client_ids s) \<and> held.total s = mset_set (m_active_client_ids s)"
  using reachable_ids [OF assms(1)] assms(2) by (simp add: ids_held_def)

theorem active_ids_exclusive_witness:
  "fault (snd (after demo_write)) = None \<and> m_active_client_ids (snd (after demo_write)) = {0} \<and>
   held.total (snd (after demo_write)) = mset_set {0}"
proof -
  have 1: "fault (snd (after demo_write)) = None" by code_simp
  have 2: "m_active_client_ids (snd (after demo_write)) = {0}" by code_simp
  show ?thesis using active_ids_exclusive [OF after_reachable [OF demo_runs(4)] 1] 1 2 by simp
qed

text \<open>
  C4: The assertion in \<open>shutdown_socket\<close> (the id is still active) never fails, in any interleaving.
\<close>

theorem shutdown_socket_assertion:
  assumes "reachable hist (pc, s)"
  shows "fault s \<noteq> Some Assertion_failed"
  using reachable_ids [OF assms] by simp

theorem shutdown_socket_assertion_witness:
  "fault (snd (after (demo_handshake (make_misc_error eof)))) \<noteq> Some Assertion_failed"
  by (rule shutdown_socket_assertion [OF after_reachable [OF demo_runs(3)]])

text \<open>
  C7: The id that a packaged task picked for an accept in progress is still unused when the accept
  handler inserts it, although other handlers run between the draw and the insertion.
\<close>

theorem picked_id_still_fresh:
  assumes "reachable hist (pc, s)" "fault s = None"
    and "On_connection_attempt sock t r \<in> set (running s)" "id_tasks s t = Some i"
  shows "i \<notin> m_active_client_ids s"
  using reachable_ids [OF assms(1)] assms(2,4) accepting_running [OF assms(3)]
  by (auto simp: spare_ids_fresh_def)

theorem picked_id_still_fresh_witness:
  "id_tasks (snd (after demo_accept)) 0 = Some 0 \<and> 0 \<notin> m_active_client_ids (snd (after demo_accept))"
proof -
  have 1: "fault (snd (after demo_accept)) = None" by code_simp
  have 2: "On_connection_attempt 1 0 (Inr 7) \<in> set (running (snd (after demo_accept)))" by code_simp
  have 3: "id_tasks (snd (after demo_accept)) 0 = Some 0" by code_simp
  show ?thesis using picked_id_still_fresh [OF after_reachable [OF demo_runs(2)] 1 2 3] 3 by simp
qed

text \<open>
  \<open>get_random_spare_id\<close> returns the first id of the generator's sequence that is not active,
  and it returns whenever the generator ever produces one.
\<close>

theorem spare_id_first_draw:
  assumes "random_ids env k \<notin> m_active_client_ids s"
    and "\<And>j. j < k \<Longrightarrow> random_ids env j \<in> m_active_client_ids s"
  shows "get_random_spare_id env s = Some (random_ids env k)"
proof -
  have "spare_id_loop (random_ids env) (m_active_client_ids s) (k - d) = Some (random_ids env k)"
    if "d \<le> k" for d
    using that
  proof (induction d)
    case 0
    then show ?case using assms(1) by (subst spare_id_loop.simps) (simp add: Let_def)
  next
    case (Suc d)
    then show ?case
      using assms(2) [of "k - Suc d"] by (subst spare_id_loop.simps) (simp add: Let_def Suc_diff_Suc)
  qed
  from this [of k] show ?thesis by (simp add: get_random_spare_id_def)
qed

theorem spare_id_first_draw_witness:
  "get_random_spare_id demo_env (snd (after demo_write)) = Some 1"
proof -
  have 1: "m_active_client_ids (snd (after demo_write)) = {0}" by code_simp
  have 2: "random_ids demo_env = of_nat" by (simp add: demo_env_def)
  show ?thesis
    using spare_id_first_draw [of demo_env 1 "snd (after demo_write)"] by (simp add: 1 2)
qed

section \<open>Listening\<close>

text \<open>
  C8: There is never more than one chain of listen, accept and timeout: at most one of the queued
  handlers, running handlers and pending operations is a listen, an accept, an accept's handler, a
  connection timeout or its timer.
\<close>

theorem single_listener:
  assumes "reachable hist (pc, s)"
  shows "listener.total s \<le> 1"
  using assms by (rule listener_at_most_one)

theorem single_listener_witness: "listener.total (snd (after demo_write)) \<le> 1"
  by (rule single_listener [OF after_reachable [OF demo_runs(4)]])

text \<open>The runs of a handler that end the chain: a failed accept and a failed timer.\<close>

fun ends_listening :: "server \<Rightarrow> action \<Rightarrow> bool" where
  "ends_listening s (Run env n) \<longleftrightarrow>
     (case running s ! n of
        On_connection_attempt sock t r \<Rightarrow> accept_fails env sock r s
      | On_timeout ec \<Rightarrow> ec_failed ec
      | _ \<Rightarrow> False)"
| "ends_listening s _ \<longleftrightarrow> False"

lemma listener_gain_exact:
  assumes "fault s = None" "fault (exec env h s) = None"
  shows "listener.gain env h s +
     (case h of
        On_connection_attempt sock t r \<Rightarrow> if accept_fails env sock r s then 1 else 0
      | On_timeout ec \<Rightarrow> if ec_failed ec then 1 else 0
      | _ \<Rightarrow> 0) = listener_h h"
proof (cases h)
  case Run_listen
  then show ?thesis
    using assms by (auto simp: listener.gain_def listen_def throw_error_cases listen_fails_def Let_def)
next
  case Run_connection_timeout
  then show ?thesis
    using assms
    by (auto simp: listener.gain_def connection_timeout_def and_then_def acceptor_cancel_def
        throw_error_cases Let_def split: if_splits)
qed (auto simp: listener.gain_def)

text \<open>
  C9: The listen chain survives every step of the serving program except the handler of a failed
  accept and of a failed timer, which end it; nothing ever starts it again. So the server keeps
  accepting until the first such failure, and never accepts after it.
\<close>

theorem listen_chain:
  assumes "pc \<noteq> Main_start" "step (pc, s) a (pc', s')" "fault s' = None"
  shows "listener.total s' + (if ends_listening s a then 1 else 0) = listener.total s"
  using assms(2)
proof (cases rule: step_kinds)
  case (Run env n)
  let ?r = "s\<lparr>running := remove_nth n (running s)\<rparr>"
  have "accept_fails env sock r ?r = accept_fails env sock r s" for sock r
    by (simp add: accept_fails_def assign_peer_def split: sum.splits)
  then show ?thesis
    using listener.total_run [of s n env] step_fault [OF assms(2)] Run assms(3)
      listener_gain_exact [of ?r env "running s ! n"]
    by (simp split: handler.splits if_splits)
next
  case (Shutdown env)
  then show ?thesis using step_fault [OF assms(2)] by (simp add: listener.total_shutdown_begin)
next
  case Quiet
  then have "\<not> ends_listening s a" by (cases a) (auto simp: quiet_action_def)
  then show ?thesis using listener.total_quiet [OF assms(2) Quiet(1)] by simp
qed (use assms(1) in simp_all)

theorem listen_chain_witness:
  "\<exists>c. do_step (after demo_accept) (Run demo_env 0) = Some c \<and>
       listener.total (snd c) = listener.total (snd (after demo_accept))"
proof -
  let ?s = "snd (after demo_accept)" and ?a = "Run demo_env 0"
  obtain c where c: "do_step (after demo_accept) ?a = Some c"
    "fst (after demo_accept) = Main_sleep" "fault (snd c) = None" "\<not> ends_listening ?s ?a"
  proof -
    have "case do_step (after demo_accept) ?a of None \<Rightarrow> False | Some c \<Rightarrow> fault (snd c) = None"
      by code_simp
    moreover have "fst (after demo_accept) = Main_sleep" by code_simp
    moreover have "\<not> ends_listening ?s ?a" by code_simp
    ultimately show thesis using that by (auto split: option.splits)
  qed
  have "step (fst (after demo_accept), ?s) ?a (fst c, snd c)" using c(1) by (simp add: step_do_step)
  from listen_chain [OF _ this c(3)] c show ?thesis by auto
qed

section \<open>Progress\<close>

text \<open>
  C2: The worker threads never deadlock on the future of the packaged task: if handlers are running,
  one of them can finish, provided the generator produces an unused id. In particular the task an
  accept handler waits for is never stuck behind it in the queue, whatever the number of threads.
\<close>

theorem no_deadlock:
  assumes "reachable hist (pc, s)" "fault s = None" "running s \<noteq> []"
    and "random_ids env k \<notin> m_active_client_ids s"
  shows "\<exists>n c'. step (pc, s) (Run env n) c'"
  using some_handler_finishes [of s env k] reachable_future_safe [OF assms(1)] assms(2-4)
  by (auto simp: step_simps)

theorem no_deadlock_witness:
  "\<exists>n c'. step (fst (after demo_accept), snd (after demo_accept)) (Run demo_env n) c'"
proof -
  have 1: "fault (snd (after demo_accept)) = None" by code_simp
  have 2: "running (snd (after demo_accept)) \<noteq> []" by code_simp
  have 3: "random_ids demo_env 0 \<notin> m_active_client_ids (snd (after demo_accept))" by code_simp
  show ?thesis by (rule no_deadlock [OF after_reachable [OF demo_runs(2)] 1 2 3])
qed

text \<open>
  C6: The work count of the event loop is the number of queued handlers, running handlers and pending
  operations, plus one for the work guard; while the guard is held the loop does not stop, so
  \<open>run\<close> returns only after \<open>shutdown\<close>.
\<close>

theorem work_accounting:
  assumes "reachable hist (pc, s)" "fault s = None"
  shows "outstanding_work (m_io_context s)
           = int (length (handler_queue s) + length (running s) + length (pending s))
               + (if m_executor_guard s then 1 else 0) \<and>
         (m_executor_guard s \<longrightarrow> \<not> stopped (m_io_context s))"
proof -
  have "sum_list (map count_h hs) = length hs" for hs by (induction hs) auto
  moreover have "sum_list (map count_o ops) = length ops" for ops by (induction ops) auto
  ultimately have "tokens.total s = length (handler_queue s) + length (running s) + length (pending s)"
    by (simp add: tokens.total_def)
  then show ?thesis
    using reachable_work [OF assms(1)] assms(2) by (simp add: work_accounted_def)
qed

theorem work_accounting_witness:
  "outstanding_work (m_io_context (snd (after demo_write))) = 3"
proof -
  have 1: "fault (snd (after demo_write)) = None" by code_simp
  have 2: "handler_queue (snd (after demo_write)) = []" by code_simp
  have 3: "length (running (snd (after demo_write))) = 1" by code_simp
  have 4: "length (pending (snd (after demo_write))) = 1" by code_simp
  have 5: "m_executor_guard (snd (after demo_write))" by code_simp
  show ?thesis using work_accounting [OF after_reachable [OF demo_runs(4)] 1] 2 3 4 5 by simp
qed


section \<open>Messages\<close>

text \<open>
  C3: A response in progress is the concatenation, in order, of all messages processed for its client
  id since the program began, and nothing else is ever sent to a client.
\<close>

theorem response_echoes_messages:
  assumes "reachable hist (pc, s)" "fault s = None" "Async_write sock i d \<in> set (pending s)"
  shows "d = concat (messages hist i) \<and> messages hist i \<noteq> []"
proof -
  have "m_received_messages s i = Some d"
    using reachable_writes [OF assms(1)] assms(2,3) by (auto simp: writes_current_def)
  then show ?thesis
    using reachable_messages [OF assms(1)] assms(2) by (auto simp: messages_recorded_def split: if_splits)
qed

theorem response_echoes_messages_witness:
  "concat (messages (run_history main_config demo_write) 0) = ''hi'' @ [CHR 0x00, CHR 0x00]"
proof -
  have 1: "fault (snd (after demo_write)) = None" by code_simp
  have 2: "Async_write 1 0 (''hi'' @ [CHR 0x00, CHR 0x00]) \<in> set (pending (snd (after demo_write)))"
    by code_simp
  show ?thesis using response_echoes_messages [OF after_reachable [OF demo_runs(4)] 1 2] by simp
qed

text \<open>
  C14: Every message recorded for a client is a read at the length that \<open>available\<close> announced before it:
  the bytes that arrived, filled up with NUL bytes when the stream ended after fewer. At any moment and
  under any interleaving the messages processed for a client, and the one that was read and waits to be
  processed, are the padded valid reads of that client, in order; and what is recorded is their
  concatenation.
\<close>

theorem short_read_padded:
  assumes "observed obs hist (pc, s)" "fault s = None"
  shows "messages hist i @ unprocessed i s = read_messages i 0 obs \<and>
    m_received_messages s i = (if messages hist i = [] then None else Some (concat (messages hist i)))"
  using observed_reads [OF assms(1)] reachable_messages [OF observed_reachable [OF assms(1)]] assms(2)
  by (simp add: reads_recorded_def messages_recorded_def)

theorem short_read_padded_witness:
  "observed [Announced 0 4, Arrived 0 (make_misc_error eof) ''hi''] (run_history main_config demo_write) (after demo_write) \<and>
   m_received_messages (snd (after demo_write)) 0 = Some (''hi'' @ replicate 2 (char_of (0::nat)))"
proof -
  have 1: "run_observations main_config demo_write = [Announced 0 4, Arrived 0 (make_misc_error eof) ''hi'']"
    by code_simp
  have "run_actions main_config demo_write = Some (after demo_write)" using demo_runs(4) by (auto simp: after_def)
  with run_actions_observed [OF observed_init] 1
  have obs: "observed [Announced 0 4, Arrived 0 (make_misc_error eof) ''hi''] (run_history main_config demo_write) (after demo_write)"
    by (fastforce simp: main_config_def)
  have 2: "fault (snd (after demo_write)) = None" by code_simp
  have 3: "unprocessed 0 (snd (after demo_write)) = []" by code_simp
  have 4: "received_valid_message (make_misc_error eof) (length ''hi'')" by code_simp
  have "messages (run_history main_config demo_write) 0 = [''hi'' @ replicate 2 (char_of (0::nat))]"
    using short_read_padded [of _ _ "fst (after demo_write)" "snd (after demo_write)" 0, unfolded prod.collapse, OF obs 2] 3 4
    by (simp add: numeral_2_eq_2)
  then show ?thesis
    using short_read_padded [of _ _ "fst (after demo_write)" "snd (after demo_write)" 0, unfolded prod.collapse, OF obs 2] obs
    by simp
qed

section \<open>The connection counter\<close>

text \<open>
  C5: \<open>m_active_connections\<close> is the number of connections whose handshake is over, with success or not, and
  whose \<open>shutdown_socket\<close> has not run (\<open>established.total\<close>), minus the number of handshakes that failed
  so far, as a 32-bit unsigned value: \<open>shutdown_socket\<close> decrements it also for connections that were
  never counted.
\<close>

theorem connection_counter:
  assumes "reachable hist (pc, s)" "fault s = None"
  shows "m_active_connections s = of_nat (established.total s) - of_nat (failed_handshakes hist)"
  using reachable_connections [OF assms(1)] assms(2) by blast

theorem connection_counter_witness:
  "m_active_connections (snd (after demo_write)) = 1 \<and>
   of_nat (established.total (snd (after demo_write))) = (1 :: u32)"
proof -
  have 1: "fault (snd (after demo_write)) = None" by code_simp
  have 2: "m_active_connections (snd (after demo_write)) = 1" by code_simp
  have 3: "failed_handshakes (run_history main_config demo_write) = 0" by code_simp
  show ?thesis using connection_counter [OF after_reachable [OF demo_runs(4)] 1] 2 3 by simp
qed

text \<open>
  C11: With more failed handshakes than connections whose handshake is over and that are not yet shut down
  (and fewer than \<open>2 ^ 32 - 101\<close>
  of them) the counter has wrapped below zero, and the next \<open>listen\<close> takes a connection timeout
  instead of accepting, although the server is idle.
\<close>

theorem failed_handshakes_deafen:
  assumes "reachable hist (pc, s)" "fault s = None"
    and "established.total s < failed_handshakes hist"
    and "failed_handshakes hist - established.total s < 2 ^ 32 - 100"
    and "\<not> listen_fails env s"
  shows "handler_queue (listen env s) = handler_queue s @ [Run_connection_timeout] \<and>
         pending (listen env s) = pending s"
proof -
  let ?d = "failed_handshakes hist - established.total s"
  have "m_active_connections s = - of_nat ?d"
    using reachable_connections [OF assms(1)] assms(2) assms(3) by (simp add: of_nat_diff)
  moreover have "unat (- of_nat ?d :: u32) = 2 ^ 32 - ?d"
    using unat_minus_of_nat [of ?d, where 'a = 32] assms(3,4) by simp
  ultimately have "m_active_connections s > max_connections"
    using assms(4) by (simp add: word_less_nat_alt)
  then show ?thesis
    using assms(5) by (simp add: listen_def throw_error_cases listen_fails_def Let_def)
qed


theorem failed_handshakes_deafen_witness:
  "m_active_client_ids (snd (after demo_deaf)) = {} \<and>
   handler_queue (listen demo_env (snd (after demo_deaf))) = [Run_connection_timeout]"
proof -
  let ?s = "snd (after demo_deaf)" and ?h = "run_history main_config demo_deaf"
  have 1: "fault ?s = None" by code_simp
  have f: "failed_handshakes ?h = 1" by code_simp
  have e: "established.total ?s = 0" unfolding established.total_def by code_simp
  have 2: "\<not> listen_fails demo_env ?s" by code_simp
  have 3: "handler_queue ?s = []" by code_simp
  have 4: "m_active_client_ids ?s = {}" by code_simp
  show ?thesis
    using failed_handshakes_deafen [OF after_reachable [OF demo_runs(6)] 1 _ _ 2] f e 3 4 by simp
qed

section \<open>Start and shutdown\<close>

lemmas ssl_frame_defs =
  shutdown_def shutdown_begin_def shutdown_join_def and_then_def acceptor_cancel_def
  acceptor_close_def abort_accepts_def raise_def log_server_def configure_acceptor_def io_post_def

text \<open>
  C10: The life of the server. While \<open>main\<close> sleeps the server is running, holds its work guard and has
  an open acceptor; once \<open>shutdown\<close> went through, the acceptor is closed, the loop is stopped
  and no thread can take another handler from the queue.
\<close>

theorem server_life:
  assumes "reachable hist (pc, s)" "fault s = None"
  shows "(pc = Main_sleep \<longrightarrow> m_server_running s \<and> m_executor_guard s \<and> is_open (m_acceptor s)) \<and>
         (pc = Main_join \<or> pc = Main_end \<longrightarrow>
            \<not> m_server_running s \<and> \<not> is_open (m_acceptor s) \<and> stopped (m_io_context s) \<and>
            (\<forall>c'. \<not> step (pc, s) Take c'))"
  using reachable_life [OF assms]
  by (cases pc) (auto simp: step_simps can_take_def)

theorem server_life_witness:
  "fst (after demo_shutdown) = Main_join \<and> \<not> is_open (m_acceptor (snd (after demo_shutdown)))"
proof -
  have 1: "fault (snd (after demo_shutdown)) = None" by code_simp
  have 2: "fst (after demo_shutdown) = Main_join" by code_simp
  show ?thesis using server_life [OF after_reachable [OF demo_runs(5)] 1] 2 by simp
qed

text \<open>
  C12: \<open>start\<close> with a certificate or a private key that cannot be loaded terminates the process: the
  handler of the exception calls \<open>shutdown\<close>, whose \<open>cancel\<close> throws \<open>bad_descriptor\<close> on the acceptor
  that is not open yet, out of a \<open>noexcept\<close> function.
\<close>

theorem missing_certificate_terminates:
  assumes "ssl_certificate_file env (dir @ ''certificate.pem'') = Some e \<or>
           ssl_private_key_file env (dir @ ''private_key.pem'') = Some e" "e \<noteq> 0"
  shows "fault (start env (new_server th port dir)) = Some (Uncaught_exception
           \<lparr>se_code = make_basic_error bad_descriptor, se_location = ''cancel''\<rparr>)"
proof -
  let ?s0 = "(new_server th port dir)\<lparr>m_server_running := True\<rparr>"
  obtain p where p: "(post_worker ^^ unat (m_thread_count ?s0)) ?s0 = ?s0\<lparr>m_thread_pool := p\<rparr>"
    using post_workers_frame by blast
  define s1 where "s1 = log_server [Log_str ''started with'', Log_num (unat (m_thread_count ?s0)),
    Log_str ''threads''] (?s0\<lparr>m_thread_pool := p\<rparr>)"
  have "m_auth_dir s1 = dir" by (simp add: s1_def log_server_def new_server_def Let_def split: prod.splits)
  then have "fault (configure_ssl_context env s1) = Some (Uncaught_exception
      \<lparr>se_code = make_basic_error bad_descriptor, se_location = ''cancel''\<rparr>)"
    using assms
    by (auto simp: configure_ssl_context_def use_certificate_file_def use_rsa_private_key_file_def
        throw_error_cases shutdown_before_open s1_def ec_failed_def Let_def split: option.splits)
  then show ?thesis using p by (simp add: start_def and_then_def s1_def Let_def)
qed

theorem missing_certificate_terminates_witness:
  "fault (start (demo_env\<lparr>ssl_certificate_file := (\<lambda>_. Some 33558530)\<rparr>) (new_server 3 1234 ''../certs/''))
     = Some (Uncaught_exception
         \<lparr>se_code = make_basic_error bad_descriptor, se_location = ''cancel''\<rparr>)"
  by (rule missing_certificate_terminates [where e = 33558530]) simp_all

text \<open>
  The server never asks for the client's certificate: \<open>start\<close> leaves the verification mode of the
  SSL context at 0, because \<open>verify_peer\<close> is passed to \<open>set_options\<close>.
\<close>

theorem peer_never_verified:
  "ctx_verify_mode (m_ssl_context (start env (new_server th port dir))) = 0"
proof -
  let ?s0 = "(new_server th port dir)\<lparr>m_server_running := True\<rparr>"
  obtain p where p: "(post_worker ^^ unat (m_thread_count ?s0)) ?s0 = ?s0\<lparr>m_thread_pool := p\<rparr>"
    using post_workers_frame by blast
  have frame: "m_ssl_context (shutdown env s) = m_ssl_context s"
    "m_ssl_context (configure_acceptor env s) = m_ssl_context s"
    "m_ssl_context (io_post Run_listen s) = m_ssl_context s" for s
    by (simp_all add: ssl_frame_defs throw_error_cases Let_def split: prod.splits)
  have "ctx_verify_mode (m_ssl_context (configure_ssl_context env s)) = ctx_verify_mode (m_ssl_context s)"
    for s
    by (auto simp: configure_ssl_context_def set_options_def use_certificate_file_def
        use_rsa_private_key_file_def log_error_def throw_error_cases frame Let_def split: prod.splits option.splits)
  then show ?thesis
    using p
    by (simp add: start_def and_then_def frame log_server_def new_server_def new_ssl_context_def
        set_options_def Let_def split: prod.splits)
qed

text \<open>
  C13: A listen handler that a thread took before \<open>shutdown\<close> closed the acceptor terminates the process
  when it runs after that: \<open>m_acceptor.listen\<close> throws out of the \<open>noexcept\<close> method.
\<close>

theorem listen_after_shutdown_terminates:
  assumes "reachable hist (pc, s)" "fault s = None" "pc = Main_join \<or> pc = Main_end"
    and "n < length (running s)" "running s ! n = Run_listen"
  shows "\<exists>s'. step (pc, s) (Run env n) (pc, s') \<and>
     fault s' = Some (Uncaught_exception
       \<lparr>se_code = make_basic_error bad_descriptor, se_location = ''listen''\<rparr>)"
proof -
  have "\<not> is_open (m_acceptor s)" using reachable_life [OF assms(1,2)] assms(3) by auto
  then show ?thesis
    using assms(2,4,5)
    by (auto simp: step_simps listen_def throw_error_cases closed_bad_descriptor Let_def)
qed

theorem listen_after_shutdown_terminates_witness:
  "\<exists>s'. step (Main_join, snd (after demo_shutdown)) (Run demo_env 0) (Main_join, s') \<and>
     fault s' = Some (Uncaught_exception
       \<lparr>se_code = make_basic_error bad_descriptor, se_location = ''listen''\<rparr>)"
proof -
  have 1: "fault (snd (after demo_shutdown)) = None" by code_simp
  have 2: "fst (after demo_shutdown) = Main_join" by code_simp
  have 3: "0 < length (running (snd (after demo_shutdown)))" by code_simp
  have 4: "running (snd (after demo_shutdown)) ! 0 = Run_listen" by code_simp
  show ?thesis
    using listen_after_shutdown_terminates [OF after_reachable [OF demo_runs(5)] 1 _ 3 4] 2 by simp
qed

end
