(* ===== verification/Linked_List.thy ===== *)
theory Linked_List
  imports Prelude
begin

text \<open>
  Doubly linked lists in a store, as the timer queue and the object pool keep them: the links are
  two functions on addresses, \<open>nx\<close> and \<open>pv\<close>.
\<close>

text \<open>A segment from \<open>p\<close> to \<open>e\<close> whose first node has the predecessor \<open>b\<close>.\<close>

fun dseg ::
  "('r \<Rightarrow> 'r option) \<Rightarrow> ('r \<Rightarrow> 'r option) \<Rightarrow> 'r option \<Rightarrow> 'r option \<Rightarrow> 'r list \<Rightarrow> 'r option \<Rightarrow> bool" where
  "dseg nx pv b p [] e \<longleftrightarrow> p = e"
| "dseg nx pv b p (x # xs) e \<longleftrightarrow> p = Some x \<and> pv x = b \<and> dseg nx pv (Some x) (nx x) xs e"

text \<open>A singly linked list, which ends at a null pointer.\<close>

fun sseg :: "('r \<Rightarrow> 'r option) \<Rightarrow> 'r option \<Rightarrow> 'r list \<Rightarrow> bool" where
  "sseg nx p [] \<longleftrightarrow> p = None"
| "sseg nx p (x # xs) \<longleftrightarrow> p = Some x \<and> sseg nx (nx x) xs"

definition last_or :: "'r option \<Rightarrow> 'r list \<Rightarrow> 'r option" where
  "last_or b xs = (if xs = [] then b else Some (last xs))"

definition hd_or :: "'r option \<Rightarrow> 'r list \<Rightarrow> 'r option" where
  "hd_or e xs = (case xs of [] \<Rightarrow> e | x # _ \<Rightarrow> Some x)"

lemma last_or_simps [simp]: "last_or b [] = b" "last_or b (x # xs) = last_or (Some x) xs"
  by (simp_all add: last_or_def)

lemma hd_or_simps [simp]: "hd_or e [] = e" "hd_or e (x # xs) = Some x"
  by (simp_all add: hd_or_def)

lemma dseg_head: "dseg nx pv b p xs e \<Longrightarrow> p = hd_or e xs"
  by (cases xs) auto

lemma dseg_append:
  "dseg nx pv b p (xs @ ys) e \<longleftrightarrow> (\<exists>m. dseg nx pv b p xs m \<and> dseg nx pv (last_or b xs) m ys e)"
  by (induction xs arbitrary: b p) auto

lemma dseg_cong:
  "(\<And>x. x \<in> set xs \<Longrightarrow> nx' x = nx x \<and> pv' x = pv x) \<Longrightarrow> dseg nx' pv' b p xs e = dseg nx pv b p xs e"
  by (induction xs arbitrary: b p) auto

lemma sseg_cong: "(\<And>x. x \<in> set xs \<Longrightarrow> nx' x = nx x) \<Longrightarrow> sseg nx' p xs = sseg nx p xs"
  by (induction xs arbitrary: p) auto

lemma dseg_sseg: "dseg nx pv b p xs None \<Longrightarrow> sseg nx p xs"
  by (induction xs arbitrary: b p) auto

lemma dseg_prev: "dseg nx pv b p xs e \<Longrightarrow> x \<in> set xs \<Longrightarrow> p = Some x \<or> pv x \<noteq> None"
proof (induction xs arbitrary: b p)
  case (Cons y ys)
  then show ?case by (cases ys) auto
qed simp

lemma dseg_set_end:
  assumes "dseg nx pv b p xs e" "xs \<noteq> []" "distinct xs" and "nx' (last xs) = e'"
    and "\<And>x. x \<in> set xs \<Longrightarrow> pv' x = pv x" "\<And>x. x \<in> set xs \<Longrightarrow> x \<noteq> last xs \<Longrightarrow> nx' x = nx x"
  shows "dseg nx' pv' b p xs e'"
  using assms
proof (induction xs arbitrary: b p)
  case (Cons x xs)
  show ?case
  proof (cases "xs = []")
    case False
    then have "x \<noteq> last xs" using Cons.prems(3) by auto
    then have "nx' x = nx x" "pv' x = pv x" using Cons.prems(5,6) [of x] False by auto
    moreover have "dseg nx' pv' (Some x) (nx x) xs e'" using Cons False by (intro Cons.IH) auto
    ultimately show ?thesis using Cons.prems(1) by simp
  qed (use Cons.prems in auto)
qed simp

text \<open>
  Linking a node in front: the old first node gets a predecessor.
\<close>

lemma dseg_push:
  assumes "dseg nx pv None p xs None" "distinct xs" "t \<notin> set xs"
    and "nx' t = p" "pv' t = None" "\<And>x. x \<in> set xs \<Longrightarrow> nx' x = nx x"
    and "\<And>x. x \<in> set xs \<Longrightarrow> pv' x = (if p = Some x then Some t else pv x)"
  shows "dseg nx' pv' None (Some t) (t # xs) None"
proof (cases xs)
  case (Cons y ys)
  have p: "p = Some y" using assms(1) Cons by simp
  have "nx' x = nx x \<and> pv' x = pv x" if "x \<in> set ys" for x
    using that assms(2,6,7) Cons p by auto
  then have "dseg nx' pv' (Some y) (nx y) ys None"
    using assms(1) Cons by (subst dseg_cong [of ys nx' nx pv' pv]) simp_all
  then show ?thesis using assms(4-7) Cons p by simp
qed (use assms in auto)

text \<open>
  Unlinking a node: its neighbours are linked to each other, and nothing is asked of the links of the
  node itself.
\<close>

lemma dseg_unlink:
  assumes d: "dseg nx pv None p (xs @ t # ys) None" and dist: "distinct (xs @ t # ys)"
    and nxt: "\<And>x. x \<noteq> t \<Longrightarrow> nx' x = (if pv t = Some x then nx t else nx x)"
    and prv: "\<And>x. x \<noteq> t \<Longrightarrow> pv' x = (if nx t = Some x then pv t else pv x)"
  shows "dseg nx' pv' None (if p = Some t then nx t else p) (xs @ ys) None"
proof -
  obtain xs': "dseg nx pv None p xs (Some t)" and prev: "pv t = last_or None xs"
    and ys': "dseg nx pv (Some t) (nx t) ys None"
    using d by (auto simp: dseg_append)
  have next_t: "nx t = hd_or None ys" using dseg_head [OF ys'] .
  have p: "(if p = Some t then nx t else p) = (if xs = [] then nx t else p)"
    using xs' dist by (cases xs) auto
  have "dseg nx' pv' None (if xs = [] then nx t else p) xs (nx t)"
  proof (cases "xs = []")
    case False
    have away: "x \<noteq> t" "nx t \<noteq> Some x" if "x \<in> set xs" for x
      using that dist next_t by (cases ys; auto)+
    have l: "last xs \<in> set xs" "pv t = Some (last xs)" using False prev by (simp_all add: last_or_def)
    have "dseg nx' pv' None p xs (nx t)"
      using xs' False by (rule dseg_set_end) (use dist l away in \<open>auto simp: nxt prv\<close>)
    then show ?thesis using False by simp
  qed simp
  moreover have "dseg nx' pv' (last_or None xs) (nx t) ys None"
  proof (cases ys)
    case (Cons y zs)
    have "nx' x = nx x \<and> pv' x = pv x" if "x \<in> set zs" for x
    proof -
      have "x \<noteq> t" "x \<noteq> y" "x \<notin> set xs" using that dist Cons by auto
      then show ?thesis using next_t prev Cons by (auto simp: nxt prv last_or_def)
    qed
    then have "dseg nx' pv' (Some y) (nx y) zs None"
      using ys' Cons dseg_cong [of zs nx' nx pv' pv] by simp
    then show ?thesis using dist Cons next_t prev by (auto simp: nxt prv last_or_def)
  qed (use next_t in simp)
  ultimately show ?thesis unfolding p by (auto simp: dseg_append)
qed

end
