(* ===== verification/Object_Pool.thy ===== *)
theory Object_Pool
  imports Linked_List
begin

text \<open>
  The pool that holds the reactor's descriptor states, \<open>src/ext/asio/asio/detail/object_pool.hpp\<close>: a
  doubly linked list of the objects in use and a list of objects to use again, both linked through
  the objects. The store keeps the two links of each object; \<open>create\<close> takes a fresh address.
\<close>

section \<open>The pool\<close>

type_synonym obj = nat

record object_pool =
  live_list :: "obj option"
  free_list :: "obj option"
  onext :: "obj \<Rightarrow> obj option"
  oprev :: "obj \<Rightarrow> obj option"

definition new_object_pool :: object_pool where
  "new_object_pool = \<lparr>live_list = None, free_list = None, onext = (\<lambda>_. None), oprev = (\<lambda>_. None)\<rparr>"

definition set_next :: "obj \<Rightarrow> obj option \<Rightarrow> object_pool \<Rightarrow> object_pool" where
  "set_next x v p = p\<lparr>onext := (onext p)(x := v)\<rparr>"

definition set_prev :: "obj \<Rightarrow> obj option \<Rightarrow> object_pool \<Rightarrow> object_pool" where
  "set_prev x v p = p\<lparr>oprev := (oprev p)(x := v)\<rparr>"

definition pool_first :: "object_pool \<Rightarrow> obj option" where
  "pool_first p = live_list p"

definition pool_alloc :: "obj \<Rightarrow> object_pool \<Rightarrow> obj \<times> object_pool" where
  "pool_alloc fresh p =
     (let (x, p1) = (case free_list p of
                       Some y \<Rightarrow> (y, p\<lparr>free_list := onext p y\<rparr>)
                     | None \<Rightarrow> (fresh, p));
          p2 = set_next x (live_list p1) p1;
          p3 = set_prev x None p2;
          p4 = (case live_list p3 of Some l \<Rightarrow> set_prev l (Some x) p3 | None \<Rightarrow> p3)
      in (x, p4\<lparr>live_list := Some x\<rparr>))"

definition pool_free :: "obj \<Rightarrow> object_pool \<Rightarrow> object_pool" where
  "pool_free x p =
     (let p1 = (if live_list p = Some x then p\<lparr>live_list := onext p x\<rparr> else p);
          p2 = (case oprev p1 x of Some y \<Rightarrow> set_next y (onext p1 x) p1 | None \<Rightarrow> p1);
          p3 = (case onext p2 x of Some y \<Rightarrow> set_prev y (oprev p2 x) p2 | None \<Rightarrow> p2);
          p4 = set_next x (free_list p3) p3;
          p5 = set_prev x None p4
      in p5\<lparr>free_list := Some x\<rparr>)"

text \<open>
  \<open>destroy_list\<close>: the objects destroyed so far are collected in \<open>ds\<close>; it does not return on a cyclic
  list.
\<close>

partial_function (option) destroy_list :: "(obj \<Rightarrow> obj option) \<Rightarrow> obj option \<Rightarrow> obj list \<Rightarrow> obj list option" where
  "destroy_list nx l ds = (case l of None \<Rightarrow> Some ds | Some x \<Rightarrow> destroy_list nx (nx x) (ds @ [x]))"

declare destroy_list.simps [code]

definition pool_destroy :: "object_pool \<Rightarrow> obj list option" where
  "pool_destroy p =
     (case destroy_list (onext p) (live_list p) [] of
        None \<Rightarrow> None
      | Some ds \<Rightarrow> destroy_list (onext p) (free_list p) ds)"

section \<open>The pool is two lists\<close>

text \<open>\<open>xs\<close> are the objects in use, last allocated first; \<open>ys\<close> those to use again, last freed first.\<close>

definition pool_rep :: "object_pool \<Rightarrow> obj list \<Rightarrow> obj list \<Rightarrow> bool" where
  "pool_rep p xs ys \<longleftrightarrow>
     dseg (onext p) (oprev p) None (live_list p) xs None \<and> sseg (onext p) (free_list p) ys \<and> distinct (xs @ ys)"

lemma new_object_pool_rep: "pool_rep new_object_pool [] []"
  by (simp add: pool_rep_def new_object_pool_def)

lemma pool_alloc_rep:
  assumes rep: "pool_rep p xs ys" and fresh: "fresh \<notin> set xs \<union> set ys"
    and a: "pool_alloc fresh p = (x, p')"
  shows "x = (case ys of [] \<Rightarrow> fresh | y # _ \<Rightarrow> y)" "pool_rep p' (x # xs) (tl ys)"
proof -
  have live: "dseg (onext p) (oprev p) None (live_list p) xs None" and free: "sseg (onext p) (free_list p) ys"
    and dist: "distinct xs" "distinct ys" "set xs \<inter> set ys = {}"
    using rep by (auto simp: pool_rep_def)
  have x: "x = (case ys of [] \<Rightarrow> fresh | y # _ \<Rightarrow> y)"
    using a free by (cases ys) (auto simp: pool_alloc_def Let_def)
  then show "x = (case ys of [] \<Rightarrow> fresh | y # _ \<Rightarrow> y)" .
  have notin: "x \<notin> set xs" "x \<notin> set (tl ys)" using x fresh dist by (cases ys; auto)+
  have lv: "live_list p \<noteq> Some x" using live notin by (cases xs) auto
  have p': "free_list p' = (case ys of [] \<Rightarrow> None | y # _ \<Rightarrow> onext p y)" "live_list p' = Some x"
    "onext p' = (onext p)(x := live_list p)"
    "oprev p' = (\<lambda>z. if live_list p = Some z then Some x else if z = x then None else oprev p z)"
    using a free lv by (cases ys; fastforce simp: pool_alloc_def set_next_def set_prev_def Let_def fun_eq_iff
        split: option.splits)+
  have "dseg (onext p') (oprev p') None (Some x) (x # xs) None"
    using live dist(1) notin(1) by (rule dseg_push) (use notin lv in \<open>auto simp: p'\<close>)
  moreover have "sseg (onext p') (free_list p') (tl ys)"
  proof -
    have "sseg (onext p) (free_list p') (tl ys)" using free by (cases ys) (simp_all add: p')
    moreover have "onext p' z = onext p z" if "z \<in> set (tl ys)" for z using that notin(2) by (auto simp: p')
    ultimately show ?thesis using sseg_cong by metis
  qed
  moreover have "distinct ((x # xs) @ tl ys)" using notin dist by (cases ys) auto
  ultimately show "pool_rep p' (x # xs) (tl ys)" by (simp add: pool_rep_def p'(2))
qed

lemma pool_free_rep:
  assumes rep: "pool_rep p (as @ x # bs) ys"
  shows "pool_rep (pool_free x p) (as @ bs) (x # ys)"
proof -
  let ?p' = "pool_free x p"
  have live: "dseg (onext p) (oprev p) None (live_list p) (as @ x # bs) None"
    and free: "sseg (onext p) (free_list p) ys" and dist: "distinct ((as @ x # bs) @ ys)"
    using rep by (auto simp: pool_rep_def)
  have prev: "oprev p x = last_or None as" and nxt: "onext p x = hd_or None bs"
    using live by (auto simp: dseg_append dest: dseg_head)
  have away: "oprev p x \<noteq> Some x" "onext p x \<noteq> Some x"
    using prev nxt dist by (auto simp: last_or_def hd_or_def split: if_splits list.splits)
  have both: "oprev p x = Some z \<Longrightarrow> onext p x \<noteq> Some z" for z
    using prev nxt dist by (auto simp: last_or_def hd_or_def split: if_splits list.splits)
  have p': "onext ?p' z = (if z = x then free_list p else if oprev p x = Some z then onext p x else onext p z)"
    "oprev ?p' z = (if z = x then None else if onext p x = Some z then oprev p x else oprev p z)"
    "free_list ?p' = Some x" "live_list ?p' = (if live_list p = Some x then onext p x else live_list p)" for z
    using away both
    by (cases "oprev p x"; cases "onext p x"; auto simp: pool_free_def set_next_def set_prev_def Let_def)+
  have "dseg (onext ?p') (oprev ?p') None (live_list ?p') (as @ bs) None"
    unfolding p'(4) using live by (rule dseg_unlink) (use dist in \<open>auto simp: p'\<close>)
  moreover have "sseg (onext ?p') (onext ?p' x) ys"
  proof -
    have "onext ?p' z = onext p z" if "z \<in> set ys" for z
    proof -
      have "z \<noteq> x" "z \<notin> set as" using that dist by auto
      then have "oprev p x \<noteq> Some z" using prev by (auto simp: last_or_def)
      then show ?thesis using \<open>z \<noteq> x\<close> by (simp add: p')
    qed
    then show ?thesis using free sseg_cong [of ys "onext ?p'" "onext p"] by (simp add: p')
  qed
  ultimately show ?thesis using dist by (auto simp: pool_rep_def p'(3))
qed

lemma destroy_list_returns: "sseg nx l xs \<Longrightarrow> destroy_list nx l ds = Some (ds @ xs)"
proof (induction xs arbitrary: l ds)
  case Nil
  then show ?case by (subst destroy_list.simps) simp
next
  case (Cons x xs)
  then show ?case by (subst destroy_list.simps) simp
qed

section \<open>What the pool guarantees\<close>

text \<open>
  The pool implements two lists: an allocation takes the object that was freed last, or a new one
  when none is free, and never one that is in use; freeing an object moves it from the objects in use
  to the free ones; the destructor returns and destroys every object of both lists exactly once.
\<close>

theorem object_pool_refines_lists:
  assumes "pool_rep p xs ys"
  shows "(fresh \<notin> set xs \<union> set ys \<longrightarrow>
      fst (pool_alloc fresh p) = (case ys of [] \<Rightarrow> fresh | y # _ \<Rightarrow> y) \<and>
      fst (pool_alloc fresh p) \<notin> set xs \<and>
      pool_rep (snd (pool_alloc fresh p)) (fst (pool_alloc fresh p) # xs) (tl ys)) \<and>
    (x \<in> set xs \<longrightarrow> pool_rep (pool_free x p) (remove1 x xs) (x # ys)) \<and>
    pool_first p = hd_or None xs \<and>
    pool_destroy p = Some (xs @ ys) \<and> distinct (xs @ ys)"
proof (intro conjI impI)
  assume fresh: "fresh \<notin> set xs \<union> set ys"
  note a = pool_alloc_rep [OF assms fresh, of "fst (pool_alloc fresh p)" "snd (pool_alloc fresh p)", simplified]
  show "fst (pool_alloc fresh p) = (case ys of [] \<Rightarrow> fresh | y # _ \<Rightarrow> y)" by (rule a(1))
  show "pool_rep (snd (pool_alloc fresh p)) (fst (pool_alloc fresh p) # xs) (tl ys)" by (rule a(2))
  then show "fst (pool_alloc fresh p) \<notin> set xs" by (simp add: pool_rep_def)
next
  assume "x \<in> set xs"
  then obtain as bs where xs: "xs = as @ x # bs" "x \<notin> set as" by (auto dest: split_list_first)
  then show "pool_rep (pool_free x p) (remove1 x xs) (x # ys)"
    using pool_free_rep [of p as x bs ys] assms by (simp add: remove1_append)
next
  have "dseg (onext p) (oprev p) None (live_list p) xs None" "sseg (onext p) (free_list p) ys" "distinct (xs @ ys)"
    using assms by (auto simp: pool_rep_def)
  then show "pool_destroy p = Some (xs @ ys)" "pool_first p = hd_or None xs" "distinct (xs @ ys)"
    by (simp_all add: pool_destroy_def pool_first_def destroy_list_returns [OF dseg_sseg] destroy_list_returns)
      (rule dseg_head)
qed

theorem object_pool_refines_lists_witness:
  "pool_rep (snd (pool_alloc 5 new_object_pool)) [5] [] \<and>
   pool_rep (pool_free 5 (snd (pool_alloc 5 new_object_pool))) [] [5]"
proof -
  have 1: "pool_rep (snd (pool_alloc 5 new_object_pool)) [5] []"
    using object_pool_refines_lists [OF new_object_pool_rep, of 5] by (simp del: split_paired_All) (metis list.simps(4))
  then show ?thesis using object_pool_refines_lists [OF 1, of 6 5] by simp
qed

end
