(* ===== verification/Ssl_Stream.thy ===== *)
theory Ssl_Stream
  imports Error_Codes
begin

text \<open>
  The TLS stream of the server's connections: the engine of
  \<open>src/ext/asio/asio/ssl/detail/impl/engine.ipp\<close>, the core (\<open>ssl/detail/stream_core.hpp\<close>), the
  operations (\<open>ssl/detail/handshake_op.hpp\<close>, \<open>read_op.hpp\<close>, \<open>write_op.hpp\<close>, \<open>shutdown_op.hpp\<close>) and the
  loops that move bytes between the engine and the transport (\<open>ssl/detail/io.hpp\<close>).

  OpenSSL is the record \<open>openssl\<close> of functions on a state of type \<open>'s\<close>, which holds the session and
  the pair of memory BIOs; nothing is assumed of these functions. The transport's results are
  arguments.
\<close>

unbundle bit_operations_syntax

type_synonym bytes = "u8 list"

section \<open>OpenSSL\<close>

text \<open>
  The calls the engine makes. \<open>ssl_read\<close> takes the size of the buffer and returns the result with
  the bytes stored; \<open>bio_read\<close> returns the bytes read (none when its result is not positive);
  \<open>err_get_error\<close> is the value read after the call (the queue was cleared before it).
\<close>

record 's openssl =
  ssl_accept :: "'s \<Rightarrow> int \<times> 's"
  ssl_connect :: "'s \<Rightarrow> int \<times> 's"
  ssl_shutdown :: "'s \<Rightarrow> int \<times> 's"
  ssl_read :: "int \<Rightarrow> 's \<Rightarrow> int \<times> bytes \<times> 's"
  ssl_write :: "bytes \<Rightarrow> int \<Rightarrow> 's \<Rightarrow> int \<times> 's"
  ssl_get_error :: "'s \<Rightarrow> int \<Rightarrow> int"
  err_get_error :: "'s \<Rightarrow> int"
  bio_ctrl_pending :: "'s \<Rightarrow> nat"
  bio_read :: "int \<Rightarrow> 's \<Rightarrow> bytes \<times> 's"
  bio_write :: "bytes \<Rightarrow> 's \<Rightarrow> int \<times> 's"
  bio_wpending :: "'s \<Rightarrow> nat"
  ssl_get_shutdown :: "'s \<Rightarrow> u32"

abbreviation (input) SSL_ERROR_NONE :: int where "SSL_ERROR_NONE \<equiv> 0"
abbreviation (input) SSL_ERROR_SSL :: int where "SSL_ERROR_SSL \<equiv> 1"
abbreviation (input) SSL_ERROR_WANT_READ :: int where "SSL_ERROR_WANT_READ \<equiv> 2"
abbreviation (input) SSL_ERROR_WANT_WRITE :: int where "SSL_ERROR_WANT_WRITE \<equiv> 3"
abbreviation (input) SSL_ERROR_SYSCALL :: int where "SSL_ERROR_SYSCALL \<equiv> 5"
abbreviation (input) SSL_ERROR_ZERO_RETURN :: int where "SSL_ERROR_ZERO_RETURN \<equiv> 6"
abbreviation (input) INT_MAX :: int where "INT_MAX \<equiv> 2147483647"

section \<open>The engine\<close>

datatype want = want_input_and_retry | want_output_and_retry | want_nothing | want_output

text \<open>
  \<open>perform\<close>: the operation's result with the pending output before and after it. The last component
  of the result is the number of bytes the call stores in \<open>bytes_transferred\<close>, if it stores one.
\<close>

definition engine_perform ::
  "'s openssl \<Rightarrow> ('s \<Rightarrow> int \<times> 's) \<Rightarrow> 's \<Rightarrow> want \<times> error_code \<times> nat option \<times> 's" where
  "engine_perform os call s =
     (let before = bio_ctrl_pending os s;
          (result, s1) = call s;
          ssl_error = ssl_get_error os s1 result;
          sys_error = err_get_error os s1;
          more = before < bio_ctrl_pending os s1;
          transferred = (if result > 0 then Some (nat result) else None)
      in if ssl_error = SSL_ERROR_SSL
         then (if more then want_output else want_nothing,
               \<lparr>ec_value = sys_error, ec_category = ssl_category\<rparr>, None, s1)
         else if ssl_error = SSL_ERROR_SYSCALL
         then (if more then want_output else want_nothing,
               if sys_error = 0 then make_stream_error unspecified_system_error
               else \<lparr>ec_value = sys_error, ec_category = ssl_category\<rparr>, None, s1)
         else if ssl_error = SSL_ERROR_WANT_WRITE then (want_output_and_retry, ec_success, transferred, s1)
         else if more
         then (if result > 0 then want_output else want_output_and_retry, ec_success, transferred, s1)
         else if ssl_error = SSL_ERROR_WANT_READ then (want_input_and_retry, ec_success, transferred, s1)
         else if ssl_error = SSL_ERROR_ZERO_RETURN then (want_nothing, make_misc_error eof, transferred, s1)
         else if ssl_error = SSL_ERROR_NONE then (want_nothing, ec_success, transferred, s1)
         else (want_nothing, make_stream_error unexpected_result, transferred, s1))"

definition do_shutdown :: "'s openssl \<Rightarrow> 's \<Rightarrow> int \<times> 's" where
  "do_shutdown os s = (let (result, s1) = ssl_shutdown os s in if result = 0 then ssl_shutdown os s1 else (result, s1))"

definition clamp_int :: "nat \<Rightarrow> int" where
  "clamp_int n = (if int n < INT_MAX then int n else INT_MAX)"

datatype handshake_type = client | server

definition engine_handshake ::
  "'s openssl \<Rightarrow> handshake_type \<Rightarrow> 's \<Rightarrow> want \<times> error_code \<times> nat option \<times> 's" where
  "engine_handshake os type s =
     (let (w, ec, _, s1) = engine_perform os (if type = client then ssl_connect os else ssl_accept os) s
      in (w, ec, None, s1))"

definition engine_shutdown :: "'s openssl \<Rightarrow> 's \<Rightarrow> want \<times> error_code \<times> nat option \<times> 's" where
  "engine_shutdown os s = (let (w, ec, _, s1) = engine_perform os (do_shutdown os) s in (w, ec, None, s1))"

definition engine_write :: "'s openssl \<Rightarrow> bytes \<Rightarrow> 's \<Rightarrow> want \<times> error_code \<times> nat option \<times> 's" where
  "engine_write os data s =
     (if length data = 0 then (want_nothing, ec_success, None, s)
      else engine_perform os (ssl_write os data (clamp_int (length data))) s)"

text \<open>The bytes a read stores are kept apart: the last component.\<close>

definition engine_read :: "'s openssl \<Rightarrow> nat \<Rightarrow> 's \<Rightarrow> (want \<times> error_code \<times> nat option \<times> 's) \<times> bytes" where
  "engine_read os len s =
     (if len = 0 then ((want_nothing, ec_success, None, s), [])
      else
        (engine_perform os (\<lambda>s. let (result, _, s1) = ssl_read os (clamp_int len) s in (result, s1)) s,
         fst (snd (ssl_read os (clamp_int len) s))))"

definition max_tls_record_size :: nat where
  "max_tls_record_size = 17 * 1024"

definition map_error_code :: "'s openssl \<Rightarrow> 's \<Rightarrow> error_code \<Rightarrow> error_code" where
  "map_error_code os s ec =
     (if ec \<noteq> make_misc_error eof then ec
      else if bio_wpending os s \<noteq> 0 then make_stream_error stream_truncated
      else if ssl_get_shutdown os s AND 2 = 0 then make_stream_error stream_truncated
      else ec)"

section \<open>The core of the stream\<close>

text \<open>
  A timer's expiry is \<open>pos_infin\<close> while a transfer is in progress: \<open>True\<close> here. \<open>input\<close> holds the
  received bytes that the engine has not taken yet.
\<close>

record 's stream_core =
  engine :: 's
  pending_read :: bool
  pending_write :: bool
  input :: bytes

definition new_stream_core :: "'s \<Rightarrow> 's stream_core" where
  "new_stream_core s = \<lparr>engine = s, pending_read = False, pending_write = False, input = []\<rparr>"

definition get_output :: "'s openssl \<Rightarrow> 's stream_core \<Rightarrow> bytes \<times> 's stream_core" where
  "get_output os c =
     (let (data, s1) = bio_read os (int max_tls_record_size) (engine c)
      in (take max_tls_record_size data, c\<lparr>engine := s1\<rparr>))"

text \<open>\<open>core.input_ = core.engine_.put_input (core.input_)\<close>.\<close>

definition put_input :: "'s openssl \<Rightarrow> 's stream_core \<Rightarrow> 's stream_core" where
  "put_input os c =
     (let (len, s1) = bio_write os (input c) (engine c)
      in c\<lparr>engine := s1, input := drop (if len > 0 then nat len else 0) (input c)\<rparr>)"

text \<open>
  An operation of the stream: what it asks of the engine; for a handshake and a shutdown
  \<open>bytes_transferred\<close> is set to 0 first, the others keep it unless the engine stores a number.
\<close>

type_synonym 's ssl_op = "'s \<Rightarrow> nat \<Rightarrow> want \<times> error_code \<times> nat \<times> 's"

definition with_bytes :: "want \<times> error_code \<times> nat option \<times> 's \<Rightarrow> nat \<Rightarrow> want \<times> error_code \<times> nat \<times> 's" where
  "with_bytes r bytes_transferred =
     (case r of (w, ec, n, s) \<Rightarrow> (w, ec, case n of Some k \<Rightarrow> k | None \<Rightarrow> bytes_transferred, s))"

definition handshake_op :: "'s openssl \<Rightarrow> handshake_type \<Rightarrow> 's ssl_op" where
  "handshake_op os type s bytes_transferred = with_bytes (engine_handshake os type s) 0"

definition shutdown_op :: "'s openssl \<Rightarrow> 's ssl_op" where
  "shutdown_op os s bytes_transferred = with_bytes (engine_shutdown os s) 0"

definition ssl_read_op :: "'s openssl \<Rightarrow> nat \<Rightarrow> 's ssl_op" where
  "ssl_read_op os len s bytes_transferred = with_bytes (fst (engine_read os len s)) bytes_transferred"

definition ssl_write_op :: "'s openssl \<Rightarrow> bytes \<Rightarrow> 's ssl_op" where
  "ssl_write_op os data s bytes_transferred = with_bytes (engine_write os data s) bytes_transferred"

text \<open>\<open>shutdown_op::call_handler\<close>: an end of file is the expected end of the shutdown.\<close>

definition shutdown_call_handler :: "error_code \<Rightarrow> error_code" where
  "shutdown_call_handler ec = (if ec = make_misc_error eof then ec_success else ec)"

section \<open>Synchronous operations\<close>

text \<open>
  \<open>io\<close> on a transport with a state of type \<open>'w\<close>: \<open>read_some\<close> takes the size of the buffer, \<open>write_all\<close>
  is \<open>asio::write\<close>. The loop need not end, so the function is partial.
\<close>

record 'w transport =
  read_some :: "nat \<Rightarrow> 'w \<Rightarrow> bytes \<times> error_code \<times> 'w"
  write_all :: "bytes \<Rightarrow> 'w \<Rightarrow> error_code \<times> 'w"

definition if_ok :: "error_code \<Rightarrow> error_code \<Rightarrow> error_code" where
  "if_ok ec io_ec = (if ec_failed ec then ec else io_ec)"

partial_function (option) io ::
  "'s openssl \<Rightarrow> 'w transport \<Rightarrow> 's ssl_op \<Rightarrow> 's stream_core \<Rightarrow> nat \<Rightarrow> 'w
     \<Rightarrow> (nat \<times> error_code \<times> 's stream_core \<times> 'w) option" where
  "io os tr op c n w =
     (case op (engine c) n of (want, ec, n1, s) \<Rightarrow>
        (let c1 = c\<lparr>engine := s\<rparr>
         in case want of
              want_input_and_retry \<Rightarrow>
                (case (if input c1 = []
                       then (case read_some tr max_tls_record_size w of (data, io_ec, w1) \<Rightarrow>
                               (c1\<lparr>input := take max_tls_record_size data\<rparr>, if_ok ec io_ec, w1))
                       else (c1, ec, w)) of (c2, ec2, w2) \<Rightarrow>
                   (let c3 = put_input os c2
                    in if ec_failed ec2 then Some (0, map_error_code os (engine c3) ec2, c3, w2)
                       else io os tr op c3 n1 w2))
            | want_output_and_retry \<Rightarrow>
                (case get_output os c1 of (data, c2) \<Rightarrow>
                   (case write_all tr data w of (io_ec, w2) \<Rightarrow>
                      (let ec2 = if_ok ec io_ec
                       in if ec_failed ec2 then Some (0, map_error_code os (engine c2) ec2, c2, w2)
                          else io os tr op c2 n1 w2)))
            | want_output \<Rightarrow>
                (case get_output os c1 of (data, c2) \<Rightarrow>
                   (case write_all tr data w of (io_ec, w2) \<Rightarrow>
                      Some (n1, map_error_code os (engine c2) (if_ok ec io_ec), c2, w2)))
            | want_nothing \<Rightarrow> Some (n1, map_error_code os (engine c1) ec, c1, w)))"

declare io.simps [code]

section \<open>Asynchronous operations\<close>

text \<open>
  The members of an \<open>io_op\<close> that change. A call of the function object either suspends, waiting for
  the transport or for another operation's transfer, or calls the handler with an error code and a
  number of bytes.
\<close>

record io_op =
  io_want :: want
  io_ec :: error_code
  io_bytes :: nat

definition new_io_op :: io_op where
  "new_io_op = \<lparr>io_want = want_nothing, io_ec = ec_success, io_bytes = 0\<rparr>"

datatype suspension =
    Async_read_some nat
  | Wait_read
  | Async_write bytes
  | Wait_write

datatype io_result = Suspended suspension | Handler error_code nat

definition call_handler :: "'s openssl \<Rightarrow> 's stream_core \<Rightarrow> io_op \<Rightarrow> 's stream_core \<times> io_op \<times> io_result" where
  "call_handler os c a =
     (let ec = map_error_code os (engine c) (io_ec a)
      in (c, a\<lparr>io_ec := ec\<rparr>, Handler ec (if ec_failed (io_ec a) then 0 else io_bytes a)))"

text \<open>
  The loop of \<open>operator()\<close>, entered at \<open>case 1\<close>; \<open>call_ec\<close> is the parameter \<open>ec\<close> of the call. At the
  first call (\<open>start\<close>) a finished operation suspends with a read of no bytes; later it falls through
  to the label \<open>default\<close>, where the parameter is stored again. The body of the loop either goes round
  again (\<open>Inl\<close>) or returns (\<open>Inr\<close>).
\<close>

definition start_write ::
  "'s openssl \<Rightarrow> 's stream_core \<Rightarrow> io_op \<Rightarrow> 's stream_core \<times> io_op \<times> io_result" where
  "start_write os c a =
     (if \<not> pending_write c
      then (let (data, c1) = get_output os (c\<lparr>pending_write := True\<rparr>) in (c1, a, Suspended (Async_write data)))
      else (c, a, Suspended Wait_write))"

definition io_op_body ::
  "'s openssl \<Rightarrow> 's ssl_op \<Rightarrow> bool \<Rightarrow> error_code \<Rightarrow> 's stream_core \<Rightarrow> io_op
     \<Rightarrow> ('s stream_core \<times> io_op) + ('s stream_core \<times> io_op \<times> io_result)" where
  "io_op_body os op start call_ec c a =
     (let (want, ec, n, s) = op (engine c) (io_bytes a);
          c1 = c\<lparr>engine := s\<rparr>;
          a1 = \<lparr>io_want = want, io_ec = ec, io_bytes = n\<rparr>
      in case want of
           want_input_and_retry \<Rightarrow>
             (if input c1 \<noteq> []
              then (let c2 = put_input os c1
                    in if ec_failed (io_ec a1) then Inr (call_handler os c2 a1) else Inl (c2, a1))
              else if \<not> pending_read c1
              then Inr (c1\<lparr>pending_read := True\<rparr>, a1, Suspended (Async_read_some max_tls_record_size))
              else Inr (c1, a1, Suspended Wait_read))
         | want_output_and_retry \<Rightarrow> Inr (start_write os c1 a1)
         | want_output \<Rightarrow> Inr (start_write os c1 a1)
         | want_nothing \<Rightarrow>
             (if start then Inr (c1, a1, Suspended (Async_read_some 0))
              else Inr (call_handler os c1 (a1\<lparr>io_ec := if_ok (io_ec a1) call_ec\<rparr>))))"

partial_function (option) io_op_loop ::
  "'s openssl \<Rightarrow> 's ssl_op \<Rightarrow> bool \<Rightarrow> error_code \<Rightarrow> 's stream_core \<Rightarrow> io_op
     \<Rightarrow> ('s stream_core \<times> io_op \<times> io_result) option" where
  "io_op_loop os op start call_ec c a =
     (case io_op_body os op start call_ec c a of
        Inr y \<Rightarrow> Some y
      | Inl ca \<Rightarrow> io_op_loop os op start call_ec (fst ca) (snd ca))"

declare io_op_loop.simps [code]

text \<open>
  A later call, entered at the label \<open>default\<close>. The number of bytes is \<open>None\<close> for the default
  argument \<open>~0\<close>, with which a cancelled timer calls; otherwise \<open>data\<close> is what a read put into the
  input buffer. Setting the timer's expiry to \<open>neg_infin\<close> also cancels the waits of other operations,
  which are then called.
\<close>

definition io_op_resume ::
  "'s openssl \<Rightarrow> 's ssl_op \<Rightarrow> error_code \<Rightarrow> bytes option \<Rightarrow> 's stream_core \<Rightarrow> io_op
     \<Rightarrow> ('s stream_core \<times> io_op \<times> io_result) option" where
  "io_op_resume os op ec data c a =
     (let a1 = (case data of None \<Rightarrow> a | Some _ \<Rightarrow> a\<lparr>io_ec := if_ok (io_ec a) ec\<rparr>)
      in case io_want a1 of
           want_input_and_retry \<Rightarrow>
             (let c1 = put_input os (c\<lparr>input := (case data of None \<Rightarrow> [] | Some d \<Rightarrow> take max_tls_record_size d)\<rparr>);
                  c2 = c1\<lparr>pending_read := False\<rparr>
              in if ec_failed (io_ec a1)
                 then Some (call_handler os c2 a1)
                 else io_op_loop os op False ec c2 a1)
         | want_output_and_retry \<Rightarrow>
             (let c1 = c\<lparr>pending_write := False\<rparr>
              in if ec_failed (io_ec a1)
                 then Some (call_handler os c1 a1)
                 else io_op_loop os op False ec c1 a1)
         | want_output \<Rightarrow> Some (call_handler os (c\<lparr>pending_write := False\<rparr>) a1)
         | want_nothing \<Rightarrow> Some (call_handler os c a1))"

definition async_io ::
  "'s openssl \<Rightarrow> 's ssl_op \<Rightarrow> 's stream_core \<Rightarrow> ('s stream_core \<times> io_op \<times> io_result) option" where
  "async_io os op c = io_op_loop os op True ec_success c new_io_op"

end
