(* ===== verification/Ssl_Properties.thy ===== *)
theory Ssl_Properties
  imports Ssl_Stream
begin

text \<open>
  What the TLS stream guarantees: the integrity of the two byte streams
  when operations follow one another as the server runs them, and what happens to an operation that
  has to wait for another one.
\<close>

section \<open>A log of the bytes\<close>

text \<open>
  The same OpenSSL with a record of the bytes it accepted from the transport and of those it handed
  out for the transport.
\<close>

definition keep_log :: "('s \<Rightarrow> 'a \<times> 's) \<Rightarrow> 's \<times> bytes \<times> bytes \<Rightarrow> 'a \<times> 's \<times> bytes \<times> bytes" where
  "keep_log f = (\<lambda>(s, fed, out). let (r, s1) = f s in (r, (s1, fed, out)))"

definition logged :: "'s openssl \<Rightarrow> ('s \<times> bytes \<times> bytes) openssl" where
  "logged os =
     \<lparr>ssl_accept = keep_log (ssl_accept os),
      ssl_connect = keep_log (ssl_connect os),
      ssl_shutdown = keep_log (ssl_shutdown os),
      ssl_read = (\<lambda>n (s, fed, out). let (r, d, s1) = ssl_read os n s in (r, d, (s1, fed, out))),
      ssl_write = (\<lambda>d n. keep_log (ssl_write os d n)),
      ssl_get_error = (\<lambda>(s, _) r. ssl_get_error os s r),
      err_get_error = (\<lambda>(s, _). err_get_error os s),
      bio_ctrl_pending = (\<lambda>(s, _). bio_ctrl_pending os s),
      bio_read = (\<lambda>n (s, fed, out). let (d, s1) = bio_read os n s in (d, (s1, fed, out @ take max_tls_record_size d))),
      bio_write = (\<lambda>d (s, fed, out). let (n, s1) = bio_write os d s in (n, (s1, fed @ take (nat (max 0 n)) d, out))),
      bio_wpending = (\<lambda>(s, _). bio_wpending os s),
      ssl_get_shutdown = (\<lambda>(s, _). ssl_get_shutdown os s)\<rparr>"

abbreviation fed :: "('s \<times> bytes \<times> bytes) stream_core \<Rightarrow> bytes" where
  "fed c \<equiv> fst (snd (engine c))"

abbreviation taken :: "('s \<times> bytes \<times> bytes) stream_core \<Rightarrow> bytes" where
  "taken c \<equiv> snd (snd (engine c))"

datatype ssl_request = Handshake handshake_type | Shutdown | Read_some nat | Write_some bytes

fun request_op :: "'s openssl \<Rightarrow> ssl_request \<Rightarrow> 's ssl_op" where
  "request_op os (Handshake type) = handshake_op os type"
| "request_op os Shutdown = shutdown_op os"
| "request_op os (Read_some n) = ssl_read_op os n"
| "request_op os (Write_some d) = ssl_write_op os d"

lemma engine_perform_state: "snd (snd (snd (engine_perform os call s))) = snd (call s)"
  by (simp add: engine_perform_def Let_def split: prod.splits)

lemma with_bytes_state: "snd (snd (snd (with_bytes r n))) = snd (snd (snd r))"
  by (simp add: with_bytes_def split: prod.splits)

lemma keep_log_logs: "snd (snd (keep_log f st)) = snd st"
  by (simp add: keep_log_def split: prod.splits)

lemma request_op_logs:
  "request_op (logged os) rq st n = (w, ec, n', st') \<Longrightarrow> snd st' = snd st"
proof -
  assume r: "request_op (logged os) rq st n = (w, ec, n', st')"
  have "snd (snd (snd (snd (request_op (logged os) rq st n)))) = snd st"
  proof (cases rq)
    case (Handshake type)
    have "snd (snd ((if type = client then ssl_connect (logged os) else ssl_accept (logged os)) st)) = snd st"
      by (simp add: logged_def keep_log_logs)
    then show ?thesis
      using engine_perform_state [of "logged os" "if type = client then ssl_connect (logged os) else ssl_accept (logged os)" st]
      by (simp add: Handshake handshake_op_def engine_handshake_def with_bytes_state case_prod_beta)
  next
    case Shutdown
    have "snd (snd (do_shutdown (logged os) st)) = snd st"
    proof -
      obtain r s1 where s1: "keep_log (ssl_shutdown os) st = (r, s1)" by (cases "keep_log (ssl_shutdown os) st")
      have "snd s1 = snd st" using keep_log_logs [of "ssl_shutdown os" st] s1 by simp
      then show ?thesis
        using keep_log_logs [of "ssl_shutdown os" s1] s1 by (simp add: do_shutdown_def logged_def)
    qed
    then show ?thesis
      using engine_perform_state [of "logged os" "do_shutdown (logged os)" st]
      by (simp add: Shutdown shutdown_op_def engine_shutdown_def with_bytes_state case_prod_beta)
  next
    case (Read_some k)
    let ?call = "\<lambda>s. let (result, _, s1) = ssl_read (logged os) (clamp_int k) s in (result, s1)"
    have "snd (snd (?call st)) = snd st"
      by (simp add: logged_def Let_def split: prod.splits)
    then show ?thesis
      using engine_perform_state [of "logged os" ?call st]
      by (simp add: Read_some ssl_read_op_def engine_read_def with_bytes_state)
  next
    case (Write_some d)
    have "snd (snd (ssl_write (logged os) d (clamp_int (length d)) st)) = snd st"
      by (simp add: logged_def keep_log_logs)
    then show ?thesis
      using engine_perform_state [of "logged os" "ssl_write (logged os) d (clamp_int (length d))" st]
      by (simp add: Write_some ssl_write_op_def engine_write_def with_bytes_state)
  qed
  then show ?thesis using r by simp
qed

lemma put_input_stream: "fed (put_input (logged os) c) @ input (put_input (logged os) c) = fed c @ input c"
  and put_input_frame: "taken (put_input (logged os) c) = taken c"
    "pending_read (put_input (logged os) c) = pending_read c" "pending_write (put_input (logged os) c) = pending_write c"
  by (cases "engine c"; auto simp: put_input_def logged_def max_def Let_def split: prod.splits)+

lemma get_output_stream:
  assumes "get_output (logged os) c = (d, c')"
  shows "taken c' = taken c @ d \<and> fed c' = fed c \<and> input c' = input c \<and>
    pending_read c' = pending_read c \<and> pending_write c' = pending_write c"
  using assms by (cases "engine c") (auto simp: get_output_def logged_def Let_def split: prod.splits)

section \<open>Operations one after another\<close>

text \<open>
  One operation at a time on a stream. The configuration holds the request, the core, the operation
  and what it waits for, the bytes received from the transport and those it accepted, and whether
  every write has succeeded. The transport completes a read with at most the bytes asked for and a
  write with all of its bytes or an error and some of them; after a handler has run the next request
  is started.
\<close>

type_synonym 's ssl_config =
  "ssl_request \<times> ('s \<times> bytes \<times> bytes) stream_core \<times> io_op \<times> io_result \<times> bytes \<times> bytes \<times> bool"

inductive ssl_step :: "'s openssl \<Rightarrow> 's ssl_config \<Rightarrow> 's ssl_config \<Rightarrow> bool" for os where
  Read_done:
    "length data \<le> n \<Longrightarrow>
     io_op_resume (logged os) (request_op (logged os) rq) ec (Some data) c a = Some (c', a', res') \<Longrightarrow>
     ssl_step os (rq, c, a, Suspended (Async_read_some n), received, sent, ok)
       (rq, c', a', res', received @ data, sent, ok)"
| Write_done:
    "k \<le> length d \<Longrightarrow> (\<not> ec_failed ec \<Longrightarrow> k = length d) \<Longrightarrow>
     io_op_resume (logged os) (request_op (logged os) rq) ec (Some []) c a = Some (c', a', res') \<Longrightarrow>
     ssl_step os (rq, c, a, Suspended (Async_write d), received, sent, ok)
       (rq, c', a', res', received, sent @ take k d, ok \<and> \<not> ec_failed ec)"
| Next_request:
    "async_io (logged os) (request_op (logged os) rq') c = Some (c', a', res') \<Longrightarrow>
     ssl_step os (rq, c, a, Handler ec n, received, sent, ok) (rq', c', a', res', received, sent, ok)"

definition in_flight :: "io_result \<Rightarrow> bytes" where
  "in_flight res = (case res of Suspended (Async_write d) \<Rightarrow> d | _ \<Rightarrow> [])"

text \<open>The flags of the core say what the only operation waits for, and it never waits for another.\<close>

definition flags_ok :: "('s \<times> bytes \<times> bytes) stream_core \<Rightarrow> io_op \<Rightarrow> io_result \<Rightarrow> bool" where
  "flags_ok c a res \<longleftrightarrow>
     (case res of
        Handler _ _ \<Rightarrow> \<not> pending_read c \<and> \<not> pending_write c
      | Suspended (Async_read_some n) \<Rightarrow>
          \<not> pending_write c \<and> n \<le> max_tls_record_size \<and>
          (if n = 0 then io_want a = want_nothing \<and> \<not> pending_read c
           else io_want a = want_input_and_retry \<and> pending_read c \<and> input c = [])
      | Suspended (Async_write _) \<Rightarrow>
          \<not> pending_read c \<and> pending_write c \<and> io_want a \<in> {want_output_and_retry, want_output}
      | _ \<Rightarrow> False)"

lemma call_handler_frame:
  assumes "call_handler os c a = (c', a', res)"
  shows "c' = c" "\<exists>ec n. res = Handler ec n"
  using assms by (auto simp: call_handler_def Let_def)

text \<open>The streams and the flags across one call, which starts with no transfer in progress.\<close>

definition stream_kept :: "('s \<times> bytes \<times> bytes) stream_core \<Rightarrow> ('s \<times> bytes \<times> bytes) stream_core \<times> io_op \<times> io_result \<Rightarrow> bool" where
  "stream_kept c y \<longleftrightarrow>
     (case y of (c', a', res) \<Rightarrow>
        fed c' @ input c' = fed c @ input c \<and> taken c' = taken c @ in_flight res \<and> flags_ok c' a' res)"

lemma start_write_kept:
  assumes "start_write (logged os) c a = y" "\<not> pending_read c" "\<not> pending_write c"
    "io_want a \<in> {want_output_and_retry, want_output}"
  shows "stream_kept c y"
proof -
  obtain d c1 where o: "get_output (logged os) (c\<lparr>pending_write := True\<rparr>) = (d, c1)"
    by (cases "get_output (logged os) (c\<lparr>pending_write := True\<rparr>)")
  then have "y = (c1, a, Suspended (Async_write d))" using assms(1,3) by (simp add: start_write_def)
  then show ?thesis
    using get_output_stream [OF o] assms(2,4) by (auto simp: stream_kept_def flags_ok_def in_flight_def)
qed

lemma call_handler_kept:
  assumes "\<not> pending_read c" "\<not> pending_write c"
  shows "stream_kept c (call_handler os c a)"
  using assms by (simp add: call_handler_def stream_kept_def flags_ok_def in_flight_def Let_def)

lemma stream_kept_cong:
  assumes "stream_kept c1 y" "fed c1 @ input c1 = fed c @ input c" "taken c1 = taken c"
  shows "stream_kept c y"
  using assms by (auto simp: stream_kept_def)

lemma io_op_body_kept:
  assumes "\<not> pending_read c" "\<not> pending_write c"
  shows "case io_op_body (logged os) (request_op (logged os) rq) start cec c a of
       Inr y \<Rightarrow> stream_kept c y
     | Inl (c2, a2) \<Rightarrow> fed c2 @ input c2 = fed c @ input c \<and> taken c2 = taken c \<and>
         \<not> pending_read c2 \<and> \<not> pending_write c2"
proof -
  obtain want ec n s where r: "request_op (logged os) rq (engine c) (io_bytes a) = (want, ec, n, s)"
    by (cases "request_op (logged os) rq (engine c) (io_bytes a)")
  define c1 where "c1 = c\<lparr>engine := s\<rparr>"
  define a1 where "a1 = \<lparr>io_want = want, io_ec = ec, io_bytes = n\<rparr>"
  have c1: "fed c1 = fed c" "taken c1 = taken c" "input c1 = input c" "\<not> pending_read c1" "\<not> pending_write c1"
    and a1: "io_want a1 = want" "io_ec a1 = ec"
    using request_op_logs [OF r] assms by (simp_all add: c1_def a1_def)
  have body: "io_op_body (logged os) (request_op (logged os) rq) start cec c a =
     (case want of
        want_input_and_retry \<Rightarrow>
          (if input c1 \<noteq> []
           then (if ec_failed ec then Inr (call_handler (logged os) (put_input (logged os) c1) a1)
                 else Inl (put_input (logged os) c1, a1))
           else Inr (c1\<lparr>pending_read := True\<rparr>, a1, Suspended (Async_read_some max_tls_record_size)))
      | want_output_and_retry \<Rightarrow> Inr (start_write (logged os) c1 a1)
      | want_output \<Rightarrow> Inr (start_write (logged os) c1 a1)
      | want_nothing \<Rightarrow>
          (if start then Inr (c1, a1, Suspended (Async_read_some 0))
           else Inr (call_handler (logged os) c1 (a1\<lparr>io_ec := if_ok ec cec\<rparr>))))"
    using c1(3,4) by (cases want) (simp_all add: io_op_body_def r Let_def c1_def [symmetric] a1_def)
  have wr: "stream_kept c (start_write (logged os) c1 a1)" if "want \<in> {want_output_and_retry, want_output}"
    using start_write_kept [of os c1 a1, OF refl] c1 a1 that by (auto intro: stream_kept_cong)
  show ?thesis
  proof (cases want)
    case want_input_and_retry
    note put = put_input_stream [of os c1] put_input_frame [of os c1]
    have "stream_kept c (call_handler (logged os) (put_input (logged os) c1) a1)"
      using call_handler_kept [of "put_input (logged os) c1"] put c1 by (auto intro: stream_kept_cong)
    moreover have "stream_kept c (c1\<lparr>pending_read := True\<rparr>, a1, Suspended (Async_read_some max_tls_record_size))"
      if "input c1 = []"
      using that c1 a1 want_input_and_retry
      by (simp add: stream_kept_def flags_ok_def in_flight_def max_tls_record_size_def)
    ultimately show ?thesis using body want_input_and_retry put c1 by simp
  next
    case want_nothing
    have "stream_kept c (c1, a1, Suspended (Async_read_some 0))"
      using c1 a1 want_nothing by (simp add: stream_kept_def flags_ok_def in_flight_def)
    moreover have "stream_kept c (call_handler (logged os) c1 (a1\<lparr>io_ec := if_ok ec cec\<rparr>))"
      by (rule stream_kept_cong [OF call_handler_kept]) (use c1 in simp_all)
    ultimately show ?thesis using body want_nothing by simp
  qed (use body wr in simp_all)
qed

lemma io_op_loop_kept_all:
  assumes "io_op_loop os0 op0 start0 cec0 c0 a0 = Some y0"
  shows "\<forall>os rq. os0 = logged os \<longrightarrow> op0 = request_op (logged os) rq \<longrightarrow>
    \<not> pending_read c0 \<longrightarrow> \<not> pending_write c0 \<longrightarrow> stream_kept c0 y0"
proof (rule io_op_loop.raw_induct [where P = "\<lambda>os0 op0 start cec c a y. \<forall>os rq. os0 = logged os \<longrightarrow>
    op0 = request_op (logged os) rq \<longrightarrow> \<not> pending_read c \<longrightarrow> \<not> pending_write c \<longrightarrow> stream_kept c y",
    OF _ assms], goal_cases)
  case (1 rec os0 op0 start cec c a y)
  show ?case
  proof (intro allI impI)
    fix os rq
    assume os: "os0 = logged os" "op0 = request_op (logged os) rq" and idle: "\<not> pending_read c" "\<not> pending_write c"
    note body = io_op_body_kept [OF idle, of os rq start cec a]
    show "stream_kept c y"
    proof (cases "io_op_body (logged os) (request_op (logged os) rq) start cec c a")
      case (Inr z)
      then show ?thesis using 1(2) body os by simp
    next
      case (Inl ca)
      obtain c2 a2 where ca: "ca = (c2, a2)" by (cases ca)
      have keep: "fed c2 @ input c2 = fed c @ input c" "taken c2 = taken c" "\<not> pending_read c2" "\<not> pending_write c2"
        using body Inl ca by simp_all
      have "rec os0 op0 start cec c2 a2 = Some y" using 1(2) Inl ca os by simp
      from 1(1) [OF this, rule_format, OF os keep(3,4)] show ?thesis using keep by (auto intro: stream_kept_cong)
    qed
  qed
qed

lemmas io_op_loop_kept = io_op_loop_kept_all [rule_format, OF _ refl refl]

lemma io_op_resume_kept:
  assumes r: "io_op_resume (logged os) (request_op (logged os) rq) ec (Some data) c a = Some y"
    and flags: "flags_ok c a res" and res: "res = Suspended (Async_read_some n) \<and> length data \<le> n \<or>
      (\<exists>d. res = Suspended (Async_write d) \<and> data = [])"
  shows "stream_kept (c\<lparr>input := input c @ data\<rparr>) y"
proof -
  define a1 where "a1 = a\<lparr>io_ec := if_ok (io_ec a) ec\<rparr>"
  have want: "io_want a1 = io_want a" by (simp add: a1_def)
  show ?thesis
  proof (cases "io_want a")
    case want_input_and_retry
    then have n: "res = Suspended (Async_read_some n)" "length data \<le> n" "input c = []" "n \<le> max_tls_record_size"
        "\<not> pending_write c"
      using flags res by (auto simp: flags_ok_def split: if_splits)
    let ?c1 = "put_input (logged os) (c\<lparr>input := data\<rparr>)"
    let ?c2 = "?c1\<lparr>pending_read := False\<rparr>"
    have t: "take max_tls_record_size data = data" using n by simp
    have "y = call_handler (logged os) ?c2 a1 \<or>
        io_op_loop (logged os) (request_op (logged os) rq) False ec ?c2 a1 = Some y"
      using r want_input_and_retry by (auto simp: io_op_resume_def Let_def t a1_def [symmetric] want split: if_splits)
    moreover have "\<not> pending_read ?c2" "\<not> pending_write ?c2" using n(5) by (simp_all add: put_input_frame)
    ultimately have "stream_kept ?c2 y" using io_op_loop_kept call_handler_kept by blast
    then show ?thesis
      by (rule stream_kept_cong) (use put_input_stream [of os "c\<lparr>input := data\<rparr>"] n(3) in \<open>simp_all add: put_input_frame\<close>)
  next
    case want_output_and_retry
    then have n: "data = []" "\<not> pending_read c" using flags res by (auto simp: flags_ok_def split: if_splits)
    let ?c1 = "c\<lparr>pending_write := False\<rparr>"
    have "y = call_handler (logged os) ?c1 a1 \<or>
        io_op_loop (logged os) (request_op (logged os) rq) False ec ?c1 a1 = Some y"
      using r want_output_and_retry by (auto simp: io_op_resume_def Let_def a1_def [symmetric] want split: if_splits)
    moreover have "\<not> pending_read ?c1" "\<not> pending_write ?c1" using n(2) by simp_all
    ultimately have "stream_kept ?c1 y" using io_op_loop_kept call_handler_kept by blast
    then show ?thesis by (rule stream_kept_cong) (simp_all add: n(1))
  next
    case want_output
    then have n: "data = []" "\<not> pending_read c" using flags res by (auto simp: flags_ok_def split: if_splits)
    have "y = call_handler (logged os) (c\<lparr>pending_write := False\<rparr>) a1"
      using r want_output by (simp add: io_op_resume_def Let_def a1_def [symmetric] want)
    then have "stream_kept (c\<lparr>pending_write := False\<rparr>) y"
      using call_handler_kept [of "c\<lparr>pending_write := False\<rparr>" "logged os" a1] n(2) by simp
    then show ?thesis by (rule stream_kept_cong) (simp_all add: n(1))
  next
    case want_nothing
    then have n: "data = []" "\<not> pending_read c" "\<not> pending_write c"
      using flags res by (auto simp: flags_ok_def split: if_splits)
    have "y = call_handler (logged os) c a1"
      using r want_nothing by (simp add: io_op_resume_def Let_def a1_def [symmetric] want)
    then have "stream_kept c y" using call_handler_kept n by simp
    then show ?thesis by (rule stream_kept_cong) (simp_all add: n(1))
  qed
qed

section \<open>The streams of a connection\<close>

definition ssl_reachable :: "'s openssl \<Rightarrow> 's ssl_config \<Rightarrow> bool" where
  "ssl_reachable os cfg \<longleftrightarrow>
     (\<exists>s rq c a res.
        async_io (logged os) (request_op (logged os) rq) (new_stream_core (s, [], [])) = Some (c, a, res) \<and>
        (ssl_step os)\<^sup>*\<^sup>* (rq, c, a, res, [], [], True) cfg)"

definition ssl_good :: "'s ssl_config \<Rightarrow> bool" where
  "ssl_good = (\<lambda>(rq, c, a, res, received, sent, ok).
     received = fed c @ input c \<and> flags_ok c a res \<and> (ok \<longrightarrow> taken c = sent @ in_flight res))"

lemma ssl_step_good:
  assumes "ssl_step os cfg cfg'" "ssl_good cfg"
  shows "ssl_good cfg'"
  using assms
proof (induction rule: ssl_step.induct)
  case (Read_done data n rq ec c a c' a' res' received sent ok)
  have "stream_kept (c\<lparr>input := input c @ data\<rparr>) (c', a', res')"
    using Read_done by (intro io_op_resume_kept [OF Read_done(2)]) (auto simp: ssl_good_def)
  then show ?case using Read_done(3) by (auto simp: ssl_good_def stream_kept_def in_flight_def)
next
  case (Write_done k d ec rq c a c' a' res' received sent ok)
  have "stream_kept (c\<lparr>input := input c @ []\<rparr>) (c', a', res')"
    using Write_done by (intro io_op_resume_kept [OF Write_done(3)]) (auto simp: ssl_good_def)
  then show ?case using Write_done(2,4) by (auto simp: ssl_good_def stream_kept_def in_flight_def)
next
  case (Next_request rq' c c' a' res' rq a ec n received sent ok)
  have "\<not> pending_read c" "\<not> pending_write c" using Next_request(2) by (simp_all add: ssl_good_def flags_ok_def)
  then have "stream_kept c (c', a', res')"
    using Next_request(1) unfolding async_io_def by (rule io_op_loop_kept [rotated])
  then show ?case using Next_request(2) by (auto simp: ssl_good_def stream_kept_def in_flight_def)
qed

lemma ssl_reachable_good:
  assumes "ssl_reachable os cfg"
  shows "ssl_good cfg"
proof -
  obtain s rq c a res where
    start: "async_io (logged os) (request_op (logged os) rq) (new_stream_core (s, [], [])) = Some (c, a, res)"
    and steps: "(ssl_step os)\<^sup>*\<^sup>* (rq, c, a, res, [], [], True) cfg"
    using assms unfolding ssl_reachable_def by blast
  have "\<not> pending_read (new_stream_core (s, [], []))" "\<not> pending_write (new_stream_core (s, [], []))"
    by (simp_all add: new_stream_core_def)
  with start have "stream_kept (new_stream_core (s, [], [])) (c, a, res)"
    unfolding async_io_def by (rule io_op_loop_kept)
  then have first: "ssl_good (rq, c, a, res, [], [], True)"
    by (simp add: ssl_good_def stream_kept_def new_stream_core_def)
  from steps show ?thesis
  proof (induction rule: rtranclp_induct)
    case base
    show ?case by (rule first)
  next
    case (step cfg1 cfg2)
    show ?case using ssl_step_good [OF step(2,3)] .
  qed
qed

section \<open>Results\<close>

text \<open>
  A session that needs five bytes and then has finished; it echoes what it was given. The state is
  the bytes received and the bytes to send.
\<close>

definition demo_ssl :: "(bytes \<times> bytes) openssl" where
  "demo_ssl =
     \<lparr>ssl_accept = (\<lambda>s. (if length (fst s) < 5 then - 1 else 1, s)),
      ssl_connect = (\<lambda>s. (- 1, s)),
      ssl_shutdown = (\<lambda>s. (1, s)),
      ssl_read = (\<lambda>n s. (- 1, [], s)),
      ssl_write = (\<lambda>d n s. (int (length d), (fst s, snd s @ d))),
      ssl_get_error = (\<lambda>s r. if r > 0 then 0 else 2),
      err_get_error = (\<lambda>s. 0),
      bio_ctrl_pending = (\<lambda>s. length (snd s)),
      bio_read = (\<lambda>n s. (snd s, (fst s, []))),
      bio_write = (\<lambda>d s. (int (length d), (fst s @ d, snd s))),
      bio_wpending = (\<lambda>s. 0),
      ssl_get_shutdown = (\<lambda>s. 0)\<rparr>"

text \<open>
  C21: While the operations of a connection follow one another, every byte received from the transport
  reaches the engine once and in order (what is not yet taken is the input kept by the core), the
  bytes accepted by the transport are those the engine produced, in order, but for the write in
  progress, as long as no write fails, and the operation never waits for another one.
\<close>

theorem ssl_streams_in_order:
  assumes "ssl_reachable os (rq, c, a, res, received, sent, ok)"
  shows "received = fed c @ input c \<and> (ok \<longrightarrow> taken c = sent @ in_flight res) \<and>
    res \<notin> {Suspended Wait_read, Suspended Wait_write} \<and>
    (pending_read c \<longleftrightarrow> (\<exists>n>0. res = Suspended (Async_read_some n))) \<and>
    (pending_write c \<longleftrightarrow> (\<exists>d. res = Suspended (Async_write d)))"
  using ssl_reachable_good [OF assms]
  by (auto simp: ssl_good_def flags_ok_def split: io_result.splits suspension.splits if_splits)

definition demo_core :: "((bytes \<times> bytes) \<times> bytes \<times> bytes) stream_core" where
  "demo_core = new_stream_core (([], []), [], [])"

definition demo_read :: io_op where
  "demo_read = \<lparr>io_want = want_input_and_retry, io_ec = ec_success, io_bytes = 0\<rparr>"

lemmas demo_ssl_defs = demo_ssl_def logged_def keep_log_def demo_core_def new_stream_core_def handshake_op_def
  engine_handshake_def engine_perform_def with_bytes_def

lemma demo_handshake_starts:
  "async_io (logged demo_ssl) (request_op (logged demo_ssl) (Handshake server)) demo_core
     = Some (demo_core\<lparr>pending_read := True\<rparr>, demo_read, Suspended (Async_read_some max_tls_record_size))"
  unfolding async_io_def by (subst io_op_loop.simps) (simp add: io_op_body_def demo_ssl_defs demo_read_def)

lemma demo_handshake_ends:
  "io_op_resume (logged demo_ssl) (request_op (logged demo_ssl) (Handshake server)) ec_success (Some [1, 2, 3, 4, 5])
      (demo_core\<lparr>pending_read := True\<rparr>) demo_read
     = Some (demo_core\<lparr>engine := (([1, 2, 3, 4, 5], []), [1, 2, 3, 4, 5], [])\<rparr>,
         \<lparr>io_want = want_nothing, io_ec = ec_success, io_bytes = 0\<rparr>, Handler ec_success 0)"
  unfolding io_op_resume_def
  by (simp add: demo_read_def Let_def if_ok_def, subst io_op_loop.simps)
    (simp add: io_op_body_def demo_ssl_defs put_input_def if_ok_def call_handler_def map_error_code_def
      max_tls_record_size_def Let_def make_error_not_success [symmetric])

theorem ssl_streams_in_order_witness:
  "\<exists>c a. ssl_reachable demo_ssl (Handshake server, c, a, Handler ec_success 0, [1, 2, 3, 4, 5], [], True) \<and>
     [1, 2, 3, 4, 5] = fed c @ input c"
proof -
  let ?c0 = "demo_core\<lparr>pending_read := True\<rparr>"
  let ?c1 = "demo_core\<lparr>engine := (([1, 2, 3, 4, 5], []), [1, 2, 3, 4, 5], [])\<rparr>"
  let ?a1 = "\<lparr>io_want = want_nothing, io_ec = ec_success, io_bytes = 0\<rparr>"
  have "ssl_step demo_ssl (Handshake server, ?c0, demo_read, Suspended (Async_read_some max_tls_record_size), [], [], True)
      (Handshake server, ?c1, ?a1, Handler ec_success 0, [] @ [1, 2, 3, 4, 5], [], True)"
    by (rule ssl_step.Read_done) (simp add: max_tls_record_size_def, rule demo_handshake_ends)
  then have "ssl_reachable demo_ssl (Handshake server, ?c1, ?a1, Handler ec_success 0, [1, 2, 3, 4, 5], [], True)"
    using demo_handshake_starts unfolding ssl_reachable_def demo_core_def
    by (metis append_Nil r_into_rtranclp)
  then show ?thesis using ssl_streams_in_order by blast
qed

text \<open>
  C22: An operation that waits for a transfer of another operation is called with the cancellation of
  the timer. Whatever the core's flag says then, when the engine wants input it starts a read of its
  own, so that two reads can be in progress on the transport; and when the engine completes the
  operation, the handler gets \<open>operation_aborted\<close> and no bytes.
\<close>

theorem ssl_waiting_operation:
  assumes "io_want a = want_input_and_retry" "io_ec a = ec_success"
    and "op (engine (put_input os (c\<lparr>input := []\<rparr>))) (io_bytes a) = (w, ec_success, n, s)"
    and "input (put_input os (c\<lparr>input := []\<rparr>)) = []"
  shows "(w = want_input_and_retry \<longrightarrow>
      (\<exists>c' a'. io_op_resume os op (make_basic_error operation_aborted) None c a
        = Some (c', a', Suspended (Async_read_some max_tls_record_size)))) \<and>
    (w = want_nothing \<longrightarrow>
      (\<exists>c' a'. io_op_resume os op (make_basic_error operation_aborted) None c a
        = Some (c', a', Handler (make_basic_error operation_aborted) 0)))"
proof -
  let ?c = "(put_input os (c\<lparr>input := []\<rparr>))\<lparr>pending_read := False\<rparr>"
  have r: "io_op_resume os op (make_basic_error operation_aborted) None c a
      = io_op_loop os op False (make_basic_error operation_aborted) ?c a"
    using assms(1,2) by (simp add: io_op_resume_def)
  have body: "io_op_body os op False (make_basic_error operation_aborted) ?c a =
      Inr (?c\<lparr>engine := s, pending_read := True\<rparr>, \<lparr>io_want = w, io_ec = ec_success, io_bytes = n\<rparr>,
        Suspended (Async_read_some max_tls_record_size))" if "w = want_input_and_retry"
    using assms(3,4) that by (simp add: io_op_body_def)
  have finished: "\<exists>c' a'. io_op_body os op False (make_basic_error operation_aborted) ?c a =
      Inr (c', a', Handler (make_basic_error operation_aborted) 0)" if "w = want_nothing"
    using assms(3) that by (simp add: io_op_body_def call_handler_def if_ok_def map_error_code_def Let_def)
  show ?thesis unfolding r using body finished by (subst (1 2) io_op_loop.simps) auto
qed

theorem ssl_waiting_operation_witness:
  "\<exists>c' a'. pending_read (demo_core\<lparr>pending_read := True\<rparr>) \<and>
     io_op_resume (logged demo_ssl) (request_op (logged demo_ssl) (Handshake server))
       (make_basic_error operation_aborted) None (demo_core\<lparr>pending_read := True\<rparr>) demo_read
     = Some (c', a', Suspended (Async_read_some max_tls_record_size))"
  using ssl_waiting_operation [of demo_read "request_op (logged demo_ssl) (Handshake server)" "logged demo_ssl"
      "demo_core\<lparr>pending_read := True\<rparr>" want_input_and_retry 0 "(([], []), [], [])"]
  by (simp add: demo_read_def demo_ssl_defs put_input_def)

text \<open>
  A call of an asynchronous operation returns when the engine takes at least one byte of the
  input it is offered: the loop goes round only while unread input is left.
\<close>

theorem io_op_returns:
  assumes "\<And>d s. d \<noteq> [] \<Longrightarrow> 0 < fst (bio_write os d s)"
  shows "\<exists>y. io_op_loop os op start ec c a = Some y"
proof (induction "length (input c)" arbitrary: c a rule: less_induct)
  case less
  show ?case
  proof (cases "io_op_body os op start ec c a")
    case (Inr y)
    then have "io_op_loop os op start ec c a = Some y" by (subst io_op_loop.simps) simp
    then show ?thesis ..
  next
    case (Inl ca)
    obtain want e n s where r: "op (engine c) (io_bytes a) = (want, e, n, s)" by (cases "op (engine c) (io_bytes a)")
    let ?c1 = "c\<lparr>engine := s\<rparr>"
    have ca: "fst ca = put_input os ?c1" "input c \<noteq> []"
      using Inl by (auto simp: io_op_body_def r Let_def split: want.splits if_splits)
    have "length (input (put_input os ?c1)) < length (input c)"
      using assms [OF ca(2), of s] ca(2) by (cases "bio_write os (input c) s") (auto simp: put_input_def)
    then obtain y where "io_op_loop os op start ec (fst ca) (snd ca) = Some y"
      using less.hyps [of "fst ca" "snd ca"] ca(1) by auto
    then have "io_op_loop os op start ec c a = Some y" using Inl by (subst io_op_loop.simps) simp
    then show ?thesis ..
  qed
qed

theorem io_op_returns_witness:
  "\<exists>y. io_op_loop demo_ssl (handshake_op demo_ssl server) True ec_success (new_stream_core ([], [])) new_io_op = Some y"
  by (rule io_op_returns) (simp add: demo_ssl_def)

end
