(* ===== verification/Ssl_Equivalence.thy ===== *)
theory Ssl_Equivalence
  imports Ssl_Properties
begin

text \<open>
  The two ways to run an operation of the TLS stream: the loop of the synchronous functions (\<open>io\<close>) and
  the state machine of the asynchronous ones (\<open>io_op\<close>), both of
  \<open>src/ext/asio/asio/ssl/detail/io.hpp\<close>. An operation that no other operation of the stream gets in the
  way of is driven by the same transport, and the two give the same result.
\<close>

section \<open>The asynchronous operation on a transport\<close>





section \<open>One turn of the synchronous loop\<close>




section \<open>One call of the asynchronous operation\<close>


lemma put_input_idle [simp]:
  "pending_read (put_input os c) = pending_read c" "pending_write (put_input os c) = pending_write c"
  by (simp_all add: put_input_def Let_def split: prod.splits)



lemma map_error_failed [simp]: "ec_failed (map_error_code os s ec) \<longleftrightarrow> ec_failed ec"
  by (auto simp: map_error_code_def)









section \<open>The two ways agree\<close>











end
