(* ===== verification/Buffers.thy ===== *)
theory Buffers
  imports Prelude
begin

text \<open>
  Buffers and buffer sequences: \<open>src/ext/asio/asio/buffer.hpp\<close> and
  \<open>src/ext/asio/asio/detail/consuming_buffers.hpp\<close>, with the adapter functions of
  \<open>detail/buffer_sequence_adapter.hpp\<close> that the TLS operations use. A buffer is an address and a size;
  its meaning is the list of the addresses it covers, and memory is a function from addresses to
  bytes. Sizes are natural numbers: a sequence of buffers in memory is far smaller than \<open>2 ^ 64\<close>.
\<close>

section \<open>Buffers\<close>

record buffer =
  buf_data :: nat
  buf_size :: nat

definition empty_buffer :: buffer where
  "empty_buffer = \<lparr>buf_data = 0, buf_size = 0\<rparr>"

text \<open>\<open>operator+=\<close> and \<open>operator+\<close>, and \<open>buffer (b, max_size_in_bytes)\<close>.\<close>

definition buffer_advance :: "buffer \<Rightarrow> nat \<Rightarrow> buffer" where
  "buffer_advance b n =
     (let offset = (if n < buf_size b then n else buf_size b)
      in \<lparr>buf_data = buf_data b + offset, buf_size = buf_size b - offset\<rparr>)"

definition buffer_trim :: "buffer \<Rightarrow> nat \<Rightarrow> buffer" where
  "buffer_trim b max_size = \<lparr>buf_data = buf_data b, buf_size = (if buf_size b < max_size then buf_size b else max_size)\<rparr>"

fun buffer_size :: "buffer list \<Rightarrow> nat" where
  "buffer_size [] = 0"
| "buffer_size (b # bs) = buf_size b + buffer_size bs"

definition addrs :: "buffer \<Rightarrow> nat list" where
  "addrs b = [buf_data b ..< buf_data b + buf_size b]"

definition seq_addrs :: "buffer list \<Rightarrow> nat list" where
  "seq_addrs bs = concat (map addrs bs)"

lemma seq_addrs_simps [simp]: "seq_addrs [] = []" "seq_addrs (b # bs) = addrs b @ seq_addrs bs"
  "seq_addrs (as @ bs) = seq_addrs as @ seq_addrs bs"
  by (simp_all add: seq_addrs_def)

lemma length_addrs [simp]: "length (addrs b) = buf_size b"
  by (simp add: addrs_def)

lemma length_seq_addrs: "length (seq_addrs bs) = buffer_size bs"
  by (induction bs) simp_all

lemma addrs_advance [simp]: "addrs (buffer_advance b n) = drop n (addrs b)"
  by (simp add: addrs_def buffer_advance_def Let_def)

lemma addrs_trim [simp]: "addrs (buffer_trim b n) = take n (addrs b)"
  by (auto simp: addrs_def buffer_trim_def take_upt)

lemma addrs_empty [simp]: "addrs empty_buffer = []"
  by (simp add: addrs_def empty_buffer_def)

section \<open>Consuming a sequence\<close>

record consuming_buffers =
  cb_buffers :: "buffer list"
  cb_total_size :: nat
  cb_total_consumed :: nat
  cb_next_elem :: nat
  cb_next_elem_offset :: nat

definition cb_new :: "buffer list \<Rightarrow> consuming_buffers" where
  "cb_new bs = \<lparr>cb_buffers = bs, cb_total_size = buffer_size bs, cb_total_consumed = 0, cb_next_elem = 0,
     cb_next_elem_offset = 0\<rparr>"

definition cb_empty :: "consuming_buffers \<Rightarrow> bool" where
  "cb_empty c \<longleftrightarrow> cb_total_size c \<le> cb_total_consumed c"

text \<open>The loop of \<open>prepare\<close>; \<open>max_buffers\<close> is the size of the result's array, at most 16.\<close>

fun prepare_loop :: "nat \<Rightarrow> buffer list \<Rightarrow> nat \<Rightarrow> nat \<Rightarrow> buffer list \<Rightarrow> buffer list" where
  "prepare_loop max_buffers [] elem_offset max_size result = result"
| "prepare_loop max_buffers (b # bs) elem_offset max_size result =
     (if max_size > 0 \<and> length result < max_buffers
      then (let e = buffer_trim (buffer_advance b elem_offset) max_size
            in prepare_loop max_buffers bs 0 (max_size - buf_size e) (if buf_size e > 0 then result @ [e] else result))
      else result)"

definition cb_prepare :: "nat \<Rightarrow> consuming_buffers \<Rightarrow> nat \<Rightarrow> buffer list" where
  "cb_prepare max_buffers c max_size =
     prepare_loop max_buffers (drop (cb_next_elem c) (cb_buffers c)) (cb_next_elem_offset c) max_size []"

text \<open>The loop of \<open>consume\<close>: the index and the offset after it.\<close>

fun consume_loop :: "buffer list \<Rightarrow> nat \<Rightarrow> nat \<Rightarrow> nat \<Rightarrow> nat \<times> nat" where
  "consume_loop [] sz next_elem offset = (next_elem, offset)"
| "consume_loop (b # bs) sz next_elem offset =
     (if sz > 0
      then (let next_buf = buffer_advance b offset
            in if sz < buf_size next_buf then (next_elem, offset + sz)
               else consume_loop bs (sz - buf_size next_buf) (next_elem + 1) 0)
      else (next_elem, offset))"

definition cb_consume :: "nat \<Rightarrow> consuming_buffers \<Rightarrow> consuming_buffers" where
  "cb_consume sz c =
     (let (i, offset) = consume_loop (drop (cb_next_elem c) (cb_buffers c)) sz (cb_next_elem c) (cb_next_elem_offset c)
      in c\<lparr>cb_total_consumed := cb_total_consumed c + sz, cb_next_elem := i, cb_next_elem_offset := offset\<rparr>)"

text \<open>The specialisations for one buffer and for an array of two.\<close>

record consuming_single_buffer =
  cs_buffer :: buffer
  cs_total_consumed :: nat

definition cs_new :: "buffer \<Rightarrow> consuming_single_buffer" where
  "cs_new b = \<lparr>cs_buffer = b, cs_total_consumed = 0\<rparr>"

definition cs_empty :: "consuming_single_buffer \<Rightarrow> bool" where
  "cs_empty c \<longleftrightarrow> buf_size (cs_buffer c) \<le> cs_total_consumed c"

definition cs_prepare :: "consuming_single_buffer \<Rightarrow> nat \<Rightarrow> buffer" where
  "cs_prepare c max_size = buffer_trim (buffer_advance (cs_buffer c) (cs_total_consumed c)) max_size"

definition cs_consume :: "nat \<Rightarrow> consuming_single_buffer \<Rightarrow> consuming_single_buffer" where
  "cs_consume sz c = c\<lparr>cs_total_consumed := cs_total_consumed c + sz\<rparr>"

record consuming_array2 =
  ca_buffer0 :: buffer
  ca_buffer1 :: buffer
  ca_total_consumed :: nat

definition ca_new :: "buffer \<Rightarrow> buffer \<Rightarrow> consuming_array2" where
  "ca_new b0 b1 = \<lparr>ca_buffer0 = b0, ca_buffer1 = b1, ca_total_consumed = 0\<rparr>"

definition ca_empty :: "consuming_array2 \<Rightarrow> bool" where
  "ca_empty c \<longleftrightarrow> buf_size (ca_buffer0 c) + buf_size (ca_buffer1 c) \<le> ca_total_consumed c"

definition ca_prepare :: "consuming_array2 \<Rightarrow> nat \<Rightarrow> buffer list" where
  "ca_prepare c max_size =
     (let buffer0_size = buf_size (ca_buffer0 c);
          r0 = buffer_trim (buffer_advance (ca_buffer0 c) (ca_total_consumed c)) max_size;
          r1 = buffer_trim
                 (buffer_advance (ca_buffer1 c)
                    (if ca_total_consumed c < buffer0_size then 0 else ca_total_consumed c - buffer0_size))
                 (max_size - buf_size r0)
      in [r0, r1])"

definition ca_consume :: "nat \<Rightarrow> consuming_array2 \<Rightarrow> consuming_array2" where
  "ca_consume sz c = c\<lparr>ca_total_consumed := ca_total_consumed c + sz\<rparr>"

section \<open>Copying\<close>

type_synonym memory = "nat \<Rightarrow> u8"

definition memcpy :: "nat \<Rightarrow> nat \<Rightarrow> nat \<Rightarrow> memory \<Rightarrow> memory" where
  "memcpy target source n mem = (\<lambda>a. if target \<le> a \<and> a < target + n then mem (source + (a - target)) else mem a)"

definition buffer_copy_1 :: "buffer \<Rightarrow> buffer \<Rightarrow> memory \<Rightarrow> nat \<times> memory" where
  "buffer_copy_1 target source mem =
     (let n = (if buf_size target < buf_size source then buf_size target else buf_size source)
      in (n, if n > 0 then memcpy (buf_data target) (buf_data source) n mem else mem))"

definition buffer_copy_one_one :: "buffer \<Rightarrow> buffer \<Rightarrow> nat \<Rightarrow> memory \<Rightarrow> nat \<times> memory" where
  "buffer_copy_one_one target source max_bytes mem = buffer_copy_1 target (buffer_trim source max_bytes) mem"

fun copy_one_many_loop :: "buffer \<Rightarrow> buffer list \<Rightarrow> nat \<Rightarrow> memory \<Rightarrow> nat \<times> memory" where
  "copy_one_many_loop target [] copied mem = (copied, mem)"
| "copy_one_many_loop target (s # ss) copied mem =
     (if buf_size target \<noteq> 0
      then (let (n, mem1) = buffer_copy_1 target s mem
            in copy_one_many_loop (buffer_advance target n) ss (copied + n) mem1)
      else (copied, mem))"

definition buffer_copy_one_many :: "buffer \<Rightarrow> buffer list \<Rightarrow> nat \<Rightarrow> memory \<Rightarrow> nat \<times> memory" where
  "buffer_copy_one_many target sources max_bytes mem = copy_one_many_loop (buffer_trim target max_bytes) sources 0 mem"

fun copy_many_one_loop :: "buffer list \<Rightarrow> buffer \<Rightarrow> nat \<Rightarrow> memory \<Rightarrow> nat \<times> memory" where
  "copy_many_one_loop [] source copied mem = (copied, mem)"
| "copy_many_one_loop (t # ts) source copied mem =
     (if buf_size source \<noteq> 0
      then (let (n, mem1) = buffer_copy_1 t source mem
            in copy_many_one_loop ts (buffer_advance source n) (copied + n) mem1)
      else (copied, mem))"

definition buffer_copy_many_one :: "buffer list \<Rightarrow> buffer \<Rightarrow> nat \<Rightarrow> memory \<Rightarrow> nat \<times> memory" where
  "buffer_copy_many_one targets source max_bytes mem = copy_many_one_loop targets (buffer_trim source max_bytes) 0 mem"

text \<open>
  The loop over two sequences, without and with a limit. Each turn leaves a target, a source, or, with
  a limit, reaches the limit. The count never passes the limit (a turn copies at most what is left of
  it), so the test \<open>total_bytes_copied != max_bytes_to_copy\<close> is the test that it is smaller.
\<close>

function copy_many_loop :: "buffer list \<Rightarrow> nat \<Rightarrow> buffer list \<Rightarrow> nat \<Rightarrow> nat \<Rightarrow> memory \<Rightarrow> nat \<times> memory" where
  "copy_many_loop (t # ts) toff (s # ss) soff copied mem =
     (let target = buffer_advance t toff;
          source = buffer_advance s soff;
          n = fst (buffer_copy_1 target source mem);
          mem1 = snd (buffer_copy_1 target source mem)
      in copy_many_loop
           (if n = buf_size target then ts else t # ts) (if n = buf_size target then 0 else toff + n)
           (if n = buf_size source then ss else s # ss) (if n = buf_size source then 0 else soff + n)
           (copied + n) mem1)"
| "copy_many_loop [] toff ss soff copied mem = (copied, mem)"
| "copy_many_loop (t # ts) toff [] soff copied mem = (copied, mem)"
  by pat_completeness auto
termination
  by (relation "measure (\<lambda>(ts, _, ss, _). length ts + length ss)")
    (auto simp: buffer_copy_1_def Let_def split: if_splits)

definition buffer_copy_many_many :: "buffer list \<Rightarrow> buffer list \<Rightarrow> memory \<Rightarrow> nat \<times> memory" where
  "buffer_copy_many_many targets sources mem = copy_many_loop targets 0 sources 0 0 mem"

function copy_many_max_loop ::
  "nat \<Rightarrow> buffer list \<Rightarrow> nat \<Rightarrow> buffer list \<Rightarrow> nat \<Rightarrow> nat \<Rightarrow> memory \<Rightarrow> nat \<times> memory" where
  "copy_many_max_loop max_bytes (t # ts) toff (s # ss) soff copied mem =
     (if copied < max_bytes
      then
        (let target = buffer_advance t toff;
             source = buffer_advance s soff;
             n = fst (buffer_copy_1 target (buffer_trim source (max_bytes - copied)) mem);
             mem1 = snd (buffer_copy_1 target (buffer_trim source (max_bytes - copied)) mem)
         in copy_many_max_loop max_bytes
              (if n = buf_size target then ts else t # ts) (if n = buf_size target then 0 else toff + n)
              (if n = buf_size source then ss else s # ss) (if n = buf_size source then 0 else soff + n)
              (copied + n) mem1)
      else (copied, mem))"
| "copy_many_max_loop max_bytes [] toff ss soff copied mem = (copied, mem)"
| "copy_many_max_loop max_bytes (t # ts) toff [] soff copied mem = (copied, mem)"
  by pat_completeness auto
termination
  by (relation "measure (\<lambda>(mx, ts, _, ss, _, copied, _). (length ts + length ss) + (mx - copied))")
    (auto simp: buffer_copy_1_def buffer_trim_def Let_def split: if_splits)

definition buffer_copy_many_many_max :: "buffer list \<Rightarrow> buffer list \<Rightarrow> nat \<Rightarrow> memory \<Rightarrow> nat \<times> memory" where
  "buffer_copy_many_many_max targets sources max_bytes mem = copy_many_max_loop max_bytes targets 0 sources 0 0 mem"

section \<open>The adapter\<close>

fun adapter_first :: "buffer list \<Rightarrow> buffer" where
  "adapter_first [] = empty_buffer"
| "adapter_first (b # bs) = (if buf_size b \<noteq> 0 then b else adapter_first bs)"

text \<open>
  \<open>linearise\<close>: a sequence with one non-empty buffer at its end, or with a first non-empty buffer as
  large as the storage, is that buffer; otherwise the bytes are copied into the storage.
\<close>

fun linearise_loop :: "buffer \<Rightarrow> buffer \<Rightarrow> buffer list \<Rightarrow> memory \<Rightarrow> buffer \<times> memory" where
  "linearise_loop storage unused [] mem =
     (\<lparr>buf_data = buf_data storage, buf_size = buf_size storage - buf_size unused\<rparr>, mem)"
| "linearise_loop storage unused (b # bs) mem =
     (if buf_size unused \<noteq> 0
      then
        (if buf_size b = 0 then linearise_loop storage unused bs mem
         else if buf_size unused = buf_size storage \<and> (bs = [] \<or> buf_size unused \<le> buf_size b) then (b, mem)
         else (let (n, mem1) = buffer_copy_1 unused b mem
               in linearise_loop storage (buffer_advance unused n) bs mem1))
      else (\<lparr>buf_data = buf_data storage, buf_size = buf_size storage - buf_size unused\<rparr>, mem))"

definition linearise :: "buffer \<Rightarrow> buffer list \<Rightarrow> memory \<Rightarrow> buffer \<times> memory" where
  "linearise storage bs mem = linearise_loop storage storage bs mem"

section \<open>What is left of a consumed sequence\<close>

lemma addrs_eq_Nil [simp]: "addrs b = [] \<longleftrightarrow> buf_size b = 0"
  by (simp flip: length_0_conv)

lemma buf_size_advance [simp]: "buf_size (buffer_advance b n) = buf_size b - n"
  by (simp add: buffer_advance_def Let_def)

lemma buf_size_trim [simp]: "buf_size (buffer_trim b n) = min n (buf_size b)"
  by (simp add: buffer_trim_def min_def)

definition cb_wf :: "consuming_buffers \<Rightarrow> bool" where
  "cb_wf c \<longleftrightarrow>
     cb_total_size c = buffer_size (cb_buffers c) \<and>
     drop (cb_next_elem_offset c) (seq_addrs (drop (cb_next_elem c) (cb_buffers c)))
       = drop (cb_total_consumed c) (seq_addrs (cb_buffers c)) \<and>
     (cb_next_elem_offset c = 0 \<or>
        (\<exists>b bs. drop (cb_next_elem c) (cb_buffers c) = b # bs \<and> cb_next_elem_offset c < buf_size b))"

lemma cb_new_wf: "cb_wf (cb_new bs)"
  by (simp add: cb_wf_def cb_new_def)

lemma consume_loop_result:
  assumes "consume_loop bs n i off = (i', off')" "off = 0 \<or> (\<exists>b cs. bs = b # cs \<and> off < buf_size b)"
  shows "i \<le> i' \<and> drop off' (seq_addrs (drop (i' - i) bs)) = drop (off + n) (seq_addrs bs) \<and>
    (off' = 0 \<or> (\<exists>b cs. drop (i' - i) bs = b # cs \<and> off' < buf_size b))"
  using assms
proof (induction bs n i off rule: consume_loop.induct)
  case (1 n i off)
  then show ?case by simp
next
  case (2 b bs n i off)
  show ?case
  proof (cases "n > 0 \<and> \<not> n < buf_size b - off")
    case True
    then have r: "consume_loop bs (n - (buf_size b - off)) (i + 1) 0 = (i', off')"
      using 2(2) by (simp add: Let_def)
    have IH: "i + 1 \<le> i' \<and> drop off' (seq_addrs (drop (i' - (i + 1)) bs)) = drop (0 + (n - (buf_size b - off))) (seq_addrs bs) \<and>
        (off' = 0 \<or> (\<exists>b cs. drop (i' - (i + 1)) bs = b # cs \<and> off' < buf_size b))"
      using 2(1) r True by simp
    moreover have "drop (i' - i) (b # bs) = drop (i' - (i + 1)) bs"
      using IH by (simp add: drop_Cons' Suc_diff_Suc)
    moreover have "off \<le> buf_size b" using 2(3) by auto
    then have "drop (off + n) (addrs b) = []" "off + n - buf_size b = n - (buf_size b - off)" using True by auto
    then have "drop (off + n) (addrs b @ seq_addrs bs) = drop (n - (buf_size b - off)) (seq_addrs bs)"
      by (simp only: drop_append length_addrs append_Nil)
    ultimately show ?thesis by simp
  next
    case False
    then have "i' = i" "off' = (if n > 0 then off + n else off)"
      using 2(2) by (auto simp: Let_def split: if_splits)
    then show ?thesis using 2(3) False by auto
  qed
qed

lemma cb_consume_wf:
  assumes "cb_wf c"
  shows "cb_wf (cb_consume n c)"
proof -
  obtain i off where l: "consume_loop (drop (cb_next_elem c) (cb_buffers c)) n (cb_next_elem c) (cb_next_elem_offset c) = (i, off)"
    by (cases "consume_loop (drop (cb_next_elem c) (cb_buffers c)) n (cb_next_elem c) (cb_next_elem_offset c)")
  have r: "cb_next_elem c \<le> i"
    "drop off (seq_addrs (drop (i - cb_next_elem c) (drop (cb_next_elem c) (cb_buffers c))))
       = drop (cb_next_elem_offset c + n) (seq_addrs (drop (cb_next_elem c) (cb_buffers c)))"
    "off = 0 \<or> (\<exists>b cs. drop (i - cb_next_elem c) (drop (cb_next_elem c) (cb_buffers c)) = b # cs \<and> off < buf_size b)"
    using consume_loop_result [OF l] assms by (auto simp: cb_wf_def)
  have "drop (cb_next_elem_offset c + n) (seq_addrs (drop (cb_next_elem c) (cb_buffers c)))
      = drop (cb_total_consumed c + n) (seq_addrs (cb_buffers c))"
    using assms by (simp add: cb_wf_def add.commute flip: drop_drop)
  then show ?thesis using r assms l by (simp add: cb_wf_def cb_consume_def)
qed

lemma cb_consume_fields [simp]:
  "cb_buffers (cb_consume n c) = cb_buffers c" "cb_total_consumed (cb_consume n c) = cb_total_consumed c + n"
  by (simp_all add: cb_consume_def split: prod.splits)

lemma cb_consumes:
  "cb_wf (fold cb_consume ns (cb_new bs)) \<and> cb_buffers (fold cb_consume ns (cb_new bs)) = bs \<and>
   cb_total_consumed (fold cb_consume ns (cb_new bs)) = sum_list ns"
proof -
  have "cb_wf c \<Longrightarrow> cb_wf (fold cb_consume ns c) \<and> cb_buffers (fold cb_consume ns c) = cb_buffers c \<and>
      cb_total_consumed (fold cb_consume ns c) = cb_total_consumed c + sum_list ns" for c
    by (induction ns arbitrary: c) (simp_all add: cb_consume_wf)
  from this [OF cb_new_wf] show ?thesis by (simp add: cb_new_def)
qed

text \<open>\<open>prepare\<close> gives a prefix of what is left, the whole prefix of the size asked for if the array suffices.\<close>

lemma prepare_loop_result:
  assumes "off = 0 \<or> (\<exists>b cs. bs = b # cs \<and> off < buf_size b)"
  shows "\<exists>k. seq_addrs (prepare_loop mx bs off m result) = seq_addrs result @ take k (drop off (seq_addrs bs)) \<and> k \<le> m \<and>
    (length result + length bs \<le> mx \<longrightarrow> k = m) \<and>
    (length result < mx \<and> 0 < m \<and> drop off (seq_addrs bs) \<noteq> [] \<longrightarrow> 0 < k)"
  using assms
proof (induction mx bs off m result rule: prepare_loop.induct)
  case (1 mx off m result)
  then show ?case by (intro exI [of _ m]) simp
next
  case (2 mx b bs off m result)
  show ?case
  proof (cases "m > 0 \<and> length result < mx")
    case True
    define e where "e = buffer_trim (buffer_advance b off) m"
    have e: "addrs e = take m (drop off (addrs b))" "buf_size e = min m (buf_size b - off)"
      by (simp_all add: e_def)
    let ?res = "if buf_size e > 0 then result @ [e] else result"
    have step: "prepare_loop mx (b # bs) off m result = prepare_loop mx bs 0 (m - buf_size e) ?res"
      using True by (simp add: e_def Let_def)
    have res: "seq_addrs ?res = seq_addrs result @ addrs e" by simp
    obtain k where k: "seq_addrs (prepare_loop mx bs 0 (m - buf_size e) ?res)
        = seq_addrs ?res @ take k (drop 0 (seq_addrs bs))" "k \<le> m - buf_size e"
        "length ?res + length bs \<le> mx \<longrightarrow> k = m - buf_size e"
        "length ?res < mx \<and> 0 < m - buf_size e \<and> drop 0 (seq_addrs bs) \<noteq> [] \<longrightarrow> 0 < k"
      using 2(1) [OF True e_def] by auto
    have off: "off \<le> buf_size b" using 2(2) by auto
    have app: "drop off (seq_addrs (b # bs)) = drop off (addrs b) @ seq_addrs bs" using off by simp
    have "addrs e @ take k (seq_addrs bs) = take (buf_size e + k) (drop off (seq_addrs (b # bs)))"
    proof (cases "m \<le> buf_size b - off")
      case True
      then have "buf_size e = m" "k = 0" using e(2) k(2) by auto
      then show ?thesis using e(1) True off unfolding app by simp
    next
      case False
      then have "addrs e = drop off (addrs b)" "buf_size e = length (drop off (addrs b))" using e by auto
      then show ?thesis unfolding app by simp
    qed
    then have "seq_addrs (prepare_loop mx (b # bs) off m result)
        = seq_addrs result @ take (buf_size e + k) (drop off (seq_addrs (b # bs)))"
      using step k(1) res by simp
    moreover have "buf_size e + k \<le> m" using k(2) e(2) by simp
    moreover have "length result + length (b # bs) \<le> mx \<longrightarrow> buf_size e + k = m"
      using k(2,3) e(2) by auto
    moreover have "0 < buf_size e + k" if "drop off (seq_addrs (b # bs)) \<noteq> []"
    proof (cases "buf_size e = 0")
      case True
      then have "drop off (addrs b) = []" using e(2) \<open>m > 0 \<and> length result < mx\<close> by (auto simp: min_def split: if_splits)
      then have "seq_addrs bs \<noteq> []" using that unfolding app by simp
      then show ?thesis using k(4) True \<open>m > 0 \<and> length result < mx\<close> by simp
    qed simp
    ultimately show ?thesis by blast
  next
    case False
    then have "prepare_loop mx (b # bs) off m result = result" by auto
    then show ?thesis using False by (intro exI [of _ 0]) auto
  qed
qed

lemma cb_prepare_prefix:
  assumes "cb_wf c"
  shows "\<exists>k. seq_addrs (cb_prepare mx c m) = take k (drop (cb_total_consumed c) (seq_addrs (cb_buffers c))) \<and> k \<le> m \<and>
    (length (cb_buffers c) \<le> mx \<longrightarrow> k = m) \<and>
    (0 < mx \<and> 0 < m \<and> cb_total_consumed c < buffer_size (cb_buffers c) \<longrightarrow> 0 < k)"
proof -
  have off: "cb_next_elem_offset c = 0 \<or>
      (\<exists>b cs. drop (cb_next_elem c) (cb_buffers c) = b # cs \<and> cb_next_elem_offset c < buf_size b)"
    and left: "drop (cb_next_elem_offset c) (seq_addrs (drop (cb_next_elem c) (cb_buffers c)))
       = drop (cb_total_consumed c) (seq_addrs (cb_buffers c))"
    using assms by (auto simp: cb_wf_def)
  obtain k where "seq_addrs (cb_prepare mx c m) = take k (drop (cb_total_consumed c) (seq_addrs (cb_buffers c)))" "k \<le> m"
    "length (drop (cb_next_elem c) (cb_buffers c)) \<le> mx \<longrightarrow> k = m"
    "0 < mx \<and> 0 < m \<and> drop (cb_total_consumed c) (seq_addrs (cb_buffers c)) \<noteq> [] \<longrightarrow> 0 < k"
    using prepare_loop_result [OF off, of mx m "[]"] left by (auto simp: cb_prepare_def)
  then show ?thesis by (intro exI [of _ k]) (auto simp: length_seq_addrs)
qed

section \<open>What a copy does to the memory\<close>

text \<open>The bytes at the addresses \<open>ss\<close> are stored at the addresses \<open>ts\<close>.\<close>

definition blit :: "nat list \<Rightarrow> nat list \<Rightarrow> memory \<Rightarrow> memory" where
  "blit ts ss mem = (\<lambda>a. case map_of (zip ts ss) a of Some s \<Rightarrow> mem s | None \<Rightarrow> mem a)"

lemma blit_Nil [simp]: "blit [] ss mem = mem" "blit ts [] mem = mem"
  by (simp_all add: blit_def)

lemma map_of_zip_dom: "map_of (zip ts ss) a = Some s \<Longrightarrow> a \<in> set ts \<and> s \<in> set ss"
  by (meson map_of_SomeD set_zip_leftD set_zip_rightD)

lemma blit_append:
  assumes "length ts1 = length ss1" "set ts1 \<inter> set ts2 = {}" "set ts1 \<inter> set ss2 = {}"
  shows "blit ts2 ss2 (blit ts1 ss1 mem) = blit (ts1 @ ts2) (ss1 @ ss2) mem"
proof
  fix a
  show "blit ts2 ss2 (blit ts1 ss1 mem) a = blit (ts1 @ ts2) (ss1 @ ss2) mem a"
  proof (cases "map_of (zip ts2 ss2) a")
    case None
    then have "map_of (zip (ts1 @ ts2) (ss1 @ ss2)) a = map_of (zip ts1 ss1) a"
      unfolding zip_append [OF assms(1)] map_of_append map_add_def None
      by (cases "map_of (zip ts1 ss1) a") (simp_all only: option.case)
    then show ?thesis unfolding blit_def None by simp
  next
    case (Some s)
    then have "a \<notin> set ts1" "s \<notin> set ts1" using assms(2,3) map_of_zip_dom [OF Some] by auto
    then have "map_of (zip ts1 ss1) a = None" "map_of (zip ts1 ss1) s = None"
      using map_of_zip_dom by (metis option.exhaust)+
    then have "map_of (zip (ts1 @ ts2) (ss1 @ ss2)) a = Some s" "blit ts1 ss1 mem s = mem s"
      unfolding zip_append [OF assms(1)] map_of_append map_add_def blit_def by (simp_all only: Some option.case)
    then show ?thesis using Some by (simp add: blit_def)
  qed
qed

lemma memcpy_blit: "memcpy t s n mem = blit [t ..< t + n] [s ..< s + n] mem"
proof
  fix a
  have dist: "distinct (map fst (zip [t ..< t + n] [s ..< s + n]))" by simp
  show "memcpy t s n mem a = blit [t ..< t + n] [s ..< s + n] mem a"
  proof (cases "t \<le> a \<and> a < t + n")
    case True
    then have "(a, s + (a - t)) \<in> set (zip [t ..< t + n] [s ..< s + n])"
      unfolding set_zip by (auto intro!: exI [of _ "a - t"])
    then have "map_of (zip [t ..< t + n] [s ..< s + n]) a = Some (s + (a - t))"
      using dist by (simp add: map_of_eq_Some_iff)
    then show ?thesis using True by (simp add: memcpy_def blit_def)
  next
    case False
    then have "map_of (zip [t ..< t + n] [s ..< s + n]) a = None"
      using map_of_zip_dom [of "[t ..< t + n]" "[s ..< s + n]" a] by (metis atLeastLessThan_iff not_None_eq set_upt)
    then have "blit [t ..< t + n] [s ..< s + n] mem a = mem a" by (simp only: blit_def option.case)
    then show ?thesis using False by (auto simp: memcpy_def)
  qed
qed

lemma buffer_copy_1_blit:
  "buffer_copy_1 t s mem = (min (buf_size t) (buf_size s),
     blit (take (min (buf_size t) (buf_size s)) (addrs t)) (take (min (buf_size t) (buf_size s)) (addrs s)) mem)"
  by (simp add: buffer_copy_1_def Let_def memcpy_blit addrs_def take_upt min_def)

text \<open>The reference: the first \<open>n\<close> bytes, where \<open>n\<close> is the smallest of the sizes and the limit.\<close>

definition copy_spec :: "nat \<Rightarrow> nat list \<Rightarrow> nat list \<Rightarrow> memory \<Rightarrow> nat \<times> memory" where
  "copy_spec m ts ss mem =
     (let n = min m (min (length ts) (length ss)) in (n, blit (take n ts) (take n ss) mem))"

text \<open>One step of a copy followed by the rest of it.\<close>

lemma copy_spec_step:
  assumes "length ts1 = length ss1" "distinct (ts1 @ ts2)" "set (ts1 @ ts2) \<inter> set (ss1 @ ss2) = {}"
    "length ts1 \<le> m" "mem1 = blit ts1 ss1 mem"
  shows "copy_spec m (ts1 @ ts2) (ss1 @ ss2) mem
    = (length ts1 + fst (copy_spec (m - length ts1) ts2 ss2 mem1), snd (copy_spec (m - length ts1) ts2 ss2 mem1))"
proof -
  let ?n = "min (m - length ts1) (min (length ts2) (length ss2))"
  have n: "min m (min (length (ts1 @ ts2)) (length (ss1 @ ss2))) = length ts1 + ?n"
    using assms(1,4) by auto
  have "set (take ?n ts2) \<subseteq> set ts2" "set (take ?n ss2) \<subseteq> set ss2" by (simp_all add: set_take_subset)
  then have "blit (take ?n ts2) (take ?n ss2) (blit ts1 ss1 mem) = blit (ts1 @ take ?n ts2) (ss1 @ take ?n ss2) mem"
    using assms(1-3) by (intro blit_append) auto
  then show ?thesis using assms(1,5) unfolding copy_spec_def n Let_def by simp
qed

lemma copy_spec_none: "m = 0 \<or> ts = [] \<or> ss = [] \<Longrightarrow> copy_spec m ts ss mem = (0, mem)"
  by (auto simp: copy_spec_def)

lemma copy_spec_parts:
  fixes m :: nat and A B T S :: "nat list"
  defines "n \<equiv> min m (min (length A) (length B))"
  assumes "distinct (A @ T)" "set (A @ T) \<inter> set (B @ S) = {}"
  shows "copy_spec m (A @ T) (B @ S) mem =
    (n + fst (copy_spec (m - n) (drop n A @ T) (drop n B @ S) (blit (take n A) (take n B) mem)),
     snd (copy_spec (m - n) (drop n A @ T) (drop n B @ S) (blit (take n A) (take n B) mem)))"
proof -
  have l: "length (take n A) = n" "length (take n B) = n" by (simp_all add: n_def)
  have eq: "A @ T = take n A @ (drop n A @ T)" "B @ S = take n B @ (drop n B @ S)" by simp_all
  have "copy_spec m (take n A @ (drop n A @ T)) (take n B @ (drop n B @ S)) mem
      = (length (take n A) + fst (copy_spec (m - length (take n A)) (drop n A @ T) (drop n B @ S) (blit (take n A) (take n B) mem)),
         snd (copy_spec (m - length (take n A)) (drop n A @ T) (drop n B @ S) (blit (take n A) (take n B) mem)))"
    by (rule copy_spec_step) (use assms(2,3) l in \<open>simp_all only: append_take_drop_id append_assoc [symmetric] n_def min.cobounded1\<close>)
  then show ?thesis unfolding l(1) append_assoc [symmetric] append_take_drop_id by simp
qed

lemma disjoint_drop:
  assumes "distinct (A @ T)" "set (A @ T) \<inter> set (B @ S) = {}"
  shows "distinct (drop n A @ T)" "set (drop n A @ T) \<inter> set (drop n B @ S) = {}"
proof -
  have "set (drop n A) \<subseteq> set A" "set (drop n B) \<subseteq> set B" by (simp_all add: set_drop_subset)
  then show "distinct (drop n A @ T)" "set (drop n A @ T) \<inter> set (drop n B @ S) = {}"
    using assms by (auto simp: distinct_drop)
qed

lemma copy_one_many_spec:
  "distinct (addrs t) \<Longrightarrow> set (addrs t) \<inter> set (seq_addrs ss) = {} \<Longrightarrow>
     copy_one_many_loop t ss k mem
       = (k + fst (copy_spec (buf_size t) (addrs t) (seq_addrs ss) mem), snd (copy_spec (buf_size t) (addrs t) (seq_addrs ss) mem))"
proof (induction t ss k mem rule: copy_one_many_loop.induct)
  case (1 t k mem)
  then show ?case by (simp add: copy_spec_none)
next
  case (2 t s ss k mem)
  show ?case
  proof (cases "buf_size t = 0")
    case True
    then show ?thesis by (simp add: copy_spec_none)
  next
    case False
    let ?n = "min (buf_size t) (buf_size s)"
    let ?mem1 = "blit (take ?n (addrs t)) (take ?n (addrs s)) mem"
    have c: "buffer_copy_1 t s mem = (?n, ?mem1)" by (rule buffer_copy_1_blit)
    have p: "distinct (addrs t @ [])" "set (addrs t @ []) \<inter> set (addrs s @ seq_addrs ss) = {}" using 2(2,3) by auto
    have IH: "copy_one_many_loop (buffer_advance t ?n) ss (k + ?n) ?mem1
        = (k + ?n + fst (copy_spec (buf_size t - ?n) (drop ?n (addrs t)) (seq_addrs ss) ?mem1),
           snd (copy_spec (buf_size t - ?n) (drop ?n (addrs t)) (seq_addrs ss) ?mem1))"
      using 2(1) [OF False c [symmetric] refl] disjoint_drop [OF p, of ?n] by auto
    have "copy_spec (buf_size t - ?n) (drop ?n (addrs t)) (drop ?n (addrs s) @ seq_addrs ss) mem'
        = copy_spec (buf_size t - ?n) (drop ?n (addrs t)) (seq_addrs ss) mem'" for mem'
      by (cases "buf_size s \<le> buf_size t") (simp_all add: copy_spec_none min_def)
    then show ?thesis using IH c False copy_spec_parts [OF p, of "buf_size t" mem] by simp
  qed
qed

lemma copy_many_one_spec:
  "distinct (seq_addrs ts) \<Longrightarrow> set (seq_addrs ts) \<inter> set (addrs s) = {} \<Longrightarrow>
     copy_many_one_loop ts s k mem
       = (k + fst (copy_spec (buf_size s) (seq_addrs ts) (addrs s) mem), snd (copy_spec (buf_size s) (seq_addrs ts) (addrs s) mem))"
proof (induction ts s k mem rule: copy_many_one_loop.induct)
  case (1 s k mem)
  then show ?case by (simp add: copy_spec_none)
next
  case (2 t ts s k mem)
  show ?case
  proof (cases "buf_size s = 0")
    case True
    then show ?thesis by (simp add: copy_spec_none)
  next
    case False
    let ?n = "min (buf_size t) (buf_size s)"
    let ?mem1 = "blit (take ?n (addrs t)) (take ?n (addrs s)) mem"
    have c: "buffer_copy_1 t s mem = (?n, ?mem1)" by (rule buffer_copy_1_blit)
    have p: "distinct (addrs t @ seq_addrs ts)" "set (addrs t @ seq_addrs ts) \<inter> set (addrs s @ []) = {}"
      using 2(2,3) by auto
    have IH: "copy_many_one_loop ts (buffer_advance s ?n) (k + ?n) ?mem1
        = (k + ?n + fst (copy_spec (buf_size s - ?n) (seq_addrs ts) (drop ?n (addrs s)) ?mem1),
           snd (copy_spec (buf_size s - ?n) (seq_addrs ts) (drop ?n (addrs s)) ?mem1))"
      using 2(1) [OF False c [symmetric] refl] disjoint_drop [OF p, of ?n] by auto
    have "copy_spec (buf_size s - ?n) (drop ?n (addrs t) @ seq_addrs ts) (drop ?n (addrs s)) mem'
        = copy_spec (buf_size s - ?n) (seq_addrs ts) (drop ?n (addrs s)) mem'" for mem'
      by (cases "buf_size t \<le> buf_size s") (simp_all add: copy_spec_none min_def)
    moreover have "min (buf_size s) ?n = ?n" by simp
    ultimately show ?thesis using IH c False copy_spec_parts [OF p, of "buf_size s" mem] by simp
  qed
qed

text \<open>The loops over two sequences, from a position inside the first target and the first source.\<close>

definition offset_in :: "nat \<Rightarrow> buffer list \<Rightarrow> bool" where
  "offset_in off bs \<longleftrightarrow> off = 0 \<or> (\<exists>b cs. bs = b # cs \<and> off \<le> buf_size b)"

lemma drop_offset: "offset_in off (b # bs) \<Longrightarrow> drop off (seq_addrs (b # bs)) = drop off (addrs b) @ seq_addrs bs"
  by (auto simp: offset_in_def)

lemma after_step:
  assumes "offset_in off (b # bs)" "n \<le> buf_size b - off"
  shows "drop (if n = buf_size b - off then 0 else off + n) (seq_addrs (if n = buf_size b - off then bs else b # bs))
      = drop n (drop off (addrs b)) @ seq_addrs bs"
    and "offset_in (if n = buf_size b - off then 0 else off + n) (if n = buf_size b - off then bs else b # bs)"
  using assms by (auto simp: offset_in_def add.commute)

lemma copy_many_max_spec:
  "offset_in toff ts \<Longrightarrow> offset_in soff ss \<Longrightarrow> k \<le> m \<Longrightarrow> distinct (drop toff (seq_addrs ts)) \<Longrightarrow>
   set (drop toff (seq_addrs ts)) \<inter> set (drop soff (seq_addrs ss)) = {} \<Longrightarrow>
     copy_many_max_loop m ts toff ss soff k mem
       = (k + fst (copy_spec (m - k) (drop toff (seq_addrs ts)) (drop soff (seq_addrs ss)) mem),
          snd (copy_spec (m - k) (drop toff (seq_addrs ts)) (drop soff (seq_addrs ss)) mem))"
proof (induction m ts toff ss soff k mem rule: copy_many_max_loop.induct)
  case (1 m t ts toff s ss soff k mem)
  show ?case
  proof (cases "k < m")
    case False
    then show ?thesis using 1(4) by (simp add: copy_spec_none)
  next
    case True
    let ?A = "drop toff (addrs t)" and ?B = "drop soff (addrs s)"
    let ?n = "min (m - k) (min (length ?A) (length ?B))"
    let ?mem1 = "blit (take ?n ?A) (take ?n ?B) mem"
    let ?src = "buffer_trim (buffer_advance s soff) (m - k)"
    have n: "min (buf_size (buffer_advance t toff)) (buf_size ?src) = ?n" by (simp add: min.left_commute)
    have c: "buffer_copy_1 (buffer_advance t toff) ?src mem = (?n, ?mem1)"
      unfolding buffer_copy_1_blit n by (simp add: take_take)
    have d: "drop toff (seq_addrs (t # ts)) = ?A @ seq_addrs ts" "drop soff (seq_addrs (s # ss)) = ?B @ seq_addrs ss"
      using drop_offset 1(2,3) by blast+
    have p: "distinct (?A @ seq_addrs ts)" "set (?A @ seq_addrs ts) \<inter> set (?B @ seq_addrs ss) = {}"
      using 1(5,6) unfolding d by simp_all
    have nt: "?n \<le> buf_size t - toff" "?n \<le> buf_size s - soff" by auto
    note at = after_step [OF 1(2) nt(1)] and as = after_step [OF 1(3) nt(2)]
    have IH: "copy_many_max_loop m
        (if ?n = buf_size t - toff then ts else t # ts) (if ?n = buf_size t - toff then 0 else toff + ?n)
        (if ?n = buf_size s - soff then ss else s # ss) (if ?n = buf_size s - soff then 0 else soff + ?n)
        (k + ?n) ?mem1
      = (k + ?n + fst (copy_spec (m - (k + ?n)) (drop ?n ?A @ seq_addrs ts) (drop ?n ?B @ seq_addrs ss) ?mem1),
         snd (copy_spec (m - (k + ?n)) (drop ?n ?A @ seq_addrs ts) (drop ?n ?B @ seq_addrs ss) ?mem1))"
      using 1(1) [OF True refl refl refl refl, unfolded c fst_conv snd_conv buf_size_advance at(1) as(1),
          OF at(2) as(2) _ disjoint_drop [OF p]] True by simp
    have "copy_many_max_loop m (t # ts) toff (s # ss) soff k mem = copy_many_max_loop m
        (if ?n = buf_size t - toff then ts else t # ts) (if ?n = buf_size t - toff then 0 else toff + ?n)
        (if ?n = buf_size s - soff then ss else s # ss) (if ?n = buf_size s - soff then 0 else soff + ?n)
        (k + ?n) ?mem1"
      using True by (simp only: copy_many_max_loop.simps c fst_conv snd_conv buf_size_advance Let_def if_True)
    then show ?thesis unfolding d IH copy_spec_parts [OF p, of "m - k" mem] by simp
  qed
qed (simp_all add: copy_spec_none offset_in_def)

text \<open>Without a limit the loop is the loop with a limit that is not reached.\<close>

lemma buffer_copy_1_trim: "buf_size t \<le> q \<Longrightarrow> buffer_copy_1 t (buffer_trim s q) mem = buffer_copy_1 t s mem"
  unfolding buffer_copy_1_blit by (simp add: min.absorb2 take_take min_def)

lemma copy_many_unlimited:
  "offset_in toff ts \<Longrightarrow> k + length (drop toff (seq_addrs ts)) < m \<Longrightarrow>
     copy_many_loop ts toff ss soff k mem = copy_many_max_loop m ts toff ss soff k mem"
proof (induction ts toff ss soff k mem rule: copy_many_loop.induct)
  case (1 t ts toff s ss soff k mem)
  let ?n = "fst (buffer_copy_1 (buffer_advance t toff) (buffer_advance s soff) mem)"
  let ?mem1 = "snd (buffer_copy_1 (buffer_advance t toff) (buffer_advance s soff) mem)"
  let ?ts = "if ?n = buf_size t - toff then ts else t # ts"
  let ?toff = "if ?n = buf_size t - toff then 0 else toff + ?n"
  let ?ss = "if ?n = buf_size s - soff then ss else s # ss"
  let ?soff = "if ?n = buf_size s - soff then 0 else soff + ?n"
  have n: "?n \<le> buf_size t - toff" by (simp add: buffer_copy_1_def Let_def)
  note at = after_step [OF 1(2) n]
  have d: "drop toff (seq_addrs (t # ts)) = drop toff (addrs t) @ seq_addrs ts" by (rule drop_offset [OF 1(2)])
  have km: "k < m" "buf_size t - toff \<le> m - k" using 1(3) unfolding d by auto
  have trim: "buffer_copy_1 (buffer_advance t toff) (buffer_trim (buffer_advance s soff) (m - k)) mem
      = buffer_copy_1 (buffer_advance t toff) (buffer_advance s soff) mem"
    using km(2) by (intro buffer_copy_1_trim) simp
  have "k + ?n + length (drop ?n (drop toff (addrs t)) @ seq_addrs ts) < m"
    using 1(3) n unfolding d by simp
  then have IH: "copy_many_loop ?ts ?toff ?ss ?soff (k + ?n) ?mem1 = copy_many_max_loop m ?ts ?toff ?ss ?soff (k + ?n) ?mem1"
    using 1(1) [OF refl refl refl refl, unfolded buf_size_advance at(1), OF at(2)] by blast
  have "copy_many_loop (t # ts) toff (s # ss) soff k mem = copy_many_loop ?ts ?toff ?ss ?soff (k + ?n) ?mem1"
    by (simp only: copy_many_loop.simps Let_def buf_size_advance)
  moreover have "copy_many_max_loop m (t # ts) toff (s # ss) soff k mem = copy_many_max_loop m ?ts ?toff ?ss ?soff (k + ?n) ?mem1"
    using km(1) by (simp only: copy_many_max_loop.simps Let_def buf_size_advance trim if_True)
  ultimately show ?case using IH by (simp only:)
qed simp_all

lemma copy_spec_limit:
  "min m (min (length ts) (length ss)) = min m' (min (length ts) (length ss)) \<Longrightarrow> copy_spec m ts ss mem = copy_spec m' ts ss mem"
  by (simp add: copy_spec_def)

text \<open>What a reader of the documentation expects of a copy of \<open>n\<close> bytes.\<close>

definition copied :: "nat \<Rightarrow> nat list \<Rightarrow> nat list \<Rightarrow> memory \<Rightarrow> nat \<times> memory \<Rightarrow> bool" where
  "copied n ts ss mem r \<longleftrightarrow>
     fst r = n \<and>
     map (snd r) (take n ts) = map mem (take n ss) \<and>
     (\<forall>a. a \<notin> set (take n ts) \<longrightarrow> snd r a = mem a)"

lemma copy_spec_copied:
  assumes "distinct ts"
  shows "copied (min m (min (length ts) (length ss))) ts ss mem (copy_spec m ts ss mem)"
proof -
  let ?n = "min m (min (length ts) (length ss))"
  let ?T = "take ?n ts" and ?S = "take ?n ss"
  have len: "length ?T = length ?S" by simp
  have dist: "distinct (map fst (zip ?T ?S))" using assms len by (simp only: map_fst_zip distinct_take)
  have "blit ?T ?S mem (?T ! i) = mem (?S ! i)" if "i < length ?T" for i
  proof -
    have "(?T ! i, ?S ! i) \<in> set (zip ?T ?S)" using that len unfolding set_zip by force
    then have "map_of (zip ?T ?S) (?T ! i) = Some (?S ! i)" using dist by (simp only: map_of_eq_Some_iff)
    then show ?thesis unfolding blit_def by (simp only: option.case)
  qed
  then have "map (blit ?T ?S mem) ?T = map mem ?S" using len by (intro nth_equalityI) (simp_all only: length_map nth_map)
  moreover have "blit ?T ?S mem a = mem a" if "a \<notin> set ?T" for a
  proof -
    have "map_of (zip ?T ?S) a = None" using that map_of_zip_dom by (metis option.exhaust)
    then show ?thesis unfolding blit_def by (simp only: option.case)
  qed
  ultimately show ?thesis unfolding copied_def copy_spec_def Let_def by (simp only: fst_conv snd_conv) simp
qed

text \<open>
  \<open>linearise\<close> gives one buffer that holds a prefix of the sequence's bytes: at least the size of the
  storage, or all of them.
\<close>

lemma blit_outside: "a \<notin> set ts \<Longrightarrow> blit ts ss mem a = mem a"
  unfolding blit_def by (metis map_of_zip_dom option.exhaust option.simps(4))

lemma blit_read:
  assumes "distinct ts" "length ts = length ss"
  shows "map (blit ts ss mem) ts = map mem ss"
proof -
  have "copied (length ts) ts ss mem (copy_spec (length ts) ts ss mem)"
    using copy_spec_copied [OF assms(1), of "length ts" ss mem] assms(2) by simp
  then show ?thesis using assms(2) by (simp add: copied_def copy_spec_def)
qed

lemma linearise_copies:
  "set (addrs storage) \<inter> set (seq_addrs bs) = {} \<Longrightarrow> u \<le> buf_size storage \<Longrightarrow> unused = buffer_advance storage u \<Longrightarrow>
   \<exists>k. map (snd (linearise_loop storage unused bs mem)) (addrs (fst (linearise_loop storage unused bs mem)))
         = map mem (take u (addrs storage)) @ map mem (take k (seq_addrs bs)) \<and>
       min (buf_size storage - u) (buffer_size bs) \<le> k \<and> (u = buf_size storage \<longrightarrow> k = 0)"
proof (induction storage unused bs mem arbitrary: u rule: linearise_loop.induct)
  case (1 storage unused mem)
  then show ?case by (intro exI [of _ 0]) (auto simp: addrs_def take_upt buffer_advance_def Let_def)
next
  case (2 storage unused b bs mem)
  have un: "buf_size unused = buf_size storage - u" using 2(4,5) by simp
  consider "buf_size unused = 0" | "buf_size unused \<noteq> 0" "buf_size b = 0"
    | "buf_size unused \<noteq> 0" "buf_size b \<noteq> 0" "u = 0 \<and> (bs = [] \<or> buf_size unused \<le> buf_size b)"
    | "buf_size unused \<noteq> 0" "buf_size b \<noteq> 0" "\<not> (u = 0 \<and> (bs = [] \<or> buf_size unused \<le> buf_size b))"
    by blast
  then show ?case
  proof cases
    case 1
    then show ?thesis using 2(4) un by (intro exI [of _ 0]) (simp add: addrs_def)
  next
    case b: 2
    then have nil: "seq_addrs (b # bs) = seq_addrs bs" "buffer_size (b # bs) = buffer_size bs"
      "linearise_loop storage unused (b # bs) mem = linearise_loop storage unused bs mem" by simp_all
    show ?thesis using 2(1) [OF b _ 2(4,5)] 2(3) unfolding nil by blast
  next
    case 3
    then show ?thesis using un by (intro exI [of _ "buf_size b"]) (auto simp: min_def)
  next
    case 4
    let ?n = "min (buf_size unused) (buf_size b)"
    let ?T = "take ?n (addrs unused)" and ?S = "take ?n (addrs b)"
    have ns: "\<not> (buf_size unused = buf_size storage \<and> (bs = [] \<or> buf_size unused \<le> buf_size b))" using 4 un 2(4) by auto
    have c: "buffer_copy_1 unused b mem = (?n, blit ?T ?S mem)" by (rule buffer_copy_1_blit)
    have step: "linearise_loop storage unused (b # bs) mem = linearise_loop storage (buffer_advance unused ?n) bs (blit ?T ?S mem)"
      using 4(1,2) ns c by auto
    have adv: "buffer_advance unused ?n = buffer_advance storage (u + ?n)"
      using 2(4,5) by (auto simp: buffer_advance_def Let_def)
    have un': "u + ?n \<le> buf_size storage" using un 2(4) by simp
    have st: "take (u + ?n) (addrs storage) = take u (addrs storage) @ ?T"
      using 2(5) by (simp add: take_add)
    have dist: "distinct (take u (addrs storage) @ ?T)" unfolding st [symmetric] by (simp add: addrs_def)
    have sub: "set ?T \<subseteq> set (addrs storage)" using 2(5) by (auto dest: in_set_takeD in_set_dropD)
    have "map (blit ?T ?S mem) (take (u + ?n) (addrs storage)) = map mem (take u (addrs storage)) @ map mem ?S"
      unfolding st using dist blit_read [of ?T ?S mem] by (auto intro!: blit_outside)
    moreover have "map (blit ?T ?S mem) (take k (seq_addrs bs)) = map mem (take k (seq_addrs bs))" for k
      using sub 2(3) by (auto intro!: blit_outside dest: in_set_takeD)
    moreover obtain k where "map (snd (linearise_loop storage (buffer_advance unused ?n) bs (blit ?T ?S mem)))
          (addrs (fst (linearise_loop storage (buffer_advance unused ?n) bs (blit ?T ?S mem))))
        = map (blit ?T ?S mem) (take (u + ?n) (addrs storage)) @ map (blit ?T ?S mem) (take k (seq_addrs bs))"
        "min (buf_size storage - (u + ?n)) (buffer_size bs) \<le> k" "u + ?n = buf_size storage \<longrightarrow> k = 0"
      using 2(2) [OF 4(1,2) ns c [symmetric] refl _ un' adv] 2(3) by auto
    ultimately have r: "map (snd (linearise_loop storage unused (b # bs) mem)) (addrs (fst (linearise_loop storage unused (b # bs) mem)))
        = map mem (take u (addrs storage)) @ map mem (?S @ take k (seq_addrs bs))"
      "min (buf_size storage - (u + ?n)) (buffer_size bs) \<le> k" "u + ?n = buf_size storage \<longrightarrow> k = 0" unfolding step by simp_all
    have "?S @ take k (seq_addrs bs) = take (?n + k) (seq_addrs (b # bs))"
    proof (cases "buf_size b \<le> buf_size unused")
      case False
      then have "k = 0" "?n \<le> buf_size b" using r(3) un 2(4) by auto
      then show ?thesis by simp
    qed simp
    then show ?thesis using r 4(1) un by (intro exI [of _ "?n + k"]) auto
  qed
qed

section \<open>The specialisations and the copies\<close>

lemma take_drop_two:
  "take m (drop n (xs @ ys)) = take m (drop n xs) @ take (m - min m (length xs - n)) (drop (n - length xs) ys)"
  by (auto simp: min_def)

lemma ca_prepare_addrs:
  "seq_addrs (ca_prepare c m) = take m (drop (ca_total_consumed c) (addrs (ca_buffer0 c) @ addrs (ca_buffer1 c)))"
proof -
  have "(if ca_total_consumed c < buf_size (ca_buffer0 c) then 0 else ca_total_consumed c - buf_size (ca_buffer0 c))
      = ca_total_consumed c - buf_size (ca_buffer0 c)" by simp
  then show ?thesis unfolding ca_prepare_def Let_def take_drop_two by simp
qed

lemma ca_consumes:
  "ca_buffer0 (fold ca_consume ns (ca_new b0 b1)) = b0 \<and> ca_buffer1 (fold ca_consume ns (ca_new b0 b1)) = b1 \<and>
   ca_total_consumed (fold ca_consume ns (ca_new b0 b1)) = sum_list ns"
proof -
  have "ca_buffer0 (fold ca_consume ns c) = ca_buffer0 c \<and> ca_buffer1 (fold ca_consume ns c) = ca_buffer1 c \<and>
      ca_total_consumed (fold ca_consume ns c) = ca_total_consumed c + sum_list ns" for c
    by (induction ns arbitrary: c) (simp_all add: ca_consume_def)
  from this [of "ca_new b0 b1"] show ?thesis by (simp add: ca_new_def)
qed

lemma cs_consumes:
  "cs_buffer (fold cs_consume ns (cs_new b)) = b \<and> cs_total_consumed (fold cs_consume ns (cs_new b)) = sum_list ns"
proof -
  have "cs_buffer (fold cs_consume ns c) = cs_buffer c \<and>
      cs_total_consumed (fold cs_consume ns c) = cs_total_consumed c + sum_list ns" for c
    by (induction ns arbitrary: c) (simp_all add: cs_consume_def)
  from this [of "cs_new b"] show ?thesis by (simp add: cs_new_def)
qed

lemma cb_prepare_all:
  assumes "length bs \<le> mx"
  shows "seq_addrs (cb_prepare mx (fold cb_consume ns (cb_new bs)) m) = take m (drop (sum_list ns) (seq_addrs bs))"
  using cb_prepare_prefix [of "fold cb_consume ns (cb_new bs)" mx m] cb_consumes [of ns bs] assms by auto

lemma cb_empty_all: "cb_empty (fold cb_consume ns (cb_new bs)) \<longleftrightarrow> buffer_size bs \<le> sum_list ns"
  using cb_consumes [of ns bs] by (simp add: cb_empty_def cb_wf_def)

lemmas consuming_facts = cb_prepare_all cb_empty_all ca_prepare_addrs ca_consumes cs_consumes

text \<open>
  After any sequence of \<open>consume\<close> calls, the generic \<open>consuming_buffers\<close>, with an array for as many
  buffers as the sequence has, hands the next \<open>m\<close> of the bytes that are left to a transfer, in the
  order of the sequence; the specialisations for one buffer and for an array of two hand over the
  same bytes as the generic class, and all agree on when nothing is left.
\<close>

theorem consuming_specialisations_equal:
  assumes "length bs \<le> max_buffers"
  shows "seq_addrs (cb_prepare max_buffers (fold cb_consume ns (cb_new bs)) m) = take m (drop (sum_list ns) (seq_addrs bs)) \<and>
    (cb_empty (fold cb_consume ns (cb_new bs)) \<longleftrightarrow> drop (sum_list ns) (seq_addrs bs) = []) \<and>
    addrs (cs_prepare (fold cs_consume ns (cs_new b0)) m) = seq_addrs (cb_prepare 1 (fold cb_consume ns (cb_new [b0])) m) \<and>
    cs_empty (fold cs_consume ns (cs_new b0)) = cb_empty (fold cb_consume ns (cb_new [b0])) \<and>
    seq_addrs (ca_prepare (fold ca_consume ns (ca_new b0 b1)) m) = seq_addrs (cb_prepare 2 (fold cb_consume ns (cb_new [b0, b1])) m) \<and>
    ca_empty (fold ca_consume ns (ca_new b0 b1)) = cb_empty (fold cb_consume ns (cb_new [b0, b1]))"
  using assms
  by (simp add: consuming_facts length_seq_addrs cs_prepare_def cs_empty_def ca_empty_def)

theorem consuming_specialisations_equal_witness:
  "seq_addrs (cb_prepare 16 (fold cb_consume [2, 3] (cb_new [\<lparr>buf_data = 10, buf_size = 4\<rparr>, \<lparr>buf_data = 30, buf_size = 5\<rparr>])) 3)
     = [31, 32, 33]"
  using consuming_specialisations_equal [of "[\<lparr>buf_data = 10, buf_size = 4\<rparr>, \<lparr>buf_data = 30, buf_size = 5\<rparr>]" 16 "[2, 3]" 3]
  by (simp add: addrs_def eval_nat_numeral)

lemma trim_fst: "copy_spec (min m (length ts)) (take m ts) ss mem = copy_spec m ts ss mem"
  "copy_spec (min m (length ss)) ts (take m ss) mem = copy_spec m ts ss mem"
  by (simp_all add: copy_spec_def min.assoc min.left_commute min.commute Let_def take_take)

lemma distinct_addrs [simp]: "distinct (addrs b)" "distinct (take n (addrs b))"
  by (simp_all add: addrs_def)

lemma buffer_copy_many_many_max_copy:
  assumes "distinct (seq_addrs ts)" "set (seq_addrs ts) \<inter> set (seq_addrs ss) = {}"
  shows "buffer_copy_many_many_max ts ss m mem = copy_spec m (seq_addrs ts) (seq_addrs ss) mem"
  using copy_many_max_spec [of 0 ts 0 ss 0 m mem] assms by (simp add: buffer_copy_many_many_max_def offset_in_def)

lemma buffer_copy_many_many_copy:
  assumes "distinct (seq_addrs ts)" "set (seq_addrs ts) \<inter> set (seq_addrs ss) = {}"
  shows "buffer_copy_many_many ts ss mem = copy_spec (buffer_size ts) (seq_addrs ts) (seq_addrs ss) mem"
proof -
  have "buffer_copy_many_many ts ss mem = buffer_copy_many_many_max ts ss (buffer_size ts + 1) mem"
    using copy_many_unlimited [of 0 ts 0 "buffer_size ts + 1" ss 0 mem]
    by (simp add: buffer_copy_many_many_def buffer_copy_many_many_max_def offset_in_def length_seq_addrs)
  then show ?thesis using buffer_copy_many_many_max_copy [OF assms] copy_spec_limit
    by (simp add: length_seq_addrs copy_spec_def min_def)
qed

lemma buffer_copy_one_many_copied:
  assumes "set (addrs t) \<inter> set (seq_addrs ss) = {}"
  shows "copied (min m (min (buf_size t) (buffer_size ss))) (addrs t) (seq_addrs ss) mem (buffer_copy_one_many t ss m mem)"
proof -
  have "set (take m (addrs t)) \<inter> set (seq_addrs ss) = {}" using assms by (auto dest: in_set_takeD)
  then have "buffer_copy_one_many t ss m mem = copy_spec (min m (length (addrs t))) (take m (addrs t)) (seq_addrs ss) mem"
    using copy_one_many_spec [of "buffer_trim t m" ss 0 mem] by (simp add: buffer_copy_one_many_def)
  then show ?thesis unfolding trim_fst
    using copy_spec_copied [of "addrs t" m "seq_addrs ss" mem] by (simp add: length_seq_addrs)
qed

lemma buffer_copy_many_one_copied:
  assumes "distinct (seq_addrs ts)" "set (seq_addrs ts) \<inter> set (addrs s) = {}"
  shows "copied (min m (min (buffer_size ts) (buf_size s))) (seq_addrs ts) (addrs s) mem (buffer_copy_many_one ts s m mem)"
proof -
  have "set (seq_addrs ts) \<inter> set (take m (addrs s)) = {}" using assms(2) by (auto dest: in_set_takeD)
  then have "buffer_copy_many_one ts s m mem = copy_spec (min m (length (addrs s))) (seq_addrs ts) (take m (addrs s)) mem"
    using copy_many_one_spec [of ts "buffer_trim s m" 0 mem] assms(1) by (simp add: buffer_copy_many_one_def)
  then show ?thesis unfolding trim_fst
    using copy_spec_copied [OF assms(1), of m "addrs s" mem] by (simp add: length_seq_addrs)
qed

lemma buffer_copy_1_copied: "copied (min (buf_size t) (buf_size s)) (addrs t) (addrs s) mem (buffer_copy_1 t s mem)"
  using copy_spec_copied [of "addrs t" "buf_size t" "addrs s" mem]
  unfolding buffer_copy_1_blit copy_spec_def Let_def by simp

lemma buffer_copy_one_one_copied:
  "copied (min m (min (buf_size t) (buf_size s))) (addrs t) (addrs s) mem (buffer_copy_one_one t s m mem)"
proof -
  have "min (buf_size t) (min m (buf_size s)) = min m (min (buf_size t) (buf_size s))" by (rule min.left_commute)
  then show ?thesis using copy_spec_copied [of "addrs t" m "addrs s" mem]
    unfolding buffer_copy_one_one_def buffer_copy_1_blit copy_spec_def Let_def by (simp add: take_take)
qed

text \<open>
  C24: For target buffers that overlap neither each other nor the sources, every form of
  \<open>buffer_copy\<close> copies as many bytes as the smallest of the two total sizes and the limit, returns
  that number, stores the bytes in the order of the source sequence and changes no other memory.
\<close>

theorem buffer_copy_correct:
  assumes "distinct (seq_addrs ts)" "set (seq_addrs ts) \<inter> set (seq_addrs ss) = {}" "t \<in> set ts" "s \<in> set ss"
  shows "copied (min m (min (buffer_size ts) (buffer_size ss))) (seq_addrs ts) (seq_addrs ss) mem
      (buffer_copy_many_many_max ts ss m mem) \<and>
    copied (min (buffer_size ts) (buffer_size ss)) (seq_addrs ts) (seq_addrs ss) mem (buffer_copy_many_many ts ss mem) \<and>
    copied (min m (min (buf_size t) (buffer_size ss))) (addrs t) (seq_addrs ss) mem (buffer_copy_one_many t ss m mem) \<and>
    copied (min m (min (buffer_size ts) (buf_size s))) (seq_addrs ts) (addrs s) mem (buffer_copy_many_one ts s m mem) \<and>
    copied (min m (min (buf_size t) (buf_size s))) (addrs t) (addrs s) mem (buffer_copy_one_one t s m mem) \<and>
    copied (min (buf_size t) (buf_size s)) (addrs t) (addrs s) mem (buffer_copy_1 t s mem)"
proof (intro conjI)
  have sub: "set (addrs t) \<subseteq> set (seq_addrs ts)" "set (addrs s) \<subseteq> set (seq_addrs ss)"
    using assms(3,4) by (auto simp: seq_addrs_def)
  show "copied (min m (min (buffer_size ts) (buffer_size ss))) (seq_addrs ts) (seq_addrs ss) mem
      (buffer_copy_many_many_max ts ss m mem)"
    unfolding buffer_copy_many_many_max_copy [OF assms(1,2)] using copy_spec_copied [OF assms(1), of m "seq_addrs ss" mem]
    by (simp add: length_seq_addrs)
  show "copied (min (buffer_size ts) (buffer_size ss)) (seq_addrs ts) (seq_addrs ss) mem (buffer_copy_many_many ts ss mem)"
    unfolding buffer_copy_many_many_copy [OF assms(1,2)]
    using copy_spec_copied [OF assms(1), of "buffer_size ts" "seq_addrs ss" mem] by (simp add: length_seq_addrs)
  show "copied (min m (min (buf_size t) (buffer_size ss))) (addrs t) (seq_addrs ss) mem (buffer_copy_one_many t ss m mem)"
    using sub assms(2) by (intro buffer_copy_one_many_copied) auto
  show "copied (min m (min (buffer_size ts) (buf_size s))) (seq_addrs ts) (addrs s) mem (buffer_copy_many_one ts s m mem)"
    using sub assms(1,2) by (intro buffer_copy_many_one_copied) auto
  show "copied (min m (min (buf_size t) (buf_size s))) (addrs t) (addrs s) mem (buffer_copy_one_one t s m mem)"
    "copied (min (buf_size t) (buf_size s)) (addrs t) (addrs s) mem (buffer_copy_1 t s mem)"
    by (rule buffer_copy_one_one_copied buffer_copy_1_copied)+
qed

theorem buffer_copy_correct_witness:
  "copied 4 [10, 11, 20, 21, 22] [30, 31, 32, 40, 41] (\<lambda>a. if a = 40 then 7 else 0)
     (buffer_copy_many_many_max [\<lparr>buf_data = 10, buf_size = 2\<rparr>, \<lparr>buf_data = 20, buf_size = 3\<rparr>]
        [\<lparr>buf_data = 30, buf_size = 3\<rparr>, \<lparr>buf_data = 40, buf_size = 2\<rparr>] 4 (\<lambda>a. if a = 40 then 7 else 0))"
  using buffer_copy_correct [of "[\<lparr>buf_data = 10, buf_size = 2\<rparr>, \<lparr>buf_data = 20, buf_size = 3\<rparr>]"
      "[\<lparr>buf_data = 30, buf_size = 3\<rparr>, \<lparr>buf_data = 40, buf_size = 2\<rparr>]"
      "\<lparr>buf_data = 10, buf_size = 2\<rparr>" "\<lparr>buf_data = 30, buf_size = 3\<rparr>" 4]
  by (simp add: addrs_def eval_nat_numeral)

end
