(* ===== verification/Socket_Io.thy ===== *)
theory Socket_Io
  imports Sockets Buffers
begin

text \<open>
  Sending and receiving on a socket: the POSIX branches of \<open>recv\<close>, \<open>send\<close>, \<open>poll\<close>, \<open>connect\<close> and
  \<open>accept\<close> with their synchronous and non-blocking loops in
  \<open>src/ext/asio/asio/detail/impl/socket_ops.ipp\<close>, and the \<open>do_perform\<close> functions of the reactor
  operations \<open>detail/reactive_socket_recv_op.hpp\<close>, \<open>reactive_socket_send_op.hpp\<close>,
  \<open>reactive_socket_connect_op.hpp\<close>, \<open>reactive_socket_accept_op.hpp\<close> and \<open>reactive_wait_op.hpp\<close>.

  The system is a record of functions on a state of type \<open>'w\<close>: a call gives \<open>Inl\<close> an \<open>errno\<close> value or
  \<open>Inr\<close> its result. A receive gives the bytes it stores, which fill the buffers in order; a send
  gets the bytes of its buffers. Every loop here can go round for ever, so the loops are partial.
\<close>

unbundle bit_operations_syntax

section \<open>The system\<close>

record 'w kernel =
  k_recv :: "nat \<Rightarrow> nat \<Rightarrow> u32 \<Rightarrow> 'w \<Rightarrow> (int + u8 list) \<times> 'w"
  k_send :: "nat \<Rightarrow> u8 list \<Rightarrow> u32 \<Rightarrow> 'w \<Rightarrow> (int + nat) \<times> 'w"
  k_poll :: "nat \<Rightarrow> u32 \<Rightarrow> int \<Rightarrow> 'w \<Rightarrow> (int + nat) \<times> 'w"
  k_connect :: "nat \<Rightarrow> u8 list \<Rightarrow> 'w \<Rightarrow> int option \<times> 'w"
  k_so_error :: "nat \<Rightarrow> 'w \<Rightarrow> (int + int) \<times> 'w"
  k_accept :: "nat \<Rightarrow> 'w \<Rightarrow> (int + nat) \<times> 'w"

abbreviation (input) POLLIN :: u32 where "POLLIN \<equiv> 1"
abbreviation (input) POLLPRI :: u32 where "POLLPRI \<equiv> 2"
abbreviation (input) POLLOUT :: u32 where "POLLOUT \<equiv> 4"
abbreviation (input) POLLERR :: u32 where "POLLERR \<equiv> 8"
abbreviation (input) POLLHUP :: u32 where "POLLHUP \<equiv> 16"
abbreviation (input) MSG_NOSIGNAL :: u32 where "MSG_NOSIGNAL \<equiv> 0x4000"

abbreviation ec_bad_descriptor :: error_code where "ec_bad_descriptor \<equiv> make_basic_error bad_descriptor"
abbreviation ec_interrupted :: error_code where "ec_interrupted \<equiv> make_basic_error interrupted"
abbreviation ec_eof :: error_code where "ec_eof \<equiv> make_misc_error eof"

definition blocked :: "error_code \<Rightarrow> bool" where
  "blocked ec \<longleftrightarrow> ec = make_basic_error would_block \<or> ec = make_basic_error try_again"

section \<open>The adapter's native buffers\<close>

text \<open>\<open>buffer_sequence_adapter::init\<close> and \<open>all_empty\<close>: the first \<open>max_buffers\<close> buffers.\<close>

definition adapter_max_buffers :: nat where
  "adapter_max_buffers = 64"

definition adapter_init :: "buffer list \<Rightarrow> buffer list \<times> nat" where
  "adapter_init bs = (take adapter_max_buffers bs, buffer_size (take adapter_max_buffers bs))"

definition adapter_all_empty :: "buffer list \<Rightarrow> bool" where
  "adapter_all_empty bs \<longleftrightarrow> list_all (\<lambda>b. \<not> 0 < buf_size b) (take adapter_max_buffers bs)"

section \<open>Single calls\<close>

text \<open>\<open>None\<close> is the negative result of a failed call.\<close>

definition ops_recv ::
  "'w kernel \<Rightarrow> nat \<Rightarrow> buffer list \<Rightarrow> u32 \<Rightarrow> error_code \<Rightarrow> 'w \<Rightarrow> u8 list option \<times> error_code \<times> 'w" where
  "ops_recv K s bufs flags ec w =
     (case k_recv K s (buffer_size bufs) flags w of
        (Inl e, w1) \<Rightarrow> (None, get_last_error ec (Some e), w1)
      | (Inr d, w1) \<Rightarrow> (Some d, get_last_error ec None, w1))"

definition ops_recv1 ::
  "'w kernel \<Rightarrow> nat \<Rightarrow> nat \<Rightarrow> u32 \<Rightarrow> error_code \<Rightarrow> 'w \<Rightarrow> u8 list option \<times> error_code \<times> 'w" where
  "ops_recv1 K s len flags ec w =
     (case k_recv K s len flags w of
        (Inl e, w1) \<Rightarrow> (None, get_last_error ec (Some e), w1)
      | (Inr d, w1) \<Rightarrow> (Some d, get_last_error ec None, w1))"

definition ops_send ::
  "'w kernel \<Rightarrow> nat \<Rightarrow> u8 list list \<Rightarrow> u32 \<Rightarrow> error_code \<Rightarrow> 'w \<Rightarrow> nat option \<times> error_code \<times> 'w" where
  "ops_send K s bufs flags ec w =
     (case k_send K s (concat bufs) (flags OR MSG_NOSIGNAL) w of
        (Inl e, w1) \<Rightarrow> (None, get_last_error ec (Some e), w1)
      | (Inr n, w1) \<Rightarrow> (Some n, get_last_error ec None, w1))"

definition ops_send1 ::
  "'w kernel \<Rightarrow> nat \<Rightarrow> u8 list \<Rightarrow> u32 \<Rightarrow> error_code \<Rightarrow> 'w \<Rightarrow> nat option \<times> error_code \<times> 'w" where
  "ops_send1 K s data flags ec w =
     (case k_send K s data (flags OR MSG_NOSIGNAL) w of
        (Inl e, w1) \<Rightarrow> (None, get_last_error ec (Some e), w1)
      | (Inr n, w1) \<Rightarrow> (Some n, get_last_error ec None, w1))"

text \<open>
  \<open>poll_read\<close>, \<open>poll_write\<close> and \<open>poll_error\<close>: with the user's non-blocking mode the timeout is 0 and
  no ready descriptor is the error \<open>would_block\<close>. The result is -1 for an error.
\<close>

definition poll_result :: "(int + nat) \<times> 'w \<Rightarrow> error_code \<Rightarrow> int \<times> error_code \<times> 'w" where
  "poll_result r ec =
     (case r of
        (Inl e, w) \<Rightarrow> (- 1, get_last_error ec (Some e), w)
      | (Inr n, w) \<Rightarrow> (int n, get_last_error ec None, w))"

definition poll_read :: "'w kernel \<Rightarrow> nat option \<Rightarrow> u8 \<Rightarrow> int \<Rightarrow> error_code \<Rightarrow> 'w \<Rightarrow> int \<times> error_code \<times> 'w" where
  "poll_read K s state msec ec w =
     (case s of
        None \<Rightarrow> (- 1, ec_bad_descriptor, w)
      | Some fd \<Rightarrow>
          (let user = (state AND user_set_non_blocking \<noteq> 0);
               (result, ec1, w1) = poll_result (k_poll K fd POLLIN (if user then 0 else msec) w) ec
           in (result, if result = 0 \<and> user then make_basic_error would_block else ec1, w1)))"

definition poll_write :: "'w kernel \<Rightarrow> nat option \<Rightarrow> u8 \<Rightarrow> int \<Rightarrow> error_code \<Rightarrow> 'w \<Rightarrow> int \<times> error_code \<times> 'w" where
  "poll_write K s state msec ec w =
     (case s of
        None \<Rightarrow> (- 1, ec_bad_descriptor, w)
      | Some fd \<Rightarrow>
          (let user = (state AND user_set_non_blocking \<noteq> 0);
               (result, ec1, w1) = poll_result (k_poll K fd POLLOUT (if user then 0 else msec) w) ec
           in (result, if result = 0 \<and> user then make_basic_error would_block else ec1, w1)))"

definition poll_error :: "'w kernel \<Rightarrow> nat option \<Rightarrow> u8 \<Rightarrow> int \<Rightarrow> error_code \<Rightarrow> 'w \<Rightarrow> int \<times> error_code \<times> 'w" where
  "poll_error K s state msec ec w =
     (case s of
        None \<Rightarrow> (- 1, ec_bad_descriptor, w)
      | Some fd \<Rightarrow>
          (let user = (state AND user_set_non_blocking \<noteq> 0);
               (result, ec1, w1) =
                 poll_result (k_poll K fd (POLLPRI OR POLLERR OR POLLHUP) (if user then 0 else msec) w) ec
           in (result, if result = 0 \<and> user then make_basic_error would_block else ec1, w1)))"

definition poll_connect :: "'w kernel \<Rightarrow> nat option \<Rightarrow> int \<Rightarrow> error_code \<Rightarrow> 'w \<Rightarrow> int \<times> error_code \<times> 'w" where
  "poll_connect K s msec ec w =
     (case s of
        None \<Rightarrow> (- 1, ec_bad_descriptor, w)
      | Some fd \<Rightarrow> poll_result (k_poll K fd POLLOUT msec w) ec)"

section \<open>Synchronous operations\<close>

text \<open>The loop of \<open>sync_recv\<close> and \<open>sync_recv1\<close> around their call; the result is the bytes stored.\<close>

partial_function (option) sync_recv_loop ::
  "'w kernel \<Rightarrow> nat \<Rightarrow> u8 \<Rightarrow> (error_code \<Rightarrow> 'w \<Rightarrow> u8 list option \<times> error_code \<times> 'w) \<Rightarrow> error_code \<Rightarrow> 'w
     \<Rightarrow> (u8 list \<times> error_code \<times> 'w) option" where
  "sync_recv_loop K fd state call ec w =
     (case call ec w of
        (Some d, ec1, w1) \<Rightarrow>
          (if state AND stream_oriented \<noteq> 0 \<and> d = [] then Some ([], ec_eof, w1) else Some (d, ec1, w1))
      | (None, ec1, w1) \<Rightarrow>
          (if state AND user_set_non_blocking \<noteq> 0 \<or> \<not> blocked ec1 then Some ([], ec1, w1)
           else (case poll_read K (Some fd) 0 (- 1) ec1 w1 of (r, ec2, w2) \<Rightarrow>
                   if r < 0 then Some ([], ec2, w2) else sync_recv_loop K fd state call ec2 w2)))"

definition sync_recv ::
  "'w kernel \<Rightarrow> nat option \<Rightarrow> u8 \<Rightarrow> buffer list \<Rightarrow> u32 \<Rightarrow> bool \<Rightarrow> error_code \<Rightarrow> 'w
     \<Rightarrow> (u8 list \<times> error_code \<times> 'w) option" where
  "sync_recv K s state bufs flags all_empty ec w =
     (case s of
        None \<Rightarrow> Some ([], ec_bad_descriptor, w)
      | Some fd \<Rightarrow>
          (if all_empty \<and> state AND stream_oriented \<noteq> 0 then Some ([], ec\<lparr>ec_value := 0\<rparr>, w)
           else sync_recv_loop K fd state (ops_recv K fd bufs flags) ec w))"

definition sync_recv1 ::
  "'w kernel \<Rightarrow> nat option \<Rightarrow> u8 \<Rightarrow> nat \<Rightarrow> u32 \<Rightarrow> error_code \<Rightarrow> 'w \<Rightarrow> (u8 list \<times> error_code \<times> 'w) option" where
  "sync_recv1 K s state len flags ec w =
     (case s of
        None \<Rightarrow> Some ([], ec_bad_descriptor, w)
      | Some fd \<Rightarrow>
          (if len = 0 \<and> state AND stream_oriented \<noteq> 0 then Some ([], ec\<lparr>ec_value := 0\<rparr>, w)
           else sync_recv_loop K fd state (ops_recv1 K fd len flags) ec w))"

partial_function (option) sync_send_loop ::
  "'w kernel \<Rightarrow> nat \<Rightarrow> u8 \<Rightarrow> (error_code \<Rightarrow> 'w \<Rightarrow> nat option \<times> error_code \<times> 'w) \<Rightarrow> error_code \<Rightarrow> 'w
     \<Rightarrow> (nat \<times> error_code \<times> 'w) option" where
  "sync_send_loop K fd state call ec w =
     (case call ec w of
        (Some n, ec1, w1) \<Rightarrow> Some (n, ec1, w1)
      | (None, ec1, w1) \<Rightarrow>
          (if state AND user_set_non_blocking \<noteq> 0 \<or> \<not> blocked ec1 then Some (0, ec1, w1)
           else (case poll_write K (Some fd) 0 (- 1) ec1 w1 of (r, ec2, w2) \<Rightarrow>
                   if r < 0 then Some (0, ec2, w2) else sync_send_loop K fd state call ec2 w2)))"

definition sync_send ::
  "'w kernel \<Rightarrow> nat option \<Rightarrow> u8 \<Rightarrow> u8 list list \<Rightarrow> u32 \<Rightarrow> bool \<Rightarrow> error_code \<Rightarrow> 'w \<Rightarrow> (nat \<times> error_code \<times> 'w) option" where
  "sync_send K s state bufs flags all_empty ec w =
     (case s of
        None \<Rightarrow> Some (0, ec_bad_descriptor, w)
      | Some fd \<Rightarrow>
          (if all_empty \<and> state AND stream_oriented \<noteq> 0 then Some (0, ec\<lparr>ec_value := 0\<rparr>, w)
           else sync_send_loop K fd state (ops_send K fd bufs flags) ec w))"

definition sync_send1 ::
  "'w kernel \<Rightarrow> nat option \<Rightarrow> u8 \<Rightarrow> u8 list \<Rightarrow> u32 \<Rightarrow> error_code \<Rightarrow> 'w \<Rightarrow> (nat \<times> error_code \<times> 'w) option" where
  "sync_send1 K s state data flags ec w =
     (case s of
        None \<Rightarrow> Some (0, ec_bad_descriptor, w)
      | Some fd \<Rightarrow>
          (if length data = 0 \<and> state AND stream_oriented \<noteq> 0 then Some (0, ec\<lparr>ec_value := 0\<rparr>, w)
           else sync_send_loop K fd state (ops_send1 K fd data flags) ec w))"

text \<open>\<open>EPROTO\<close> is 71.\<close>

partial_function (option) sync_accept ::
  "'w kernel \<Rightarrow> nat option \<Rightarrow> u8 \<Rightarrow> error_code \<Rightarrow> 'w \<Rightarrow> (nat option \<times> error_code \<times> 'w) option" where
  "sync_accept K s state ec w =
     (case (case s of None \<Rightarrow> (Inl 0, w) | Some fd \<Rightarrow> k_accept K fd w) of (r, w1) \<Rightarrow>
      (case ops_accept s r ec of
        (ec1, Some new_s) \<Rightarrow> Some (Some new_s, ec1, w1)
      | (ec1, None) \<Rightarrow>
          (if (if blocked ec1 then state AND user_set_non_blocking \<noteq> 0
               else if ec1 = make_basic_error connection_aborted \<or> ec_value ec1 = 71
               then state AND enable_connection_aborted \<noteq> 0
               else True)
           then Some (None, ec1, w1)
           else (case poll_read K s 0 (- 1) ec1 w1 of (p, ec2, w2) \<Rightarrow>
                   if p < 0 then Some (None, ec2, w2) else sync_accept K s state ec2 w2))))"

text \<open>
  \<open>connect\<close>: on Linux \<open>EAGAIN\<close> means that no local port is left. \<open>connect_code\<close> is what it makes of
  the result of the call.
\<close>

definition connect_code :: "int option \<Rightarrow> error_code \<Rightarrow> bool \<times> error_code" where
  "connect_code r ec =
     (let ec1 = get_last_error ec r
      in (r = None, if r \<noteq> None \<and> ec1 = make_basic_error try_again then make_basic_error no_buffer_space else ec1))"

definition ops_connect ::
  "'w kernel \<Rightarrow> nat option \<Rightarrow> u8 list \<Rightarrow> error_code \<Rightarrow> 'w \<Rightarrow> bool \<times> error_code \<times> 'w" where
  "ops_connect K s addr ec w =
     (case s of
        None \<Rightarrow> (False, ec_bad_descriptor, w)
      | Some fd \<Rightarrow>
          (let (r, w1) = k_connect K fd addr w; (ok, ec1) = connect_code r ec in (ok, ec1, w1)))"

definition sync_connect :: "'w kernel \<Rightarrow> nat option \<Rightarrow> u8 list \<Rightarrow> error_code \<Rightarrow> 'w \<Rightarrow> error_code \<times> 'w" where
  "sync_connect K s addr ec w =
     (let (_, ec1, w1) = ops_connect K s addr ec w
      in if ec1 \<noteq> make_basic_error in_progress \<and> ec1 \<noteq> make_basic_error would_block then (ec1, w1)
         else (case poll_connect K s (- 1) ec1 w1 of (r, ec2, w2) \<Rightarrow>
           if r < 0 then (ec2, w2)
           else (case s of
                   None \<Rightarrow> (ec_bad_descriptor, w2)
                 | Some fd \<Rightarrow>
                     (case k_so_error K fd w2 of
                        (Inl e, w3) \<Rightarrow> (get_last_error ec2 (Some e), w3)
                      | (Inr connect_error, w3) \<Rightarrow> (\<lparr>ec_value = connect_error, ec_category = system_category\<rparr>, w3)))))"

section \<open>Non-blocking operations\<close>

text \<open>
  The loops are tried again while the call is interrupted. The result says whether the operation is
  complete, and holds its error code, its number of bytes and the bytes stored.
\<close>

partial_function (option) recv_loop ::
  "(error_code \<Rightarrow> 'w \<Rightarrow> u8 list option \<times> error_code \<times> 'w) \<Rightarrow> bool \<Rightarrow> error_code \<Rightarrow> nat \<Rightarrow> 'w
     \<Rightarrow> (bool \<times> error_code \<times> nat \<times> u8 list \<times> 'w) option" where
  "recv_loop call is_stream ec n w =
     (case call ec w of
        (Some d, ec1, w1) \<Rightarrow>
          (if is_stream \<and> d = [] then Some (True, ec_eof, n, [], w1) else Some (True, ec1, length d, d, w1))
      | (None, ec1, w1) \<Rightarrow>
          (if ec1 = ec_interrupted then recv_loop call is_stream ec1 n w1
           else if blocked ec1 then Some (False, ec1, n, [], w1)
           else Some (True, ec1, 0, [], w1)))"

definition non_blocking_recv ::
  "'w kernel \<Rightarrow> nat \<Rightarrow> buffer list \<Rightarrow> u32 \<Rightarrow> bool \<Rightarrow> error_code \<Rightarrow> nat \<Rightarrow> 'w
     \<Rightarrow> (bool \<times> error_code \<times> nat \<times> u8 list \<times> 'w) option" where
  "non_blocking_recv K s bufs flags = recv_loop (ops_recv K s bufs flags)"

definition non_blocking_recv1 ::
  "'w kernel \<Rightarrow> nat \<Rightarrow> nat \<Rightarrow> u32 \<Rightarrow> bool \<Rightarrow> error_code \<Rightarrow> nat \<Rightarrow> 'w
     \<Rightarrow> (bool \<times> error_code \<times> nat \<times> u8 list \<times> 'w) option" where
  "non_blocking_recv1 K s len flags = recv_loop (ops_recv1 K s len flags)"

partial_function (option) send_loop ::
  "(error_code \<Rightarrow> 'w \<Rightarrow> nat option \<times> error_code \<times> 'w) \<Rightarrow> error_code \<Rightarrow> nat \<Rightarrow> 'w
     \<Rightarrow> (bool \<times> error_code \<times> nat \<times> 'w) option" where
  "send_loop call ec n w =
     (case call ec w of
        (Some k, ec1, w1) \<Rightarrow> Some (True, ec1, k, w1)
      | (None, ec1, w1) \<Rightarrow>
          (if ec1 = ec_interrupted then send_loop call ec1 n w1
           else if blocked ec1 then Some (False, ec1, n, w1)
           else Some (True, ec1, 0, w1)))"

definition non_blocking_send ::
  "'w kernel \<Rightarrow> nat \<Rightarrow> u8 list list \<Rightarrow> u32 \<Rightarrow> error_code \<Rightarrow> nat \<Rightarrow> 'w \<Rightarrow> (bool \<times> error_code \<times> nat \<times> 'w) option" where
  "non_blocking_send K s bufs flags = send_loop (ops_send K s bufs flags)"

definition non_blocking_send1 ::
  "'w kernel \<Rightarrow> nat \<Rightarrow> u8 list \<Rightarrow> u32 \<Rightarrow> error_code \<Rightarrow> nat \<Rightarrow> 'w \<Rightarrow> (bool \<times> error_code \<times> nat \<times> 'w) option" where
  "non_blocking_send1 K s data flags = send_loop (ops_send1 K s data flags)"

text \<open>\<open>non_blocking_connect\<close>: a failed poll does not end it, the pending error decides.\<close>

definition non_blocking_connect :: "'w kernel \<Rightarrow> nat \<Rightarrow> error_code \<Rightarrow> 'w \<Rightarrow> bool \<times> error_code \<times> 'w" where
  "non_blocking_connect K s ec w =
     (let (ready, w1) = k_poll K s POLLOUT 0 w
      in if ready = Inr 0 then (False, ec, w1)
         else (case k_so_error K s w1 of
                 (Inl e, w2) \<Rightarrow> (True, get_last_error ec (Some e), w2)
               | (Inr connect_error, w2) \<Rightarrow>
                   (True,
                    if connect_error \<noteq> 0 then \<lparr>ec_value = connect_error, ec_category = system_category\<rparr>
                    else (get_last_error ec None)\<lparr>ec_value := 0\<rparr>, w2)))"

section \<open>Stream sockets\<close>

text \<open>
  What the manual says of a connected stream socket. \<open>rest\<close> is what the peer will have sent and has
  not been received, up to the end of the stream; \<open>sent\<close> is what the system has accepted for the peer.
  A receive takes the next bytes, none only at the end; a send accepts a non-empty prefix.
\<close>

definition stream_kernel :: "'w kernel \<Rightarrow> nat \<Rightarrow> ('w \<Rightarrow> u8 list) \<Rightarrow> ('w \<Rightarrow> u8 list) \<Rightarrow> bool" where
  "stream_kernel K s rest sent \<longleftrightarrow>
     (\<forall>len w. 0 < len \<longrightarrow>
        (case k_recv K s len 0 w of
           (Inl e, w1) \<Rightarrow> e \<noteq> 0 \<and> rest w1 = rest w \<and> sent w1 = sent w
         | (Inr d, w1) \<Rightarrow> length d \<le> len \<and> rest w = d @ rest w1 \<and> (d = [] \<longrightarrow> rest w = []) \<and> sent w1 = sent w)) \<and>
     (\<forall>data w. data \<noteq> [] \<longrightarrow>
        (case k_send K s data MSG_NOSIGNAL w of
           (Inl e, w1) \<Rightarrow> e \<noteq> 0 \<and> rest w1 = rest w \<and> sent w1 = sent w
         | (Inr n, w1) \<Rightarrow> 0 < n \<and> n \<le> length data \<and> sent w1 = sent w @ take n data \<and> rest w1 = rest w))"

text \<open>Calls that would block or are interrupted come to an end: each lowers \<open>m\<close>.\<close>

definition patient :: "'w kernel \<Rightarrow> nat \<Rightarrow> ('w \<Rightarrow> nat) \<Rightarrow> bool" where
  "patient K s m \<longleftrightarrow>
     (\<forall>len w e w1. k_recv K s len 0 w = (Inl e, w1) \<and> (e = 4 \<or> e = 11) \<longrightarrow> m w1 < m w) \<and>
     (\<forall>data w e w1. k_send K s data MSG_NOSIGNAL w = (Inl e, w1) \<and> (e = 4 \<or> e = 11) \<longrightarrow> m w1 < m w)"

lemma stream_recv:
  assumes "stream_kernel K s rest sent" "0 < len" "ops_recv1 K s len 0 ec w = (r, ec1, w1)"
  shows "sent w1 = sent w" "r = None \<Longrightarrow> rest w1 = rest w \<and> ec_failed ec1 \<and> ec_category ec1 = system_category"
    "r = Some d \<Longrightarrow> length d \<le> len \<and> rest w = d @ rest w1 \<and> (d = [] \<longrightarrow> rest w = []) \<and> \<not> ec_failed ec1"
proof -
  have "case k_recv K s len 0 w of
      (Inl e, w1) \<Rightarrow> e \<noteq> 0 \<and> rest w1 = rest w \<and> sent w1 = sent w
    | (Inr d, w1) \<Rightarrow> length d \<le> len \<and> rest w = d @ rest w1 \<and> (d = [] \<longrightarrow> rest w = []) \<and> sent w1 = sent w"
    using assms(1,2) by (simp add: stream_kernel_def)
  then show "sent w1 = sent w" "r = None \<Longrightarrow> rest w1 = rest w \<and> ec_failed ec1 \<and> ec_category ec1 = system_category"
    "r = Some d \<Longrightarrow> length d \<le> len \<and> rest w = d @ rest w1 \<and> (d = [] \<longrightarrow> rest w = []) \<and> \<not> ec_failed ec1"
    using assms(3) by (auto simp: ops_recv1_def get_last_error_def ec_failed_def split: prod.splits sum.splits)
qed

lemma stream_send:
  assumes "stream_kernel K s rest sent" "data \<noteq> []" "ops_send1 K s data 0 ec w = (r, ec1, w1)"
  shows "rest w1 = rest w" "r = None \<Longrightarrow> sent w1 = sent w \<and> ec_failed ec1 \<and> ec_category ec1 = system_category"
    "r = Some n \<Longrightarrow> 0 < n \<and> n \<le> length data \<and> sent w1 = sent w @ take n data \<and> \<not> ec_failed ec1"
proof -
  have "case k_send K s data MSG_NOSIGNAL w of
      (Inl e, w1) \<Rightarrow> e \<noteq> 0 \<and> rest w1 = rest w \<and> sent w1 = sent w
    | (Inr n, w1) \<Rightarrow> 0 < n \<and> n \<le> length data \<and> sent w1 = sent w @ take n data \<and> rest w1 = rest w"
    using assms(1,2) by (simp add: stream_kernel_def)
  then show "rest w1 = rest w" "r = None \<Longrightarrow> sent w1 = sent w \<and> ec_failed ec1 \<and> ec_category ec1 = system_category"
    "r = Some n \<Longrightarrow> 0 < n \<and> n \<le> length data \<and> sent w1 = sent w @ take n data \<and> \<not> ec_failed ec1"
    using assms(3) by (auto simp: ops_send1_def get_last_error_def ec_failed_def split: prod.splits sum.splits)
qed

lemma ops_recv_sum: "ops_recv K s bufs flags = ops_recv1 K s (buffer_size bufs) flags"
  by (intro ext) (simp add: ops_recv_def ops_recv1_def)

lemma ops_send_concat: "ops_send K s bufs flags = ops_send1 K s (concat bufs) flags"
  by (intro ext) (simp add: ops_send_def ops_send1_def)

lemma error_kinds:
  "blocked ec \<longleftrightarrow> ec = \<lparr>ec_value = 11, ec_category = system_category\<rparr>"
  "ec_interrupted = \<lparr>ec_value = 4, ec_category = system_category\<rparr>"
  "ec_category ec_eof = misc_category" "ec_failed ec_eof"
  by (auto simp: blocked_def make_basic_error_def make_misc_error_def ec_failed_def)

lemma patient_calls:
  assumes "patient K s m"
  shows "ops_recv1 K s len 0 ec w = (None, ec1, w1) \<Longrightarrow> blocked ec1 \<or> ec1 = ec_interrupted \<Longrightarrow> m w1 < m w"
    and "ops_send1 K s data 0 ec w = (None, ec1, w1) \<Longrightarrow> blocked ec1 \<or> ec1 = ec_interrupted \<Longrightarrow> m w1 < m w"
proof -
  have r: "k_recv K s len 0 w = (Inl e, w1) \<Longrightarrow> e = 4 \<or> e = 11 \<Longrightarrow> m w1 < m w"
    and t: "k_send K s data MSG_NOSIGNAL w = (Inl e, w1) \<Longrightarrow> e = 4 \<or> e = 11 \<Longrightarrow> m w1 < m w" for e
    using assms unfolding patient_def by blast+
  show "ops_recv1 K s len 0 ec w = (None, ec1, w1) \<Longrightarrow> blocked ec1 \<or> ec1 = ec_interrupted \<Longrightarrow> m w1 < m w"
    unfolding error_kinds using r by (auto simp: ops_recv1_def get_last_error_def split: prod.splits sum.splits)
  show "ops_send1 K s data 0 ec w = (None, ec1, w1) \<Longrightarrow> blocked ec1 \<or> ec1 = ec_interrupted \<Longrightarrow> m w1 < m w"
    unfolding error_kinds using t by (auto simp: ops_send1_def get_last_error_def split: prod.splits sum.splits)
qed

text \<open>A receive on a stream: end of file, some bytes, an error, or nothing yet.\<close>

lemma recv_loop_stream:
  assumes "stream_kernel K s rest sent" "patient K s m" "0 < len"
  shows "\<exists>complete ec1 n1 d w1. recv_loop (ops_recv1 K s len 0) True ec n w = Some (complete, ec1, n1, d, w1) \<and>
    rest w = d @ rest w1 \<and> sent w1 = sent w \<and> length d \<le> len \<and>
    (if complete
     then ec1 = ec_eof \<and> n1 = n \<and> d = [] \<and> rest w = [] \<or> \<not> ec_failed ec1 \<and> d \<noteq> [] \<and> n1 = length d \<or>
       ec_failed ec1 \<and> ec_category ec1 = system_category \<and> d = [] \<and> n1 = 0
     else d = [] \<and> n1 = n \<and> m w1 < m w)"
proof (induction "m w" arbitrary: ec w rule: less_induct)
  case less
  obtain r ec1 w1 where c: "ops_recv1 K s len 0 ec w = (r, ec1, w1)" by (cases "ops_recv1 K s len 0 ec w")
  note st = stream_recv [OF assms(1,3) c]
  show ?case
  proof (cases r)
    case (Some d)
    then have "recv_loop (ops_recv1 K s len 0) True ec n w =
        Some (if d = [] then (True, ec_eof, n, [], w1) else (True, ec1, length d, d, w1))"
      using c by (subst recv_loop.simps) simp
    moreover have "d = [] \<Longrightarrow> rest w1 = []" using st(3) [OF Some] by (metis append_Nil)
    ultimately show ?thesis using st(1) st(3) [OF Some] by (cases "d = []") (simp_all add: ex_bool_eq)
  next
    case None
    note p = patient_calls(1) [OF assms(2) c [unfolded None]]
    show ?thesis
    proof (cases "ec1 = ec_interrupted")
      case True
      then have step: "recv_loop (ops_recv1 K s len 0) True ec n w = recv_loop (ops_recv1 K s len 0) True ec1 n w1"
        using c None by (subst recv_loop.simps) simp
      have "m w1 < m w" using p True by blast
      obtain complete ec2 n2 d w2 where "recv_loop (ops_recv1 K s len 0) True ec1 n w1 = Some (complete, ec2, n2, d, w2)"
        "rest w1 = d @ rest w2" "sent w2 = sent w1" "length d \<le> len"
        "if complete
         then ec2 = ec_eof \<and> n2 = n \<and> d = [] \<and> rest w1 = [] \<or> \<not> ec_failed ec2 \<and> d \<noteq> [] \<and> n2 = length d \<or>
           ec_failed ec2 \<and> ec_category ec2 = system_category \<and> d = [] \<and> n2 = 0
         else d = [] \<and> n2 = n \<and> m w2 < m w1"
        using less [OF \<open>m w1 < m w\<close>, of ec1] by blast
      then show ?thesis
        unfolding step using st(1) st(2) [OF None] \<open>m w1 < m w\<close> by (cases complete) auto
    next
      case False
      then have "recv_loop (ops_recv1 K s len 0) True ec n w =
          Some (if blocked ec1 then (False, ec1, n, [], w1) else (True, ec1, 0, [], w1))"
        using c None by (subst recv_loop.simps) simp
      then show ?thesis using st(1) st(2) [OF None] p by (cases "blocked ec1") (simp_all add: ex_bool_eq)
    qed
  qed
qed

lemma send_loop_stream:
  assumes "stream_kernel K s rest sent" "patient K s m" "data \<noteq> []"
  shows "\<exists>complete ec1 n1 w1. send_loop (ops_send1 K s data 0) ec n w = Some (complete, ec1, n1, w1) \<and> rest w1 = rest w \<and>
    (if complete
     then \<not> ec_failed ec1 \<and> 0 < n1 \<and> n1 \<le> length data \<and> sent w1 = sent w @ take n1 data \<or>
       ec_failed ec1 \<and> ec_category ec1 = system_category \<and> n1 = 0 \<and> sent w1 = sent w
     else n1 = n \<and> sent w1 = sent w \<and> m w1 < m w)"
proof (induction "m w" arbitrary: ec w rule: less_induct)
  case less
  obtain r ec1 w1 where c: "ops_send1 K s data 0 ec w = (r, ec1, w1)" by (cases "ops_send1 K s data 0 ec w")
  note st = stream_send [OF assms(1,3) c]
  show ?case
  proof (cases r)
    case (Some k)
    then have "send_loop (ops_send1 K s data 0) ec n w = Some (True, ec1, k, w1)"
      using c by (subst send_loop.simps) simp
    then show ?thesis using st(1) st(3) [OF Some] by auto
  next
    case None
    note p = patient_calls(2) [OF assms(2) c [unfolded None]]
    show ?thesis
    proof (cases "ec1 = ec_interrupted")
      case True
      then have step: "send_loop (ops_send1 K s data 0) ec n w = send_loop (ops_send1 K s data 0) ec1 n w1"
        using c None by (subst send_loop.simps) simp
      have "m w1 < m w" using p True by blast
      obtain complete ec2 n2 w2 where "send_loop (ops_send1 K s data 0) ec1 n w1 = Some (complete, ec2, n2, w2)"
        "rest w2 = rest w1"
        "if complete
         then \<not> ec_failed ec2 \<and> 0 < n2 \<and> n2 \<le> length data \<and> sent w2 = sent w1 @ take n2 data \<or>
           ec_failed ec2 \<and> ec_category ec2 = system_category \<and> n2 = 0 \<and> sent w2 = sent w1
         else n2 = n \<and> sent w2 = sent w1 \<and> m w2 < m w1"
        using less [OF \<open>m w1 < m w\<close>, of ec1] by blast
      then show ?thesis
        unfolding step using st(1) st(2) [OF None] \<open>m w1 < m w\<close> by (cases complete) auto
    next
      case False
      then have "send_loop (ops_send1 K s data 0) ec n w = Some (\<not> blocked ec1, ec1, if blocked ec1 then n else 0, w1)"
        using c None by (subst send_loop.simps) simp
      then show ?thesis using st(1) st(2) [OF None] p by (cases "blocked ec1") (simp_all add: ex_bool_eq)
    qed
  qed
qed

end
