(* ===== verification/Async_Transfer.thy ===== *)
theory Async_Transfer
  imports Buffers Error_Codes
begin

text \<open>
  The composed operations \<open>async_read\<close> and \<open>async_write\<close> that the server starts on its TLS streams:
  the completion conditions of \<open>src/ext/asio/asio/completion_condition.hpp\<close>, \<open>read_op\<close> of
  \<open>impl/read.hpp\<close> and \<open>write_op\<close> of \<open>impl/write.hpp\<close>, over any of the classes of
  \<open>detail/consuming_buffers.hpp\<close>. The stream is the environment: the list of the completions (an error
  code and a number of bytes) of its \<open>async_read_some\<close> or \<open>async_write_some\<close> calls.
\<close>

section \<open>Completion conditions\<close>

type_synonym completion_condition = "error_code \<Rightarrow> nat \<Rightarrow> nat"

definition default_max_transfer_size :: nat where
  "default_max_transfer_size = 65536"

definition transfer_all :: completion_condition where
  "transfer_all err bytes_transferred = (if ec_failed err then 0 else default_max_transfer_size)"

definition transfer_at_least :: "nat \<Rightarrow> completion_condition" where
  "transfer_at_least minimum err bytes_transferred =
     (if ec_failed err \<or> bytes_transferred \<ge> minimum then 0 else default_max_transfer_size)"

definition transfer_exactly :: "nat \<Rightarrow> completion_condition" where
  "transfer_exactly n err bytes_transferred =
     (if ec_failed err \<or> bytes_transferred \<ge> n then 0
      else if n - bytes_transferred < default_max_transfer_size then n - bytes_transferred
      else default_max_transfer_size)"

section \<open>The operations\<close>

text \<open>
  The class of the member \<open>buffers_\<close> is a template parameter: \<open>consuming_buffers\<close>, or one of its
  specialisations for a single buffer and for an array of two.
\<close>

record 'c consuming_class =
  c_empty :: "'c \<Rightarrow> bool"
  c_prepare :: "'c \<Rightarrow> nat \<Rightarrow> buffer list"
  c_consume :: "nat \<Rightarrow> 'c \<Rightarrow> 'c"
  c_total_consumed :: "'c \<Rightarrow> nat"

definition generic_class :: "nat \<Rightarrow> consuming_buffers consuming_class" where
  "generic_class max_buffers =
     \<lparr>c_empty = cb_empty, c_prepare = cb_prepare max_buffers, c_consume = cb_consume, c_total_consumed = cb_total_consumed\<rparr>"

definition single_class :: "consuming_single_buffer consuming_class" where
  "single_class =
     \<lparr>c_empty = cs_empty, c_prepare = (\<lambda>c m. [cs_prepare c m]), c_consume = cs_consume, c_total_consumed = cs_total_consumed\<rparr>"

definition array2_class :: "consuming_array2 consuming_class" where
  "array2_class =
     \<lparr>c_empty = ca_empty, c_prepare = ca_prepare, c_consume = ca_consume, c_total_consumed = ca_total_consumed\<rparr>"

text \<open>What a call of \<open>operator()\<close> does last: it starts a transfer with \<open>*this\<close> as its handler, or calls the handler.\<close>

datatype 'c outcome =
    Start_some "buffer list" 'c
  | Call_handler error_code nat

text \<open>
  \<open>operator()\<close> with \<open>start\<close> 1, from the function that starts the operation, and with \<open>start\<close> 0, as
  the handler of a transfer. The body of the \<open>do\<close> loop is run before its condition is tested.
\<close>

definition write_op ::
  "'c consuming_class \<Rightarrow> completion_condition \<Rightarrow> error_code \<Rightarrow> nat \<Rightarrow> int \<Rightarrow> 'c \<Rightarrow> 'c outcome" where
  "write_op C cond ec bytes_transferred start buffers =
     (if start = 1
      then (let max_size = cond ec (c_total_consumed C buffers) in Start_some (c_prepare C buffers max_size) buffers)
      else
        (let buffers1 = c_consume C bytes_transferred buffers
         in if (\<not> ec_failed ec \<and> bytes_transferred = 0) \<or> c_empty C buffers1
            then Call_handler ec (c_total_consumed C buffers1)
            else (let max_size = cond ec (c_total_consumed C buffers1)
                  in if max_size > 0 then Start_some (c_prepare C buffers1 max_size) buffers1
                     else Call_handler ec (c_total_consumed C buffers1))))"

definition read_op ::
  "'c consuming_class \<Rightarrow> completion_condition \<Rightarrow> error_code \<Rightarrow> nat \<Rightarrow> int \<Rightarrow> 'c \<Rightarrow> 'c outcome" where
  "read_op C cond ec bytes_transferred start buffers =
     (if start = 1
      then (let max_size = cond ec (c_total_consumed C buffers) in Start_some (c_prepare C buffers max_size) buffers)
      else
        (let buffers1 = c_consume C bytes_transferred buffers
         in if (\<not> ec_failed ec \<and> bytes_transferred = 0) \<or> c_empty C buffers1
            then Call_handler ec (c_total_consumed C buffers1)
            else (let max_size = cond ec (c_total_consumed C buffers1)
                  in if max_size > 0 then Start_some (c_prepare C buffers1 max_size) buffers1
                     else Call_handler ec (c_total_consumed C buffers1))))"

lemma read_op_eq: "read_op C = write_op C"
  by (intro ext) (simp add: read_op_def write_op_def)

text \<open>\<open>start_write_buffer_sequence_op\<close> and \<open>start_read_buffer_sequence_op\<close>.\<close>

definition async_write :: "'c consuming_class \<Rightarrow> completion_condition \<Rightarrow> 'c \<Rightarrow> 'c outcome" where
  "async_write C cond buffers = write_op C cond ec_success 0 1 buffers"

definition async_read :: "'c consuming_class \<Rightarrow> completion_condition \<Rightarrow> 'c \<Rightarrow> 'c outcome" where
  "async_read C cond buffers = read_op C cond ec_success 0 1 buffers"

text \<open>
  The operation with the stream: each completion resumes the operation. The result is the list of
  the transfers, each with its buffers and the number of bytes moved, and the last outcome.
\<close>

fun drive ::
  "(error_code \<Rightarrow> nat \<Rightarrow> int \<Rightarrow> 'c \<Rightarrow> 'c outcome) \<Rightarrow> (error_code \<times> nat) list \<Rightarrow> 'c outcome
     \<Rightarrow> (buffer list \<times> error_code \<times> nat) list \<times> 'c outcome" where
  "drive op [] out = ([], out)"
| "drive op (x # xs) (Call_handler ec n) = ([], Call_handler ec n)"
| "drive op ((ec, n) # xs) (Start_some bufs c) =
     (let r = drive op xs (op ec n 0 c) in ((bufs, ec, n) # fst r, snd r))"

text \<open>The addresses of the bytes moved, in order, and their number; no transfer moves more than its buffers hold.\<close>

type_synonym transfer_log = "(buffer list \<times> error_code \<times> nat) list"

definition moved :: "transfer_log \<Rightarrow> nat list" where
  "moved log = concat (map (\<lambda>(bufs, ec, n). take n (seq_addrs bufs)) log)"

definition bytes_moved :: "transfer_log \<Rightarrow> nat" where
  "bytes_moved log = sum_list (map (\<lambda>(bufs, ec, n). n) log)"

definition honest :: "transfer_log \<Rightarrow> bool" where
  "honest log \<longleftrightarrow> list_all (\<lambda>(bufs, ec, n). n \<le> buffer_size bufs) log"

text \<open>
  What an operation promises that had moved \<open>t0\<close> bytes, has the addresses \<open>avail\<close> before it and has
  been resumed \<open>k\<close> times.
\<close>

definition transferred :: "completion_condition \<Rightarrow> nat \<Rightarrow> nat list \<Rightarrow> nat \<Rightarrow> transfer_log \<times> 'c outcome \<Rightarrow> bool" where
  "transferred cond t0 avail k r \<longleftrightarrow>
     moved (fst r) = take (bytes_moved (fst r)) avail \<and>
     bytes_moved (fst r) \<le> length avail \<and>
     (case snd r of
        Call_handler ec t \<Rightarrow>
          fst r \<noteq> [] \<and> ec = fst (snd (last (fst r))) \<and> t = t0 + bytes_moved (fst r) \<and>
          (bytes_moved (fst r) < length avail \<longrightarrow> cond ec t = 0 \<or> (\<not> ec_failed ec \<and> snd (snd (last (fst r))) = 0))
      | Start_some bufs c \<Rightarrow> k = 0 \<or> k < length avail)"

lemma log_simps [simp]:
  "moved [] = []" "bytes_moved [] = 0" "honest []"
  "moved ((bufs, ec, n) # log) = take n (seq_addrs bufs) @ moved log"
  "bytes_moved ((bufs, ec, n) # log) = n + bytes_moved log"
  "honest ((bufs, ec, n) # log) \<longleftrightarrow> n \<le> buffer_size bufs \<and> honest log"
  by (simp_all add: moved_def bytes_moved_def honest_def)

section \<open>The contract of the consuming classes\<close>

locale consuming_sequence =
  fixes C :: "'c consuming_class" and wf :: "'c \<Rightarrow> bool" and left :: "'c \<Rightarrow> nat list"
  assumes consume: "wf c \<Longrightarrow> wf (c_consume C n c) \<and> left (c_consume C n c) = drop n (left c) \<and>
      c_total_consumed C (c_consume C n c) = c_total_consumed C c + n"
    and empty: "wf c \<Longrightarrow> c_empty C c \<longleftrightarrow> left c = []"
    and prepare: "wf c \<Longrightarrow> \<exists>k. seq_addrs (c_prepare C c m) = take k (left c) \<and> k \<le> m"
begin

lemma prepare_size:
  assumes "wf c" "n \<le> buffer_size (c_prepare C c m)"
  shows "n \<le> length (left c)" "n \<le> m" "take n (seq_addrs (c_prepare C c m)) = take n (left c)"
proof -
  obtain k where "seq_addrs (c_prepare C c m) = take k (left c)" "k \<le> m" using prepare [OF assms(1)] by blast
  then show "n \<le> length (left c)" "n \<le> m" "take n (seq_addrs (c_prepare C c m)) = take n (left c)"
    using assms(2) by (simp_all add: length_seq_addrs [symmetric] min_def split: if_splits)
qed

lemma resumed:
  assumes cond: "\<And>ec t. ec_failed ec \<Longrightarrow> cond ec t = 0"
  shows "wf c \<Longrightarrow> honest (fst (drive (write_op C cond) cs (Start_some (c_prepare C c m) c))) \<Longrightarrow>
    transferred cond (c_total_consumed C c) (left c) (length cs) (drive (write_op C cond) cs (Start_some (c_prepare C c m) c))"
proof (induction cs arbitrary: c m)
  case Nil
  then show ?case by (simp add: transferred_def)
next
  case (Cons x cs)
  obtain ec n where x: "x = (ec, n)" by (cases x)
  let ?c = "c_consume C n c" and ?bufs = "c_prepare C c m"
  let ?r = "drive (write_op C cond) cs (write_op C cond ec n 0 c)"
  have r: "drive (write_op C cond) (x # cs) (Start_some ?bufs c) = ((?bufs, ec, n) # fst ?r, snd ?r)"
    by (simp add: x Let_def)
  have n: "n \<le> buffer_size ?bufs" and h: "honest (fst ?r)" using Cons(3) unfolding r by simp_all
  note p = prepare_size [OF Cons(2) n]
  note c = consume [OF Cons(2), of n]
  show ?case
  proof (cases "write_op C cond ec n 0 c")
    case (Call_handler e t)
    then have "?r = ([], Call_handler e t)" by (cases cs) simp_all
    moreover have "e = ec" "t = c_total_consumed C ?c" "n < length (left c) \<longrightarrow> cond e t = 0 \<or> (\<not> ec_failed e \<and> n = 0)"
      using Call_handler empty [of ?c] c by (auto simp: write_op_def Let_def split: if_splits)
    ultimately show ?thesis using p c unfolding transferred_def r by simp
  next
    case (Start_some bufs' c')
    then have eq: "c' = ?c" "bufs' = c_prepare C ?c (cond ec (c_total_consumed C ?c))" and go: "n > 0" "left ?c \<noteq> []"
      using cond [of ec] empty [of ?c] c by (auto simp: write_op_def Let_def split: if_splits)
    have IH: "transferred cond (c_total_consumed C ?c) (left ?c) (length cs) ?r"
      using Cons(1) [of ?c] c h unfolding Start_some eq by blast
    let ?b = "bytes_moved (fst ?r)"
    have *: "moved (fst ?r) = take ?b (drop n (left c))" "n + ?b \<le> length (left c)" "n < length (left c)"
      using IH c go(2) p(1) by (auto simp: transferred_def)
    have "take n (left c) @ take ?b (drop n (left c)) = take (n + ?b) (left c)" by (simp add: take_add)
    then have 1: "moved ((?bufs, ec, n) # fst ?r) = take (bytes_moved ((?bufs, ec, n) # fst ?r)) (left c)"
      using * p(3) by simp
    have "snd ?r = Start_some bufs'' c'' \<Longrightarrow> length (x # cs) < length (left c)" for bufs'' c''
      using IH c go(1) *(3) by (auto simp: transferred_def)
    then show ?thesis using 1 * IH c unfolding transferred_def r
      by (cases "snd ?r") (auto simp: add.assoc)
  qed
qed

lemma started:
  assumes "\<And>ec t. ec_failed ec \<Longrightarrow> cond ec t = 0" "wf c" "c_total_consumed C c = 0"
    and "honest (fst (drive (write_op C cond) cs (async_write C cond c)))"
  shows "transferred cond 0 (left c) (length cs) (drive (write_op C cond) cs (async_write C cond c))"
  using resumed [of cond c cs "cond ec_success 0", OF assms(1,2)] assms(3,4) by (simp add: async_write_def write_op_def)

text \<open>A condition that never lets the count pass \<open>l\<close>.\<close>

lemma limited:
  assumes cond: "\<And>ec t. cond ec t \<le> l - t"
  shows "wf c \<Longrightarrow> m \<le> l - c_total_consumed C c \<Longrightarrow>
    honest (fst (drive (write_op C cond) cs (Start_some (c_prepare C c m) c))) \<Longrightarrow>
    c_total_consumed C c + bytes_moved (fst (drive (write_op C cond) cs (Start_some (c_prepare C c m) c)))
      \<le> max l (c_total_consumed C c)"
proof (induction cs arbitrary: c m)
  case Nil
  then show ?case by simp
next
  case (Cons x cs)
  obtain ec n where x: "x = (ec, n)" by (cases x)
  let ?r = "drive (write_op C cond) cs (write_op C cond ec n 0 c)"
  have r: "fst (drive (write_op C cond) (x # cs) (Start_some (c_prepare C c m) c)) = (c_prepare C c m, ec, n) # fst ?r"
    by (simp add: x Let_def)
  have n: "n \<le> m" and h: "honest (fst ?r)" using Cons(4) prepare_size(2) [OF Cons(2)] unfolding r by simp_all
  note c = consume [OF Cons(2), of n]
  show ?case
  proof (cases "write_op C cond ec n 0 c")
    case (Call_handler e t)
    then have "fst ?r = []" by (cases cs) simp_all
    then show ?thesis using n Cons(3) unfolding r by simp
  next
    case (Start_some bufs' c')
    then have "c' = c_consume C n c" "bufs' = c_prepare C c' (cond ec (c_total_consumed C c'))"
      by (auto simp: write_op_def Let_def split: if_splits)
    then show ?thesis using Cons(1) [of c'] cond [of ec] c h n Cons(3) Start_some unfolding r by force
  qed
qed

end

section \<open>The three classes keep the contract\<close>

interpretation generic: consuming_sequence "generic_class mx" cb_wf
  "\<lambda>c. drop (cb_total_consumed c) (seq_addrs (cb_buffers c))" for mx
proof (unfold_locales, goal_cases)
  case (1 c n)
  then show ?case by (simp add: generic_class_def cb_consume_wf add.commute)
next
  case (2 c)
  then show ?case by (simp add: generic_class_def cb_empty_def cb_wf_def length_seq_addrs)
next
  case (3 c m)
  then show ?case using cb_prepare_prefix [of c mx m] by (auto simp: generic_class_def)
qed

interpretation single: consuming_sequence single_class "\<lambda>c. True" "\<lambda>c. drop (cs_total_consumed c) (addrs (cs_buffer c))"
  by unfold_locales
    (auto simp: single_class_def cs_consume_def cs_empty_def cs_prepare_def add.commute)

interpretation array2: consuming_sequence array2_class "\<lambda>c. True"
  "\<lambda>c. drop (ca_total_consumed c) (addrs (ca_buffer0 c) @ addrs (ca_buffer1 c))"
proof (unfold_locales, goal_cases)
  case (1 c n)
  then show ?case by (simp add: array2_class_def ca_consume_def add.commute del: drop_append)
next
  case (2 c)
  then show ?case by (simp add: array2_class_def ca_empty_def del: drop_append)
next
  case (3 c m)
  then show ?case using ca_prepare_addrs [of c m] by (auto simp: array2_class_def simp del: drop_append)
qed

section \<open>The transfer of a whole buffer\<close>

definition standard_condition :: "nat \<Rightarrow> completion_condition \<Rightarrow> bool" where
  "standard_condition l cond \<longleftrightarrow> cond = transfer_all \<or> cond = transfer_at_least l \<or> cond = transfer_exactly l"

lemmas condition_defs = transfer_all_def transfer_at_least_def transfer_exactly_def

lemma standard_condition_failed: "standard_condition l cond \<Longrightarrow> ec_failed ec \<Longrightarrow> cond ec t = 0"
  by (auto simp: standard_condition_def condition_defs)

lemma exactly_limit: "transfer_exactly l ec t \<le> l - t"
  by (simp add: transfer_exactly_def default_max_transfer_size_def)

lemma new_facts [simp]:
  "cs_total_consumed (cs_new b) = 0" "cs_buffer (cs_new b) = b" "cb_total_consumed (cb_new bs) = 0" "cb_buffers (cb_new bs) = bs"
  by (simp_all add: cs_new_def cb_new_def)

lemma async_read_eq: "async_read C = async_write C"
  by (intro ext) (simp add: async_read_def async_write_def read_op_eq)

lemma single_started:
  assumes "standard_condition l cond" "honest (fst (drive (write_op single_class cond) cs (async_write single_class cond (cs_new b))))"
  shows "transferred cond 0 (addrs b) (length cs) (drive (write_op single_class cond) cs (async_write single_class cond (cs_new b)))"
  using single.started [of cond "cs_new b" cs, OF standard_condition_failed [OF assms(1)]] assms(2)
  by (simp add: single_class_def)

lemma generic_started:
  assumes "standard_condition l cond"
    "honest (fst (drive (write_op (generic_class mx) cond) cs (async_write (generic_class mx) cond (cb_new bs))))"
  shows "transferred cond 0 (seq_addrs bs) (length cs)
    (drive (write_op (generic_class mx) cond) cs (async_write (generic_class mx) cond (cb_new bs)))"
  using generic.started [of cond "cb_new bs" mx cs, OF standard_condition_failed [OF assms(1)]] assms(2) cb_new_wf
  by (simp add: generic_class_def)

lemma exactly_started:
  assumes "honest (fst (drive (write_op single_class (transfer_exactly l)) cs (async_write single_class (transfer_exactly l) (cs_new b))))"
  shows "bytes_moved (fst (drive (write_op single_class (transfer_exactly l)) cs (async_write single_class (transfer_exactly l) (cs_new b)))) \<le> l"
  using single.limited [where cond = "transfer_exactly l" and l = l and c = "cs_new b"
      and m = "transfer_exactly l ec_success 0" and cs = cs, OF exactly_limit]
    assms exactly_limit [of l ec_success 0]
  by (simp add: async_write_def write_op_def) (simp add: single_class_def)

text \<open>
  C23: \<open>async_read\<close> and \<open>async_write\<close> with the condition \<open>transfer_all\<close>, \<open>transfer_at_least\<close> or
  \<open>transfer_exactly\<close>, on a stream that never reports more bytes than it was given: the transfers move
  the bytes of the buffer, or of the buffer sequence, in order and without a gap; the handler is
  called with the code of the last transfer and the number of bytes moved, and it is called early
  only when the condition is met, which for \<open>transfer_all\<close> means an error, or when a transfer moved
  nothing without an error; it has been called after as many transfers as the buffers have bytes,
  at least one; and \<open>transfer_exactly (l)\<close> never moves more than \<open>l\<close> bytes.
\<close>

theorem async_transfer_complete:
  assumes "standard_condition l cond"
  shows "(honest (fst (drive (write_op single_class cond) cs (async_write single_class cond (cs_new b)))) \<longrightarrow>
      transferred cond 0 (addrs b) (length cs) (drive (write_op single_class cond) cs (async_write single_class cond (cs_new b)))) \<and>
    (honest (fst (drive (read_op single_class cond) cs (async_read single_class cond (cs_new b)))) \<longrightarrow>
      transferred cond 0 (addrs b) (length cs) (drive (read_op single_class cond) cs (async_read single_class cond (cs_new b)))) \<and>
    (honest (fst (drive (write_op (generic_class mx) cond) cs (async_write (generic_class mx) cond (cb_new bs)))) \<longrightarrow>
      transferred cond 0 (seq_addrs bs) (length cs)
        (drive (write_op (generic_class mx) cond) cs (async_write (generic_class mx) cond (cb_new bs)))) \<and>
    (honest (fst (drive (write_op single_class (transfer_exactly l)) cs (async_write single_class (transfer_exactly l) (cs_new b)))) \<longrightarrow>
      bytes_moved (fst (drive (write_op single_class (transfer_exactly l)) cs
        (async_write single_class (transfer_exactly l) (cs_new b)))) \<le> l)"
  unfolding read_op_eq async_read_eq
  using single_started [OF assms] generic_started [OF assms] exactly_started by blast

theorem async_transfer_complete_witness:
  "transferred transfer_all 0 [10, 11, 12] 2
     ([([\<lparr>buf_data = 10, buf_size = 3\<rparr>], ec_success, 2), ([\<lparr>buf_data = 12, buf_size = 1\<rparr>], ec_success, 1)],
      Call_handler ec_success 3 :: consuming_single_buffer outcome)"
proof -
  let ?b = "\<lparr>buf_data = 10, buf_size = 3\<rparr>" and ?cs = "[(ec_success, 2), (ec_success, 1)]"
  have r: "drive (write_op single_class transfer_all) ?cs (async_write single_class transfer_all (cs_new ?b))
      = ([([\<lparr>buf_data = 10, buf_size = 3\<rparr>], ec_success, 2), ([\<lparr>buf_data = 12, buf_size = 1\<rparr>], ec_success, 1)], Call_handler ec_success 3)"
    by (simp add: async_write_def write_op_def single_class_def cs_new_def cs_prepare_def cs_consume_def cs_empty_def
        transfer_all_def default_max_transfer_size_def ec_success_def ec_failed_def buffer_trim_def buffer_advance_def Let_def)
  have "standard_condition 0 transfer_all" by (simp add: standard_condition_def)
  from async_transfer_complete [OF this, of ?cs ?b] show ?thesis unfolding r
    by (simp add: addrs_def eval_nat_numeral)
qed

end
