(* ===== verification/Socket_Transfer.thy ===== *)
theory Socket_Transfer
  imports Socket_Io Async_Transfer
begin

text \<open>
  The composed operations on a stream socket: each transfer that \<open>async_read\<close> or \<open>async_write\<close> starts
  is a receive or a send operation of the reactor, which is tried at every readiness event until it
  is complete (\<open>do_perform\<close> of \<open>src/ext/asio/asio/detail/reactive_socket_recv_op.hpp\<close> and
  \<open>reactive_socket_send_op.hpp\<close>), and whose completion resumes the composed operation.
\<close>

unbundle bit_operations_syntax

section \<open>The operations of the reactor\<close>

text \<open>A buffer sequence is a single buffer or a sequence of buffers, which selects the adapter.\<close>

datatype buffer_sequence = One_buffer buffer | Many_buffers "buffer list"

fun sequence_all_empty :: "buffer_sequence \<Rightarrow> bool" where
  "sequence_all_empty (One_buffer b) \<longleftrightarrow> buf_size b = 0"
| "sequence_all_empty (Many_buffers bs) \<longleftrightarrow> adapter_all_empty bs"

datatype perform_status = Not_done | Done | Done_and_exhausted

definition recv_do_perform ::
  "'w kernel \<Rightarrow> nat \<Rightarrow> u8 \<Rightarrow> buffer_sequence \<Rightarrow> u32 \<Rightarrow> error_code \<Rightarrow> nat \<Rightarrow> 'w
     \<Rightarrow> (perform_status \<times> error_code \<times> nat \<times> u8 list \<times> 'w) option" where
  "recv_do_perform K s state bufs flags ec n w =
     (let is_stream = (state AND stream_oriented \<noteq> 0)
      in map_option
           (\<lambda>(complete, ec1, n1, d, w1).
              (if \<not> complete then Not_done else if is_stream \<and> n1 = 0 then Done_and_exhausted else Done, ec1, n1, d, w1))
           (case bufs of
              One_buffer b \<Rightarrow> non_blocking_recv1 K s (buf_size b) flags is_stream ec n w
            | Many_buffers bs \<Rightarrow> non_blocking_recv K s (fst (adapter_init bs)) flags is_stream ec n w))"

text \<open>The bytes a buffer holds.\<close>

definition buffer_bytes :: "memory \<Rightarrow> buffer \<Rightarrow> u8 list" where
  "buffer_bytes mem b = map mem (addrs b)"

definition send_do_perform ::
  "'w kernel \<Rightarrow> nat \<Rightarrow> u8 \<Rightarrow> buffer_sequence \<Rightarrow> memory \<Rightarrow> u32 \<Rightarrow> error_code \<Rightarrow> nat \<Rightarrow> 'w
     \<Rightarrow> (perform_status \<times> error_code \<times> nat \<times> 'w) option" where
  "send_do_perform K s state bufs mem flags ec n w =
     (let is_stream = (state AND stream_oriented \<noteq> 0)
      in case bufs of
           One_buffer b \<Rightarrow>
             map_option
               (\<lambda>(complete, ec1, n1, w1).
                  (if \<not> complete then Not_done else if is_stream \<and> n1 < buf_size b then Done_and_exhausted else Done,
                   ec1, n1, w1))
               (non_blocking_send1 K s (buffer_bytes mem b) flags ec n w)
         | Many_buffers bs \<Rightarrow>
             map_option
               (\<lambda>(complete, ec1, n1, w1).
                  (if \<not> complete then Not_done
                   else if is_stream \<and> n1 < snd (adapter_init bs) then Done_and_exhausted else Done, ec1, n1, w1))
               (non_blocking_send K s (map (buffer_bytes mem) (fst (adapter_init bs))) flags ec n w))"

text \<open>The other operations: an accept, a connect, and a wait, which is done when the descriptor is ready.\<close>

definition accept_do_perform ::
  "nat \<Rightarrow> u8 \<Rightarrow> (int + nat) list \<Rightarrow> error_code \<Rightarrow> (perform_status \<times> error_code \<times> nat option) option" where
  "accept_do_perform s state results ec =
     map_option (\<lambda>(complete, ec1, new_s). (if complete then Done else Not_done, ec1, new_s))
       (non_blocking_accept (Some s) state results ec)"

definition connect_do_perform :: "'w kernel \<Rightarrow> nat \<Rightarrow> error_code \<Rightarrow> 'w \<Rightarrow> perform_status \<times> error_code \<times> 'w" where
  "connect_do_perform K s ec w =
     (let (complete, ec1, w1) = non_blocking_connect K s ec w in (if complete then Done else Not_done, ec1, w1))"

definition wait_do_perform :: perform_status where
  "wait_do_perform = Done"

section \<open>A whole operation\<close>

text \<open>
  \<open>async_receive\<close> and \<open>async_send\<close> without flags on a stream socket: with nothing to transfer the
  operation completes at once; otherwise it is performed until it is done.
\<close>

partial_function (option) recv_until_done ::
  "'w kernel \<Rightarrow> nat \<Rightarrow> buffer_sequence \<Rightarrow> error_code \<Rightarrow> nat \<Rightarrow> 'w \<Rightarrow> (error_code \<times> nat \<times> u8 list \<times> 'w) option" where
  "recv_until_done K s bufs ec n w =
     Option.bind (recv_do_perform K s stream_oriented bufs 0 ec n w)
       (\<lambda>r. case r of (st, ec1, n1, d, w1) \<Rightarrow>
          if st = Not_done then recv_until_done K s bufs ec1 n1 w1 else Some (ec1, n1, d, w1))"

partial_function (option) send_until_done ::
  "'w kernel \<Rightarrow> nat \<Rightarrow> buffer_sequence \<Rightarrow> memory \<Rightarrow> error_code \<Rightarrow> nat \<Rightarrow> 'w \<Rightarrow> (error_code \<times> nat \<times> 'w) option" where
  "send_until_done K s bufs mem ec n w =
     Option.bind (send_do_perform K s stream_oriented bufs mem 0 ec n w)
       (\<lambda>r. case r of (st, ec1, n1, w1) \<Rightarrow>
          if st = Not_done then send_until_done K s bufs mem ec1 n1 w1 else Some (ec1, n1, w1))"

definition stream_receive ::
  "'w kernel \<Rightarrow> nat \<Rightarrow> buffer_sequence \<Rightarrow> 'w \<Rightarrow> (error_code \<times> nat \<times> u8 list \<times> 'w) option" where
  "stream_receive K s bufs w =
     (if sequence_all_empty bufs then Some (ec_success, 0, [], w) else recv_until_done K s bufs ec_success 0 w)"

definition stream_send ::
  "'w kernel \<Rightarrow> nat \<Rightarrow> buffer_sequence \<Rightarrow> memory \<Rightarrow> 'w \<Rightarrow> (error_code \<times> nat \<times> 'w) option" where
  "stream_send K s bufs mem w =
     (if sequence_all_empty bufs then Some (ec_success, 0, w) else send_until_done K s bufs mem ec_success 0 w)"

text \<open>
  The composed operation with the socket: the handler's code and number of bytes, the bytes received
  and the state of the system. \<open>mk\<close> is the type of the buffer sequence that \<open>prepare\<close> gives.
\<close>

partial_function (option) read_on_socket ::
  "'w kernel \<Rightarrow> nat \<Rightarrow> 'c consuming_class \<Rightarrow> (buffer list \<Rightarrow> buffer_sequence) \<Rightarrow> completion_condition \<Rightarrow> 'c outcome \<Rightarrow> 'w
     \<Rightarrow> (error_code \<times> nat \<times> u8 list \<times> 'w) option" where
  "read_on_socket K s C mk cond out w =
     (case out of
        Call_handler ec n \<Rightarrow> Some (ec, n, [], w)
      | Start_some bufs c \<Rightarrow>
          Option.bind (stream_receive K s (mk bufs) w)
            (\<lambda>r. case r of (ec, n, d, w1) \<Rightarrow>
               Option.bind (read_on_socket K s C mk cond (Async_Transfer.read_op C cond ec n 0 c) w1)
                 (\<lambda>r2. case r2 of (ec2, n2, d2, w2) \<Rightarrow> Some (ec2, n2, d @ d2, w2))))"

partial_function (option) write_on_socket ::
  "'w kernel \<Rightarrow> nat \<Rightarrow> 'c consuming_class \<Rightarrow> (buffer list \<Rightarrow> buffer_sequence) \<Rightarrow> memory \<Rightarrow> completion_condition
     \<Rightarrow> 'c outcome \<Rightarrow> 'w \<Rightarrow> (error_code \<times> nat \<times> 'w) option" where
  "write_on_socket K s C mk mem cond out w =
     (case out of
        Call_handler ec n \<Rightarrow> Some (ec, n, w)
      | Start_some bufs c \<Rightarrow>
          Option.bind (stream_send K s (mk bufs) mem w)
            (\<lambda>r. case r of (ec, n, w1) \<Rightarrow>
               write_on_socket K s C mk mem cond (Async_Transfer.write_op C cond ec n 0 c) w1))"

section \<open>One transfer\<close>

text \<open>The addresses a transfer reads or writes.\<close>

fun transfer_addrs :: "buffer_sequence \<Rightarrow> nat list" where
  "transfer_addrs (One_buffer b) = addrs b"
| "transfer_addrs (Many_buffers bs) = seq_addrs (take adapter_max_buffers bs)"

lemma all_empty_iff: "sequence_all_empty bufs \<longleftrightarrow> transfer_addrs bufs = []"
proof (cases bufs)
  case (Many_buffers bs)
  have "list_all (\<lambda>b. \<not> 0 < buf_size b) cs \<longleftrightarrow> seq_addrs cs = []" for cs by (induction cs) auto
  then show ?thesis unfolding Many_buffers by (simp add: adapter_all_empty_def)
qed simp

lemma recv_do_perform_eq:
  "recv_do_perform K s stream_oriented bufs 0 ec n w =
     map_option
       (\<lambda>(complete, ec1, n1, d, w1).
          (if \<not> complete then Not_done else if n1 = 0 then Done_and_exhausted else Done, ec1, n1, d, w1))
       (recv_loop (ops_recv1 K s (length (transfer_addrs bufs)) 0) True ec n w)"
  by (cases bufs) (simp_all add: recv_do_perform_def non_blocking_recv1_def non_blocking_recv_def ops_recv_sum
      adapter_init_def length_seq_addrs cong: if_cong)

lemma concat_buffer_bytes: "concat (map (\<lambda>b. map mem (addrs b)) bs) = map mem (seq_addrs bs)"
  by (induction bs) simp_all

lemma send_do_perform_eq:
  "send_do_perform K s stream_oriented bufs mem 0 ec n w =
     map_option
       (\<lambda>(complete, ec1, n1, w1).
          (if \<not> complete then Not_done else if n1 < length (transfer_addrs bufs) then Done_and_exhausted else Done, ec1, n1, w1))
       (send_loop (ops_send1 K s (map mem (transfer_addrs bufs)) 0) ec n w)"
  by (cases bufs) (simp_all add: send_do_perform_def non_blocking_send1_def non_blocking_send_def ops_send_concat
      adapter_init_def length_seq_addrs concat_buffer_bytes buffer_bytes_def [abs_def] cong: if_cong)

lemma recv_until_done_stream:
  assumes "stream_kernel K s rest sent" "patient K s m" "transfer_addrs bufs \<noteq> []"
  shows "\<exists>ec1 d w1. recv_until_done K s bufs ec 0 w = Some (ec1, length d, d, w1) \<and> rest w = d @ rest w1 \<and>
    sent w1 = sent w \<and> length d \<le> length (transfer_addrs bufs) \<and>
    (if d = [] then ec1 = ec_eof \<and> rest w = [] \<or> ec_failed ec1 \<and> ec_category ec1 = system_category
     else \<not> ec_failed ec1)"
proof (induction "m w" arbitrary: ec w rule: less_induct)
  case less
  have len: "0 < length (transfer_addrs bufs)" using assms(3) by simp
  obtain complete ec1 n1 d w1 where l: "recv_loop (ops_recv1 K s (length (transfer_addrs bufs)) 0) True ec 0 w
      = Some (complete, ec1, n1, d, w1)"
    and r: "rest w = d @ rest w1" "sent w1 = sent w" "length d \<le> length (transfer_addrs bufs)"
      "if complete
       then ec1 = ec_eof \<and> n1 = 0 \<and> d = [] \<and> rest w = [] \<or> \<not> ec_failed ec1 \<and> d \<noteq> [] \<and> n1 = length d \<or>
         ec_failed ec1 \<and> ec_category ec1 = system_category \<and> d = [] \<and> n1 = 0
       else d = [] \<and> n1 = 0 \<and> m w1 < m w"
    using recv_loop_stream [OF assms(1,2) len, of ec 0 w] by blast
  show ?case
  proof (cases complete)
    case True
    then have "recv_until_done K s bufs ec 0 w = Some (ec1, n1, d, w1)"
      by (subst recv_until_done.simps) (simp add: recv_do_perform_eq l)
    moreover have "n1 = length d" using r(4) True by auto
    ultimately show ?thesis using r True by (intro exI [of _ ec1] exI [of _ d] exI [of _ w1]) auto
  next
    case False
    then have step: "recv_until_done K s bufs ec 0 w = recv_until_done K s bufs ec1 0 w1"
      using r(4) by (subst recv_until_done.simps) (simp add: recv_do_perform_eq l)
    have d: "m w1 < m w" "d = []" using r(4) False by simp_all
    then have "rest w = rest w1" using r(1) by simp
    obtain ec2 d2 w2 where "recv_until_done K s bufs ec1 0 w1 = Some (ec2, length d2, d2, w2)" "rest w1 = d2 @ rest w2"
      "sent w2 = sent w1" "length d2 \<le> length (transfer_addrs bufs)"
      "if d2 = [] then ec2 = ec_eof \<and> rest w1 = [] \<or> ec_failed ec2 \<and> ec_category ec2 = system_category
       else \<not> ec_failed ec2"
      using less [OF d(1), of ec1] by blast
    then show ?thesis using r(2) \<open>rest w = rest w1\<close> unfolding step
      by (intro exI [of _ ec2] exI [of _ d2] exI [of _ w2]) (cases "d2 = []"; simp)
  qed
qed

lemma send_until_done_stream:
  assumes "stream_kernel K s rest sent" "patient K s m" "transfer_addrs bufs \<noteq> []"
  shows "\<exists>ec1 n1 w1. send_until_done K s bufs mem ec 0 w = Some (ec1, n1, w1) \<and> rest w1 = rest w \<and>
    n1 \<le> length (transfer_addrs bufs) \<and> sent w1 = sent w @ map mem (take n1 (transfer_addrs bufs)) \<and>
    (if n1 = 0 then ec_failed ec1 \<and> ec_category ec1 = system_category else \<not> ec_failed ec1)"
proof (induction "m w" arbitrary: ec w rule: less_induct)
  case less
  have data: "map mem (transfer_addrs bufs) \<noteq> []" using assms(3) by simp
  obtain complete ec1 n1 w1 where l: "send_loop (ops_send1 K s (map mem (transfer_addrs bufs)) 0) ec 0 w
      = Some (complete, ec1, n1, w1)"
    and r: "rest w1 = rest w"
      "if complete
       then \<not> ec_failed ec1 \<and> 0 < n1 \<and> n1 \<le> length (map mem (transfer_addrs bufs)) \<and>
           sent w1 = sent w @ take n1 (map mem (transfer_addrs bufs)) \<or>
         ec_failed ec1 \<and> ec_category ec1 = system_category \<and> n1 = 0 \<and> sent w1 = sent w
       else n1 = 0 \<and> sent w1 = sent w \<and> m w1 < m w"
    using send_loop_stream [OF assms(1,2) data, of ec 0 w] by blast
  show ?case
  proof (cases complete)
    case True
    then have "send_until_done K s bufs mem ec 0 w = Some (ec1, n1, w1)"
      by (subst send_until_done.simps) (simp add: send_do_perform_eq l)
    then show ?thesis using r True by (intro exI [of _ ec1] exI [of _ n1] exI [of _ w1]) (auto simp: take_map)
  next
    case False
    then have step: "send_until_done K s bufs mem ec 0 w = send_until_done K s bufs mem ec1 0 w1"
      using r(2) by (subst send_until_done.simps) (simp add: send_do_perform_eq l)
    have "m w1 < m w" using r(2) False by simp
    then show ?thesis using less [of w1 ec1] r False unfolding step by simp
  qed
qed

lemma stream_receive_result:
  assumes "stream_kernel K s rest sent" "patient K s m"
  shows "\<exists>ec1 d w1. stream_receive K s bufs w = Some (ec1, length d, d, w1) \<and> rest w = d @ rest w1 \<and>
    sent w1 = sent w \<and> length d \<le> length (transfer_addrs bufs) \<and>
    (if d = [] then ec1 = ec_eof \<and> rest w = [] \<or> ec_failed ec1 \<and> ec_category ec1 = system_category \<or>
       transfer_addrs bufs = [] \<and> ec1 = ec_success
     else \<not> ec_failed ec1)"
proof (cases "transfer_addrs bufs = []")
  case True
  then show ?thesis by (simp add: stream_receive_def all_empty_iff)
next
  case False
  obtain ec1 d w1 where "recv_until_done K s bufs ec_success 0 w = Some (ec1, length d, d, w1)" "rest w = d @ rest w1"
    "sent w1 = sent w" "length d \<le> length (transfer_addrs bufs)"
    "if d = [] then ec1 = ec_eof \<and> rest w = [] \<or> ec_failed ec1 \<and> ec_category ec1 = system_category else \<not> ec_failed ec1"
    using recv_until_done_stream [OF assms False, of ec_success w] by blast
  then show ?thesis using False unfolding stream_receive_def all_empty_iff
    by (intro exI [of _ ec1] exI [of _ d] exI [of _ w1]) (simp split: if_splits)
qed

lemma stream_send_result:
  assumes "stream_kernel K s rest sent" "patient K s m"
  shows "\<exists>ec1 n1 w1. stream_send K s bufs mem w = Some (ec1, n1, w1) \<and> rest w1 = rest w \<and>
    n1 \<le> length (transfer_addrs bufs) \<and> sent w1 = sent w @ map mem (take n1 (transfer_addrs bufs)) \<and>
    (if n1 = 0 then ec_failed ec1 \<and> ec_category ec1 = system_category \<or> transfer_addrs bufs = [] \<and> ec1 = ec_success
     else \<not> ec_failed ec1)"
proof (cases "transfer_addrs bufs = []")
  case True
  then show ?thesis by (simp add: stream_send_def all_empty_iff)
next
  case False
  obtain ec1 n1 w1 where "send_until_done K s bufs mem ec_success 0 w = Some (ec1, n1, w1)" "rest w1 = rest w"
    "n1 \<le> length (transfer_addrs bufs)" "sent w1 = sent w @ map mem (take n1 (transfer_addrs bufs))"
    "if n1 = 0 then ec_failed ec1 \<and> ec_category ec1 = system_category else \<not> ec_failed ec1"
    using send_until_done_stream [OF assms False, of mem ec_success w] by blast
  then show ?thesis using False unfolding stream_send_def all_empty_iff
    by (intro exI [of _ ec1] exI [of _ n1] exI [of _ w1]) (simp split: if_splits)
qed

section \<open>The composed operations on a stream socket\<close>

text \<open>
  The contract of \<open>consuming_sequence\<close> with what the socket needs of it: the buffers handed to a
  transfer fit into the adapter, and are not all empty while something is left and may be moved.
\<close>

locale transferable = consuming_sequence +
  fixes mk :: "buffer list \<Rightarrow> buffer_sequence"
  assumes native: "transfer_addrs (mk (c_prepare C c m)) = seq_addrs (c_prepare C c m)"
    and progress: "wf c \<Longrightarrow> left c \<noteq> [] \<Longrightarrow> 0 < m \<Longrightarrow> seq_addrs (c_prepare C c m) \<noteq> []"
begin

lemma next_transfer:
  assumes "wf c"
  obtains k where "transfer_addrs (mk (c_prepare C c m)) = take k (left c)"
    "k = 0 \<Longrightarrow> left c = [] \<or> m = 0" "k \<le> length (left c)"
proof -
  obtain k where k: "seq_addrs (c_prepare C c m) = take k (left c)" using prepare [OF assms] by blast
  show thesis
    by (rule that [of "min k (length (left c))"]) (use k progress [OF assms, of m] in \<open>auto simp: native min_def split: if_splits\<close>)
qed

text \<open>
  A condition that says stop after an error, and otherwise only looks at the number of bytes: the
  operation ends, with the bytes moved in order, and either met the condition or moved everything.
\<close>

lemma read_on_stream:
  assumes K: "stream_kernel K s rest sent" "patient K s pt"
    and cond: "\<And>ec t. ec_failed ec \<Longrightarrow> cond ec t = 0" "\<And>ec t. \<not> ec_failed ec \<Longrightarrow> cond ec t = cond ec_success t"
  shows "wf c \<Longrightarrow> m = cond ec_success (c_total_consumed C c) \<Longrightarrow>
    \<exists>ec d w1. read_on_socket K s C mk cond (Start_some (c_prepare C c m) c) w = Some (ec, c_total_consumed C c + length d, d, w1) \<and>
      rest w = d @ rest w1 \<and> sent w1 = sent w \<and> length d \<le> length (left c) \<and>
      (if ec_failed ec then ec = ec_eof \<and> rest w1 = [] \<or> ec_category ec = system_category
       else length d = length (left c) \<or> cond ec_success (c_total_consumed C c + length d) = 0)"
proof (induction "length (left c)" arbitrary: c m w rule: less_induct)
  case less
  note wf = less(2)
  obtain k where k: "transfer_addrs (mk (c_prepare C c m)) = take k (left c)"
    "k = 0 \<Longrightarrow> left c = [] \<or> m = 0" "k \<le> length (left c)"
    using next_transfer [OF wf] by blast
  obtain ec1 d w1 where rc: "stream_receive K s (mk (c_prepare C c m)) w = Some (ec1, length d, d, w1)"
    and r: "rest w = d @ rest w1" "sent w1 = sent w" "length d \<le> length (transfer_addrs (mk (c_prepare C c m)))"
    and ec1: "if d = [] then ec1 = ec_eof \<and> rest w = [] \<or> ec_failed ec1 \<and> ec_category ec1 = system_category \<or>
        transfer_addrs (mk (c_prepare C c m)) = [] \<and> ec1 = ec_success
      else \<not> ec_failed ec1"
    using stream_receive_result [OF K, of "mk (c_prepare C c m)" w] by blast
  have dk: "length d \<le> length (left c)" using r(3) k by simp
  let ?c = "c_consume C (length d) c"
  note cc = consume [OF wf, of "length d"]
  have step: "read_on_socket K s C mk cond (Start_some (c_prepare C c m) c) w =
      Option.bind (read_on_socket K s C mk cond (Async_Transfer.read_op C cond ec1 (length d) 0 c) w1)
        (\<lambda>r. case r of (ec2, n2, d2, w2) \<Rightarrow> Some (ec2, n2, d @ d2, w2))"
    by (subst read_on_socket.simps) (simp add: rc)
  show ?case
  proof (cases "Async_Transfer.read_op C cond ec1 (length d) 0 c")
    case (Call_handler ec t)
    then have e: "ec = ec1" "t = c_total_consumed C c + length d"
      and stop: "\<not> ec_failed ec1 \<Longrightarrow> d = [] \<or> left ?c = [] \<or> cond ec1 (c_total_consumed C c + length d) = 0"
      using cc empty [of ?c] by (auto simp: Async_Transfer.read_op_def Let_def split: if_splits)
    have "read_on_socket K s C mk cond (Start_some (c_prepare C c m) c) w = Some (ec1, c_total_consumed C c + length d, d, w1)"
      unfolding step Call_handler e by (subst read_on_socket.simps) simp
    moreover have "if ec_failed ec1 then ec1 = ec_eof \<and> rest w1 = [] \<or> ec_category ec1 = system_category
       else length d = length (left c) \<or> cond ec_success (c_total_consumed C c + length d) = 0"
    proof (cases "d = []")
      case True
      then have "ec_failed ec1 \<longrightarrow> ec1 = ec_eof \<and> rest w1 = [] \<or> ec_category ec1 = system_category"
        "\<not> ec_failed ec1 \<longrightarrow> transfer_addrs (mk (c_prepare C c m)) = []"
        using ec1 r(1) error_kinds(4) by auto
      then show ?thesis using True k less(3) by auto
    next
      case False
      then show ?thesis using ec1 stop cond(2) [of ec1] cc dk by auto
    qed
    ultimately show ?thesis using r(1,2) dk by (intro exI [of _ ec1] exI [of _ d] exI [of _ w1]) simp
  next
    case (Start_some bufs c')
    then have e: "c' = ?c" "bufs = c_prepare C ?c (cond ec1 (c_total_consumed C ?c))"
      and go: "d \<noteq> [] \<or> ec_failed ec1" "left ?c \<noteq> []" "0 < cond ec1 (c_total_consumed C ?c)"
      using cc empty [of ?c] by (auto simp: Async_Transfer.read_op_def Let_def split: if_splits)
    have ok: "\<not> ec_failed ec1" using go(3) cond(1) [of ec1] by fastforce
    then have d: "d \<noteq> []" using go(1) by blast
    have lt: "length (left ?c) < length (left c)" using d cc go(2) by (cases d) auto
    have m': "cond ec1 (c_total_consumed C ?c) = cond ec_success (c_total_consumed C ?c)" using cond(2) [OF ok] .
    obtain ec2 d2 w2 where "read_on_socket K s C mk cond (Start_some bufs c') w1
        = Some (ec2, c_total_consumed C ?c + length d2, d2, w2)"
      and r2: "rest w1 = d2 @ rest w2" "sent w2 = sent w1" "length d2 \<le> length (left ?c)"
      "if ec_failed ec2 then ec2 = ec_eof \<and> rest w2 = [] \<or> ec_category ec2 = system_category
       else length d2 = length (left ?c) \<or> cond ec_success (c_total_consumed C ?c + length d2) = 0"
      using less(1) [OF lt, of "cond ec1 (c_total_consumed C ?c)" w1] cc m' unfolding e by blast
    then have "read_on_socket K s C mk cond (Start_some (c_prepare C c m) c) w =
        Some (ec2, c_total_consumed C c + length (d @ d2), d @ d2, w2)"
      unfolding step Start_some using cc by simp
    moreover have "rest w = (d @ d2) @ rest w2" "sent w2 = sent w" "length (d @ d2) \<le> length (left c)"
      using r(1,2) r2(1-3) cc dk by simp_all
    moreover have "if ec_failed ec2 then ec2 = ec_eof \<and> rest w2 = [] \<or> ec_category ec2 = system_category
       else length (d @ d2) = length (left c) \<or> cond ec_success (c_total_consumed C c + length (d @ d2)) = 0"
      using r2(4) cc dk by (auto simp: add.assoc split: if_splits)
    ultimately show ?thesis by blast
  qed
qed

lemma write_on_stream:
  assumes K: "stream_kernel K s rest sent" "patient K s pt"
    and cond: "\<And>ec t. ec_failed ec \<Longrightarrow> cond ec t = 0" "\<And>ec t. \<not> ec_failed ec \<Longrightarrow> cond ec t = cond ec_success t"
  shows "wf c \<Longrightarrow> m = cond ec_success (c_total_consumed C c) \<Longrightarrow>
    \<exists>ec n w1. write_on_socket K s C mk mem cond (Start_some (c_prepare C c m) c) w = Some (ec, c_total_consumed C c + n, w1) \<and>
      rest w1 = rest w \<and> n \<le> length (left c) \<and> sent w1 = sent w @ map mem (take n (left c)) \<and>
      (if ec_failed ec then ec_category ec = system_category
       else n = length (left c) \<or> cond ec_success (c_total_consumed C c + n) = 0)"
proof (induction "length (left c)" arbitrary: c m w rule: less_induct)
  case less
  note wf = less(2)
  obtain k where k: "transfer_addrs (mk (c_prepare C c m)) = take k (left c)"
    "k = 0 \<Longrightarrow> left c = [] \<or> m = 0" "k \<le> length (left c)"
    using next_transfer [OF wf] by blast
  obtain ec1 n w1 where rc: "stream_send K s (mk (c_prepare C c m)) mem w = Some (ec1, n, w1)"
    and r: "rest w1 = rest w" "n \<le> length (transfer_addrs (mk (c_prepare C c m)))"
      "sent w1 = sent w @ map mem (take n (transfer_addrs (mk (c_prepare C c m))))"
    and ec1: "if n = 0 then ec_failed ec1 \<and> ec_category ec1 = system_category \<or>
        transfer_addrs (mk (c_prepare C c m)) = [] \<and> ec1 = ec_success
      else \<not> ec_failed ec1"
    using stream_send_result [OF K, of "mk (c_prepare C c m)" mem w] by blast
  have nk: "n \<le> length (left c)" and nle: "n \<le> k" using r(2) k by simp_all
  have sent1: "sent w1 = sent w @ map mem (take n (left c))" using r(3) k(1) nle by (simp add: min_def)
  let ?c = "c_consume C n c"
  note cc = consume [OF wf, of n]
  have step: "write_on_socket K s C mk mem cond (Start_some (c_prepare C c m) c) w =
      write_on_socket K s C mk mem cond (Async_Transfer.write_op C cond ec1 n 0 c) w1"
    by (subst write_on_socket.simps) (simp add: rc)
  show ?case
  proof (cases "Async_Transfer.write_op C cond ec1 n 0 c")
    case (Call_handler ec t)
    then have e: "ec = ec1" "t = c_total_consumed C c + n"
      and stop: "\<not> ec_failed ec1 \<Longrightarrow> n = 0 \<or> left ?c = [] \<or> cond ec1 (c_total_consumed C c + n) = 0"
      using cc empty [of ?c] by (auto simp: Async_Transfer.write_op_def Let_def split: if_splits)
    have "write_on_socket K s C mk mem cond (Start_some (c_prepare C c m) c) w = Some (ec1, c_total_consumed C c + n, w1)"
      unfolding step Call_handler e by (subst write_on_socket.simps) simp
    moreover have "if ec_failed ec1 then ec_category ec1 = system_category
       else n = length (left c) \<or> cond ec_success (c_total_consumed C c + n) = 0"
    proof (cases "n = 0")
      case True
      then show ?thesis using ec1 k less(3) by (auto simp: ec_failed_def ec_success_def)
    next
      case False
      then show ?thesis using ec1 stop cond(2) [of ec1] cc nk by auto
    qed
    ultimately show ?thesis using r(1) sent1 nk by (intro exI [of _ ec1] exI [of _ n] exI [of _ w1]) simp
  next
    case (Start_some bufs c')
    then have e: "c' = ?c" "bufs = c_prepare C ?c (cond ec1 (c_total_consumed C ?c))"
      and go: "n \<noteq> 0 \<or> ec_failed ec1" "left ?c \<noteq> []" "0 < cond ec1 (c_total_consumed C ?c)"
      using cc empty [of ?c] by (auto simp: Async_Transfer.write_op_def Let_def split: if_splits)
    have ok: "\<not> ec_failed ec1" using go(3) cond(1) [of ec1] by fastforce
    then have n0: "n \<noteq> 0" using go(1) by blast
    have lt: "length (left ?c) < length (left c)" using n0 cc go(2) by auto
    have m': "cond ec1 (c_total_consumed C ?c) = cond ec_success (c_total_consumed C ?c)" using cond(2) [OF ok] .
    obtain ec2 n2 w2 where "write_on_socket K s C mk mem cond (Start_some bufs c') w1
        = Some (ec2, c_total_consumed C ?c + n2, w2)"
      and r2: "rest w2 = rest w1" "n2 \<le> length (left ?c)" "sent w2 = sent w1 @ map mem (take n2 (left ?c))"
      "if ec_failed ec2 then ec_category ec2 = system_category
       else n2 = length (left ?c) \<or> cond ec_success (c_total_consumed C ?c + n2) = 0"
      using less(1) [OF lt, of "cond ec1 (c_total_consumed C ?c)" w1] cc m' unfolding e by blast
    then have "write_on_socket K s C mk mem cond (Start_some (c_prepare C c m) c) w =
        Some (ec2, c_total_consumed C c + (n + n2), w2)"
      unfolding step Start_some using cc by (simp add: add.assoc)
    moreover have "rest w2 = rest w" "n + n2 \<le> length (left c)"
      using r(1) r2(1,2) cc nk by simp_all
    moreover have "sent w2 = sent w @ map mem (take (n + n2) (left c))"
      using sent1 r2(3) cc by (simp add: take_add)
    moreover have "if ec_failed ec2 then ec_category ec2 = system_category
       else n + n2 = length (left c) \<or> cond ec_success (c_total_consumed C c + (n + n2)) = 0"
      using r2(4) cc nk by (auto simp: add.assoc split: if_splits)
    ultimately show ?thesis by blast
  qed
qed

end

lemma prepare_loop_length: "length (prepare_loop mx bs off m acc) \<le> max mx (length acc)"
  by (induction mx bs off m acc rule: prepare_loop.induct) (simp_all add: Let_def)

text \<open>The array of the prepared buffers has between 1 and 16 elements.\<close>

interpretation generic_socket: transferable "generic_class (min 16 (Suc k))" cb_wf
  "\<lambda>c. drop (cb_total_consumed c) (seq_addrs (cb_buffers c))" Many_buffers for k
proof (unfold_locales, goal_cases)
  case (1 c m)
  have "length (cb_prepare (min 16 (Suc k)) c m) \<le> adapter_max_buffers"
    using prepare_loop_length [of "min 16 (Suc k)" "drop (cb_next_elem c) (cb_buffers c)" "cb_next_elem_offset c" m "[]"]
    unfolding cb_prepare_def adapter_max_buffers_def by simp
  then show ?case by (simp add: generic_class_def)
next
  case (2 c m)
  then show ?case using cb_prepare_prefix [of c "min 16 (Suc k)" m] by (auto simp: generic_class_def length_seq_addrs)
qed

interpretation single_socket: transferable single_class "\<lambda>c. True"
  "\<lambda>c. drop (cs_total_consumed c) (addrs (cs_buffer c))" "\<lambda>bs. One_buffer (hd bs)"
  by unfold_locales (auto simp: single_class_def cs_prepare_def)

interpretation array2_socket: transferable array2_class "\<lambda>c. True"
  "\<lambda>c. drop (ca_total_consumed c) (addrs (ca_buffer0 c) @ addrs (ca_buffer1 c))" Many_buffers
proof (unfold_locales, goal_cases)
  case (1 c m)
  then show ?case by (simp add: array2_class_def ca_prepare_def Let_def adapter_max_buffers_def)
next
  case (2 c m)
  then show ?case using ca_prepare_addrs [of c m] by (auto simp: array2_class_def simp del: drop_append)
qed

text \<open>
  What the handlers of the two operations are told, and what has happened to the stream. The first
  disjunct of a success is that the whole buffer was used, the second that the condition is met.
\<close>

definition received :: "('w \<Rightarrow> u8 list) \<Rightarrow> ('w \<Rightarrow> u8 list) \<Rightarrow> completion_condition \<Rightarrow> nat \<Rightarrow> 'w
    \<Rightarrow> (error_code \<times> nat \<times> u8 list \<times> 'w) option \<Rightarrow> bool" where
  "received rest sent cond avail w r \<longleftrightarrow>
     (case r of
        None \<Rightarrow> False
      | Some (ec, n, d, w1) \<Rightarrow>
          n = length d \<and> n \<le> avail \<and> rest w = d @ rest w1 \<and> sent w1 = sent w \<and>
          (if ec_failed ec then ec = ec_eof \<and> rest w1 = [] \<or> ec_category ec = system_category
           else n = avail \<or> cond ec_success n = 0))"

definition delivered :: "('w \<Rightarrow> u8 list) \<Rightarrow> ('w \<Rightarrow> u8 list) \<Rightarrow> completion_condition \<Rightarrow> u8 list \<Rightarrow> 'w
    \<Rightarrow> (error_code \<times> nat \<times> 'w) option \<Rightarrow> bool" where
  "delivered rest sent cond data w r \<longleftrightarrow>
     (case r of
        None \<Rightarrow> False
      | Some (ec, n, w1) \<Rightarrow>
          n \<le> length data \<and> sent w1 = sent w @ take n data \<and> rest w1 = rest w \<and>
          (if ec_failed ec then ec_category ec = system_category else n = length data \<or> cond ec_success n = 0))"

lemma standard_condition_success:
  "standard_condition l cond \<Longrightarrow> \<not> ec_failed ec \<Longrightarrow> cond ec t = cond ec_success t"
  by (auto simp: standard_condition_def condition_defs ec_failed_def ec_success_def)

lemmas standard_condition_facts = standard_condition_failed standard_condition_success

lemma single_on_socket:
  assumes "stream_kernel K s rest sent" "patient K s pt" "standard_condition l cond"
  shows "received rest sent cond (buf_size b) w
      (read_on_socket K s single_class (\<lambda>bs. One_buffer (hd bs)) cond (async_read single_class cond (cs_new b)) w)"
    and "delivered rest sent cond (map mem (addrs b)) w
      (write_on_socket K s single_class (\<lambda>bs. One_buffer (hd bs)) mem cond (async_write single_class cond (cs_new b)) w)"
proof -
  note K = assms(1,2) standard_condition_facts [OF assms(3)]
  have s: "c_total_consumed single_class (cs_new b) = 0" by (simp add: single_class_def)
  show "received rest sent cond (buf_size b) w
      (read_on_socket K s single_class (\<lambda>bs. One_buffer (hd bs)) cond (async_read single_class cond (cs_new b)) w)"
    using single_socket.read_on_stream [where cond = cond and c = "cs_new b" and m = "cond ec_success 0" and w = w, OF K TrueI] s
    by (auto simp: received_def async_read_eq async_write_def Async_Transfer.write_op_def)
  show "delivered rest sent cond (map mem (addrs b)) w
      (write_on_socket K s single_class (\<lambda>bs. One_buffer (hd bs)) mem cond (async_write single_class cond (cs_new b)) w)"
    using single_socket.write_on_stream [where cond = cond and c = "cs_new b" and m = "cond ec_success 0" and w = w and mem = mem, OF K TrueI] s
    by (auto simp: delivered_def async_write_def Async_Transfer.write_op_def take_map)
qed

lemma generic_on_socket:
  assumes "stream_kernel K s rest sent" "patient K s pt" "standard_condition l cond"
  shows "received rest sent cond (buffer_size bs) w
      (read_on_socket K s (generic_class (min 16 (Suc k))) Many_buffers cond
        (async_read (generic_class (min 16 (Suc k))) cond (cb_new bs)) w)"
    and "delivered rest sent cond (map mem (seq_addrs bs)) w
      (write_on_socket K s (generic_class (min 16 (Suc k))) Many_buffers mem cond
        (async_write (generic_class (min 16 (Suc k))) cond (cb_new bs)) w)"
proof -
  note K = assms(1,2) standard_condition_facts [OF assms(3)]
  let ?C = "generic_class (min 16 (Suc k))"
  have s: "c_total_consumed ?C (cb_new bs) = 0" by (simp add: generic_class_def)
  show "received rest sent cond (buffer_size bs) w
      (read_on_socket K s ?C Many_buffers cond (async_read ?C cond (cb_new bs)) w)"
    using generic_socket.read_on_stream [where cond = cond and c = "cb_new bs" and m = "cond ec_success 0" and w = w and k = k, OF K cb_new_wf] s
    by (auto simp: received_def async_read_eq async_write_def Async_Transfer.write_op_def length_seq_addrs)
  show "delivered rest sent cond (map mem (seq_addrs bs)) w
      (write_on_socket K s ?C Many_buffers mem cond (async_write ?C cond (cb_new bs)) w)"
    using generic_socket.write_on_stream [where cond = cond and c = "cb_new bs" and m = "cond ec_success 0" and w = w and k = k and mem = mem, OF K cb_new_wf] s
    by (auto simp: delivered_def async_write_def Async_Transfer.write_op_def take_map length_seq_addrs)
qed

text \<open>
  C29: \<open>async_read\<close> and \<open>async_write\<close> on a stream socket of the reactor, whose receive and send may be
  interrupted, may block and may move any non-empty part of what they are given: with the condition
  \<open>transfer_all\<close>, \<open>transfer_at_least\<close> or \<open>transfer_exactly\<close> and a single buffer or any sequence of
  buffers the handler is always called. It is told the number of bytes moved; a read has taken exactly
  these bytes off the stream, a write has sent exactly these bytes of the buffers and in their order.
  An error of a write is an error of the system, one of a read may also be the end of the stream, and
  then the stream is empty; without an error the whole buffer has been used or the condition is met,
  so that \<open>transfer_all\<close> has moved everything.
\<close>

theorem async_transfer_on_socket:
  assumes "stream_kernel K s rest sent" "patient K s pt" "standard_condition l cond"
  shows "received rest sent cond (buf_size b) w
      (read_on_socket K s single_class (\<lambda>bs. One_buffer (hd bs)) cond (async_read single_class cond (cs_new b)) w) \<and>
    delivered rest sent cond (map mem (addrs b)) w
      (write_on_socket K s single_class (\<lambda>bs. One_buffer (hd bs)) mem cond (async_write single_class cond (cs_new b)) w) \<and>
    received rest sent cond (buffer_size bs) w
      (read_on_socket K s (generic_class (min 16 (Suc k))) Many_buffers cond
        (async_read (generic_class (min 16 (Suc k))) cond (cb_new bs)) w) \<and>
    delivered rest sent cond (map mem (seq_addrs bs)) w
      (write_on_socket K s (generic_class (min 16 (Suc k))) Many_buffers mem cond
        (async_write (generic_class (min 16 (Suc k))) cond (cb_new bs)) w)"
  using single_on_socket [OF assms] generic_on_socket [OF assms] by blast

text \<open>A system that blocks or interrupts a number of times, then moves at most two bytes in each call.\<close>

definition slow_kernel :: "(nat \<times> u8 list \<times> u8 list) kernel" where
  "slow_kernel =
     \<lparr>k_recv = (\<lambda>s len flags (p, r, t).
        if 0 < p then (Inl 11, (p - 1, r, t)) else (Inr (take (min 2 len) r), (p, drop (min 2 len) r, t))),
      k_send = (\<lambda>s data flags (p, r, t).
        if 0 < p then (Inl 4, (p - 1, r, t)) else (Inr (min 2 (length data)), (p, r, t @ take (min 2 (length data)) data))),
      k_poll = (\<lambda>s events msec w. (Inr 1, w)), k_connect = (\<lambda>s addr w. (None, w)), k_so_error = (\<lambda>s w. (Inr 0, w)),
      k_accept = (\<lambda>s w. (Inl 11, w))\<rparr>"

lemma slow_kernel_ok:
  "stream_kernel slow_kernel s (\<lambda>w. fst (snd w)) (\<lambda>w. snd (snd w))" "patient slow_kernel s fst"
  by (auto simp: stream_kernel_def patient_def slow_kernel_def split: if_splits)

theorem async_transfer_on_socket_witness:
  "received (\<lambda>w. fst (snd w)) (\<lambda>w. snd (snd w)) transfer_all 3 (1, [1, 2, 3, 4], [])
     (read_on_socket slow_kernel 5 single_class (\<lambda>bs. One_buffer (hd bs)) transfer_all
       (async_read single_class transfer_all (cs_new \<lparr>buf_data = 10, buf_size = 3\<rparr>)) (1, [1, 2, 3, 4], []))"
proof -
  have "standard_condition 0 transfer_all" by (simp add: standard_condition_def)
  from async_transfer_on_socket [OF slow_kernel_ok this, of "\<lparr>buf_data = 10, buf_size = 3\<rparr>" "(1, [1, 2, 3, 4], [])"]
  show ?thesis by simp
qed

end
