(* ===== verification/Timer_Queue.thy ===== *)
theory Timer_Queue
  imports Op_Queue Linked_List "HOL-Library.Multiset"
begin

text \<open>
  The queue of timers behind \<open>steady_timer\<close>, \<open>src/ext/asio/asio/detail/timer_queue.hpp\<close>: a binary
  heap of expiry times in a vector, whose entries point to the timers, and a doubly linked list of
  the active timers. A timer is an address; the store maps it to its \<open>per_timer_data\<close>. Times are
  integers (the ticks of the clock); \<open>never\<close> decides which of them mean that the timer never
  expires (none for the clocks of \<open>std::chrono\<close>).
\<close>

section \<open>State\<close>

type_synonym timer_ref = nat

text \<open>The largest \<open>std::size_t\<close>, the index of a timer that is not in the heap.\<close>

definition npos :: nat where
  "npos = 2 ^ 64 - 1"

record 'op per_timer_data =
  td_ops :: "'op list"
  td_heap_index :: nat
  td_next :: "timer_ref option"
  td_prev :: "timer_ref option"

definition new_per_timer_data :: "'op per_timer_data" where
  "new_per_timer_data = \<lparr>td_ops = [], td_heap_index = npos, td_next = None, td_prev = None\<rparr>"

record 'op timer_queue =
  timers :: "timer_ref option"
  heap :: "(int \<times> timer_ref) list"
  tstore :: "timer_ref \<Rightarrow> 'op per_timer_data"

definition new_timer_queue :: "(timer_ref \<Rightarrow> 'op per_timer_data) \<Rightarrow> 'op timer_queue" where
  "new_timer_queue st = \<lparr>timers = None, heap = [], tstore = st\<rparr>"

definition upd_timer ::
  "timer_ref \<Rightarrow> ('op per_timer_data \<Rightarrow> 'op per_timer_data) \<Rightarrow> 'op timer_queue \<Rightarrow> 'op timer_queue" where
  "upd_timer t f q = q\<lparr>tstore := (tstore q)(t := f (tstore q t))\<rparr>"

definition upd_timer_opt ::
  "timer_ref option \<Rightarrow> ('op per_timer_data \<Rightarrow> 'op per_timer_data) \<Rightarrow> 'op timer_queue \<Rightarrow> 'op timer_queue" where
  "upd_timer_opt p f q = (case p of None \<Rightarrow> q | Some t \<Rightarrow> upd_timer t f q)"

section \<open>The heap\<close>

definition swap_heap :: "nat \<Rightarrow> nat \<Rightarrow> 'op timer_queue \<Rightarrow> 'op timer_queue" where
  "swap_heap i j q =
     (let tmp = heap q ! i;
          q1 = q\<lparr>heap := (heap q)[i := heap q ! j, j := tmp]\<rparr>;
          q2 = upd_timer (snd (heap q1 ! i)) (\<lambda>d. d\<lparr>td_heap_index := i\<rparr>) q1
      in upd_timer (snd (heap q2 ! j)) (\<lambda>d. d\<lparr>td_heap_index := j\<rparr>) q2)"

fun up_heap :: "nat \<Rightarrow> 'op timer_queue \<Rightarrow> 'op timer_queue" where
  "up_heap index q =
     (if index > 0
      then
        (let parent = (index - 1) div 2
         in if \<not> fst (heap q ! index) < fst (heap q ! parent) then q
            else up_heap parent (swap_heap index parent q))
      else q)"

declare up_heap.simps [simp del]

lemma heap_upd_timer [simp]: "heap (upd_timer t f q) = heap q"
  by (simp add: upd_timer_def)

lemma heap_swap_heap: "heap (swap_heap i j q) = (heap q)[i := heap q ! j, j := heap q ! i]"
  by (simp add: swap_heap_def Let_def)

definition min_child :: "(int \<times> timer_ref) list \<Rightarrow> nat \<Rightarrow> nat" where
  "min_child h child =
     (if child + 1 = length h \<or> fst (h ! child) < fst (h ! (child + 1)) then child else child + 1)"

function down_heap :: "nat \<Rightarrow> 'op timer_queue \<Rightarrow> 'op timer_queue" where
  "down_heap index q =
     (let child = index * 2 + 1
      in if child < length (heap q)
         then (let m = min_child (heap q) child
               in if fst (heap q ! index) < fst (heap q ! m) then q
                  else down_heap m (swap_heap index m q))
         else q)"
  by pat_completeness auto
termination
  by (relation "measure (\<lambda>(i, q). length (heap q) - i)")
    (auto simp: heap_swap_heap min_child_def split: if_splits)

declare down_heap.simps [simp del]

section \<open>Operations\<close>

text \<open>The second half of \<open>remove_timer\<close>: unlink from the list of active timers.\<close>

definition unlink_timer :: "timer_ref \<Rightarrow> 'op timer_queue \<Rightarrow> 'op timer_queue" where
  "unlink_timer t q =
     (let q1 = (if timers q = Some t then q\<lparr>timers := td_next (tstore q t)\<rparr> else q);
          q2 = upd_timer_opt (td_prev (tstore q1 t)) (\<lambda>d. d\<lparr>td_next := td_next (tstore q1 t)\<rparr>) q1;
          q3 = upd_timer_opt (td_next (tstore q2 t)) (\<lambda>d. d\<lparr>td_prev := td_prev (tstore q2 t)\<rparr>) q2
      in upd_timer t (\<lambda>d. d\<lparr>td_next := None, td_prev := None\<rparr>) q3)"

text \<open>The first half: remove the timer's entry from the heap.\<close>

definition remove_entry :: "timer_ref \<Rightarrow> 'op timer_queue \<Rightarrow> 'op timer_queue" where
  "remove_entry t q =
     (let index = td_heap_index (tstore q t); n = length (heap q)
      in if heap q \<noteq> [] \<and> index < n
         then
           (if index = n - 1
            then (upd_timer t (\<lambda>d. d\<lparr>td_heap_index := npos\<rparr>) q)\<lparr>heap := butlast (heap q)\<rparr>
            else
              (let q1 = upd_timer t (\<lambda>d. d\<lparr>td_heap_index := npos\<rparr>) (swap_heap index (n - 1) q);
                   q2 = q1\<lparr>heap := butlast (heap q1)\<rparr>
               in if index > 0 \<and> fst (heap q2 ! index) < fst (heap q2 ! ((index - 1) div 2))
                  then up_heap index q2 else down_heap index q2))
         else q)"

definition remove_timer :: "timer_ref \<Rightarrow> 'op timer_queue \<Rightarrow> 'op timer_queue" where
  "remove_timer t q = unlink_timer t (remove_entry t q)"

definition link_timer :: "timer_ref \<Rightarrow> 'op timer_queue \<Rightarrow> 'op timer_queue" where
  "link_timer t q =
     (let q1 = upd_timer t (\<lambda>d. d\<lparr>td_next := timers q, td_prev := None\<rparr>) q;
          q2 = upd_timer_opt (timers q1) (\<lambda>d. d\<lparr>td_prev := Some t\<rparr>) q1
      in q2\<lparr>timers := Some t\<rparr>)"

definition insert_entry :: "(int \<Rightarrow> bool) \<Rightarrow> int \<Rightarrow> timer_ref \<Rightarrow> 'op timer_queue \<Rightarrow> 'op timer_queue" where
  "insert_entry never time t q =
     (if never time then upd_timer t (\<lambda>d. d\<lparr>td_heap_index := npos\<rparr>) q
      else
        (let q1 = upd_timer t (\<lambda>d. d\<lparr>td_heap_index := length (heap q)\<rparr>) q;
             q2 = q1\<lparr>heap := heap q1 @ [(time, t)]\<rparr>
         in up_heap (length (heap q2) - 1) q2))"

text \<open>A timer is in the list when it has a predecessor or is the head.\<close>

definition timer_active :: "'op timer_queue \<Rightarrow> timer_ref \<Rightarrow> bool" where
  "timer_active q t \<longleftrightarrow> td_prev (tstore q t) \<noteq> None \<or> timers q = Some t"

definition enqueue_timer ::
  "(int \<Rightarrow> bool) \<Rightarrow> int \<Rightarrow> timer_ref \<Rightarrow> 'op \<Rightarrow> 'op timer_queue \<Rightarrow> bool \<times> 'op timer_queue" where
  "enqueue_timer never time t op q =
     (let q1 = (if \<not> timer_active q t then link_timer t (insert_entry never time t q) else q);
          q2 = upd_timer t (\<lambda>d. d\<lparr>td_ops := td_ops d @ [op]\<rparr>) q1;
          d = tstore q2 t
      in (td_heap_index d = 0 \<and> hd (td_ops d) = op, q2))"

definition timer_queue_empty :: "'op timer_queue \<Rightarrow> bool" where
  "timer_queue_empty q \<longleftrightarrow> timers q = None"

text \<open>\<open>to_usec\<close> and \<open>to_msec\<close>: a duration in ticks, of which \<open>unit\<close> make one unit.\<close>

definition to_units :: "int \<Rightarrow> int \<Rightarrow> int \<Rightarrow> int" where
  "to_units unit d max_duration =
     (if d \<le> 0 then 0
      else
        (let n = d div unit
         in if n = 0 then 1 else if n > max_duration then max_duration else n))"

definition wait_duration :: "int \<Rightarrow> int \<Rightarrow> int \<Rightarrow> 'op timer_queue \<Rightarrow> int" where
  "wait_duration unit now max_duration q =
     (if heap q = [] then max_duration else to_units unit (fst (heap q ! 0) - now) max_duration)"

text \<open>
  The loop of \<open>get_ready_timers\<close> ends because each turn removes an entry from the heap, which holds
  only of a well-formed queue; so the function is partial. The result holds the operations handed
  over and the timers that expired, in order.
\<close>

partial_function (option) ready_loop ::
  "int \<Rightarrow> 'op timer_queue \<Rightarrow> 'op list \<Rightarrow> timer_ref list
     \<Rightarrow> ('op timer_queue \<times> 'op list \<times> timer_ref list) option" where
  "ready_loop now q ops ts =
     (if heap q = [] \<or> now < fst (heap q ! 0) then Some (q, ops, ts)
      else
        (let t = snd (heap q ! 0);
             q1 = upd_timer t (\<lambda>d. d\<lparr>td_ops := []\<rparr>) q
         in ready_loop now (remove_timer t q1) (ops @ td_ops (tstore q t)) (ts @ [t])))"

declare ready_loop.simps [code]

definition get_ready_timers ::
  "int \<Rightarrow> 'op timer_queue \<Rightarrow> 'op list \<Rightarrow> ('op timer_queue \<times> 'op list \<times> timer_ref list) option" where
  "get_ready_timers now q ops = (if heap q = [] then Some (q, ops, []) else ready_loop now q ops [])"

partial_function (option) all_loop ::
  "'op timer_queue \<Rightarrow> 'op list \<Rightarrow> ('op timer_queue \<times> 'op list) option" where
  "all_loop q ops =
     (case timers q of
        None \<Rightarrow> Some (q, ops)
      | Some t \<Rightarrow>
          all_loop
            (upd_timer t (\<lambda>d. d\<lparr>td_ops := [], td_next := None, td_prev := None\<rparr>)
               (q\<lparr>timers := td_next (tstore q t)\<rparr>))
            (ops @ td_ops (tstore q t)))"

declare all_loop.simps [code]

definition get_all_timers :: "'op timer_queue \<Rightarrow> 'op list \<Rightarrow> ('op timer_queue \<times> 'op list) option" where
  "get_all_timers q ops =
     (case all_loop q ops of None \<Rightarrow> None | Some (q1, ops1) \<Rightarrow> Some (q1\<lparr>heap := []\<rparr>, ops1))"

text \<open>
  \<open>cancel_timer\<close>: \<open>abort\<close> sets the operation's error code to \<open>operation_aborted\<close>. The loop returns
  the number of cancelled operations, what is left in the timer's queue, and the output queue.
\<close>

fun cancel_loop :: "('op \<Rightarrow> 'op) \<Rightarrow> nat \<Rightarrow> nat \<Rightarrow> 'op list \<Rightarrow> 'op list \<Rightarrow> nat \<times> 'op list \<times> 'op list" where
  "cancel_loop abort max_cancelled n [] ops = (n, [], ops)"
| "cancel_loop abort max_cancelled n (op # rest) ops =
     (if n \<noteq> max_cancelled then cancel_loop abort max_cancelled (Suc n) rest (ops @ [abort op])
      else (n, op # rest, ops))"

definition cancel_timer ::
  "('op \<Rightarrow> 'op) \<Rightarrow> timer_ref \<Rightarrow> nat \<Rightarrow> 'op timer_queue \<Rightarrow> 'op list \<Rightarrow> nat \<times> 'op timer_queue \<times> 'op list" where
  "cancel_timer abort t max_cancelled q ops =
     (if timer_active q t
      then
        (let (num_cancelled, rest, ops1) = cancel_loop abort max_cancelled 0 (td_ops (tstore q t)) ops;
             q1 = upd_timer t (\<lambda>d. d\<lparr>td_ops := rest\<rparr>) q;
             q2 = (if rest = [] then remove_timer t q1 else q1)
         in (num_cancelled, q2, ops1))
      else (0, q, ops))"

definition move_timer :: "timer_ref \<Rightarrow> timer_ref \<Rightarrow> 'op timer_queue \<Rightarrow> 'op timer_queue" where
  "move_timer target source q =
     (let src = tstore q source;
          q1 = upd_timer source (\<lambda>d. d\<lparr>td_ops := []\<rparr>)
                 (upd_timer target (\<lambda>d. d\<lparr>td_ops := td_ops d @ td_ops src\<rparr>) q);
          q2 = upd_timer source (\<lambda>d. d\<lparr>td_heap_index := npos\<rparr>)
                 (upd_timer target (\<lambda>d. d\<lparr>td_heap_index := td_heap_index src\<rparr>) q1);
          i = td_heap_index (tstore q2 target);
          q3 = (if i < length (heap q2) then q2\<lparr>heap := (heap q2)[i := (fst (heap q2 ! i), target)]\<rparr> else q2);
          q4 = (if timers q3 = Some source then q3\<lparr>timers := Some target\<rparr> else q3);
          q5 = upd_timer_opt (td_prev (tstore q4 source)) (\<lambda>d. d\<lparr>td_next := Some target\<rparr>) q4;
          q6 = upd_timer_opt (td_next (tstore q5 source)) (\<lambda>d. d\<lparr>td_prev := Some target\<rparr>) q5;
          q7 = upd_timer target
                 (\<lambda>d. d\<lparr>td_next := td_next (tstore q6 source), td_prev := td_prev (tstore q6 source)\<rparr>) q6
      in upd_timer source (\<lambda>d. d\<lparr>td_next := None, td_prev := None\<rparr>) q7)"

section \<open>Heap order\<close>

abbreviation parent :: "nat \<Rightarrow> nat" where
  "parent i \<equiv> (i - 1) div 2"

abbreviation swap_list :: "nat \<Rightarrow> nat \<Rightarrow> 'a list \<Rightarrow> 'a list" where
  "swap_list i j h \<equiv> h[i := h ! j, j := h ! i]"

definition heap_ordered :: "(int \<times> 'a) list \<Rightarrow> bool" where
  "heap_ordered h \<longleftrightarrow> (\<forall>i. 0 < i \<longrightarrow> i < length h \<longrightarrow> fst (h ! parent i) \<le> fst (h ! i))"

text \<open>In order except that the entry at \<open>k\<close> may be smaller than its parent, or larger than its children.\<close>

definition ordered_except_up :: "nat \<Rightarrow> (int \<times> 'a) list \<Rightarrow> bool" where
  "ordered_except_up k h \<longleftrightarrow>
     (\<forall>i. 0 < i \<longrightarrow> i < length h \<longrightarrow> i \<noteq> k \<longrightarrow> fst (h ! parent i) \<le> fst (h ! i)) \<and>
     (\<forall>i. 0 < i \<longrightarrow> i < length h \<longrightarrow> parent i = k \<longrightarrow> 0 < k \<longrightarrow> fst (h ! parent k) \<le> fst (h ! i))"

definition ordered_except_down :: "nat \<Rightarrow> (int \<times> 'a) list \<Rightarrow> bool" where
  "ordered_except_down k h \<longleftrightarrow>
     (\<forall>i. 0 < i \<longrightarrow> i < length h \<longrightarrow> parent i \<noteq> k \<longrightarrow> fst (h ! parent i) \<le> fst (h ! i)) \<and>
     (\<forall>i. 0 < i \<longrightarrow> i < length h \<longrightarrow> parent i = k \<longrightarrow> 0 < k \<longrightarrow> fst (h ! parent k) \<le> fst (h ! i))"

lemma parent_less: "0 < i \<Longrightarrow> parent i < i"
  by auto

lemma parent_cases: "0 < i \<Longrightarrow> parent i = k \<Longrightarrow> i = 2 * k + 1 \<or> i = 2 * k + 2"
  by auto

lemma swap_up_step:
  assumes "ordered_except_up k h" "0 < k" "k < length h" "fst (h ! k) < fst (h ! parent k)"
  shows "ordered_except_up (parent k) (swap_list k (parent k) h)"
proof -
  let ?p = "parent k" and ?h = "swap_list k (parent k) h"
  have p: "?p < k" using assms(2) by auto
  have nth: "?h ! i = (if i = ?p then h ! k else if i = k then h ! ?p else h ! i)" if "i < length h" for i
    using that assms(3) p by (auto simp: nth_list_update)
  have ord: "\<And>i. 0 < i \<Longrightarrow> i < length h \<Longrightarrow> i \<noteq> k \<Longrightarrow> fst (h ! parent i) \<le> fst (h ! i)"
    and child: "\<And>i. 0 < i \<Longrightarrow> i < length h \<Longrightarrow> parent i = k \<Longrightarrow> fst (h ! ?p) \<le> fst (h ! i)"
    using assms(1,2) by (auto simp: ordered_except_up_def)
  have 1: "fst (?h ! parent i) \<le> fst (?h ! i)" if i: "0 < i" "i < length h" "i \<noteq> ?p" for i
  proof -
    have "parent i < length h" using i by auto
    consider "i = k" | "parent i = k" "i \<noteq> k" | "parent i = ?p" "i \<noteq> k"
      | "i \<noteq> k" "parent i \<noteq> k" "parent i \<noteq> ?p" by blast
    then show ?thesis
    proof cases
      case 1
      then show ?thesis using assms(4) p assms(3) by (simp add: nth)
    next
      case 2
      then show ?thesis using child [of i] i p \<open>parent i < length h\<close> by (simp add: nth)
    next
      case 3
      then have "fst (h ! ?p) \<le> fst (h ! i)" using ord [of i] i by simp
      then show ?thesis using 3 i assms(4) \<open>parent i < length h\<close> p by (simp add: nth)
    next
      case 4
      then show ?thesis using ord [of i] i \<open>parent i < length h\<close> by (simp add: nth)
    qed
  qed
  have 2: "fst (?h ! parent ?p) \<le> fst (?h ! i)"
    if i: "0 < i" "i < length h" "parent i = ?p" "0 < ?p" for i
  proof -
    have pp: "parent ?p < ?p" using i(4) by auto
    have "fst (h ! parent ?p) \<le> fst (h ! ?p)" using ord [of ?p] i(4) p assms(3) by simp
    moreover have "i \<noteq> k \<Longrightarrow> fst (h ! ?p) \<le> fst (h ! i)" using ord [of i] i by simp
    moreover have "i \<noteq> ?p" using i by auto
    moreover have "?h ! parent ?p = h ! parent ?p" using pp p assms(3) by (simp add: nth)
    moreover have "?h ! i = (if i = k then h ! ?p else h ! i)" using nth [OF i(2)] \<open>i \<noteq> ?p\<close> by simp
    ultimately show ?thesis by (auto split: if_splits)
  qed
  show ?thesis unfolding ordered_except_up_def using 1 2 by simp
qed

lemma up_heap_ordered:
  "ordered_except_up k (heap q) \<Longrightarrow> k < length (heap q) \<Longrightarrow> heap_ordered (heap (up_heap k q))"
proof (induction k q rule: up_heap.induct)
  case (1 k q)
  show ?case
  proof (cases "0 < k \<and> fst (heap q ! k) < fst (heap q ! parent k)")
    case True
    then have "ordered_except_up (parent k) (heap (swap_heap k (parent k) q))"
      unfolding heap_swap_heap using True 1(2,3) by (intro swap_up_step) blast+
    then show ?thesis
      using 1(1) True 1(3) by (subst up_heap.simps) (simp add: heap_swap_heap Let_def)
  next
    case False
    have "fst (heap q ! parent i) \<le> fst (heap q ! i)" if "0 < i" "i < length (heap q)" for i
      using False 1(2) that by (cases "i = k") (auto simp: ordered_except_up_def)
    then show ?thesis using False by (subst up_heap.simps) (auto simp: heap_ordered_def)
  qed
qed


lemma min_child_props:
  assumes "2 * k + 1 < length h"
  shows "parent (min_child h (2 * k + 1)) = k" "min_child h (2 * k + 1) < length h"
    and "k < min_child h (2 * k + 1)"
    and "\<And>i. 0 < i \<Longrightarrow> i < length h \<Longrightarrow> parent i = k \<Longrightarrow> fst (h ! min_child h (2 * k + 1)) \<le> fst (h ! i)"
proof -
  show "fst (h ! min_child h (2 * k + 1)) \<le> fst (h ! i)" if "0 < i" "i < length h" "parent i = k" for i
    using parent_cases [OF that(1,3)] that(2) by (auto simp: min_child_def)
qed (use assms in \<open>auto simp: min_child_def\<close>)

lemma swap_down_step:
  assumes "ordered_except_down k h" "m < length h" "0 < m" "parent m = k"
    and min: "\<And>i. 0 < i \<Longrightarrow> i < length h \<Longrightarrow> parent i = k \<Longrightarrow> fst (h ! m) \<le> fst (h ! i)"
    and le: "fst (h ! m) \<le> fst (h ! k)"
  shows "ordered_except_down m (swap_list k m h)"
proof -
  let ?h = "swap_list k m h"
  have k: "k < m" using assms(3,4) by auto
  have nth: "?h ! i = (if i = m then h ! k else if i = k then h ! m else h ! i)" if "i < length h" for i
    using that assms(2) k by (auto simp: nth_list_update)
  have ord: "\<And>i. 0 < i \<Longrightarrow> i < length h \<Longrightarrow> parent i \<noteq> k \<Longrightarrow> fst (h ! parent i) \<le> fst (h ! i)"
    and child: "\<And>i. 0 < i \<Longrightarrow> i < length h \<Longrightarrow> parent i = k \<Longrightarrow> 0 < k \<Longrightarrow> fst (h ! parent k) \<le> fst (h ! i)"
    using assms(1) by (auto simp: ordered_except_down_def)
  have 1: "fst (?h ! parent i) \<le> fst (?h ! i)" if i: "0 < i" "i < length h" "parent i \<noteq> m" for i
  proof -
    have pl: "parent i < length h" "parent i < i" using i by auto
    consider "i = m" | "parent i = k" "i \<noteq> m" | "i = k" | "parent i \<noteq> k" "i \<noteq> m" "i \<noteq> k" by blast
    then show ?thesis
    proof cases
      case 1
      then show ?thesis using le k assms(2,4) by (simp add: nth)
    next
      case 2
      then have "i \<noteq> k" using pl by simp
      then show ?thesis using min [of i] 2 i pl by (simp add: nth)
    next
      case 3
      then have "fst (h ! parent k) \<le> fst (h ! m)" using child [of m] i assms(2-4) by simp
      then show ?thesis using 3 i pl k by (simp add: nth)
    next
      case 4
      then show ?thesis using ord [of i] i pl by (simp add: nth)
    qed
  qed
  have 2: "fst (?h ! parent m) \<le> fst (?h ! i)" if i: "0 < i" "i < length h" "parent i = m" for i
  proof -
    have "m < i" using i by auto
    then have "?h ! i = h ! i" using nth [OF i(2)] k by simp
    moreover have "fst (h ! m) \<le> fst (h ! i)" using ord [of i] i k by simp
    ultimately show ?thesis using assms(2,4) k by (simp add: nth)
  qed
  show ?thesis unfolding ordered_except_down_def length_list_update using 1 2 by blast
qed

lemma down_heap_ordered:
  "ordered_except_down k (heap q) \<Longrightarrow> heap_ordered (heap (down_heap k q))"
proof (induction k q rule: down_heap.induct)
  case (1 k q)
  let ?h = "heap q" and ?m = "min_child (heap q) (k * 2 + 1)"
  have k2: "k * 2 + 1 = 2 * k + 1" by simp
  show ?case
  proof (cases "k * 2 + 1 < length ?h \<and> \<not> fst (?h ! k) < fst (?h ! ?m)")
    case True
    note mc = min_child_props [of k ?h, folded k2]
    have "ordered_except_down ?m (heap (swap_heap k ?m q))"
      unfolding heap_swap_heap
      by (rule swap_down_step [OF 1(2)]) (use True mc in auto)
    then show ?thesis using 1(1) True by (subst down_heap.simps) (simp add: Let_def)
  next
    case False
    have "fst (?h ! parent i) \<le> fst (?h ! i)" if i: "0 < i" "i < length ?h" for i
    proof (cases "parent i = k")
      case True
      then have c: "k * 2 + 1 < length ?h" using parent_cases [of i k] i by auto
      then have "fst (?h ! k) < fst (?h ! ?m)" using False by blast
      also have "\<dots> \<le> fst (?h ! i)" using min_child_props(4) [of k ?h i] c i True by (simp add: mult.commute)
      finally show ?thesis using True by simp
    next
      case False
      then show ?thesis using 1(2) i by (auto simp: ordered_except_down_def)
    qed
    then have "heap_ordered ?h" by (simp add: heap_ordered_def)
    then show ?thesis using False by (subst down_heap.simps) (auto simp: Let_def)
  qed
qed

text \<open>The first entry of an ordered heap is the earliest.\<close>

lemma heap_ordered_min: "heap_ordered h \<Longrightarrow> i < length h \<Longrightarrow> fst (h ! 0) \<le> fst (h ! i)"
proof (induction i rule: less_induct)
  case (less i)
  show ?case
  proof (cases "i = 0")
    case False
    then have "fst (h ! 0) \<le> fst (h ! parent i)" using less by auto
    also have "\<dots> \<le> fst (h ! i)" using less False by (auto simp: heap_ordered_def)
    finally show ?thesis .
  qed simp
qed

section \<open>Permutation and indices\<close>

lemma mset_swap_list: "i < length h \<Longrightarrow> j < length h \<Longrightarrow> mset (swap_list i j h) = mset h"
  by (rule mset_swap)

lemma up_heap_mset: "k < length (heap q) \<Longrightarrow> mset (heap (up_heap k q)) = mset (heap q)"
proof (induction k q rule: up_heap.induct)
  case (1 k q)
  then show ?case
    by (subst up_heap.simps) (auto simp: Let_def heap_swap_heap mset_swap_list)
qed

lemma down_heap_mset: "k < length (heap q) \<Longrightarrow> mset (heap (down_heap k q)) = mset (heap q)"
proof (induction k q rule: down_heap.induct)
  case (1 k q)
  then show ?case
    using min_child_props(2) [of k "heap q"]
    by (subst down_heap.simps) (auto simp: Let_def heap_swap_heap mset_swap_list mult.commute)
qed

text \<open>Every entry's timer knows its position.\<close>

definition coherent :: "'op timer_queue \<Rightarrow> bool" where
  "coherent q \<longleftrightarrow> (\<forall>i < length (heap q). td_heap_index (tstore q (snd (heap q ! i))) = i)"

lemma coherent_distinct: "coherent q \<Longrightarrow> distinct (map snd (heap q))"
  by (auto simp: coherent_def distinct_conv_nth) metis

lemma coherent_swap:
  assumes "coherent q" "i < length (heap q)" "j < length (heap q)"
  shows "coherent (swap_heap i j q)"
proof -
  let ?h = "heap q" and ?q = "swap_heap i j q"
  have idx: "td_heap_index (tstore q (snd (?h ! a))) = a" if "a < length ?h" for a
    using assms(1) that by (simp add: coherent_def)
  then have inj: "snd (?h ! a) = snd (?h ! b) \<Longrightarrow> a = b" if "a < length ?h" "b < length ?h" for a b
    using that by metis
  have ix: "td_heap_index (tstore ?q t)
      = (if t = snd (?h ! i) then j else if t = snd (?h ! j) then i else td_heap_index (tstore q t))" for t
    using assms(2,3) inj [of i j] by (auto simp: swap_heap_def upd_timer_def Let_def nth_list_update)
  have "td_heap_index (tstore ?q (snd (heap ?q ! a))) = a" if "a < length ?h" for a
    using assms(2,3) that inj [of a i] inj [of a j] inj [of i j] idx [of a]
    by (simp add: ix heap_swap_heap nth_list_update) metis
  then show ?thesis by (simp add: coherent_def heap_swap_heap)
qed

lemma coherent_up: "coherent q \<Longrightarrow> k < length (heap q) \<Longrightarrow> coherent (up_heap k q)"
proof (induction k q rule: up_heap.induct)
  case (1 k q)
  then show ?case
    by (subst up_heap.simps) (auto simp: Let_def heap_swap_heap coherent_swap)
qed

lemma coherent_down: "coherent q \<Longrightarrow> k < length (heap q) \<Longrightarrow> coherent (down_heap k q)"
proof (induction k q rule: down_heap.induct)
  case (1 k q)
  then show ?case
    using min_child_props(2) [of k "heap q"]
    by (subst down_heap.simps) (auto simp: Let_def heap_swap_heap coherent_swap mult.commute)
qed


text \<open>The heap operations leave the list of timers and their operations alone.\<close>

definition same_links :: "'op timer_queue \<Rightarrow> 'op timer_queue \<Rightarrow> bool" where
  "same_links q q' \<longleftrightarrow> timers q' = timers q \<and>
     (\<forall>t. td_ops (tstore q' t) = td_ops (tstore q t) \<and> td_next (tstore q' t) = td_next (tstore q t) \<and>
        td_prev (tstore q' t) = td_prev (tstore q t))"

definition same_index :: "'op timer_queue \<Rightarrow> 'op timer_queue \<Rightarrow> bool" where
  "same_index q q' \<longleftrightarrow>
     (\<forall>t. t \<notin> snd ` set (heap q) \<longrightarrow> td_heap_index (tstore q' t) = td_heap_index (tstore q t))"

lemma same_links_trans: "same_links q q' \<Longrightarrow> same_links q' q'' \<Longrightarrow> same_links q q''"
  by (simp add: same_links_def)

lemma swap_heap_frame:
  assumes "i < length (heap q)" "j < length (heap q)"
  shows "same_links q (swap_heap i j q)" "same_index q (swap_heap i j q)"
    "set (heap (swap_heap i j q)) = set (heap q)"
proof -
  have "snd (heap q ! i) \<in> snd ` set (heap q)" "snd (heap q ! j) \<in> snd ` set (heap q)"
    using assms by auto
  then show "same_links q (swap_heap i j q)" "same_index q (swap_heap i j q)"
    using assms
    by (auto simp: same_links_def same_index_def swap_heap_def upd_timer_def Let_def nth_list_update)
  show "set (heap (swap_heap i j q)) = set (heap q)"
    using mset_swap_list [OF assms] by (metis heap_swap_heap set_mset_mset)
qed

lemma up_heap_frame:
  "k < length (heap q) \<Longrightarrow> same_links q (up_heap k q) \<and> same_index q (up_heap k q)"
proof (induction k q rule: up_heap.induct)
  case (1 k q)
  show ?case
  proof (cases "0 < k \<and> fst (heap q ! k) < fst (heap q ! parent k)")
    case True
    let ?q = "swap_heap k (parent k) q"
    have p: "parent k < length (heap q)" using 1(2) by auto
    note f = swap_heap_frame [OF 1(2) p]
    have "same_links ?q (up_heap (parent k) ?q) \<and> same_index ?q (up_heap (parent k) ?q)"
      using 1(1) True p by (simp add: heap_swap_heap)
    then show ?thesis
      using f True by (subst (1 2) up_heap.simps) (auto simp: Let_def same_links_def same_index_def)
  next
    case False
    then show ?thesis by (subst (1 2) up_heap.simps) (auto simp: same_links_def same_index_def)
  qed
qed

lemma down_heap_frame:
  "k < length (heap q) \<Longrightarrow> same_links q (down_heap k q) \<and> same_index q (down_heap k q)"
proof (induction k q rule: down_heap.induct)
  case (1 k q)
  let ?h = "heap q" and ?m = "min_child (heap q) (k * 2 + 1)"
  show ?case
  proof (cases "k * 2 + 1 < length ?h \<and> \<not> fst (?h ! k) < fst (?h ! ?m)")
    case True
    let ?q = "swap_heap k ?m q"
    have m: "?m < length ?h" using min_child_props(2) [of k ?h] True by (simp add: mult.commute)
    note f = swap_heap_frame [OF 1(2) m]
    have "same_links ?q (down_heap ?m ?q) \<and> same_index ?q (down_heap ?m ?q)"
      using 1(1) True m by (simp add: heap_swap_heap)
    then show ?thesis
      using f True by (subst (1 2) down_heap.simps) (auto simp: Let_def same_links_def same_index_def)
  next
    case False
    then show ?thesis by (subst (1 2) down_heap.simps) (auto simp: same_links_def same_index_def Let_def)
  qed
qed


section \<open>Entries are inserted and removed\<close>

definition heap_wf :: "'op timer_queue \<Rightarrow> bool" where
  "heap_wf q \<longleftrightarrow> heap_ordered (heap q) \<and> coherent q"

lemma ordered_append: "heap_ordered h \<Longrightarrow> ordered_except_up (length h) (h @ [e])"
proof -
  assume o: "heap_ordered h"
  have "parent i < length h" if "i < Suc (length h)" "0 < i" for i using that by auto
  moreover have "parent i \<noteq> length h" if "i < Suc (length h)" "0 < i" for i
    using that by auto
  ultimately show ?thesis
    using o by (auto simp: ordered_except_up_def heap_ordered_def nth_append)
qed

lemma insert_entry_heap:
  fixes q :: "'op timer_queue" and never time
  assumes "heap_wf q" "t \<notin> snd ` set (heap q)"
  defines "q' \<equiv> insert_entry never time t q"
  shows "heap_wf q'"
    and "mset (heap q') = mset (heap q) + (if never time then {#} else {#(time, t)#})"
    and "same_links q q'"
    and "\<And>t'. t' \<noteq> t \<Longrightarrow> t' \<notin> snd ` set (heap q) \<Longrightarrow>
           td_heap_index (tstore q' t') = td_heap_index (tstore q t')"
    and "never time \<Longrightarrow> td_heap_index (tstore q' t) = npos"
proof -
  define q2 where "q2 = (upd_timer t (\<lambda>d. d\<lparr>td_heap_index := length (heap q)\<rparr>) q)
    \<lparr>heap := heap q @ [(time, t)]\<rparr>"
  have h2: "heap q2 = heap q @ [(time, t)]" by (simp add: q2_def)
  have t: "snd (heap q ! i) \<noteq> t" if "i < length (heap q)" for i
    using assms(2) that by (metis imageI nth_mem)
  have c2: "coherent q2"
    using assms(1) t
    by (auto simp: heap_wf_def coherent_def q2_def upd_timer_def nth_append less_Suc_eq)
  have o2: "ordered_except_up (length (heap q)) (heap q2)"
    using assms(1) by (simp add: h2 heap_wf_def ordered_append)
  have k: "length (heap q) < length (heap q2)" by (simp add: h2)
  have q': "q' = up_heap (length (heap q)) q2" if "\<not> never time"
    using that by (simp add: q'_def insert_entry_def q2_def Let_def)
  have qn: "q' = upd_timer t (\<lambda>d. d\<lparr>td_heap_index := npos\<rparr>) q" if "never time"
    using that by (simp add: q'_def insert_entry_def)
  have cn: "coherent q'" if "never time"
    using assms(1) t by (auto simp: qn [OF that] heap_wf_def coherent_def upd_timer_def)
  show "heap_wf q'"
    using up_heap_ordered [OF o2 k] coherent_up [OF c2 k] q' qn cn assms(1)
    by (cases "never time") (auto simp: heap_wf_def)
  show "mset (heap q') = mset (heap q) + (if never time then {#} else {#(time, t)#})"
    using up_heap_mset [OF k] q' qn h2 by (cases "never time") auto
  have "same_links q q2" by (simp add: same_links_def q2_def upd_timer_def)
  then show "same_links q q'"
    using up_heap_frame [OF k] q' qn
    by (cases "never time") (auto simp: same_links_def upd_timer_def)
  show "td_heap_index (tstore q' t') = td_heap_index (tstore q t')"
    if "t' \<noteq> t" "t' \<notin> snd ` set (heap q)" for t'
    using up_heap_frame [OF k] q' qn that
    by (cases "never time") (auto simp: same_index_def q2_def upd_timer_def)
  show "td_heap_index (tstore q' t) = npos" if "never time"
    by (simp add: qn [OF that] upd_timer_def)
qed

lemma ordered_butlast: "heap_ordered h \<Longrightarrow> heap_ordered (butlast h)"
proof -
  assume o: "heap_ordered h"
  have "parent i < length h - 1" if "i < length h - 1" for i using that by auto
  then show ?thesis using o by (auto simp: heap_ordered_def nth_butlast)
qed

text \<open>The last entry moved to the place of a removed one.\<close>

lemma ordered_replace:
  assumes o: "heap_ordered h" and k: "k < length h - 1"
  defines "g \<equiv> butlast (swap_list k (length h - 1) h)"
  shows "0 < k \<Longrightarrow> fst (g ! k) < fst (g ! parent k) \<Longrightarrow> ordered_except_up k g"
    and "\<not> (0 < k \<and> fst (g ! k) < fst (g ! parent k)) \<Longrightarrow> ordered_except_down k g"
proof -
  have len: "length g = length h - 1" by (simp add: g_def)
  have nth: "g ! i = (if i = k then h ! (length h - 1) else h ! i)" if "i < length g" for i
    using that k by (auto simp: g_def nth_butlast nth_list_update)
  have ord: "fst (h ! parent i) \<le> fst (h ! i)" if "0 < i" "i < length h" for i
    using o that by (simp add: heap_ordered_def)
  have plt: "parent i < length g" "parent i < i" if "0 < i" "i < length g" for i using that by auto
  have away: "fst (g ! parent i) \<le> fst (g ! i)" if "0 < i" "i < length g" "i \<noteq> k" "parent i \<noteq> k" for i
    using that ord [of i] plt [of i] by (simp add: nth len)
  have below: "fst (g ! parent k) \<le> fst (g ! i)" if "0 < i" "i < length g" "parent i = k" "0 < k" for i
  proof -
    have "i \<noteq> k" "parent k \<noteq> k" using that by auto
    moreover have "fst (h ! parent k) \<le> fst (h ! k)" "fst (h ! k) \<le> fst (h ! i)"
      using ord [of k] ord [of i] that k len by auto
    ultimately show ?thesis using that plt [of k] k by (simp add: nth len)
  qed
  show "ordered_except_up k g" if "0 < k" "fst (g ! k) < fst (g ! parent k)"
    unfolding ordered_except_up_def
  proof (intro conjI allI impI)
    fix i assume i: "0 < i" "i < length g" "i \<noteq> k"
    show "fst (g ! parent i) \<le> fst (g ! i)"
    proof (cases "parent i = k")
      case True
      then show ?thesis using below [OF i(1,2) True that(1)] that(2) by simp
    qed (use away i in blast)
  qed (use below in blast)
  show "ordered_except_down k g" if "\<not> (0 < k \<and> fst (g ! k) < fst (g ! parent k))"
    unfolding ordered_except_down_def
  proof (intro conjI allI impI)
    fix i assume i: "0 < i" "i < length g" "parent i \<noteq> k"
    show "fst (g ! parent i) \<le> fst (g ! i)"
    proof (cases "i = k")
      case True
      then show ?thesis using that i(1) by (simp add: not_less)
    qed (use away i in blast)
  qed (use below in blast)
qed


lemma mset_butlast: "xs \<noteq> [] \<Longrightarrow> mset (butlast xs) = mset xs - {#last xs#}"
  by (metis add_diff_cancel_right' append_butlast_last_id mset.simps mset_append add_mset_add_single)

text \<open>What the removal of the entry of \<open>t\<close> from the heap achieves.\<close>

definition entry_removed :: "timer_ref \<Rightarrow> 'op timer_queue \<Rightarrow> 'op timer_queue \<Rightarrow> bool" where
  "entry_removed t q q' \<longleftrightarrow>
     heap_wf q' \<and> mset (heap q') = mset (heap q) - {#heap q ! td_heap_index (tstore q t)#} \<and>
     same_links q q' \<and> td_heap_index (tstore q' t) = npos \<and>
     (\<forall>t'. t' \<notin> snd ` set (heap q) \<longrightarrow> td_heap_index (tstore q' t') = td_heap_index (tstore q t'))"

lemma coherent_only:
  "coherent q \<Longrightarrow> i < length (heap q) \<Longrightarrow> snd (heap q ! i) = t \<Longrightarrow> i = td_heap_index (tstore q t)"
  by (auto simp: coherent_def)

lemma remove_last_entry:
  assumes wf: "heap_wf q" and k: "td_heap_index (tstore q t) = length (heap q) - 1" "heap q \<noteq> []"
    and t: "snd (heap q ! td_heap_index (tstore q t)) = t"
  shows "entry_removed t q
    ((upd_timer t (\<lambda>d. d\<lparr>td_heap_index := npos\<rparr>) q)\<lparr>heap := butlast (heap q)\<rparr>)"
proof -
  let ?h = "heap q"
  let ?q' = "(upd_timer t (\<lambda>d. d\<lparr>td_heap_index := npos\<rparr>) q)\<lparr>heap := butlast (heap q)\<rparr>"
  have coh: "coherent q" using wf by (simp add: heap_wf_def)
  have "length ?h - 1 < length ?h" using k(2) by simp
  then have tin: "t \<in> snd ` set ?h" using k(1) t by (metis imageI nth_mem)
  have "snd (?h ! i) \<noteq> t" if "i < length ?h - 1" for i
    using coherent_only [OF coh, of i t] that k(1) by fastforce
  then have "coherent ?q'"
    using coh by (auto simp: coherent_def upd_timer_def nth_butlast)
  moreover have "mset (butlast ?h) = mset ?h - {#?h ! td_heap_index (tstore q t)#}"
    using mset_butlast [OF k(2)] k by (simp add: last_conv_nth)
  ultimately show ?thesis
    using ordered_butlast [of ?h] tin wf
    by (auto simp: entry_removed_def heap_wf_def same_links_def upd_timer_def)
qed

text \<open>The state after the swap with the last entry and the removal of that.\<close>

lemma swap_out_entry:
  assumes coh: "coherent q" and k: "k < length (heap q)" "snd (heap q ! k) = t"
  defines "s \<equiv> swap_heap k (length (heap q) - 1) q"
  defines "q2 \<equiv> (upd_timer t (\<lambda>d. d\<lparr>td_heap_index := npos\<rparr>) s)\<lparr>heap := butlast (heap s)\<rparr>"
  shows "coherent q2" "t \<notin> snd ` set (heap q2)" "mset (heap q2) = mset (heap q) - {#heap q ! k#}"
    "same_links q q2" "td_heap_index (tstore q2 t) = npos"
    "\<And>t'. t' \<notin> snd ` set (heap q) \<Longrightarrow> td_heap_index (tstore q2 t') = td_heap_index (tstore q t')"
proof -
  let ?h = "heap q" and ?n = "length (heap q) - 1"
  have n: "?n < length ?h" using k by auto
  have hs: "heap s = swap_list k ?n ?h" by (simp add: s_def heap_swap_heap)
  have len: "length (heap s) = length ?h" by (simp add: hs)
  have cs: "coherent s" unfolding s_def by (rule coherent_swap [OF coh k(1) n])
  have last: "heap s ! ?n = ?h ! k" using n by (simp add: hs)
  have "?n = td_heap_index (tstore s t)"
    by (rule coherent_only [OF cs]) (use n last k len in simp_all)
  then have away: "snd (heap s ! i) \<noteq> t" if "i < ?n" for i
    using coherent_only [OF cs, of i t] that n len by auto
  then show "coherent q2"
    using cs by (auto simp: coherent_def q2_def upd_timer_def nth_butlast len)
  show "t \<notin> snd ` set (heap q2)"
    using away by (fastforce simp: q2_def in_set_conv_nth nth_butlast len)
  have "heap s \<noteq> []" using n len by auto
  moreover have "last (heap s) = ?h ! k" using last calculation len by (simp add: last_conv_nth)
  ultimately show "mset (heap q2) = mset ?h - {#?h ! k#}"
    using mset_butlast [of "heap s"] mset_swap_list [OF k(1) n] by (simp add: q2_def hs)
  show "same_links q q2" "td_heap_index (tstore q2 t) = npos"
    using swap_heap_frame(1) [OF k(1) n] by (simp_all add: q2_def same_links_def upd_timer_def s_def)
  have "t \<in> snd ` set ?h" using k by (metis imageI nth_mem)
  then show "td_heap_index (tstore q2 t') = td_heap_index (tstore q t')" if "t' \<notin> snd ` set ?h" for t'
    using swap_heap_frame(2) [OF k(1) n] that by (auto simp: q2_def same_index_def upd_timer_def s_def)
qed

lemma remove_entry_heap:
  fixes q :: "'op timer_queue"
  assumes wf: "heap_wf q" and k: "td_heap_index (tstore q t) < length (heap q)"
    and t: "snd (heap q ! td_heap_index (tstore q t)) = t"
  shows "entry_removed t q (remove_entry t q)"
proof (cases "td_heap_index (tstore q t) = length (heap q) - 1")
  case True
  then show ?thesis
    using remove_last_entry [OF wf True _ t] k by (auto simp: remove_entry_def Let_def)
next
  case False
  define k where "k = td_heap_index (tstore q t)"
  define s where "s = swap_heap k (length (heap q) - 1) q"
  define q2 where "q2 = (upd_timer t (\<lambda>d. d\<lparr>td_heap_index := npos\<rparr>) s)\<lparr>heap := butlast (heap s)\<rparr>"
  let ?q' = "remove_entry t q"
  have kn: "k < length (heap q) - 1" using k False by (simp add: k_def)
  have h2: "heap q2 = butlast (swap_list k (length (heap q) - 1) (heap q))"
    by (simp add: q2_def s_def heap_swap_heap)
  have k2: "k < length (heap q2)" using kn by (simp add: h2)
  have q': "?q' = (if 0 < k \<and> fst (heap q2 ! k) < fst (heap q2 ! parent k)
      then up_heap k q2 else down_heap k q2)"
    using False k by (auto simp: remove_entry_def q2_def s_def k_def Let_def)
  note so = swap_out_entry [of q k t, folded s_def, folded q2_def]
  have o: "heap_ordered (heap ?q')"
    using ordered_replace [of "heap q" k] up_heap_ordered [OF _ k2] down_heap_ordered [of k q2] wf kn
    by (simp add: q' heap_wf_def h2)
  have frame: "same_links q2 ?q'" "same_index q2 ?q'" "mset (heap ?q') = mset (heap q2)"
    using up_heap_frame [OF k2] down_heap_frame [OF k2] up_heap_mset [OF k2] down_heap_mset [OF k2]
    by (auto simp: q')
  have pre: "coherent q" "k < length (heap q)" "snd (heap q ! k) = t"
    using wf k t by (auto simp: heap_wf_def k_def)
  have c: "coherent ?q'" using coherent_up [OF so(1) k2] coherent_down [OF so(1) k2] pre by (simp add: q')
  have sub: "set (heap q2) \<subseteq> set (heap q)"
    using so(3) pre by (metis diff_subset_eq_self mset_subset_eqD set_mset_mset subsetI)
  then have "td_heap_index (tstore ?q' t') = td_heap_index (tstore q t')" if "t' \<notin> snd ` set (heap q)" for t'
    using frame(2) so(6) [OF pre that] that by (metis (no_types, lifting) image_mono same_index_def subsetD)
  then show ?thesis
    using o c so [OF pre] frame same_links_trans [of q q2 ?q']
    by (auto simp: entry_removed_def heap_wf_def same_index_def k_def)
qed


section \<open>The list of active timers\<close>

abbreviation dll :: "(timer_ref \<Rightarrow> 'op per_timer_data) \<Rightarrow> timer_ref option \<Rightarrow> timer_ref option
    \<Rightarrow> timer_ref list \<Rightarrow> timer_ref option \<Rightarrow> bool" where
  "dll st \<equiv> dseg (\<lambda>x. td_next (st x)) (\<lambda>x. td_prev (st x))"

lemma dll_cong:
  "(\<And>x. x \<in> set xs \<Longrightarrow> td_next (st' x) = td_next (st x) \<and> td_prev (st' x) = td_prev (st x)) \<Longrightarrow>
     dll st' pv p xs e = dll st pv p xs e"
  by (rule dseg_cong) simp

definition active_list :: "'op timer_queue \<Rightarrow> timer_ref list \<Rightarrow> bool" where
  "active_list q xs \<longleftrightarrow>
     dll (tstore q) None (timers q) xs None \<and> distinct xs \<and>
     (\<forall>t. t \<notin> set xs \<longrightarrow> td_prev (tstore q t) = None)"

lemma timer_active_iff: "active_list q xs \<Longrightarrow> timer_active q t \<longleftrightarrow> t \<in> set xs"
proof -
  assume a: "active_list q xs"
  have "timers q \<noteq> Some t" if "t \<notin> set xs"
    using a that by (cases xs) (auto simp: active_list_def)
  then show ?thesis
    using a dseg_prev [of "\<lambda>x. td_next (tstore q x)" "\<lambda>x. td_prev (tstore q x)" None "timers q" xs None t]
    by (auto simp: timer_active_def active_list_def)
qed

lemma active_list_cong: "same_links q q' \<Longrightarrow> active_list q' xs = active_list q xs"
  using dll_cong [of xs "tstore q'" "tstore q"] by (simp add: same_links_def active_list_def)

text \<open>Linking and unlinking touch neither the heap nor the operations.\<close>

definition same_entries :: "'op timer_queue \<Rightarrow> 'op timer_queue \<Rightarrow> bool" where
  "same_entries q q' \<longleftrightarrow> heap q' = heap q \<and>
     (\<forall>t. td_ops (tstore q' t) = td_ops (tstore q t) \<and>
        td_heap_index (tstore q' t) = td_heap_index (tstore q t))"

lemma link_timer_entries: "same_entries q (link_timer t q)"
  by (auto simp: same_entries_def link_timer_def upd_timer_opt_def upd_timer_def Let_def split: option.splits)

lemma unlink_timer_entries: "same_entries q (unlink_timer t q)"
  by (auto simp: same_entries_def unlink_timer_def upd_timer_opt_def upd_timer_def Let_def split: option.splits)

lemma link_timer_active:
  assumes "active_list q xs" "t \<notin> set xs"
  shows "active_list (link_timer t q) (t # xs)"
proof -
  have d: "dll (tstore q) None (timers q) xs None" and dist: "distinct xs"
    using assms(1) by (simp_all add: active_list_def)
  have t: "timers q \<noteq> Some t" using d assms(2) by (cases xs) auto
  have st: "td_next (tstore (link_timer t q) x) = (if x = t then timers q else td_next (tstore q x))"
    "td_prev (tstore (link_timer t q) x)
       = (if timers q = Some x then Some t else if x = t then None else td_prev (tstore q x))" for x
    using t by (auto simp: link_timer_def upd_timer_opt_def upd_timer_def Let_def split: option.splits)
  have "dll (tstore (link_timer t q)) None (Some t) (t # xs) None"
    using d dist assms(2) by (rule dseg_push) (use assms(2) t in \<open>auto simp: st\<close>)
  moreover have "timers (link_timer t q) = Some t" by (simp add: link_timer_def Let_def)
  moreover have "td_prev (tstore (link_timer t q) x) = None" if "x \<notin> set (t # xs)" for x
    using that assms(1) d by (cases xs) (auto simp: st active_list_def)
  ultimately show ?thesis using dist assms(2) by (simp add: active_list_def)
qed

lemma unlink_timer_active:
  assumes a: "active_list q (xs @ t # ys)"
  shows "active_list (unlink_timer t q) (xs @ ys)"
proof -
  let ?st = "tstore q" and ?st' = "tstore (unlink_timer t q)"
  have d: "dll ?st None (timers q) (xs @ t # ys) None" and dist: "distinct (xs @ t # ys)"
    using a by (simp_all add: active_list_def)
  have prev: "td_prev (?st t) = last_or None xs" and nxt: "td_next (?st t) = hd_or None ys"
    using d by (auto simp: dseg_append dest: dseg_head)
  have away: "td_prev (?st t) \<noteq> Some t" "td_next (?st t) \<noteq> Some t"
    "td_prev (?st t) = Some z \<Longrightarrow> td_next (?st t) \<noteq> Some z" for z
    using prev nxt dist by (auto simp: last_or_def hd_or_def split: if_splits list.splits)
  have st: "td_next (?st' x) = (if x = t then None else if td_prev (?st t) = Some x then td_next (?st t) else td_next (?st x))"
    "td_prev (?st' x) = (if x = t then None else if td_next (?st t) = Some x then td_prev (?st t) else td_prev (?st x))"
    "timers (unlink_timer t q) = (if timers q = Some t then td_next (?st t) else timers q)" for x
    using away
    by (cases "td_prev (?st t)"; cases "td_next (?st t)";
        auto simp: unlink_timer_def upd_timer_opt_def upd_timer_def Let_def)+
  have "dll ?st' None (timers (unlink_timer t q)) (xs @ ys) None"
    unfolding st(3) using d dist by (rule dseg_unlink) (simp_all add: st)
  moreover have "td_prev (?st' x) = None" if "x \<notin> set (xs @ ys)" for x
    using that a nxt by (cases ys) (auto simp: st active_list_def)
  ultimately show ?thesis using dist by (simp add: active_list_def)
qed

section \<open>Well-formed timer queues\<close>

definition tq_wf :: "'op timer_queue \<Rightarrow> timer_ref list \<Rightarrow> bool" where
  "tq_wf q xs \<longleftrightarrow> heap_wf q \<and> active_list q xs \<and> length (heap q) \<le> npos \<and>
     snd ` set (heap q) \<subseteq> set xs \<and>
     (\<forall>t \<in> set xs. t \<notin> snd ` set (heap q) \<longrightarrow> td_heap_index (tstore q t) = npos)"

lemma heap_wf_cong: "same_entries q q' \<Longrightarrow> heap_wf q' = heap_wf q"
  by (auto simp: same_entries_def heap_wf_def coherent_def)

lemma upd_ops_index [simp]:
  "td_heap_index (tstore (upd_timer t (\<lambda>d. d\<lparr>td_ops := f d\<rparr>) q) t') = td_heap_index (tstore q t')"
  "td_next (tstore (upd_timer t (\<lambda>d. d\<lparr>td_ops := f d\<rparr>) q) t') = td_next (tstore q t')"
  "td_prev (tstore (upd_timer t (\<lambda>d. d\<lparr>td_ops := f d\<rparr>) q) t') = td_prev (tstore q t')"
  "timers (upd_timer t f' q) = timers q"
  by (simp_all add: upd_timer_def)

lemma heap_wf_ops: "heap_wf (upd_timer t (\<lambda>d. d\<lparr>td_ops := f d\<rparr>) q) = heap_wf q"
  by (simp add: heap_wf_def coherent_def)

lemma same_links_active_ops: "active_list (upd_timer t (\<lambda>d. d\<lparr>td_ops := f d\<rparr>) q) xs = active_list q xs"
  using dll_cong [of xs "tstore (upd_timer t (\<lambda>d. d\<lparr>td_ops := f d\<rparr>) q)" "tstore q"]
  by (simp add: active_list_def)

lemma tq_wf_ops: "tq_wf (upd_timer t (\<lambda>d. d\<lparr>td_ops := f d\<rparr>) q) xs = tq_wf q xs"
  by (simp add: tq_wf_def heap_wf_ops same_links_active_ops)

lemma heap_entry_at: "coherent q \<Longrightarrow> (time, t) \<in> set (heap q) \<Longrightarrow>
    td_heap_index (tstore q t) < length (heap q) \<and> heap q ! td_heap_index (tstore q t) = (time, t)"
  by (force simp: coherent_def in_set_conv_nth)

lemma filter_mset_distinct_snd:
  "distinct (map snd h) \<Longrightarrow> (time, t) \<in> set h \<Longrightarrow>
     filter_mset (\<lambda>e. snd e \<noteq> t) (mset h) = mset h - {#(time, t)#}"
proof (induction h)
  case (Cons e h)
  show ?case
  proof (cases "e = (time, t)")
    case True
    then have "filter_mset (\<lambda>e. snd e \<noteq> t) (mset h) = mset h"
      using Cons.prems(1) by (auto simp: filter_mset_eq_conv intro!: filter_mset_cong [THEN trans])
    then show ?thesis using True by simp
  next
    case False
    then have "(time, t) \<in> set h" using Cons.prems(2) by simp
    moreover have "t \<in> snd ` set h" using calculation by force
    then have "snd e \<noteq> t" using Cons.prems(1) by auto
    ultimately show ?thesis using Cons False by simp
  qed
qed simp

lemma remove_timer_wf:
  assumes wf: "tq_wf q (xs @ t # ys)"
  shows "tq_wf (remove_timer t q) (xs @ ys)"
    and "mset (heap (remove_timer t q)) = filter_mset (\<lambda>e. snd e \<noteq> t) (mset (heap q))"
    and "td_ops (tstore (remove_timer t q) t') = td_ops (tstore q t')"
proof -
  let ?e = "remove_entry t q" and ?q' = "remove_timer t q"
  have hw: "heap_wf q" and al: "active_list q (xs @ t # ys)" using wf by (auto simp: tq_wf_def)
  have ent: "same_entries ?e ?q'" unfolding remove_timer_def by (rule unlink_timer_entries)
  have e: "heap_wf ?e \<and> same_links q ?e \<and> mset (heap ?e) = filter_mset (\<lambda>e. snd e \<noteq> t) (mset (heap q)) \<and>
      (\<forall>t'. t' \<notin> snd ` set (heap q) \<longrightarrow> td_heap_index (tstore ?e t') = td_heap_index (tstore q t'))"
  proof (cases "t \<in> snd ` set (heap q)")
    case True
    then obtain time where tm: "(time, t) \<in> set (heap q)" by auto
    have coh: "coherent q" using hw by (simp add: heap_wf_def)
    note at = heap_entry_at [OF coh tm]
    have "entry_removed t q ?e" using at by (intro remove_entry_heap [OF hw]) auto
    then show ?thesis
      using at filter_mset_distinct_snd [OF coherent_distinct [OF coh] tm]
      by (auto simp: entry_removed_def)
  next
    case False
    then have "td_heap_index (tstore q t) = npos" using wf by (auto simp: tq_wf_def)
    then have "?e = q" using wf by (auto simp: remove_entry_def tq_wf_def)
    moreover have "filter_mset (\<lambda>e. snd e \<noteq> t) (mset (heap q)) = mset (heap q)"
      using False by (auto simp: filter_mset_eq_conv)
    ultimately show ?thesis using hw by (auto simp: same_links_def)
  qed
  then have "active_list ?e (xs @ t # ys)" using al active_list_cong by blast
  then have al': "active_list ?q' (xs @ ys)" unfolding remove_timer_def by (rule unlink_timer_active)
  show m: "mset (heap ?q') = filter_mset (\<lambda>e. snd e \<noteq> t) (mset (heap q))"
    using e ent by (simp add: same_entries_def)
  show "td_ops (tstore ?q' t') = td_ops (tstore q t')"
    using e ent by (simp add: same_entries_def same_links_def)
  have set: "set (heap ?q') = {e \<in> set (heap q). snd e \<noteq> t}"
    using arg_cong [OF m, of set_mset] by simp
  have "length (heap ?q') \<le> length (heap q)"
    using m by (metis size_filter_mset_lesseq size_mset)
  then have "length (heap ?q') \<le> npos" using wf by (simp add: tq_wf_def)
  moreover have "snd ` set (heap ?q') \<subseteq> set (xs @ ys)" using wf by (auto simp: set tq_wf_def)
  moreover have "td_heap_index (tstore ?q' t') = npos"
    if "t' \<in> set (xs @ ys)" "t' \<notin> snd ` set (heap ?q')" for t'
  proof -
    have "t' \<noteq> t" using that(1) al by (auto simp: active_list_def)
    then have "t' \<notin> snd ` set (heap q)" using that(2) by (auto simp: set)
    then show ?thesis using e ent wf that(1) by (auto simp: same_entries_def tq_wf_def)
  qed
  ultimately show "tq_wf ?q' (xs @ ys)"
    using e al' heap_wf_cong [OF ent] by (simp add: tq_wf_def)
qed


lemma enqueue_timer_wf:
  fixes q :: "'op timer_queue" and never time t op
  assumes wf: "tq_wf q xs" and room: "length (heap q) < npos"
  defines "q' \<equiv> snd (enqueue_timer never time t op q)"
  shows "tq_wf q' (if t \<in> set xs then xs else t # xs)"
    and "mset (heap q') = mset (heap q) + (if t \<in> set xs \<or> never time then {#} else {#(time, t)#})"
    and "td_ops (tstore q' t') = td_ops (tstore q t') @ (if t' = t then [op] else [])"
proof -
  let ?i = "insert_entry never time t q"
  let ?l = "link_timer t ?i"
  define q1 where "q1 = (if t \<in> set xs then q else ?l)"
  have act: "timer_active q t \<longleftrightarrow> t \<in> set xs"
    using timer_active_iff wf by (auto simp: tq_wf_def)
  have q': "q' = upd_timer t (\<lambda>d. d\<lparr>td_ops := td_ops d @ [op]\<rparr>) q1"
    using act by (auto simp: q'_def enqueue_timer_def q1_def Let_def)
  have tq1: "tq_wf q1 (if t \<in> set xs then xs else t # xs)
      \<and> mset (heap q1) = mset (heap q) + (if t \<in> set xs \<or> never time then {#} else {#(time, t)#})
      \<and> (\<forall>t'. td_ops (tstore q1 t') = td_ops (tstore q t'))"
  proof (cases "t \<in> set xs")
    case False
    have hw: "heap_wf q" and al: "active_list q xs" using wf by (auto simp: tq_wf_def)
    have nt: "t \<notin> snd ` set (heap q)" using wf False by (auto simp: tq_wf_def)
    note ins = insert_entry_heap [where never = never and time = time, OF hw nt]
    have ent: "same_entries ?i ?l" by (rule link_timer_entries)
    have al': "active_list ?l (t # xs)"
      using al active_list_cong [OF ins(3)] False by (intro link_timer_active) auto
    have set: "set (heap ?i) = set (heap q) \<union> (if never time then {} else {(time, t)})"
      using arg_cong [OF ins(2), of set_mset] by auto
    have len: "length (heap ?i) \<le> npos"
      using arg_cong [OF ins(2), of size] room by (auto split: if_splits)
    have idx: "td_heap_index (tstore ?l t') = npos"
      if "t' \<in> set (t # xs)" "t' \<notin> snd ` set (heap ?l)" for t'
    proof (cases "t' = t")
      case True
      then show ?thesis using ins(5) that ent by (auto simp: set same_entries_def split: if_splits)
    next
      case False
      then have "t' \<notin> snd ` set (heap q)" using that(2) ent by (auto simp: set same_entries_def)
      then show ?thesis using ins(4) [OF False] wf that(1) False ent by (auto simp: tq_wf_def same_entries_def)
    qed
    have "snd ` set (heap ?l) \<subseteq> set (t # xs)"
      using wf ent by (auto simp: tq_wf_def same_entries_def set split: if_splits)
    then show ?thesis
      using False ins ent al' len idx heap_wf_cong [OF ent]
      by (simp add: q1_def tq_wf_def same_entries_def same_links_def)
  qed (use wf in \<open>simp add: q1_def\<close>)
  then show "tq_wf q' (if t \<in> set xs then xs else t # xs)"
    unfolding q' tq_wf_ops by simp
  show "mset (heap q') = mset (heap q) + (if t \<in> set xs \<or> never time then {#} else {#(time, t)#})"
    using tq1 by (simp add: q')
  show "td_ops (tstore q' t') = td_ops (tstore q t') @ (if t' = t then [op] else [])"
    using tq1 by (simp add: q' upd_timer_def)
qed

section \<open>Expired timers\<close>

text \<open>
  The abstract queue: which timer expires when. \<open>get_ready_timers\<close> on it hands over the timers
  that are due, earliest first.
\<close>

lemma heap_wf_head_min:
  "heap_wf q \<Longrightarrow> (time, t) \<in> set (heap q) \<Longrightarrow> fst (heap q ! 0) \<le> time"
  by (auto simp: heap_wf_def in_set_conv_nth dest: heap_ordered_min)

definition ready_result ::
  "int \<Rightarrow> 'op timer_queue \<Rightarrow> 'op timer_queue \<Rightarrow> 'op list \<Rightarrow> timer_ref list \<Rightarrow> (int \<times> timer_ref) list \<Rightarrow> bool" where
  "ready_result now q q' ops ts es \<longleftrightarrow>
     ts = map snd es \<and> sorted (map fst es) \<and>
     mset es = filter_mset (\<lambda>e. fst e \<le> now) (mset (heap q)) \<and>
     mset (heap q') = filter_mset (\<lambda>e. now < fst e) (mset (heap q)) \<and>
     ops = concat (map (\<lambda>t. td_ops (tstore q t)) ts)"

lemma ready_loop_result:
  assumes "tq_wf q xs"
  shows "\<exists>q' os us es xs'. ready_loop now q ops ts = Some (q', ops @ os, ts @ us) \<and>
    tq_wf q' xs' \<and> ready_result now q q' os us es"
  using assms
proof (induction "length (heap q)" arbitrary: q xs ops ts rule: less_induct)
  case less
  have hw: "heap_wf q" using less.prems by (simp add: tq_wf_def)
  show ?case
  proof (cases "heap q = [] \<or> now < fst (heap q ! 0)")
    case True
    then have late: "now < fst e" if "e \<in> set (heap q)" for e
      using heap_wf_head_min [OF hw, of "fst e" "snd e"] that by (cases "heap q = []") auto
    then have "filter_mset (\<lambda>e. fst e \<le> now) (mset (heap q)) = {#}"
      "filter_mset (\<lambda>e. now < fst e) (mset (heap q)) = mset (heap q)"
      by (fastforce simp: filter_mset_eq_conv)+
    then have "ready_result now q q [] [] []" by (simp add: ready_result_def)
    then show ?thesis
      using True less.prems by (subst ready_loop.simps) fastforce
  next
    case False
    then obtain time t where h0: "heap q ! 0 = (time, t)" "(time, t) \<in> set (heap q)" "time \<le> now"
      by (metis fst_conv length_greater_0_conv linorder_not_le nth_mem prod.exhaust)
    define q1 where "q1 = upd_timer t (\<lambda>d. d\<lparr>td_ops := []\<rparr>) q"
    define q2 where "q2 = remove_timer t q1"
    have "t \<in> set xs" using less.prems h0(2) by (force simp: tq_wf_def)
    then obtain as bs where xs: "xs = as @ t # bs" by (auto dest: split_list)
    have w1: "tq_wf q1 (as @ t # bs)" using less.prems xs by (simp add: q1_def tq_wf_ops)
    note rm = remove_timer_wf [OF w1, folded q2_def]
    have hq1: "heap q1 = heap q" by (simp add: q1_def)
    have dist: "distinct (map snd (heap q))" using hw coherent_distinct by (auto simp: heap_wf_def)
    have m2: "mset (heap q2) = mset (heap q) - {#(time, t)#}"
      using rm(2) filter_mset_distinct_snd [OF dist h0(2)] by (simp add: hq1)
    then have m: "mset (heap q) = add_mset (time, t) (mset (heap q2))" using h0(2) by simp
    then have "length (heap q2) < length (heap q)" by (metis lessI size_add_mset size_mset)
    from less.hyps [OF this rm(1)] obtain q' os us es xs'
      where IH: "ready_loop now q2 (ops @ td_ops (tstore q t)) (ts @ [t])
          = Some (q', (ops @ td_ops (tstore q t)) @ os, (ts @ [t]) @ us)"
        "tq_wf q' xs'" "ready_result now q2 q' os us es"
      by blast
    have es: "e \<in> set (heap q2)" if "e \<in> set es" for e
    proof -
      have "mset es = filter_mset (\<lambda>e. fst e \<le> now) (mset (heap q2))"
        using IH(3) by (simp add: ready_result_def)
      then have "e \<in># filter_mset (\<lambda>e. fst e \<le> now) (mset (heap q2))" using that by (metis set_mset_mset)
      then show ?thesis by simp
    qed
    have "snd e \<noteq> t" if "e \<in> set (heap q2)" for e
      using that arg_cong [OF rm(2), of set_mset] by auto
    then have "td_ops (tstore q2 (snd e)) = td_ops (tstore q (snd e))" if "e \<in> set es" for e
      using rm(3) [of "snd e"] es [OF that] by (simp add: q1_def upd_timer_def)
    then have os: "concat (map (\<lambda>e. td_ops (tstore q2 (snd e))) es)
        = concat (map (\<lambda>e. td_ops (tstore q (snd e))) es)"
      by (simp cong: map_cong)
    have "time \<le> fst e" if "e \<in> set es" for e
    proof -
      have "e \<in> set (heap q)" using es [OF that] arg_cong [OF m, of set_mset] by simp
      then show ?thesis using heap_wf_head_min [OF hw, of "fst e" "snd e"] h0(1) by simp
    qed
    then have "ready_result now q q' (td_ops (tstore q t) @ os) (t # us) ((time, t) # es)"
      using IH(3) h0(3) os by (auto simp: ready_result_def m comp_def)
    moreover have "ready_loop now q ops ts = ready_loop now q2 (ops @ td_ops (tstore q t)) (ts @ [t])"
      using False h0(1) by (subst ready_loop.simps) (simp add: q1_def q2_def Let_def)
    ultimately show ?thesis using IH(1,2) by auto
  qed
qed


section \<open>Cancelling, moving, clearing\<close>

lemma cancel_loop_eq:
  "n \<le> m \<Longrightarrow> cancel_loop abort m n ops out
     = (n + min (m - n) (length ops), drop (m - n) ops, out @ map abort (take (m - n) ops))"
proof (induction ops arbitrary: n out)
  case (Cons op ops)
  show ?case
  proof (cases "n = m")
    case False
    then have "m - n = Suc (m - Suc n)" using Cons.prems by simp
    then show ?thesis using Cons.IH [of "Suc n"] Cons.prems False by simp
  qed simp
qed simp

lemma cancel_timer_wf:
  assumes wf: "tq_wf q xs" and c: "cancel_timer abort t m q out = (n, q', out')"
  shows "\<exists>xs'. tq_wf q' xs'"
    and "mset (heap q') = (if t \<in> set xs \<and> length (td_ops (tstore q t)) \<le> m
           then filter_mset (\<lambda>e. snd e \<noteq> t) (mset (heap q)) else mset (heap q))"
    and "n = (if t \<in> set xs then min m (length (td_ops (tstore q t))) else 0)"
    and "out' = out @ (if t \<in> set xs then map abort (take m (td_ops (tstore q t))) else [])"
proof -
  let ?ops = "td_ops (tstore q t)"
  let ?q1 = "upd_timer t (\<lambda>d. d\<lparr>td_ops := drop m ?ops\<rparr>) q"
  have act: "timer_active q t \<longleftrightarrow> t \<in> set xs"
    using timer_active_iff wf by (auto simp: tq_wf_def)
  have eq: "(n, q', out') = (if t \<in> set xs
      then (min m (length ?ops), if length ?ops \<le> m then remove_timer t ?q1 else ?q1,
            out @ map abort (take m ?ops))
      else (0, q, out))"
    using c act cancel_loop_eq [of 0 m abort ?ops out]
    by (auto simp: cancel_timer_def Let_def min_def split: if_splits)
  have w1: "tq_wf ?q1 xs" using wf by (simp add: tq_wf_ops)
  have rm: "\<exists>xs'. tq_wf (remove_timer t ?q1) xs'"
    "mset (heap (remove_timer t ?q1)) = filter_mset (\<lambda>e. snd e \<noteq> t) (mset (heap q))" if t: "t \<in> set xs"
  proof -
    obtain as bs where "xs = as @ t # bs" using t by (auto dest: split_list)
    then show "\<exists>xs'. tq_wf (remove_timer t ?q1) xs'"
      "mset (heap (remove_timer t ?q1)) = filter_mset (\<lambda>e. snd e \<noteq> t) (mset (heap q))"
      using remove_timer_wf [of ?q1 as t bs] w1 by auto
  qed
  show "\<exists>xs'. tq_wf q' xs'" using eq wf w1 rm(1) by (auto split: if_splits)
  show "mset (heap q') = (if t \<in> set xs \<and> length ?ops \<le> m
      then filter_mset (\<lambda>e. snd e \<noteq> t) (mset (heap q)) else mset (heap q))"
    using eq rm(2) by (auto split: if_splits)
  show "n = (if t \<in> set xs then min m (length ?ops) else 0)"
    "out' = out @ (if t \<in> set xs then map abort (take m ?ops) else [])"
    using eq by (auto split: if_splits)
qed

lemma all_loop_returns:
  "dll (tstore q) pv (timers q) xs None \<Longrightarrow> distinct xs \<Longrightarrow>
     \<exists>q'. all_loop q ops = Some (q', ops @ concat (map (\<lambda>t. td_ops (tstore q t)) xs)) \<and>
          timers q' = None \<and> heap q' = heap q"
proof (induction xs arbitrary: q pv ops)
  case Nil
  then show ?case by (subst all_loop.simps) simp
next
  case (Cons x xs)
  let ?q1 = "upd_timer x (\<lambda>d. d\<lparr>td_ops := [], td_next := None, td_prev := None\<rparr>)
    (q\<lparr>timers := td_next (tstore q x)\<rparr>)"
  have st: "tstore ?q1 y = tstore q y" if "y \<in> set xs" for y
    using that Cons.prems(2) by (auto simp: upd_timer_def)
  have "dll (tstore ?q1) (Some x) (timers ?q1) xs None"
    using Cons.prems(1) dll_cong [of xs "tstore ?q1" "tstore q"] st by (simp add: upd_timer_def)
  moreover have "map (\<lambda>t. td_ops (tstore ?q1 t)) xs = map (\<lambda>t. td_ops (tstore q t)) xs"
    using st by simp
  ultimately show ?case
    using Cons.IH [of ?q1 "Some x" "ops @ td_ops (tstore q x)"] Cons.prems
    by (subst all_loop.simps) (simp cong: map_cong)
qed


section \<open>What the timer queue guarantees\<close>

lemma new_timer_queue_wf: "tq_wf (new_timer_queue (\<lambda>_. new_per_timer_data)) []"
  by (simp add: tq_wf_def new_timer_queue_def heap_wf_def heap_ordered_def coherent_def active_list_def
      new_per_timer_data_def)

text \<open>Four timers, enqueued out of order, two of them at the same time.\<close>

definition demo_timers :: "(int \<times> timer_ref \<times> string) list" where
  "demo_timers = [(50, 1, ''a''), (20, 2, ''b''), (70, 3, ''c''), (20, 4, ''d'')]"

definition demo_enqueue :: "(int \<times> timer_ref \<times> string) list \<Rightarrow> string timer_queue \<Rightarrow> string timer_queue" where
  "demo_enqueue = fold (\<lambda>(time, t, op) q. snd (enqueue_timer (\<lambda>_. False) time t op q))"

definition demo_queue :: "string timer_queue" where
  "demo_queue = demo_enqueue demo_timers (new_timer_queue (\<lambda>_. new_per_timer_data))"

lemma demo_queue_wf: "\<exists>xs. tq_wf demo_queue xs"
proof -
  have step: "\<exists>xs'. tq_wf (snd (enqueue_timer (\<lambda>_. False) time t op q)) xs' \<and>
      length (heap (snd (enqueue_timer (\<lambda>_. False) time t op q))) \<le> Suc (length (heap q))"
    if "tq_wf q xs" "length (heap q) < npos" for time t q xs and op :: string
    using enqueue_timer_wf(1) [OF that, of "\<lambda>_. False" time t op]
      arg_cong [OF enqueue_timer_wf(2) [OF that, of "\<lambda>_. False" time t op], of size]
    by (auto split: if_splits)
  have "\<exists>xs. tq_wf (demo_enqueue ds q) xs"
    if "tq_wf q xs" "length (heap q) + length ds < npos" for ds q xs
    using that
  proof (induction ds arbitrary: q xs)
    case (Cons d ds)
    obtain time t op where d: "d = (time, t, op)" by (cases d)
    let ?q = "snd (enqueue_timer (\<lambda>_. False) time t op q)"
    obtain xs' where "tq_wf ?q xs'" "length (heap ?q) \<le> Suc (length (heap q))"
      using step [of q xs time t op] Cons.prems by auto
    then show ?case using Cons.IH [of ?q xs'] Cons.prems(2) by (simp add: demo_enqueue_def d)
  qed (auto simp: demo_enqueue_def)
  from this [OF new_timer_queue_wf] show ?thesis
    by (simp add: demo_queue_def demo_timers_def new_timer_queue_def npos_def)
qed

text \<open>
  Adding a wait to a timer keeps the queue well-formed (the heap ordered, every timer's stored
  index correct, the linked list intact): a timer that was not active gets exactly one entry in
  the heap, unless it never expires, and the operation is appended to the timer's operations.
\<close>

theorem enqueue_timer_correct:
  assumes "tq_wf q xs" "length (heap q) < npos"
  shows "tq_wf (snd (enqueue_timer never time t op q)) (if t \<in> set xs then xs else t # xs) \<and>
    mset (heap (snd (enqueue_timer never time t op q)))
      = mset (heap q) + (if t \<in> set xs \<or> never time then {#} else {#(time, t)#}) \<and>
    td_ops (tstore (snd (enqueue_timer never time t op q)) t') = td_ops (tstore q t') @ (if t' = t then [op] else [])"
  using enqueue_timer_wf [OF assms] by blast

theorem enqueue_timer_correct_witness:
  "mset (heap (snd (enqueue_timer (\<lambda>_. False) 7 1 ''a'' (new_timer_queue (\<lambda>_. new_per_timer_data)))))
     = {#(7, 1)#}"
  using enqueue_timer_correct [OF new_timer_queue_wf, of "\<lambda>_. False" 7 1 "''a''"]
  by (simp add: new_timer_queue_def npos_def)

text \<open>
  \<open>get_ready_timers\<close> returns, and hands over the operations of exactly the timers whose time has
  come, earliest first; the other timers stay in a well-formed queue.
\<close>

theorem ready_timers_in_order:
  assumes "tq_wf q xs"
  shows "\<exists>q' os us es xs'. get_ready_timers now q ops = Some (q', ops @ os, us) \<and> tq_wf q' xs' \<and>
    us = map snd es \<and> sorted (map fst es) \<and>
    mset es = filter_mset (\<lambda>e. fst e \<le> now) (mset (heap q)) \<and>
    mset (heap q') = filter_mset (\<lambda>e. now < fst e) (mset (heap q)) \<and>
    os = concat (map (\<lambda>t. td_ops (tstore q t)) us)"
proof (cases "heap q = []")
  case True
  then have "get_ready_timers now q ops = Some (q, ops @ [], []) \<and> tq_wf q xs" "heap q = []"
    using assms by (simp_all add: get_ready_timers_def)
  then show ?thesis by fastforce
next
  case False
  then show ?thesis
    using ready_loop_result [OF assms, of now ops "[]"] by (auto simp: get_ready_timers_def ready_result_def)
qed

theorem ready_timers_in_order_witness:
  "\<exists>q' os us es xs'. get_ready_timers 50 demo_queue [] = Some (q', [] @ os, us) \<and> tq_wf q' xs' \<and>
    us = map snd es \<and> sorted (map fst es) \<and>
    mset es = filter_mset (\<lambda>e. fst e \<le> 50) (mset (heap demo_queue)) \<and>
    mset (heap q') = filter_mset (\<lambda>e. 50 < fst e) (mset (heap demo_queue)) \<and>
    os = concat (map (\<lambda>t. td_ops (tstore demo_queue t)) us)"
proof -
  obtain xs where "tq_wf demo_queue xs" using demo_queue_wf ..
  then show ?thesis by (rule ready_timers_in_order)
qed

text \<open>
  \<open>cancel_timer\<close> hands over the first \<open>max_cancelled\<close> operations of the timer, marked as aborted,
  returns their number, and removes the timer from the queue exactly when no operation is left.
\<close>

theorem cancel_timer_correct:
  assumes "tq_wf q xs" "cancel_timer abort t m q out = (n, q', out')"
  shows "(\<exists>xs'. tq_wf q' xs') \<and>
    n = (if t \<in> set xs then min m (length (td_ops (tstore q t))) else 0) \<and>
    out' = out @ (if t \<in> set xs then map abort (take m (td_ops (tstore q t))) else []) \<and>
    mset (heap q') = (if t \<in> set xs \<and> length (td_ops (tstore q t)) \<le> m
      then filter_mset (\<lambda>e. snd e \<noteq> t) (mset (heap q)) else mset (heap q))"
  using cancel_timer_wf [OF assms] by blast

theorem cancel_timer_correct_witness:
  "\<exists>xs. tq_wf demo_queue xs \<and>
     fst (cancel_timer id 3 1 demo_queue []) = (if 3 \<in> set xs then min 1 (length (td_ops (tstore demo_queue 3))) else 0)"
proof -
  obtain xs where xs: "tq_wf demo_queue xs" using demo_queue_wf ..
  obtain n q' out' where c: "cancel_timer id 3 1 demo_queue [] = (n, q', out')"
    by (cases "cancel_timer id 3 1 demo_queue []") auto
  show ?thesis using cancel_timer_correct [OF xs c] xs c by auto
qed

text \<open>
  The reactor sleeps no longer than the earliest timer allows: the wait is zero exactly when some
  timer is due, at most the given maximum, and a wait of more than one unit ends before every
  timer's time.
\<close>

theorem wait_duration_bound:
  assumes "tq_wf q xs" "heap q \<noteq> []" "0 < u" "1 \<le> max_duration"
  shows "(wait_duration u now max_duration q = 0 \<longleftrightarrow> (\<exists>e \<in> set (heap q). fst e \<le> now)) \<and>
    0 \<le> wait_duration u now max_duration q \<and> wait_duration u now max_duration q \<le> max_duration \<and>
    (1 < wait_duration u now max_duration q \<longrightarrow>
       (\<forall>e \<in> set (heap q). now + u * wait_duration u now max_duration q \<le> fst e))"
proof -
  let ?d = "fst (heap q ! 0) - now" and ?w = "wait_duration u now max_duration q"
  have hw: "heap_wf q" using assms(1) by (simp add: tq_wf_def)
  have head: "heap q ! 0 \<in> set (heap q)" using assms(2) by simp
  have le: "fst (heap q ! 0) \<le> fst e" if "e \<in> set (heap q)" for e
    using heap_wf_head_min [OF hw, of "fst e" "snd e"] that by simp
  have w: "?w = to_units u ?d max_duration" using assms(2) by (simp add: wait_duration_def)
  have pos: "0 \<le> ?d div u" if "0 < ?d" using that assms(3) by (simp add: pos_imp_zdiv_nonneg_iff)
  have "?w = 0 \<longleftrightarrow> ?d \<le> 0" using assms(4) pos by (auto simp: w to_units_def Let_def)
  also have "\<dots> \<longleftrightarrow> (\<exists>e \<in> set (heap q). fst e \<le> now)" using head le by force
  finally have zero: "?w = 0 \<longleftrightarrow> (\<exists>e \<in> set (heap q). fst e \<le> now)" .
  have range: "0 \<le> ?w" "?w \<le> max_duration" using assms(4) pos by (auto simp: w to_units_def Let_def)
  have "now + u * ?w \<le> fst e" if "1 < ?w" "e \<in> set (heap q)" for e
  proof -
    have "?w \<le> ?d div u" using that(1) pos by (auto simp: w to_units_def Let_def split: if_splits)
    then have "u * ?w \<le> u * (?d div u)" using assms(3) by simp
    also have "\<dots> \<le> ?d" using mult_div_mod_eq [of u ?d] pos_mod_sign [OF assms(3), of ?d] by linarith
    finally show ?thesis using le [OF that(2)] by linarith
  qed
  then show ?thesis using zero range by blast
qed

theorem wait_duration_bound_witness:
  "wait_duration 1000 5 100 (snd (enqueue_timer (\<lambda>_. False) 7005 2 ''a'' (new_timer_queue (\<lambda>_. new_per_timer_data)))) = 7 \<and>
   5 + 1000 * 7 \<le> fst (heap (snd (enqueue_timer (\<lambda>_. False) 7005 2 ''a'' (new_timer_queue (\<lambda>_. new_per_timer_data)))) ! 0)"
proof -
  let ?q = "snd (enqueue_timer (\<lambda>_. False) 7005 2 ''a'' (new_timer_queue (\<lambda>_. new_per_timer_data)))"
  have "tq_wf ?q [2]"
    using enqueue_timer_wf(1) [OF new_timer_queue_wf, of "\<lambda>_. False" 7005 2 "''a''"]
    by (simp add: new_timer_queue_def npos_def)
  moreover have h: "heap ?q = [(7005, 2)]"
    using enqueue_timer_wf(2) [OF new_timer_queue_wf, of "\<lambda>_. False" 7005 2 "''a''"]
    by (simp add: new_timer_queue_def npos_def)
  moreover have "wait_duration 1000 5 100 ?q = 7" by (simp add: wait_duration_def to_units_def h Let_def)
  ultimately show ?thesis using wait_duration_bound [of ?q "[2]" 1000 100 5] by simp
qed

end
