(* ===== verification/Epoll_Reactor.thy ===== *)
theory Epoll_Reactor
  imports Scheduler Error_Codes Timer_Queue
begin

text \<open>
  The reactor that turns readiness events of the operating system into completed operations:
  \<open>src/ext/asio/asio/detail/impl/epoll_reactor.ipp\<close>, \<open>detail/impl/epoll_reactor.hpp\<close> and
  \<open>detail/impl/timer_queue_set.ipp\<close>.

  A \<open>descriptor_state\<close> and a timer queue are addresses into stores; a \<open>per_descriptor_data\<close> is an
  optional address. The operation's \<open>perform\<close> function runs on a world of type \<open>'w\<close> (the sockets)
  and is an argument, as are the results of the system calls: \<open>None\<close> for success or \<open>Some errno\<close>.
  The set of descriptors watched by the kernel is part of the state. Functions that post to the
  scheduler act on the reactor and the calling thread's \<open>thread_info\<close>, if it is a thread that
  runs the scheduler.
\<close>

unbundle bit_operations_syntax

section \<open>Operations and descriptors\<close>

text \<open>\<open>connect_op\<close> is the same index as \<open>write_op\<close>.\<close>

datatype op_types = read_op | write_op | except_op

abbreviation connect_op :: op_types where "connect_op \<equiv> write_op"

datatype status = not_done | op_done | done_and_exhausted

record reactor_op =
  op_id :: nat
  op_ec :: error_code
  op_bytes :: nat

type_synonym 'w perform = "'w \<Rightarrow> reactor_op \<Rightarrow> status \<times> error_code \<times> nat \<times> 'w"

text \<open>\<open>reactor_op::perform\<close> may set the error code and the number of bytes of the operation.\<close>

definition do_perform :: "'w perform \<Rightarrow> 'w \<Rightarrow> reactor_op \<Rightarrow> status \<times> reactor_op \<times> 'w" where
  "do_perform perform w a =
     (let (st, ec, n, w') = perform w a in (st, a\<lparr>op_ec := ec, op_bytes := n\<rparr>, w'))"

abbreviation (input) EPOLLIN :: u32 where "EPOLLIN \<equiv> 1"
abbreviation (input) EPOLLPRI :: u32 where "EPOLLPRI \<equiv> 2"
abbreviation (input) EPOLLOUT :: u32 where "EPOLLOUT \<equiv> 4"
abbreviation (input) EPOLLERR :: u32 where "EPOLLERR \<equiv> 8"
abbreviation (input) EPOLLHUP :: u32 where "EPOLLHUP \<equiv> 16"
abbreviation (input) EPOLLET :: u32 where "EPOLLET \<equiv> 0x80000000"

type_synonym dref = nat
type_synonym tqref = nat

record descriptor_state =
  descriptor :: int
  registered_events :: u32
  op_queues :: "op_types \<Rightarrow> reactor_op list"
  try_speculative :: "op_types \<Rightarrow> bool"
  ds_shutdown :: bool
  task_result :: u32

text \<open>
  The constructor; the members it leaves uninitialised are set by \<open>register_descriptor\<close>, and have
  an arbitrary value here.
\<close>

definition new_descriptor_state :: descriptor_state where
  "new_descriptor_state =
     \<lparr>descriptor = - 1, registered_events = 0, op_queues = (\<lambda>_. []), try_speculative = (\<lambda>_. False),
      ds_shutdown = False, task_result = 0\<rparr>"

definition set_ready_events :: "u32 \<Rightarrow> descriptor_state \<Rightarrow> descriptor_state" where
  "set_ready_events events d = d\<lparr>task_result := events\<rparr>"

definition add_ready_events :: "u32 \<Rightarrow> descriptor_state \<Rightarrow> descriptor_state" where
  "add_ready_events events d = d\<lparr>task_result := task_result d OR events\<rparr>"

text \<open>What the scheduler queues: a descriptor with ready events, or an operation to complete.\<close>

datatype rop = Descriptor_op dref | Async_op reactor_op

datatype event_ptr = Interrupter | Timer_fd | Descriptor dref

record epoll_reactor =
  er_sched :: "rop scheduler"
  er_interrupter_fd :: int
  er_timer_fd :: int
  er_timer_setting :: "int \<times> int \<times> bool"
  er_shutdown :: bool
  er_states :: "dref \<Rightarrow> descriptor_state"
  er_live :: "dref list"
  er_free :: "dref list"
  er_queues :: "tqref \<Rightarrow> reactor_op timer_queue"
  er_queue_set :: "tqref list"
  er_epoll :: "int \<rightharpoonup> event_ptr \<times> u32"

type_synonym rctx = "epoll_reactor \<times> rop thread_info option"

definition upd_state :: "dref \<Rightarrow> (descriptor_state \<Rightarrow> descriptor_state) \<Rightarrow> epoll_reactor \<Rightarrow> epoll_reactor" where
  "upd_state d f r = r\<lparr>er_states := (er_states r)(d := f (er_states r d))\<rparr>"

definition on_sched ::
  "(rop scheduler \<times> rop thread_info option \<Rightarrow> rop scheduler \<times> rop thread_info option) \<Rightarrow> rctx \<Rightarrow> rctx" where
  "on_sched f = (\<lambda>(r, ti). let (s, ti') = f (er_sched r, ti) in (r\<lparr>er_sched := s\<rparr>, ti'))"

definition epoll_ctl_set :: "int \<Rightarrow> event_ptr \<Rightarrow> u32 \<Rightarrow> int option \<Rightarrow> epoll_reactor \<Rightarrow> epoll_reactor" where
  "epoll_ctl_set fd p events result r =
     (case result of None \<Rightarrow> r\<lparr>er_epoll := (er_epoll r)(fd \<mapsto> (p, events))\<rparr> | Some _ \<Rightarrow> r)"

definition epoll_ctl_del :: "int \<Rightarrow> epoll_reactor \<Rightarrow> epoll_reactor" where
  "epoll_ctl_del fd r = r\<lparr>er_epoll := (er_epoll r)(fd := None)\<rparr>"

section \<open>The set of timer queues\<close>

definition timer_set_insert :: "tqref \<Rightarrow> tqref list \<Rightarrow> tqref list" where
  "timer_set_insert q qs = q # qs"

fun timer_set_erase :: "tqref \<Rightarrow> tqref list \<Rightarrow> tqref list" where
  "timer_set_erase q [] = []"
| "timer_set_erase q (p # ps) = (if q = p then ps else p # timer_set_erase q ps)"

fun all_empty :: "(tqref \<Rightarrow> reactor_op timer_queue) \<Rightarrow> tqref list \<Rightarrow> bool" where
  "all_empty st [] = True"
| "all_empty st (p # ps) = (if \<not> timer_queue_empty (st p) then False else all_empty st ps)"

text \<open>\<open>wait_duration_msec\<close> and \<open>wait_duration_usec\<close>, with the ticks of a unit as for one queue.\<close>

fun set_wait_duration :: "int \<Rightarrow> int \<Rightarrow> (tqref \<Rightarrow> reactor_op timer_queue) \<Rightarrow> tqref list \<Rightarrow> int \<Rightarrow> int" where
  "set_wait_duration u now st [] min_duration = min_duration"
| "set_wait_duration u now st (p # ps) min_duration =
     set_wait_duration u now st ps (wait_duration u now min_duration (st p))"

fun set_ready_timers ::
  "int \<Rightarrow> tqref list \<Rightarrow> (tqref \<Rightarrow> reactor_op timer_queue) \<Rightarrow> reactor_op list
     \<Rightarrow> ((tqref \<Rightarrow> reactor_op timer_queue) \<times> reactor_op list) option" where
  "set_ready_timers now [] st ops = Some (st, ops)"
| "set_ready_timers now (p # ps) st ops =
     (case get_ready_timers now (st p) ops of
        None \<Rightarrow> None
      | Some (q, ops', _) \<Rightarrow> set_ready_timers now ps (st(p := q)) ops')"

fun set_all_timers ::
  "tqref list \<Rightarrow> (tqref \<Rightarrow> reactor_op timer_queue) \<Rightarrow> reactor_op list
     \<Rightarrow> ((tqref \<Rightarrow> reactor_op timer_queue) \<times> reactor_op list) option" where
  "set_all_timers [] st ops = Some (st, ops)"
| "set_all_timers (p # ps) st ops =
     (case get_all_timers (st p) ops of
        None \<Rightarrow> None
      | Some (q, ops') \<Rightarrow> set_all_timers ps (st(p := q)) ops')"

section \<open>Timeouts\<close>

text \<open>
  A tick is a nanosecond. \<open>get_timeout\<close> in milliseconds, and for the timer descriptor the seconds,
  the nanoseconds and whether the time is absolute (\<open>TFD_TIMER_ABSTIME\<close>).
\<close>

definition get_timeout_msec :: "int \<Rightarrow> epoll_reactor \<Rightarrow> int \<Rightarrow> int" where
  "get_timeout_msec now r msec =
     (let max_msec = 5 * 60 * 1000
      in set_wait_duration 1000000 now (er_queues r) (er_queue_set r)
           (if msec < 0 \<or> max_msec < msec then max_msec else msec))"

definition get_timeout_timerfd :: "int \<Rightarrow> epoll_reactor \<Rightarrow> int \<times> int \<times> bool" where
  "get_timeout_timerfd now r =
     (let usec = set_wait_duration 1000 now (er_queues r) (er_queue_set r) (5 * 60 * 1000 * 1000)
      in (usec div 1000000, if usec \<noteq> 0 then (usec mod 1000000) * 1000 else 1, usec = 0))"

definition interrupt :: "int option \<Rightarrow> epoll_reactor \<Rightarrow> epoll_reactor" where
  "interrupt ctl r = epoll_ctl_set (er_interrupter_fd r) Interrupter (EPOLLIN OR EPOLLERR OR EPOLLET) ctl r"

definition update_timeout :: "int \<Rightarrow> int option \<Rightarrow> epoll_reactor \<Rightarrow> epoll_reactor" where
  "update_timeout now ctl r =
     (if er_timer_fd r \<noteq> - 1 then r\<lparr>er_timer_setting := get_timeout_timerfd now r\<rparr>
      else interrupt ctl r)"

section \<open>Construction\<close>

text \<open>\<open>do_epoll_create\<close> and \<open>do_timerfd_create\<close>: the results of the two calls each may make.\<close>

abbreviation (input) EPERM :: int where "EPERM \<equiv> 1"
abbreviation (input) EINVAL :: int where "EINVAL \<equiv> 22"
abbreviation (input) ENOSYS :: int where "ENOSYS \<equiv> 38"

definition do_epoll_create :: "int + int \<Rightarrow> int + int \<Rightarrow> system_error + int" where
  "do_epoll_create create1 create =
     (let fd = (case create1 of
                  Inl e \<Rightarrow> if e = EINVAL \<or> e = ENOSYS then create else Inl e
                | Inr n \<Rightarrow> Inr n)
      in case fd of
           Inr n \<Rightarrow> Inr n
         | Inl e \<Rightarrow> Inl \<lparr>se_code = \<lparr>ec_value = e, ec_category = system_category\<rparr>, se_location = ''epoll''\<rparr>)"

definition do_timerfd_create :: "int + int \<Rightarrow> int + int \<Rightarrow> int" where
  "do_timerfd_create create1 create =
     (let fd = (case create1 of Inl e \<Rightarrow> if e = EINVAL then create else Inl e | Inr n \<Rightarrow> Inr n)
      in case fd of Inr n \<Rightarrow> n | Inl _ \<Rightarrow> - 1)"

text \<open>Add the interrupter and the timer descriptor to the epoll set.\<close>

definition add_internal_fds :: "int option \<Rightarrow> int option \<Rightarrow> epoll_reactor \<Rightarrow> epoll_reactor" where
  "add_internal_fds ctl1 ctl2 r =
     (let r1 = epoll_ctl_set (er_interrupter_fd r) Interrupter (EPOLLIN OR EPOLLERR OR EPOLLET) ctl1 r
      in if er_timer_fd r1 \<noteq> - 1
         then epoll_ctl_set (er_timer_fd r1) Timer_fd (EPOLLIN OR EPOLLERR) ctl2 r1 else r1)"

definition new_epoll_reactor ::
  "rop scheduler \<Rightarrow> int \<Rightarrow> int + int \<Rightarrow> int + int \<Rightarrow> int + int \<Rightarrow> int + int \<Rightarrow> int option \<Rightarrow> int option
     \<Rightarrow> (tqref \<Rightarrow> reactor_op timer_queue) \<Rightarrow> system_error + epoll_reactor" where
  "new_epoll_reactor s intr_fd e1 e2 t1 t2 ctl1 ctl2 queues =
     (case do_epoll_create e1 e2 of
        Inl ex \<Rightarrow> Inl ex
      | Inr _ \<Rightarrow>
          Inr (add_internal_fds ctl1 ctl2
            \<lparr>er_sched = s, er_interrupter_fd = intr_fd, er_timer_fd = do_timerfd_create t1 t2,
             er_timer_setting = (0, 0, False), er_shutdown = False,
             er_states = (\<lambda>_. new_descriptor_state), er_live = [], er_free = [],
             er_queues = queues, er_queue_set = [], er_epoll = (\<lambda>_. None)\<rparr>))"

definition reactor_init_task :: "epoll_reactor \<Rightarrow> epoll_reactor" where
  "reactor_init_task r = r\<lparr>er_sched := init_task (er_sched r)\<rparr>"

section \<open>Registration\<close>

text \<open>
  The pool of descriptor states: an object of the free list is used again as it is; otherwise a new
  one is made at the address \<open>fresh\<close>. \<open>free\<close> runs no destructor.
\<close>

definition allocate_descriptor_state :: "dref \<Rightarrow> epoll_reactor \<Rightarrow> dref \<times> epoll_reactor" where
  "allocate_descriptor_state fresh r =
     (case er_free r of
        [] \<Rightarrow> (fresh, upd_state fresh (\<lambda>_. new_descriptor_state) (r\<lparr>er_live := fresh # er_live r\<rparr>))
      | d # ds \<Rightarrow> (d, r\<lparr>er_free := ds, er_live := d # er_live r\<rparr>))"

definition free_descriptor_state :: "dref \<Rightarrow> epoll_reactor \<Rightarrow> epoll_reactor" where
  "free_descriptor_state d r = r\<lparr>er_live := remove1 d (er_live r), er_free := d # er_free r\<rparr>"

abbreviation register_events :: u32 where
  "register_events \<equiv> EPOLLIN OR EPOLLERR OR EPOLLHUP OR EPOLLPRI OR EPOLLET"

definition register_descriptor ::
  "int \<Rightarrow> dref \<Rightarrow> int option \<Rightarrow> epoll_reactor \<Rightarrow> int \<times> dref \<times> epoll_reactor" where
  "register_descriptor fd fresh ctl r =
     (let (d, r1) = allocate_descriptor_state fresh r;
          r2 = upd_state d (\<lambda>x. x\<lparr>descriptor := fd, ds_shutdown := False, try_speculative := (\<lambda>_. True)\<rparr>) r1;
          r3 = upd_state d (\<lambda>x. x\<lparr>registered_events := register_events\<rparr>) r2;
          r4 = epoll_ctl_set fd (Descriptor d) register_events ctl r3
      in case ctl of
           None \<Rightarrow> (0, d, r4)
         | Some e \<Rightarrow>
             if e = EPERM then (0, d, upd_state d (\<lambda>x. x\<lparr>registered_events := 0\<rparr>) r4) else (e, d, r4))"

definition register_internal_descriptor ::
  "op_types \<Rightarrow> int \<Rightarrow> reactor_op \<Rightarrow> dref \<Rightarrow> int option \<Rightarrow> epoll_reactor \<Rightarrow> int \<times> dref \<times> epoll_reactor" where
  "register_internal_descriptor op_type fd a fresh ctl r =
     (let (d, r1) = allocate_descriptor_state fresh r;
          r2 = upd_state d (\<lambda>x. x\<lparr>descriptor := fd, ds_shutdown := False,
                  op_queues := (op_queues x)(op_type := op_queues x op_type @ [a]),
                  try_speculative := (\<lambda>_. True)\<rparr>) r1;
          r3 = upd_state d (\<lambda>x. x\<lparr>registered_events := register_events\<rparr>) r2;
          r4 = epoll_ctl_set fd (Descriptor d) register_events ctl r3
      in (case ctl of None \<Rightarrow> 0 | Some e \<Rightarrow> e, d, r4))"

definition move_descriptor :: "dref option \<Rightarrow> dref option \<times> dref option" where
  "move_descriptor source = (source, None)"

section \<open>Starting an operation\<close>

definition push_op :: "op_types \<Rightarrow> reactor_op \<Rightarrow> descriptor_state \<Rightarrow> descriptor_state" where
  "push_op op_type a x = x\<lparr>op_queues := (op_queues x)(op_type := op_queues x op_type @ [a])\<rparr>"

definition post_immediate :: "reactor_op \<Rightarrow> bool \<Rightarrow> rctx \<Rightarrow> rctx" where
  "post_immediate a is_continuation = on_sched (post_immediate_completion (Async_op a) is_continuation)"

definition enqueue_op :: "op_types \<Rightarrow> reactor_op \<Rightarrow> dref \<Rightarrow> rctx \<Rightarrow> rctx" where
  "enqueue_op op_type a d =
     (\<lambda>(r, ti). on_sched (\<lambda>(s, t). (work_started s, t)) (upd_state d (push_op op_type a) r, ti))"

text \<open>
  The part of \<open>start_op\<close> for an empty queue when speculation is allowed, after a speculative
  \<open>perform\<close> that did not finish.
\<close>

definition start_speculative ::
  "op_types \<Rightarrow> int \<Rightarrow> dref \<Rightarrow> reactor_op \<Rightarrow> bool \<Rightarrow> int option \<Rightarrow> rctx \<Rightarrow> rctx" where
  "start_speculative op_type fd d a is_continuation ctl = (\<lambda>(r, ti).
     (let x = er_states r d
      in if registered_events x = 0
         then post_immediate (a\<lparr>op_ec := make_basic_error operation_not_supported\<rparr>) is_continuation (r, ti)
         else if op_type = write_op \<and> registered_events x AND EPOLLOUT = 0
         then (let ev = registered_events x OR EPOLLOUT
               in case ctl of
                    None \<Rightarrow>
                      enqueue_op op_type a d
                        (upd_state d (\<lambda>x. x\<lparr>registered_events := registered_events x OR ev\<rparr>)
                           (epoll_ctl_set fd (Descriptor d) ev ctl r), ti)
                  | Some e \<Rightarrow>
                      post_immediate (a\<lparr>op_ec := \<lparr>ec_value = e, ec_category = system_category\<rparr>\<rparr>)
                        is_continuation (r, ti))
         else enqueue_op op_type a d (r, ti)))"

definition start_op ::
  "'w perform \<Rightarrow> op_types \<Rightarrow> int \<Rightarrow> dref option \<Rightarrow> reactor_op \<Rightarrow> bool \<Rightarrow> bool \<Rightarrow> int option
     \<Rightarrow> 'w \<Rightarrow> rctx \<Rightarrow> 'w \<times> rctx" where
  "start_op perform op_type fd dd a is_continuation allow_speculative ctl w = (\<lambda>(r, ti).
     (case dd of
        None \<Rightarrow> (w, post_immediate (a\<lparr>op_ec := make_basic_error bad_descriptor\<rparr>) is_continuation (r, ti))
      | Some d \<Rightarrow>
          (let x = er_states r d
           in if ds_shutdown x then (w, post_immediate a is_continuation (r, ti))
              else if op_queues x op_type \<noteq> [] then (w, enqueue_op op_type a d (r, ti))
              else if allow_speculative \<and> (op_type \<noteq> read_op \<or> op_queues x except_op = [])
              then
                (if try_speculative x op_type
                 then
                   (let (st, a', w') = do_perform perform w a
                    in case st of
                         not_done \<Rightarrow> (w', start_speculative op_type fd d a' is_continuation ctl (r, ti))
                       | op_done \<Rightarrow> (w', post_immediate a' is_continuation (r, ti))
                       | done_and_exhausted \<Rightarrow>
                           (w', post_immediate a' is_continuation
                             (if registered_events x \<noteq> 0
                              then upd_state d
                                (\<lambda>x. x\<lparr>try_speculative := (try_speculative x)(op_type := False)\<rparr>) r
                              else r, ti)))
                 else (w, start_speculative op_type fd d a is_continuation ctl (r, ti)))
              else if registered_events x = 0
              then (w, post_immediate (a\<lparr>op_ec := make_basic_error operation_not_supported\<rparr>)
                      is_continuation (r, ti))
              else
                (let r1 = (if op_type = write_op
                           then upd_state d (\<lambda>x. x\<lparr>registered_events := registered_events x OR EPOLLOUT\<rparr>) r
                           else r);
                     r2 = epoll_ctl_set fd (Descriptor d) (registered_events (er_states r1 d)) ctl r1
                 in (w, enqueue_op op_type a d (r2, ti))))))"

section \<open>Cancelling and deregistering\<close>

definition abort_op :: "reactor_op \<Rightarrow> reactor_op" where
  "abort_op a = a\<lparr>op_ec := make_basic_error operation_aborted\<rparr>"

definition all_ops :: "descriptor_state \<Rightarrow> reactor_op list" where
  "all_ops x = op_queues x read_op @ op_queues x write_op @ op_queues x except_op"

definition clear_ops :: "descriptor_state \<Rightarrow> descriptor_state" where
  "clear_ops x = x\<lparr>op_queues := (\<lambda>_. [])\<rparr>"

definition post_deferred :: "reactor_op list \<Rightarrow> rctx \<Rightarrow> rctx" where
  "post_deferred ops = on_sched (post_deferred_completions (map Async_op ops))"

definition cancel_ops :: "dref option \<Rightarrow> rctx \<Rightarrow> rctx" where
  "cancel_ops dd = (\<lambda>(r, ti).
     (case dd of
        None \<Rightarrow> (r, ti)
      | Some d \<Rightarrow> post_deferred (map abort_op (all_ops (er_states r d))) (upd_state d clear_ops r, ti)))"

text \<open>The result is the descriptor data left in the caller's reference.\<close>

definition deregister_descriptor :: "int \<Rightarrow> dref option \<Rightarrow> bool \<Rightarrow> rctx \<Rightarrow> dref option \<times> rctx" where
  "deregister_descriptor fd dd closing = (\<lambda>(r, ti).
     (case dd of
        None \<Rightarrow> (None, (r, ti))
      | Some d \<Rightarrow>
          (let x = er_states r d
           in if \<not> ds_shutdown x
              then
                (let r1 = (if \<not> closing \<and> registered_events x \<noteq> 0 then epoll_ctl_del fd r else r);
                     r2 = upd_state d (\<lambda>x. (clear_ops x)\<lparr>descriptor := - 1, ds_shutdown := True\<rparr>) r1
                 in (Some d, post_deferred (map abort_op (all_ops x)) (r2, ti)))
              else (None, (r, ti)))))"

text \<open>The local queue \<open>ops\<close> is destroyed at the end of the block, with its operations.\<close>

definition deregister_internal_descriptor ::
  "int \<Rightarrow> dref option \<Rightarrow> epoll_reactor \<Rightarrow> dref option \<times> reactor_op list \<times> epoll_reactor" where
  "deregister_internal_descriptor fd dd r =
     (case dd of
        None \<Rightarrow> (None, [], r)
      | Some d \<Rightarrow>
          (let x = er_states r d
           in if \<not> ds_shutdown x
              then (Some d, all_ops x,
                    upd_state d (\<lambda>x. (clear_ops x)\<lparr>descriptor := - 1, ds_shutdown := True\<rparr>) (epoll_ctl_del fd r))
              else (None, [], r)))"

definition cleanup_descriptor_data :: "dref option \<Rightarrow> epoll_reactor \<Rightarrow> dref option \<times> epoll_reactor" where
  "cleanup_descriptor_data dd r =
     (case dd of None \<Rightarrow> (None, r) | Some d \<Rightarrow> (None, free_descriptor_state d r))"

section \<open>Timers\<close>

definition do_add_timer_queue :: "tqref \<Rightarrow> epoll_reactor \<Rightarrow> epoll_reactor" where
  "do_add_timer_queue q r = r\<lparr>er_queue_set := timer_set_insert q (er_queue_set r)\<rparr>"

definition do_remove_timer_queue :: "tqref \<Rightarrow> epoll_reactor \<Rightarrow> epoll_reactor" where
  "do_remove_timer_queue q r = r\<lparr>er_queue_set := timer_set_erase q (er_queue_set r)\<rparr>"

definition schedule_timer ::
  "int \<Rightarrow> int option \<Rightarrow> tqref \<Rightarrow> int \<Rightarrow> timer_ref \<Rightarrow> reactor_op \<Rightarrow> rctx \<Rightarrow> rctx" where
  "schedule_timer now ctl q time t a = (\<lambda>(r, ti).
     (if er_shutdown r then post_immediate a False (r, ti)
      else
        (let (earliest, tq) = enqueue_timer (\<lambda>_. False) time t a (er_queues r q);
             (r1, ti1) = on_sched (\<lambda>(s, t). (work_started s, t)) (r\<lparr>er_queues := (er_queues r)(q := tq)\<rparr>, ti)
         in (if earliest then update_timeout now ctl r1 else r1, ti1))))"

definition reactor_cancel_timer :: "tqref \<Rightarrow> timer_ref \<Rightarrow> nat \<Rightarrow> rctx \<Rightarrow> nat \<times> rctx" where
  "reactor_cancel_timer q t max_cancelled = (\<lambda>(r, ti).
     (let (n, tq, ops) = cancel_timer abort_op t max_cancelled (er_queues r q) []
      in (n, post_deferred ops (r\<lparr>er_queues := (er_queues r)(q := tq)\<rparr>, ti))))"

definition reactor_move_timer :: "tqref \<Rightarrow> timer_ref \<Rightarrow> timer_ref \<Rightarrow> rctx \<Rightarrow> rctx" where
  "reactor_move_timer q target source = (\<lambda>(r, ti).
     (let (_, tq, ops) = cancel_timer abort_op target npos (er_queues r q) []
      in post_deferred ops (r\<lparr>er_queues := (er_queues r)(q := move_timer target source tq)\<rparr>, ti)))"

section \<open>Running the reactor\<close>

text \<open>The argument of \<open>epoll_wait\<close>: 0, -1 for no limit, or milliseconds rounded up.\<close>

definition epoll_timeout :: "int \<Rightarrow> int \<Rightarrow> epoll_reactor \<Rightarrow> int" where
  "epoll_timeout now usec r =
     (if usec = 0 then 0
      else
        (let timeout = (if usec < 0 then - 1 else (usec - 1) div 1000 + 1)
         in if er_timer_fd r = - 1 then get_timeout_msec now r timeout else timeout))"

text \<open>
  One event that \<open>epoll_wait\<close> returned, with the queue of operations to hand over and the flag
  \<open>check_timers\<close>. A descriptor that is in the queue already keeps its place.
\<close>

definition dispatch_event ::
  "event_ptr \<times> u32 \<Rightarrow> epoll_reactor \<times> rop list \<times> bool \<Rightarrow> epoll_reactor \<times> rop list \<times> bool" where
  "dispatch_event ev = (\<lambda>(r, ops, check_timers).
     (case fst ev of
        Interrupter \<Rightarrow> (r, ops, if er_timer_fd r = - 1 then True else check_timers)
      | Timer_fd \<Rightarrow> (r, ops, True)
      | Descriptor d \<Rightarrow>
          if Descriptor_op d \<notin> set ops
          then (upd_state d (set_ready_events (snd ev)) r, ops @ [Descriptor_op d], check_timers)
          else (upd_state d (add_ready_events (snd ev)) r, ops, check_timers)))"

text \<open>
  \<open>run\<close> after \<open>epoll_wait\<close>: \<open>events\<close> is what it returned (none when it failed or timed out), \<open>ops\<close>
  the caller's queue. \<open>None\<close> would mean that a timer queue is not well-formed.
\<close>

definition reactor_run ::
  "int \<Rightarrow> (event_ptr \<times> u32) list \<Rightarrow> rop list \<Rightarrow> epoll_reactor \<Rightarrow> (rop list \<times> epoll_reactor) option" where
  "reactor_run now events ops r =
     (let (r1, ops1, check_timers) = fold dispatch_event events (r, ops, er_timer_fd r = - 1)
      in if check_timers
         then
           (case set_ready_timers now (er_queue_set r1) (er_queues r1) [] of
              None \<Rightarrow> None
            | Some (st, tops) \<Rightarrow>
                (let r2 = r1\<lparr>er_queues := st\<rparr>;
                     r3 = (if er_timer_fd r2 \<noteq> - 1 then r2\<lparr>er_timer_setting := get_timeout_timerfd now r2\<rparr> else r2)
                 in Some (ops1 @ map Async_op tops, r3)))
         else Some (ops1, r1))"

section \<open>Performing the ready operations\<close>

fun event_flag :: "op_types \<Rightarrow> u32" where
  "event_flag read_op = EPOLLIN"
| "event_flag write_op = EPOLLOUT"
| "event_flag except_op = EPOLLPRI"

text \<open>
  The loop over one queue: what is finished, what is left, whether the descriptor is exhausted.
\<close>

fun perform_ops ::
  "'w perform \<Rightarrow> 'w \<Rightarrow> reactor_op list \<Rightarrow> reactor_op list \<times> reactor_op list \<times> bool \<times> 'w" where
  "perform_ops perform w [] = ([], [], False, w)"
| "perform_ops perform w (a # q) =
     (case do_perform perform w a of
        (not_done, a', w') \<Rightarrow> ([], a' # q, False, w')
      | (done_and_exhausted, a', w') \<Rightarrow> ([a'], q, True, w')
      | (op_done, a', w') \<Rightarrow>
          (let (fin, rest, exhausted, w'') = perform_ops perform w' q in (a' # fin, rest, exhausted, w'')))"

definition perform_queue ::
  "'w perform \<Rightarrow> u32 \<Rightarrow> op_types \<Rightarrow> descriptor_state \<times> reactor_op list \<times> 'w
     \<Rightarrow> descriptor_state \<times> reactor_op list \<times> 'w" where
  "perform_queue perform events j = (\<lambda>(x, ops, w).
     (if events AND (event_flag j OR EPOLLERR OR EPOLLHUP) \<noteq> 0
      then
        (let (fin, rest, exhausted, w') = perform_ops perform w (op_queues x j)
         in (x\<lparr>op_queues := (op_queues x)(j := rest),
               try_speculative := (try_speculative x)(j := \<not> exhausted)\<rparr>, ops @ fin, w'))
      else (x, ops, w)))"

definition perform_all ::
  "'w perform \<Rightarrow> u32 \<Rightarrow> descriptor_state \<Rightarrow> 'w \<Rightarrow> descriptor_state \<times> reactor_op list \<times> 'w" where
  "perform_all perform events x w =
     perform_queue perform events read_op
       (perform_queue perform events write_op (perform_queue perform events except_op (x, [], w)))"

text \<open>
  \<open>perform_io\<close> with its clean-up object: the first finished operation is returned, the others are
  posted; when none is finished, the work the scheduler will count off is added.
\<close>

definition perform_io :: "'w perform \<Rightarrow> u32 \<Rightarrow> dref \<Rightarrow> 'w \<Rightarrow> rctx \<Rightarrow> reactor_op option \<times> 'w \<times> rctx" where
  "perform_io perform events d w = (\<lambda>(r, ti).
     (let (x, ops, w') = perform_all perform events (er_states r d) w;
          r1 = upd_state d (\<lambda>_. x) r
      in case ops of
           [] \<Rightarrow> (None, w', (r1, map_option compensating_work_started ti))
         | a # rest \<Rightarrow> (Some a, w', post_deferred rest (r1, ti))))"

text \<open>
  \<open>descriptor_state::do_complete\<close> when the scheduler completes it; \<open>complete\<close> is the completion of a
  user operation. The events come as the task result.
\<close>

definition complete_descriptor ::
  "'w perform \<Rightarrow> (reactor_op \<Rightarrow> 'w \<times> rctx \<Rightarrow> 'w \<times> rctx) \<Rightarrow> dref \<Rightarrow> 'w \<times> rctx \<Rightarrow> 'w \<times> rctx" where
  "complete_descriptor perform complete d = (\<lambda>(w, c).
     (case perform_io perform (task_result (er_states (fst c) d)) d w c of
        (None, w', c') \<Rightarrow> (w', c')
      | (Some a, w', c') \<Rightarrow> complete a (w', c')))"

section \<open>Shutdown and fork\<close>

text \<open>
  \<open>shutdown\<close>: the loop frees the first registered descriptor until there is none; the operations
  are handed to \<open>scheduler::abandon_operations\<close>, which destroys them.
\<close>

fun shutdown_descriptors :: "dref list \<Rightarrow> epoll_reactor \<Rightarrow> reactor_op list \<Rightarrow> reactor_op list \<times> epoll_reactor" where
  "shutdown_descriptors [] r ops = (ops, r)"
| "shutdown_descriptors (d # ds) r ops =
     shutdown_descriptors ds
       (free_descriptor_state d (upd_state d (\<lambda>x. (clear_ops x)\<lparr>ds_shutdown := True\<rparr>) r))
       (ops @ all_ops (er_states r d))"

definition reactor_shutdown :: "epoll_reactor \<Rightarrow> (reactor_op list \<times> epoll_reactor) option" where
  "reactor_shutdown r =
     (let (ops, r1) = shutdown_descriptors (er_live r) (r\<lparr>er_shutdown := True\<rparr>) []
      in case set_all_timers (er_queue_set r1) (er_queues r1) ops of
           None \<Rightarrow> None
         | Some (st, ops1) \<Rightarrow> Some (ops1, r1\<lparr>er_queues := st\<rparr>))"

fun reregister :: "(dref \<Rightarrow> int option) \<Rightarrow> dref list \<Rightarrow> epoll_reactor \<Rightarrow> system_error option \<times> epoll_reactor" where
  "reregister ctl [] r = (None, r)"
| "reregister ctl (d # ds) r =
     (let x = er_states r d;
          r1 = epoll_ctl_set (descriptor x) (Descriptor d) (registered_events x) (ctl d) r
      in case ctl d of
           None \<Rightarrow> reregister ctl ds r1
         | Some e \<Rightarrow>
             (throw_error \<lparr>ec_value = e, ec_category = system_category\<rparr> ''epoll re-registration'', r1))"

definition notify_fork_child ::
  "int \<Rightarrow> int \<Rightarrow> int + int \<Rightarrow> int + int \<Rightarrow> int + int \<Rightarrow> int + int \<Rightarrow> int option \<Rightarrow> int option \<Rightarrow> int option
     \<Rightarrow> (dref \<Rightarrow> int option) \<Rightarrow> epoll_reactor \<Rightarrow> system_error option \<times> epoll_reactor" where
  "notify_fork_child now intr_fd e1 e2 t1 t2 ctl1 ctl2 ctl3 ctl r =
     (let r1 = r\<lparr>er_epoll := (\<lambda>_. None)\<rparr>
      in case do_epoll_create e1 e2 of
           Inl ex \<Rightarrow> (Some ex, r1)
         | Inr _ \<Rightarrow>
             (let r2 = r1\<lparr>er_timer_fd := do_timerfd_create t1 t2, er_interrupter_fd := intr_fd\<rparr>;
                  r3 = update_timeout now ctl3 (add_internal_fds ctl1 ctl2 r2)
              in reregister ctl (er_live r3) r3))"

end
