(* ===== verification/Reactor_Accounting.thy ===== *)
theory Reactor_Accounting
  imports Epoll_Reactor
begin

text \<open>
  The reactor together with the scheduler: what a program may call, the steps of the threads that
  run the scheduler, and the invariants of the reachable states. Every operation that was started
  is in exactly one place until it is completed once, and the scheduler's work count is the number
  of operations that are in some place.
\<close>

section \<open>Calls and steps\<close>

datatype reactor_call =
    Start_op op_types int "dref option" reactor_op bool bool "int option"
  | Cancel_ops "dref option"
  | Register int dref "int option"
  | Deregister int "dref option" bool
  | Cleanup "dref option"
  | Add_timer_queue tqref
  | Remove_timer_queue tqref
  | Schedule_timer int "int option" tqref int timer_ref reactor_op
  | Cancel_timer tqref timer_ref nat
  | Post_immediate reactor_op bool

fun exec_call :: "'w perform \<Rightarrow> reactor_call \<Rightarrow> 'w \<times> rctx \<Rightarrow> 'w \<times> rctx" where
  "exec_call perform (Start_op j fd dd a cont spec ctl) (w, c) = start_op perform j fd dd a cont spec ctl w c"
| "exec_call perform (Cancel_ops dd) (w, c) = (w, cancel_ops dd c)"
| "exec_call perform (Register fd fresh ctl) (w, (r, ti)) = (w, (snd (snd (register_descriptor fd fresh ctl r)), ti))"
| "exec_call perform (Deregister fd dd closing) (w, c) = (w, snd (deregister_descriptor fd dd closing c))"
| "exec_call perform (Cleanup dd) (w, (r, ti)) = (w, (snd (cleanup_descriptor_data dd r), ti))"
| "exec_call perform (Add_timer_queue q) (w, (r, ti)) = (w, (do_add_timer_queue q r, ti))"
| "exec_call perform (Remove_timer_queue q) (w, (r, ti)) = (w, (do_remove_timer_queue q r, ti))"
| "exec_call perform (Schedule_timer now ctl q time t a) (w, c) = (w, schedule_timer now ctl q time t a c)"
| "exec_call perform (Cancel_timer q t m) (w, c) = (w, snd (reactor_cancel_timer q t m c))"
| "exec_call perform (Post_immediate a cont) (w, c) = (w, post_immediate a cont c)"

text \<open>
  What the callers of the reactor (the socket service and the timer service) keep to: a descriptor is registered before operations
  start on it and deregistered before it is cleaned up, a new object has an address of its own, and
  timers and their queues are those of a given set.
\<close>

fun call_ok :: "tqref set \<Rightarrow> (tqref \<Rightarrow> timer_ref set) \<Rightarrow> reactor_call \<Rightarrow> epoll_reactor \<Rightarrow> bool" where
  "call_ok K U (Start_op j fd dd a cont spec ctl) r = (\<forall>d. dd = Some d \<longrightarrow> d \<in> set (er_live r))"
| "call_ok K U (Cancel_ops dd) r = (\<forall>d. dd = Some d \<longrightarrow> d \<in> set (er_live r))"
| "call_ok K U (Register fd fresh ctl) r = (fresh \<notin> set (er_live r) \<union> set (er_free r))"
| "call_ok K U (Deregister fd dd closing) r = (\<forall>d. dd = Some d \<longrightarrow> d \<in> set (er_live r))"
| "call_ok K U (Cleanup dd) r = (\<forall>d. dd = Some d \<longrightarrow> d \<in> set (er_live r) \<and> ds_shutdown (er_states r d))"
| "call_ok K U (Add_timer_queue q) r = (q \<in> K)"
| "call_ok K U (Remove_timer_queue q) r = True"
| "call_ok K U (Schedule_timer now ctl q time t a) r = (q \<in> K \<and> t \<in> U q)"
| "call_ok K U (Cancel_timer q t m) r = (q \<in> K \<and> t \<in> U q)"
| "call_ok K U (Post_immediate a cont) r = True"

fun exec_calls :: "'w perform \<Rightarrow> reactor_call list \<Rightarrow> 'w \<times> rctx \<Rightarrow> 'w \<times> rctx" where
  "exec_calls perform [] s = s"
| "exec_calls perform (x # xs) s = exec_calls perform xs (exec_call perform x s)"

fun calls_ok ::
  "'w perform \<Rightarrow> tqref set \<Rightarrow> (tqref \<Rightarrow> timer_ref set) \<Rightarrow> reactor_call list \<Rightarrow> 'w \<times> rctx \<Rightarrow> bool" where
  "calls_ok perform K U [] s = True"
| "calls_ok perform K U (x # xs) s =
     (call_ok K U x (fst (snd s)) \<and> calls_ok perform K U xs (exec_call perform x s))"

text \<open>The operation a call starts.\<close>

fun started :: "reactor_call \<Rightarrow> nat multiset" where
  "started (Start_op j fd dd a cont spec ctl) = {#op_id a#}"
| "started (Schedule_timer now ctl q time t a) = {#op_id a#}"
| "started (Post_immediate a cont) = {#op_id a#}"
| "started _ = {#}"

text \<open>
  A thread takes an operation from the queue, as in \<open>Scheduler.run_op\<close>: the state while the handler
  runs, and the state after it.
\<close>

definition begin_handler :: "rop operation list \<Rightarrow> rop scheduler \<Rightarrow> rop scheduler" where
  "begin_handler q s =
     (let s1 = s\<lparr>op_queue := q\<rparr>
      in if q \<noteq> [] \<and> \<not> one_thread s1 then wake_one_thread_and_unlock s1 else s1)"

lemma run_op_begin: "run_op complete x q (s, ti) = work_cleanup (complete x (begin_handler q s, ti))"
  by (simp add: run_op_def begin_handler_def Let_def)

definition end_handler :: "'w \<times> rctx \<Rightarrow> 'w \<times> epoll_reactor" where
  "end_handler = (\<lambda>(w, (r, ti)).
     (w, case ti of None \<Rightarrow> r | Some t \<Rightarrow> r\<lparr>er_sched := fst (work_cleanup (er_sched r, t))\<rparr>))"

text \<open>
  The steps: a call from outside the scheduler's threads; a handler of a completed operation, which
  makes any calls; a descriptor with ready events, whose first finished operation is completed in
  the same step; and a run of the reactor, with any events. The last two components collect the
  identities of the operations that were started and of those whose handlers were run.
\<close>

type_synonym 'w rconfig = "'w \<times> epoll_reactor \<times> nat multiset \<times> nat multiset"

inductive reactor_step ::
  "'w perform \<Rightarrow> tqref set \<Rightarrow> (tqref \<Rightarrow> timer_ref set) \<Rightarrow> 'w rconfig \<Rightarrow> 'w rconfig \<Rightarrow> bool"
  for perform K U where
  External:
    "call_ok K U x r \<Longrightarrow> exec_call perform x (w, (r, None)) = (w', (r', ti)) \<Longrightarrow>
     reactor_step perform K U (w, r, S, C) (w', r', S + started x, C)"
| Complete:
    "\<not> stopped (er_sched r) \<Longrightarrow> op_queue (er_sched r) = Op (Async_op a) # q \<Longrightarrow>
     c = (w, (r\<lparr>er_sched := begin_handler q (er_sched r)\<rparr>, Some new_thread_info)) \<Longrightarrow>
     calls_ok perform K U xs c \<Longrightarrow> end_handler (exec_calls perform xs c) = (w', r') \<Longrightarrow>
     reactor_step perform K U (w, r, S, C) (w', r', S + (\<Sum>x\<leftarrow>xs. started x), add_mset (op_id a) C)"
| Ready:
    "\<not> stopped (er_sched r) \<Longrightarrow> op_queue (er_sched r) = Op (Descriptor_op d) # q \<Longrightarrow>
     perform_io perform (task_result (er_states r d)) d w
       (r\<lparr>er_sched := begin_handler q (er_sched r)\<rparr>, Some new_thread_info) = (Some a, w1, c1) \<Longrightarrow>
     calls_ok perform K U xs (w1, c1) \<Longrightarrow> end_handler (exec_calls perform xs (w1, c1)) = (w', r') \<Longrightarrow>
     reactor_step perform K U (w, r, S, C) (w', r', S + (\<Sum>x\<leftarrow>xs. started x), add_mset (op_id a) C)"
| Spurious:
    "\<not> stopped (er_sched r) \<Longrightarrow> op_queue (er_sched r) = Op (Descriptor_op d) # q \<Longrightarrow>
     perform_io perform (task_result (er_states r d)) d w
       (r\<lparr>er_sched := begin_handler q (er_sched r)\<rparr>, Some new_thread_info) = (None, w1, c1) \<Longrightarrow>
     end_handler (w1, c1) = (w', r') \<Longrightarrow>
     reactor_step perform K U (w, r, S, C) (w', r', S, C)"
| Task:
    "\<not> stopped (er_sched r) \<Longrightarrow> op_queue (er_sched r) = Task_operation # q \<Longrightarrow>
     reactor_run now events [] r = Some (ops, r1) \<Longrightarrow>
     r' = r1\<lparr>er_sched := fst (run_task ops q (er_sched r1, new_thread_info))\<rparr> \<Longrightarrow>
     reactor_step perform K U (w, r, S, C) (w, r', S, C)"

section \<open>Where the operations are\<close>

definition ids :: "reactor_op list \<Rightarrow> nat multiset" where
  "ids ops = image_mset op_id (mset ops)"

fun rop_ids :: "rop operation list \<Rightarrow> nat multiset" where
  "rop_ids [] = {#}"
| "rop_ids (Task_operation # q) = rop_ids q"
| "rop_ids (Op (Descriptor_op d) # q) = rop_ids q"
| "rop_ids (Op (Async_op a) # q) = add_mset (op_id a) (rop_ids q)"

definition desc_ids :: "epoll_reactor \<Rightarrow> nat multiset" where
  "desc_ids r = (\<Sum>d\<in>set (er_live r). ids (all_ops (er_states r d)))"

definition tq_ids :: "timer_ref set \<Rightarrow> reactor_op timer_queue \<Rightarrow> nat multiset" where
  "tq_ids A q = (\<Sum>t\<in>A. ids (td_ops (tstore q t)))"

definition timer_ids ::
  "tqref set \<Rightarrow> (tqref \<Rightarrow> timer_ref set) \<Rightarrow> (tqref \<Rightarrow> reactor_op timer_queue) \<Rightarrow> nat multiset" where
  "timer_ids K U st = (\<Sum>k\<in>K. tq_ids (U k) (st k))"

definition pending :: "tqref set \<Rightarrow> (tqref \<Rightarrow> timer_ref set) \<Rightarrow> rctx \<Rightarrow> nat multiset" where
  "pending K U = (\<lambda>(r, ti).
     rop_ids (op_queue (er_sched r)) + desc_ids r + timer_ids K U (er_queues r) +
     (case ti of None \<Rightarrow> {#} | Some t \<Rightarrow> rop_ids (private_op_queue t)))"

definition work_load :: "rctx \<Rightarrow> int" where
  "work_load = (\<lambda>(r, ti).
     outstanding_work (er_sched r) + (case ti of None \<Rightarrow> 0 | Some t \<Rightarrow> private_outstanding_work t))"

lemma ids_simps [simp]:
  "ids [] = {#}" "ids (a # q) = add_mset (op_id a) (ids q)" "ids (p @ q) = ids p + ids q"
  "ids (map abort_op q) = ids q"
  by (simp_all add: ids_def abort_op_def multiset.map_comp comp_def)

lemma rop_ids_append [simp]: "rop_ids (p @ q) = rop_ids p + rop_ids q"
  by (induction p rule: rop_ids.induct) simp_all

lemma rop_ids_map [simp]:
  "rop_ids (map (Op \<circ> Async_op) ops) = ids ops"
  "rop_ids (map (\<lambda>x. Op (Async_op x)) ops) = ids ops"
  by (induction ops) simp_all

lemma ids_do_perform [simp]: "do_perform perform w a = (st, a', w') \<Longrightarrow> op_id a' = op_id a"
  by (auto simp: do_perform_def split: prod.splits)

section \<open>The invariant\<close>

text \<open>
  A descriptor outside the pool's live list, or shut down, has no operations; a descriptor with
  operations is watched, and with a write operation it is watched for writing; the timer queues are
  well-formed.
\<close>

definition descriptor_ok :: "bool \<Rightarrow> descriptor_state \<Rightarrow> bool" where
  "descriptor_ok live x \<longleftrightarrow>
     (\<not> live \<or> ds_shutdown x \<longrightarrow> (\<forall>j. op_queues x j = [])) \<and>
     (\<forall>j. op_queues x j \<noteq> [] \<longrightarrow> registered_events x \<noteq> 0) \<and>
     (op_queues x write_op \<noteq> [] \<longrightarrow> registered_events x AND EPOLLOUT \<noteq> 0)"

definition timers_ok :: "tqref set \<Rightarrow> (tqref \<Rightarrow> timer_ref set) \<Rightarrow> (tqref \<Rightarrow> reactor_op timer_queue) \<Rightarrow> bool" where
  "timers_ok K U st \<longleftrightarrow> (\<forall>k\<in>K. \<exists>xs. tq_wf (st k) xs \<and> set xs \<subseteq> U k)"

definition reactor_inv :: "tqref set \<Rightarrow> (tqref \<Rightarrow> timer_ref set) \<Rightarrow> epoll_reactor \<Rightarrow> bool" where
  "reactor_inv K U r \<longleftrightarrow>
     distinct (er_live r @ er_free r) \<and>
     (\<forall>d. descriptor_ok (d \<in> set (er_live r)) (er_states r d)) \<and>
     set (er_queue_set r) \<subseteq> K \<and> timers_ok K U (er_queues r)"

definition timer_space :: "tqref set \<Rightarrow> (tqref \<Rightarrow> timer_ref set) \<Rightarrow> bool" where
  "timer_space K U \<longleftrightarrow> finite K \<and> (\<forall>k\<in>K. finite (U k) \<and> card (U k) < npos)"

section \<open>Timer queues keep their operations\<close>

lemma sum_only_one:
  fixes f g :: "'a \<Rightarrow> 'b multiset"
  assumes "finite A" "t \<in> A" "\<And>t'. t' \<noteq> t \<Longrightarrow> f t' = g t'"
  shows "sum f A + g t = sum g A + f t"
proof -
  have "sum f A = f t + sum f (A - {t})" "sum g A = g t + sum g (A - {t})"
    using assms(1,2) by (simp_all add: sum.remove)
  moreover have "sum f (A - {t}) = sum g (A - {t})" using assms(3) by (intro sum.cong) auto
  ultimately show ?thesis by simp
qed

lemma tq_ids_upd:
  assumes "finite A" "t \<in> A" "\<And>t'. t' \<noteq> t \<Longrightarrow> td_ops (tstore q' t') = td_ops (tstore q t')"
  shows "tq_ids A q' + ids (td_ops (tstore q t)) = tq_ids A q + ids (td_ops (tstore q' t))"
  unfolding tq_ids_def using assms by (intro sum_only_one) auto

lemma remove_timer_keeps:
  assumes "tq_wf q xs" "t \<in> set xs"
  shows "\<exists>ys. tq_wf (remove_timer t q) ys \<and> set ys \<subseteq> set xs"
    and "td_ops (tstore (remove_timer t q) t') = td_ops (tstore q t')"
proof -
  obtain as bs where xs: "xs = as @ t # bs" using assms(2) by (auto dest: split_list)
  note rm = remove_timer_wf [OF assms(1) [unfolded xs]]
  show "\<exists>ys. tq_wf (remove_timer t q) ys \<and> set ys \<subseteq> set xs" using rm(1) by (auto simp: xs)
  show "td_ops (tstore (remove_timer t q) t') = td_ops (tstore q t')" by (rule rm(3))
qed

lemma ready_loop_keeps_all:
  assumes "ready_loop now0 q0 ops0 ts0 = Some y0"
  shows "\<forall>xs. tq_wf q0 xs \<longrightarrow> set xs \<subseteq> A \<longrightarrow> finite A \<longrightarrow>
     tq_ids A (fst y0) + ids (fst (snd y0)) = tq_ids A q0 + ids ops0 \<and>
     (\<exists>ys. tq_wf (fst y0) ys \<and> set ys \<subseteq> A)"
proof (rule ready_loop.raw_induct [where P = "\<lambda>now q ops ts y. \<forall>xs. tq_wf q xs \<longrightarrow> set xs \<subseteq> A \<longrightarrow>
    finite A \<longrightarrow> tq_ids A (fst y) + ids (fst (snd y)) = tq_ids A q + ids ops \<and>
    (\<exists>ys. tq_wf (fst y) ys \<and> set ys \<subseteq> A)", OF _ assms], goal_cases)
  case (1 rec now q ops ts y)
  show ?case
  proof (intro allI impI)
    fix xs
    assume xs: "tq_wf q xs" "set xs \<subseteq> A" and fin: "finite A"
    show "tq_ids A (fst y) + ids (fst (snd y)) = tq_ids A q + ids ops \<and> (\<exists>ys. tq_wf (fst y) ys \<and> set ys \<subseteq> A)"
    proof (cases "heap q = [] \<or> now < fst (heap q ! 0)")
      case True
      then show ?thesis using 1(2) xs by auto
    next
      case False
      define t where "t = snd (heap q ! 0)"
      define q1 where "q1 = upd_timer t (\<lambda>d. d\<lparr>td_ops := []\<rparr>) q"
      have "heap q ! 0 \<in> set (heap q)" using False by simp
      then have t: "t \<in> set xs" using xs(1) unfolding tq_wf_def t_def by blast
      have w1: "tq_wf q1 xs" using xs(1) by (simp add: q1_def tq_wf_ops)
      note rm = remove_timer_keeps [OF w1 t]
      obtain ys where ys: "tq_wf (remove_timer t q1) ys" "set ys \<subseteq> A" using rm(1) xs(2) by blast
      have "rec now (remove_timer t q1) (ops @ td_ops (tstore q t)) (ts @ [t]) = Some y"
        using 1(2) False by (simp add: t_def q1_def Let_def)
      from 1(1) [OF this, rule_format, OF ys fin]
      have IH: "tq_ids A (fst y) + ids (fst (snd y))
          = tq_ids A (remove_timer t q1) + ids (td_ops (tstore q t)) + ids ops"
        and wf: "\<exists>ys. tq_wf (fst y) ys \<and> set ys \<subseteq> A" by (simp_all add: ac_simps)
      have ops: "td_ops (tstore (remove_timer t q1) t') = (if t' = t then [] else td_ops (tstore q t'))" for t'
        unfolding rm(2) by (simp add: q1_def upd_timer_def)
      have "t \<in> A" using t xs(2) by blast
      then have "tq_ids A (remove_timer t q1) + ids (td_ops (tstore q t)) = tq_ids A q"
        using tq_ids_upd [of A t "remove_timer t q1" q] fin by (simp add: ops)
      then show ?thesis using IH wf by simp
    qed
  qed
qed

lemmas ready_loop_keeps = ready_loop_keeps_all [rule_format, of _ _ _ _ "(q', ops', ts')", simplified] for q' ops' ts'

lemma get_ready_timers_keeps:
  assumes "get_ready_timers now q ops = Some (q', ops', ts')" "tq_wf q xs" "set xs \<subseteq> A" "finite A"
  shows "tq_ids A q' + ids ops' = tq_ids A q + ids ops \<and> (\<exists>ys. tq_wf q' ys \<and> set ys \<subseteq> A)"
  using assms ready_loop_keeps [OF _ assms(2-4)] by (auto simp: get_ready_timers_def split: if_splits)

lemma cancel_timer_keeps:
  assumes "cancel_timer abort_op t m q [] = (n, q', ops)" "tq_wf q xs" "set xs \<subseteq> A" "finite A"
  shows "tq_ids A q' + ids ops = tq_ids A q \<and> (\<exists>ys. tq_wf q' ys \<and> set ys \<subseteq> A)"
proof (cases "t \<in> set xs")
  case True
  let ?ops = "td_ops (tstore q t)"
  let ?q1 = "upd_timer t (\<lambda>d. d\<lparr>td_ops := drop m ?ops\<rparr>) q"
  have act: "timer_active q t" using timer_active_iff assms(2) True by (auto simp: tq_wf_def)
  have eq: "q' = (if length ?ops \<le> m then remove_timer t ?q1 else ?q1)" "ops = map abort_op (take m ?ops)"
    using assms(1) act cancel_loop_eq [of 0 m abort_op ?ops "[]"]
    by (auto simp: cancel_timer_def Let_def split: if_splits)
  have w1: "tq_wf ?q1 xs" using assms(2) by (simp add: tq_wf_ops)
  note rm = remove_timer_keeps [OF w1 True]
  have ops: "td_ops (tstore q' t') = td_ops (tstore ?q1 t')" for t'
    by (cases "length ?ops \<le> m") (simp_all add: eq(1) rm(2) del: drop_all)
  have "\<exists>ys. tq_wf q' ys \<and> set ys \<subseteq> A" using eq(1) rm(1) w1 assms(3) by (auto split: if_splits)
  moreover have "tq_ids A q' + ids ?ops = tq_ids A q + ids (drop m ?ops)"
    using tq_ids_upd [of A t q' q] True assms(3,4) by (auto simp: ops upd_timer_def)
  moreover have "ids ?ops = ids (take m ?ops) + ids (drop m ?ops)"
    by (simp flip: ids_simps(3))
  ultimately show ?thesis by (simp add: eq(2))
next
  case False
  then have "\<not> timer_active q t" using timer_active_iff assms(2) by (auto simp: tq_wf_def)
  then show ?thesis using assms by (auto simp: cancel_timer_def)
qed

lemma timer_ids_upd:
  assumes "finite K" "k \<in> K" "tq_ids (U k) q + n = tq_ids (U k) (st k) + m"
  shows "timer_ids K U (\<lambda>k'. if k' = k then q else st k') + n = timer_ids K U st + m"
proof -
  let ?f = "\<lambda>k'. tq_ids (U k') (if k' = k then q else st k')" and ?g = "\<lambda>k'. tq_ids (U k') (st k')"
  have "sum ?f K + ?g k = sum ?g K + ?f k" using assms(1,2) by (rule sum_only_one) simp
  then have "sum ?f K + n + ?g k = sum ?g K + m + ?g k" using assms(3) by (simp add: ac_simps)
  then show ?thesis by (simp add: timer_ids_def)
qed

lemma set_ready_timers_keeps:
  assumes "timer_space K U" "set ks \<subseteq> K" "timers_ok K U st"
    and "set_ready_timers now ks st ops = Some (st', ops')"
  shows "timer_ids K U st' + ids ops' = timer_ids K U st + ids ops \<and> timers_ok K U st'"
  using assms(2-4)
proof (induction now ks st ops rule: set_ready_timers.induct)
  case (2 now k ks st ops)
  obtain q ops1 ts where q: "get_ready_timers now (st k) ops = Some (q, ops1, ts)"
    using 2(4) by (auto split: option.splits)
  obtain xs where xs: "tq_wf (st k) xs" "set xs \<subseteq> U k" using 2(2,3) by (auto simp: timers_ok_def)
  have fin: "finite K" "finite (U k)" using assms(1) 2(2) by (auto simp: timer_space_def)
  note keep = get_ready_timers_keeps [OF q xs fin(2)]
  have ok: "timers_ok K U (st(k := q))" using 2(3) keep by (auto simp: timers_ok_def)
  have rest: "set_ready_timers now ks (st(k := q)) ops1 = Some (st', ops')" using 2(4) q by simp
  have "timer_ids K U st' + ids ops' = timer_ids K U (st(k := q)) + ids ops1 \<and> timers_ok K U st'"
    using 2(1) [OF q refl refl _ ok rest] 2(2) by (simp add: fun_upd_def)
  moreover have "timer_ids K U (st(k := q)) + ids ops1 = timer_ids K U st + ids ops"
    unfolding fun_upd_def using 2(2) fin(1) keep by (intro timer_ids_upd) auto
  ultimately show ?case by simp
qed simp

lemma heap_below_npos:
  assumes "tq_wf q xs" "set xs \<subseteq> A" "finite A" "card A < npos"
  shows "length (heap q) < npos"
proof -
  have "distinct (map snd (heap q))" using assms(1) coherent_distinct by (auto simp: tq_wf_def heap_wf_def)
  then have "length (heap q) = card (snd ` set (heap q))" using distinct_card by fastforce
  also have "\<dots> \<le> card A" using assms by (intro card_mono) (auto simp: tq_wf_def)
  finally show ?thesis using assms(4) by simp
qed

section \<open>Calls keep the operations and the work count\<close>

definition store_ids :: "tqref set \<Rightarrow> (tqref \<Rightarrow> timer_ref set) \<Rightarrow> epoll_reactor \<Rightarrow> nat multiset" where
  "store_ids K U r = desc_ids r + timer_ids K U (er_queues r)"

text \<open>Only completed operations are added to the queues of the scheduler and of the thread.\<close>

definition grows :: "rctx \<Rightarrow> rctx \<Rightarrow> bool" where
  "grows c c' \<longleftrightarrow>
     (\<exists>news. op_queue (er_sched (fst c')) = op_queue (er_sched (fst c)) @ map (Op \<circ> Async_op) news) \<and>
     (case snd c of
        None \<Rightarrow> snd c' = None
      | Some t \<Rightarrow> \<exists>t' news. snd c' = Some t' \<and> private_op_queue t' = private_op_queue t @ map (Op \<circ> Async_op) news \<and>
          private_outstanding_work t \<le> private_outstanding_work t')"

definition accounted ::
  "tqref set \<Rightarrow> (tqref \<Rightarrow> timer_ref set) \<Rightarrow> rctx \<Rightarrow> rctx \<Rightarrow> nat multiset \<Rightarrow> int \<Rightarrow> bool" where
  "accounted K U c c' M n \<longleftrightarrow>
     pending K U c' = pending K U c + M \<and> work_load c' = work_load c + n \<and>
     reactor_inv K U (fst c') \<and> grows c c'"

lemma grows_refl: "grows c c"
proof -
  have "\<exists>news. q = q @ map (Op \<circ> Async_op) news" for q by (rule exI [of _ "[]"]) simp
  then show ?thesis by (auto simp: grows_def split: option.splits)
qed

lemma grows_trans:
  assumes "grows c c1" "grows c1 c2"
  shows "grows c c2"
proof -
  have cat: "\<exists>n. q @ map (Op \<circ> Async_op) n1 @ map (Op \<circ> Async_op) n2 = q @ map (Op \<circ> Async_op) n" for q n1 n2
    by (rule exI [of _ "n1 @ n2"]) simp
  obtain n1 n2 where n: "op_queue (er_sched (fst c1)) = op_queue (er_sched (fst c)) @ map (Op \<circ> Async_op) n1"
      "op_queue (er_sched (fst c2)) = op_queue (er_sched (fst c1)) @ map (Op \<circ> Async_op) n2"
    using assms by (auto simp: grows_def)
  have 1: "\<exists>news. op_queue (er_sched (fst c2)) = op_queue (er_sched (fst c)) @ map (Op \<circ> Async_op) news"
    unfolding n(2) n(1) using cat by simp
  show ?thesis
  proof (cases "snd c")
    case None
    then show ?thesis using assms 1 by (simp add: grows_def)
  next
    case (Some t)
    obtain t1 m1 where t1: "snd c1 = Some t1" "private_op_queue t1 = private_op_queue t @ map (Op \<circ> Async_op) m1"
        "private_outstanding_work t \<le> private_outstanding_work t1"
      using assms(1) Some by (auto simp: grows_def)
    obtain t2 m2 where t2: "snd c2 = Some t2" "private_op_queue t2 = private_op_queue t1 @ map (Op \<circ> Async_op) m2"
        "private_outstanding_work t1 \<le> private_outstanding_work t2"
      using assms(2) t1(1) by (auto simp: grows_def)
    have "\<exists>news. private_op_queue t2 = private_op_queue t @ map (Op \<circ> Async_op) news"
      unfolding t2(2) t1(2) using cat by simp
    then show ?thesis using 1 Some t2(1,3) t1(3) by (simp add: grows_def)
  qed
qed

lemma accounted_trans:
  "accounted K U c c1 M1 n1 \<Longrightarrow> accounted K U c1 c2 M2 n2 \<Longrightarrow> accounted K U c c2 (M1 + M2) (n1 + n2)"
  using grows_trans [of c c1 c2] by (auto simp: accounted_def)

lemma accounted_refl: "reactor_inv K U (fst c) \<Longrightarrow> accounted K U c c {#} 0"
  by (simp add: accounted_def grows_refl)

text \<open>A change of the stores that keeps the scheduler, before a call.\<close>

lemma accounted_after:
  assumes "accounted K U (r', ti) c' M' n" "er_sched r' = er_sched r"
    and "store_ids K U r' + M' = store_ids K U r + M"
  shows "accounted K U (r, ti) c' M n"
proof -
  have "pending K U (r', ti) + M' = pending K U (r, ti) + M"
    using assms(2,3) by (simp add: pending_def store_ids_def) (metis add.assoc add.commute)
  then show ?thesis using assms(1,2) by (auto simp: accounted_def work_load_def grows_def)
qed

lemma accounted_silent:
  assumes "reactor_inv K U r'" "er_sched r' = er_sched r" "store_ids K U r' = store_ids K U r"
  shows "accounted K U (r, ti) (r', ti) {#} 0"
  using accounted_after [of K U r' ti "(r', ti)" "{#}" 0 r "{#}"] accounted_refl [of K U "(r', ti)"] assms by simp

lemma reactor_inv_sched [simp]: "reactor_inv K U (r\<lparr>er_sched := s\<rparr>) = reactor_inv K U r"
  by (simp add: reactor_inv_def)

lemma store_ids_sched [simp]: "store_ids K U (r\<lparr>er_sched := s\<rparr>) = store_ids K U r"
  by (simp add: store_ids_def desc_ids_def)

lemma pending_eq:
  "pending K U (r, ti) = rop_ids (op_queue (er_sched r)) + store_ids K U r +
     (case ti of None \<Rightarrow> {#} | Some t \<Rightarrow> rop_ids (private_op_queue t))"
  by (simp add: pending_def store_ids_def ac_simps)

lemma grows_sched:
  assumes "op_queue s = op_queue (er_sched r) @ map (Op \<circ> Async_op) news"
  shows "grows (r, ti) (r\<lparr>er_sched := s\<rparr>, ti)"
  using assms grows_refl [of "(r, ti)"] by (cases ti) (auto simp: grows_def)

lemma grows_private:
  assumes "private_op_queue t' = private_op_queue t @ map (Op \<circ> Async_op) news"
    "private_outstanding_work t \<le> private_outstanding_work t'"
  shows "grows (r, Some t) (r, Some t')"
  using assms grows_refl [of "(r, None)"] by (auto simp: grows_def)

lemma post_immediate_accounted:
  assumes "reactor_inv K U (fst c)"
  shows "accounted K U c (post_immediate a cont c) {#op_id a#} 1"
proof -
  obtain r ti where c: "c = (r, ti)" by (cases c)
  show ?thesis
  proof (cases "(if one_thread (er_sched r) \<or> cont then ti else None)")
    case None
    let ?s = "wake_one_thread_and_unlock ((work_started (er_sched r))
      \<lparr>op_queue := op_queue (work_started (er_sched r)) @ [Op (Async_op a)]\<rparr>)"
    have "post_immediate a cont c = (r\<lparr>er_sched := ?s\<rparr>, ti)"
      using None by (simp add: c post_immediate_def on_sched_def post_immediate_completion_def Let_def
          split: if_splits)
    moreover have "grows (r, ti) (r\<lparr>er_sched := ?s\<rparr>, ti)" by (rule grows_sched [where news = "[a]"]) simp
    ultimately show ?thesis using assms by (simp add: c accounted_def pending_eq work_load_def)
  next
    case (Some t)
    let ?t = "t\<lparr>private_outstanding_work := private_outstanding_work t + 1,
      private_op_queue := private_op_queue t @ [Op (Async_op a)]\<rparr>"
    have ti: "ti = Some t" using Some by (auto split: if_splits)
    have "post_immediate a cont c = (r, Some ?t)"
      using Some by (auto simp: c ti post_immediate_def on_sched_def post_immediate_completion_def Let_def
          split: if_splits)
    moreover have "grows (r, Some t) (r, Some ?t)" by (rule grows_private [where news = "[a]"]) simp_all
    ultimately show ?thesis using assms by (simp add: c ti accounted_def pending_eq work_load_def)
  qed
qed

lemma post_deferred_accounted:
  assumes "reactor_inv K U (fst c)"
  shows "accounted K U c (post_deferred ops c) (ids ops) 0"
proof -
  obtain r ti where c: "c = (r, ti)" by (cases c)
  consider "ops = []" | "ops \<noteq> []" "(if one_thread (er_sched r) then ti else None) = None"
    | t where "ops \<noteq> []" "one_thread (er_sched r)" "ti = Some t"
    by (cases "ops = []"; cases ti; cases "one_thread (er_sched r)") auto
  then show ?thesis
  proof cases
    case 1
    then have "post_deferred ops c = c"
      by (simp add: c post_deferred_def on_sched_def post_deferred_completions_def)
    then show ?thesis using accounted_refl [OF assms] 1 by simp
  next
    case 2
    let ?s = "wake_one_thread_and_unlock ((er_sched r)\<lparr>op_queue := op_queue (er_sched r) @ map (Op \<circ> Async_op) ops\<rparr>)"
    have "post_deferred ops c = (r\<lparr>er_sched := ?s\<rparr>, ti)"
      using 2 by (simp add: c post_deferred_def on_sched_def post_deferred_completions_def)
    moreover have "grows (r, ti) (r\<lparr>er_sched := ?s\<rparr>, ti)" by (rule grows_sched [where news = ops]) simp
    ultimately show ?thesis using assms by (simp add: c accounted_def pending_eq work_load_def)
  next
    case 3
    let ?t = "t\<lparr>private_op_queue := private_op_queue t @ map (Op \<circ> Async_op) ops\<rparr>"
    have "post_deferred ops c = (r, Some ?t)"
      using 3 by (simp add: c post_deferred_def on_sched_def post_deferred_completions_def)
    moreover have "grows (r, Some t) (r, Some ?t)" by (rule grows_private [where news = ops]) simp_all
    ultimately show ?thesis using assms 3 by (simp add: c accounted_def pending_eq work_load_def)
  qed
qed

lemma upd_state_frame [simp]:
  "er_sched (upd_state d f r) = er_sched r" "er_live (upd_state d f r) = er_live r"
  "er_free (upd_state d f r) = er_free r" "er_queues (upd_state d f r) = er_queues r"
  "er_queue_set (upd_state d f r) = er_queue_set r" "er_timer_fd (upd_state d f r) = er_timer_fd r"
  "er_states (upd_state d f r) d' = (if d' = d then f (er_states r d) else er_states r d')"
  by (simp_all add: upd_state_def)

lemma epoll_ctl_frame [simp]:
  "er_sched (epoll_ctl_set fd p ev res r) = er_sched r" "er_live (epoll_ctl_set fd p ev res r) = er_live r"
  "er_free (epoll_ctl_set fd p ev res r) = er_free r" "er_queues (epoll_ctl_set fd p ev res r) = er_queues r"
  "er_queue_set (epoll_ctl_set fd p ev res r) = er_queue_set r" "er_states (epoll_ctl_set fd p ev res r) = er_states r"
  "er_sched (epoll_ctl_del fd r) = er_sched r" "er_live (epoll_ctl_del fd r) = er_live r"
  "er_free (epoll_ctl_del fd r) = er_free r" "er_queues (epoll_ctl_del fd r) = er_queues r"
  "er_queue_set (epoll_ctl_del fd r) = er_queue_set r" "er_states (epoll_ctl_del fd r) = er_states r"
  by (simp_all add: epoll_ctl_set_def epoll_ctl_del_def split: option.splits)

lemma inv_ctl [simp]:
  "reactor_inv K U (epoll_ctl_set fd p ev res r) = reactor_inv K U r"
  "reactor_inv K U (epoll_ctl_del fd r) = reactor_inv K U r"
  "store_ids K U (epoll_ctl_set fd p ev res r) = store_ids K U r"
  "store_ids K U (epoll_ctl_del fd r) = store_ids K U r"
  by (simp_all add: reactor_inv_def store_ids_def desc_ids_def)

lemma inv_descriptor: "reactor_inv K U r \<Longrightarrow> descriptor_ok (d \<in> set (er_live r)) (er_states r d)"
  by (simp add: reactor_inv_def)

lemma inv_upd_state:
  "reactor_inv K U r \<Longrightarrow> descriptor_ok (d \<in> set (er_live r)) (f (er_states r d)) \<Longrightarrow>
     reactor_inv K U (upd_state d f r)"
  by (simp add: reactor_inv_def)

lemma store_upd_state:
  assumes "d \<in> set (er_live r)"
  shows "store_ids K U (upd_state d f r) + ids (all_ops (er_states r d))
    = store_ids K U r + ids (all_ops (f (er_states r d)))"
proof -
  let ?f = "\<lambda>d'. ids (all_ops (er_states (upd_state d f r) d'))" and ?g = "\<lambda>d'. ids (all_ops (er_states r d'))"
  have "sum ?f (set (er_live r)) + ?g d = sum ?g (set (er_live r)) + ?f d"
    using assms by (intro sum_only_one) auto
  then have "desc_ids (upd_state d f r) + ids (all_ops (er_states r d)) = desc_ids r + ids (all_ops (f (er_states r d)))"
    by (simp add: desc_ids_def)
  then show ?thesis by (simp add: store_ids_def ac_simps)
qed

lemma store_upd_same:
  "all_ops (f (er_states r d)) = all_ops (er_states r d) \<Longrightarrow> store_ids K U (upd_state d f r) = store_ids K U r"
  unfolding store_ids_def desc_ids_def by (auto intro!: sum.cong)

lemma all_ops_push [simp]: "ids (all_ops (push_op j a x)) = add_mset (op_id a) (ids (all_ops x))"
  by (cases j) (simp_all add: all_ops_def push_op_def)

lemma all_ops_clear [simp]: "all_ops (clear_ops x) = []"
  by (simp add: all_ops_def clear_ops_def)

lemma all_ops_more [simp]:
  "all_ops (x\<lparr>descriptor := fd\<rparr>) = all_ops x" "all_ops (x\<lparr>ds_shutdown := b\<rparr>) = all_ops x"
  "all_ops (x\<lparr>try_speculative := g\<rparr>) = all_ops x" "all_ops (x\<lparr>registered_events := e\<rparr>) = all_ops x"
  "all_ops (x\<lparr>task_result := e\<rparr>) = all_ops x"
  by (simp_all add: all_ops_def)

lemma work_started_accounted:
  assumes "reactor_inv K U r"
  shows "accounted K U (r, ti) (on_sched (\<lambda>(s, t). (work_started s, t)) (r, ti)) {#} 1"
proof -
  have "grows (r, ti) (r\<lparr>er_sched := work_started (er_sched r)\<rparr>, ti)"
    by (rule grows_sched [where news = "[]"]) simp
  then show ?thesis using assms by (simp add: accounted_def on_sched_def pending_eq work_load_def)
qed

lemma enqueue_op_accounted:
  assumes inv: "reactor_inv K U r" and d: "d \<in> set (er_live r)" "\<not> ds_shutdown (er_states r d)"
    and reg: "registered_events (er_states r d) \<noteq> 0"
    and out: "j = write_op \<Longrightarrow> registered_events (er_states r d) AND EPOLLOUT \<noteq> 0"
  shows "accounted K U (r, ti) (enqueue_op j a d (r, ti)) {#op_id a#} 1"
proof -
  let ?r = "upd_state d (push_op j a) r"
  have "descriptor_ok True (push_op j a (er_states r d))"
    using inv_descriptor [OF inv, of d] d reg out by (cases j) (auto simp: descriptor_ok_def push_op_def)
  then have "reactor_inv K U ?r" using inv d by (intro inv_upd_state) simp_all
  note started = work_started_accounted [OF this, of ti]
  have "store_ids K U ?r + {#} = store_ids K U r + {#op_id a#}"
    using store_upd_state [OF d(1), of K U "push_op j a"] by simp
  note accounted_after [OF started upd_state_frame(1) this]
  then show ?thesis by (simp add: enqueue_op_def)
qed

lemma or_EPOLLOUT: "(e OR EPOLLOUT) AND EPOLLOUT \<noteq> 0" "e OR EPOLLOUT \<noteq> (0 :: u32)"
proof -
  have "bit ((e OR EPOLLOUT) AND EPOLLOUT) 2" by (simp add: bit_or_iff bit_and_iff bit_numeral_rec)
  moreover have "bit (e OR EPOLLOUT) 2" by (simp add: bit_or_iff bit_numeral_rec)
  ultimately show "(e OR EPOLLOUT) AND EPOLLOUT \<noteq> 0" "e OR EPOLLOUT \<noteq> (0 :: u32)" by auto
qed

lemma watch_write_keeps:
  assumes "reactor_inv K U r" "d \<in> set (er_live r)"
    and "\<And>x. f x = x\<lparr>registered_events := registered_events x OR EPOLLOUT\<rparr>"
  shows "reactor_inv K U (upd_state d f r)" "store_ids K U (upd_state d f r) = store_ids K U r"
proof -
  show "reactor_inv K U (upd_state d f r)"
    using inv_descriptor [OF assms(1), of d] assms or_EPOLLOUT
    by (intro inv_upd_state) (auto simp: descriptor_ok_def)
  show "store_ids K U (upd_state d f r) = store_ids K U r" by (rule store_upd_same) (simp add: assms(3))
qed

lemma start_speculative_accounted:
  assumes inv: "reactor_inv K U r" and d: "d \<in> set (er_live r)" "\<not> ds_shutdown (er_states r d)"
  shows "accounted K U (r, ti) (start_speculative j fd d a cont ctl (r, ti)) {#op_id a#} 1"
proof -
  let ?x = "er_states r d"
  consider "registered_events ?x = 0"
    | "registered_events ?x \<noteq> 0" "j = write_op" "registered_events ?x AND EPOLLOUT = 0" "ctl = None"
    | e where "registered_events ?x \<noteq> 0" "j = write_op" "registered_events ?x AND EPOLLOUT = 0" "ctl = Some e"
    | "registered_events ?x \<noteq> 0" "j = write_op \<Longrightarrow> registered_events ?x AND EPOLLOUT \<noteq> 0"
    by (cases ctl) auto
  then show ?thesis
  proof cases
    case 1
    then show ?thesis
      using post_immediate_accounted [of K U "(r, ti)" "a\<lparr>op_ec := make_basic_error operation_not_supported\<rparr>" cont] inv
      by (simp add: start_speculative_def)
  next
    case 2
    let ?r1 = "epoll_ctl_set fd (Descriptor d) (registered_events ?x OR EPOLLOUT) None r"
    let ?f = "\<lambda>x. x\<lparr>registered_events := registered_events x OR EPOLLOUT\<rparr>"
    note keeps = watch_write_keeps [of K U ?r1 d ?f, simplified, OF inv d(1)]
    have "upd_state d (\<lambda>x. x\<lparr>registered_events := registered_events x OR (registered_events ?x OR EPOLLOUT)\<rparr>) ?r1
        = upd_state d ?f ?r1"
      by (simp add: upd_state_def or.left_commute flip: or.assoc)
    then have eq: "start_speculative j fd d a cont ctl (r, ti) = enqueue_op j a d (upd_state d ?f ?r1, ti)"
      using 2 by (simp add: start_speculative_def)
    have "accounted K U (upd_state d ?f ?r1, ti) (enqueue_op j a d (upd_state d ?f ?r1, ti)) {#op_id a#} 1"
      using keeps d or_EPOLLOUT by (intro enqueue_op_accounted) auto
    then show ?thesis unfolding eq
      by (rule accounted_after) (use keeps in simp_all)
  next
    case 3
    then show ?thesis
      using post_immediate_accounted [of K U "(r, ti)" "a\<lparr>op_ec := \<lparr>ec_value = e, ec_category = system_category\<rparr>\<rparr>" cont] inv
      by (simp add: start_speculative_def Let_def)
  next
    case 4
    then have "start_speculative j fd d a cont ctl (r, ti) = enqueue_op j a d (r, ti)"
      by (cases "j = write_op") (simp_all add: start_speculative_def)
    then show ?thesis using enqueue_op_accounted [OF inv d 4(1)] 4(2) by simp
  qed
qed

lemma post_immediate_ec:
  assumes "reactor_inv K U r"
  shows "accounted K U (r, ti) (post_immediate (a\<lparr>op_ec := ec\<rparr>) cont (r, ti)) {#op_id a#} 1"
  using post_immediate_accounted [of K U "(r, ti)" "a\<lparr>op_ec := ec\<rparr>" cont] assms by simp

lemma start_op_accounted:
  assumes inv: "reactor_inv K U r" and dd: "\<And>d. dd = Some d \<Longrightarrow> d \<in> set (er_live r)"
  shows "accounted K U (r, ti) (snd (start_op perform j fd dd a cont spec ctl w (r, ti))) {#op_id a#} 1"
proof (cases dd)
  case None
  then show ?thesis using post_immediate_ec [OF inv] by (simp add: start_op_def)
next
  case (Some d)
  let ?x = "er_states r d"
  have d: "d \<in> set (er_live r)" using dd Some by simp
  have ok: "descriptor_ok True ?x" using inv_descriptor [OF inv, of d] d by simp
  have immediate: "accounted K U (r, ti) (post_immediate b cont (r, ti)) {#op_id b#} 1" for b
    using post_immediate_accounted [of K U "(r, ti)" b cont] inv by simp
  show ?thesis
  proof (cases "ds_shutdown ?x")
    case True
    then show ?thesis using immediate by (simp add: start_op_def Some)
  next
    case up: False
    show ?thesis
    proof (cases "op_queues ?x j = []")
      case False
      then have "start_op perform j fd dd a cont spec ctl w (r, ti) = (w, enqueue_op j a d (r, ti))"
        using up by (simp add: start_op_def Some)
      moreover have "accounted K U (r, ti) (enqueue_op j a d (r, ti)) {#op_id a#} 1"
        by (rule enqueue_op_accounted [OF inv d up]) (use ok False in \<open>auto simp: descriptor_ok_def\<close>)
      ultimately show ?thesis by simp
    next
      case empty: True
      show ?thesis
      proof (cases "spec \<and> (j \<noteq> read_op \<or> op_queues ?x except_op = [])")
        case spec: True
        show ?thesis
        proof (cases "try_speculative ?x j")
          case False
          then have "start_op perform j fd dd a cont spec ctl w (r, ti)
              = (w, start_speculative j fd d a cont ctl (r, ti))"
            using up empty spec by (simp add: start_op_def Some)
          then show ?thesis using start_speculative_accounted [OF inv d up] by simp
        next
          case True
          obtain st a' w' where p: "do_perform perform w a = (st, a', w')" by (cases "do_perform perform w a")
          let ?f = "\<lambda>x. x\<lparr>try_speculative := (try_speculative x)(j := False)\<rparr>"
          have keep: "reactor_inv K U (upd_state d ?f r)" "store_ids K U (upd_state d ?f r) = store_ids K U r"
            using inv ok d by (auto intro: inv_upd_state store_upd_same simp: descriptor_ok_def)
          have "accounted K U (r, ti) (post_immediate a' cont (upd_state d ?f r, ti)) {#op_id a'#} 1"
            by (rule accounted_after [OF post_immediate_accounted]) (use keep in simp_all)
          then show ?thesis
            using start_speculative_accounted [OF inv d up, of ti j fd a' cont ctl] immediate [of a']
              ids_do_perform [OF p] p True up empty spec
            by (cases st) (auto simp: start_op_def Some)
        qed
      next
        case nospec: False
        show ?thesis
        proof (cases "registered_events ?x = 0")
          case True
          then have "start_op perform j fd dd a cont spec ctl w (r, ti)
              = (w, post_immediate (a\<lparr>op_ec := make_basic_error operation_not_supported\<rparr>) cont (r, ti))"
            using up empty nospec by (auto simp: start_op_def Some)
          then show ?thesis using post_immediate_ec [OF inv] by simp
        next
          case False
          let ?f = "\<lambda>x. x\<lparr>registered_events := registered_events x OR EPOLLOUT\<rparr>"
          let ?r1 = "if j = write_op then upd_state d ?f r else r"
          let ?r2 = "epoll_ctl_set fd (Descriptor d) (registered_events (er_states ?r1 d)) ctl ?r1"
          have keep: "reactor_inv K U ?r2" "store_ids K U ?r2 = store_ids K U r" "er_sched ?r2 = er_sched r"
            using watch_write_keeps [OF inv d] inv by auto
          have "accounted K U (?r2, ti) (enqueue_op j a d (?r2, ti)) {#op_id a#} 1"
            using keep(1) d up False or_EPOLLOUT by (intro enqueue_op_accounted) auto
          then have "accounted K U (r, ti) (enqueue_op j a d (?r2, ti)) {#op_id a#} 1"
            by (rule accounted_after) (use keep in simp_all)
          moreover have "start_op perform j fd dd a cont spec ctl w (r, ti) = (w, enqueue_op j a d (?r2, ti))"
            using up empty nospec False by (auto simp: start_op_def Some Let_def)
          ultimately show ?thesis by simp
        qed
      qed
    qed
  qed
qed

text \<open>Taking all operations of a descriptor and posting them as aborted.\<close>

lemma abort_all_accounted:
  assumes inv: "reactor_inv K U r" and d: "d \<in> set (er_live r)"
    and f: "\<And>j. op_queues (f (er_states r d)) j = []"
  shows "accounted K U (r, ti) (post_deferred (map abort_op (all_ops (er_states r d))) (upd_state d f r, ti)) {#} 0"
proof -
  have "reactor_inv K U (upd_state d f r)" using inv by (rule inv_upd_state) (simp add: descriptor_ok_def f)
  then have post: "accounted K U (upd_state d f r, ti)
      (post_deferred (map abort_op (all_ops (er_states r d))) (upd_state d f r, ti)) (ids (all_ops (er_states r d))) 0"
    using post_deferred_accounted [of K U "(upd_state d f r, ti)" "map abort_op (all_ops (er_states r d))"] by simp
  have "all_ops (f (er_states r d)) = []" using f by (simp add: all_ops_def)
  then have "store_ids K U (upd_state d f r) + ids (all_ops (er_states r d)) = store_ids K U r + {#}"
    using store_upd_state [OF d, of K U f] by simp
  then show ?thesis by (rule accounted_after [OF post upd_state_frame(1)])
qed

lemma cancel_ops_accounted:
  assumes "reactor_inv K U r" "\<And>d. dd = Some d \<Longrightarrow> d \<in> set (er_live r)"
  shows "accounted K U (r, ti) (cancel_ops dd (r, ti)) {#} 0"
proof (cases dd)
  case None
  then show ?thesis using accounted_refl [of K U "(r, ti)"] assms(1) by (simp add: cancel_ops_def)
next
  case (Some d)
  then show ?thesis
    using abort_all_accounted [OF assms(1), of d clear_ops ti] assms(2) by (simp add: cancel_ops_def clear_ops_def)
qed

lemma deregister_accounted:
  assumes inv: "reactor_inv K U r" and dd: "\<And>d. dd = Some d \<Longrightarrow> d \<in> set (er_live r)"
  shows "accounted K U (r, ti) (snd (deregister_descriptor fd dd closing (r, ti))) {#} 0"
proof (cases "\<exists>d. dd = Some d \<and> \<not> ds_shutdown (er_states r d)")
  case True
  then obtain d where d: "dd = Some d" "\<not> ds_shutdown (er_states r d)" by blast
  let ?r = "if \<not> closing \<and> registered_events (er_states r d) \<noteq> 0 then epoll_ctl_del fd r else r"
  let ?f = "\<lambda>x. (clear_ops x)\<lparr>descriptor := - 1, ds_shutdown := True\<rparr>"
  have r: "reactor_inv K U ?r" "d \<in> set (er_live ?r)" "er_states ?r = er_states r" "er_sched ?r = er_sched r"
    "store_ids K U ?r = store_ids K U r"
    using inv dd d(1) by auto
  have "accounted K U (?r, ti) (post_deferred (map abort_op (all_ops (er_states ?r d))) (upd_state d ?f ?r, ti)) {#} 0"
    by (rule abort_all_accounted [OF r(1,2)]) (simp add: clear_ops_def)
  then have "accounted K U (r, ti) (post_deferred (map abort_op (all_ops (er_states ?r d))) (upd_state d ?f ?r, ti)) {#} 0"
    by (rule accounted_after) (use r in simp_all)
  then show ?thesis using d unfolding r(3) by (simp add: deregister_descriptor_def Let_def)
next
  case False
  then have "snd (deregister_descriptor fd dd closing (r, ti)) = (r, ti)"
    by (auto simp: deregister_descriptor_def split: option.splits)
  then show ?thesis using accounted_refl [of K U "(r, ti)"] inv by simp
qed

lemma allocate_keeps:
  assumes inv: "reactor_inv K U r" and fresh: "fresh \<notin> set (er_live r) \<union> set (er_free r)"
    and a: "allocate_descriptor_state fresh r = (d, r')"
  shows "reactor_inv K U r'" "er_sched r' = er_sched r" "store_ids K U r' = store_ids K U r"
    "d \<in> set (er_live r')" "\<And>j. op_queues (er_states r' d) j = []"
proof -
  have none: "\<forall>j. op_queues (er_states r x) j = []" if "x \<notin> set (er_live r)" for x
    using inv_descriptor [OF inv, of x] that by (simp add: descriptor_ok_def)
  have notin: "d \<notin> set (er_live r)"
    using a fresh inv by (cases "er_free r") (auto simp: allocate_descriptor_state_def reactor_inv_def)
  then have old: "all_ops (er_states r d) = []" using none by (simp add: all_ops_def)
  have st: "er_live r' = d # er_live r" "er_sched r' = er_sched r" "er_queues r' = er_queues r"
    "er_queue_set r' = er_queue_set r"
    "\<And>x. x \<noteq> d \<Longrightarrow> er_states r' x = er_states r x"
    "er_states r' d = er_states r d \<or> er_states r' d = new_descriptor_state"
    "distinct (er_live r' @ er_free r')"
    using a fresh inv by (cases "er_free r"; force simp: allocate_descriptor_state_def reactor_inv_def)+
  have q: "op_queues (er_states r' d) j = []" for j
    using st(6) none [OF notin] by (auto simp: new_descriptor_state_def)
  then show "\<And>j. op_queues (er_states r' d) j = []" .
  show "d \<in> set (er_live r')" "er_sched r' = er_sched r" using st by simp_all
  have "descriptor_ok (x \<in> set (er_live r')) (er_states r' x)" for x
    using inv_descriptor [OF inv, of x] q st(1,5) by (cases "x = d") (simp_all add: descriptor_ok_def)
  then show "reactor_inv K U r'" using inv st by (simp add: reactor_inv_def)
  have "desc_ids r' = ids (all_ops (er_states r' d)) + (\<Sum>x\<in>set (er_live r). ids (all_ops (er_states r' x)))"
    using notin by (simp add: desc_ids_def st(1))
  also have "(\<Sum>x\<in>set (er_live r). ids (all_ops (er_states r' x))) = desc_ids r"
    unfolding desc_ids_def using notin st(5) by (intro sum.cong) metis+
  finally show "store_ids K U r' = store_ids K U r" by (simp add: store_ids_def st(3) all_ops_def q)
qed

lemma register_accounted:
  assumes inv: "reactor_inv K U r" and fresh: "fresh \<notin> set (er_live r) \<union> set (er_free r)"
  shows "accounted K U (r, ti) (snd (snd (register_descriptor fd fresh ctl r)), ti) {#} 0"
proof -
  obtain d r1 where a: "allocate_descriptor_state fresh r = (d, r1)"
    by (cases "allocate_descriptor_state fresh r")
  note al = allocate_keeps [OF inv fresh a]
  let ?f = "\<lambda>x. x\<lparr>descriptor := fd, ds_shutdown := False, try_speculative := (\<lambda>_. True)\<rparr>"
  let ?g = "\<lambda>e x. x\<lparr>registered_events := e\<rparr>"
  let ?r3 = "upd_state d (?g register_events) (upd_state d ?f r1)"
  let ?r4 = "epoll_ctl_set fd (Descriptor d) register_events ctl ?r3"
  have keep: "reactor_inv K U (upd_state d h r')" "store_ids K U (upd_state d h r') = store_ids K U r'"
    if "reactor_inv K U r'" "\<And>j. op_queues (er_states r' d) j = []"
      "\<And>x. op_queues (h x) = op_queues x" for h r'
  proof -
    show "reactor_inv K U (upd_state d h r')" using that(1) by (rule inv_upd_state) (simp add: descriptor_ok_def that)
    show "store_ids K U (upd_state d h r') = store_ids K U r'" by (rule store_upd_same) (simp add: all_ops_def that)
  qed
  have k1: "reactor_inv K U (upd_state d ?f r1)" "store_ids K U (upd_state d ?f r1) = store_ids K U r1"
    using keep [OF al(1,5)] by simp_all
  have k3: "reactor_inv K U ?r3" "store_ids K U ?r3 = store_ids K U r1"
    using keep [OF k1(1), of "?g register_events"] k1(2) al(5) by simp_all
  have k5: "reactor_inv K U (upd_state d (?g 0) ?r4)" "store_ids K U (upd_state d (?g 0) ?r4) = store_ids K U r1"
    using keep [of ?r4 "?g 0"] k3 al(5) by simp_all
  have "snd (snd (register_descriptor fd fresh ctl r)) \<in> {?r4, upd_state d (?g 0) ?r4}"
    by (simp add: register_descriptor_def a Let_def split: option.splits)
  then show ?thesis
    using k3 k5 al(2,3) by (intro accounted_silent) auto
qed

lemma cleanup_accounted:
  assumes inv: "reactor_inv K U r"
    and dd: "\<And>d. dd = Some d \<Longrightarrow> d \<in> set (er_live r) \<and> ds_shutdown (er_states r d)"
  shows "accounted K U (r, ti) (snd (cleanup_descriptor_data dd r), ti) {#} 0"
proof (cases dd)
  case None
  then show ?thesis using accounted_refl [of K U "(r, ti)"] inv by (simp add: cleanup_descriptor_data_def)
next
  case (Some d)
  let ?r = "free_descriptor_state d r"
  have d: "d \<in> set (er_live r)" "\<And>j. op_queues (er_states r d) j = []"
    using dd Some inv_descriptor [OF inv, of d] by (auto simp: descriptor_ok_def)
  have dist: "distinct (er_live r)" using inv by (simp add: reactor_inv_def)
  have fr: "set (er_live ?r) = set (er_live r) - {d}" "er_states ?r = er_states r" "er_sched ?r = er_sched r"
    "er_queues ?r = er_queues r" "er_queue_set ?r = er_queue_set r"
    using dist by (simp_all add: free_descriptor_state_def)
  have "descriptor_ok (x \<in> set (er_live ?r)) (er_states ?r x)" for x
    using inv_descriptor [OF inv, of x] d(2) fr(1,2) by (cases "x = d") (auto simp: descriptor_ok_def)
  moreover have "distinct (er_live ?r @ er_free ?r)"
    using inv d(1) by (auto simp: free_descriptor_state_def reactor_inv_def)
  ultimately have "reactor_inv K U ?r" using inv by (simp add: reactor_inv_def fr)
  moreover have "desc_ids r = desc_ids ?r"
    unfolding desc_ids_def fr using sum.remove [OF finite_set d(1), of "\<lambda>d. ids (all_ops (er_states r d))"] d(2)
    by (simp add: all_ops_def)
  ultimately have "accounted K U (r, ti) (?r, ti) {#} 0"
    using fr by (intro accounted_silent) (simp_all add: store_ids_def)
  then show ?thesis using Some by (simp add: cleanup_descriptor_data_def)
qed

lemma update_timeout_keeps [simp]:
  "reactor_inv K U (update_timeout now ctl r) = reactor_inv K U r"
  "store_ids K U (update_timeout now ctl r) = store_ids K U r"
  "er_sched (update_timeout now ctl r) = er_sched r"
  by (simp_all add: update_timeout_def interrupt_def) (simp_all add: reactor_inv_def store_ids_def desc_ids_def)

text \<open>Replacing one timer queue.\<close>

lemma replace_queue_keeps:
  assumes inv: "reactor_inv K U r" and sp: "timer_space K U" and k: "k \<in> K"
    and wf: "tq_wf q ys" "set ys \<subseteq> U k" and ids: "tq_ids (U k) q + n = tq_ids (U k) (er_queues r k) + m"
  shows "reactor_inv K U (r\<lparr>er_queues := (er_queues r)(k := q)\<rparr>)"
    and "store_ids K U (r\<lparr>er_queues := (er_queues r)(k := q)\<rparr>) + n = store_ids K U r + m"
proof -
  show "reactor_inv K U (r\<lparr>er_queues := (er_queues r)(k := q)\<rparr>)"
    using inv wf by (auto simp: reactor_inv_def timers_ok_def)
  have "finite K" using sp by (simp add: timer_space_def)
  then have "timer_ids K U ((er_queues r)(k := q)) + n = timer_ids K U (er_queues r) + m"
    unfolding fun_upd_def using k ids by (intro timer_ids_upd) auto
  then show "store_ids K U (r\<lparr>er_queues := (er_queues r)(k := q)\<rparr>) + n = store_ids K U r + m"
    by (simp add: store_ids_def desc_ids_def ac_simps)
qed

lemma schedule_timer_accounted:
  assumes inv: "reactor_inv K U r" and sp: "timer_space K U" and k: "k \<in> K" and t: "t \<in> U k"
  shows "accounted K U (r, ti) (schedule_timer now ctl k time t a (r, ti)) {#op_id a#} 1"
proof (cases "er_shutdown r")
  case True
  then show ?thesis
    using post_immediate_accounted [of K U "(r, ti)" a False] inv by (simp add: schedule_timer_def)
next
  case False
  obtain xs where xs: "tq_wf (er_queues r k) xs" "set xs \<subseteq> U k"
    using inv k by (auto simp: reactor_inv_def timers_ok_def)
  have U: "finite (U k)" "card (U k) < npos" using sp k by (auto simp: timer_space_def)
  obtain e q where q: "enqueue_timer (\<lambda>_. False) time t a (er_queues r k) = (e, q)"
    by (cases "enqueue_timer (\<lambda>_. False) time t a (er_queues r k)")
  note enq = enqueue_timer_wf [OF xs(1) heap_below_npos [OF xs U], of "\<lambda>_. False" time t a, unfolded q, simplified]
  have "tq_ids (U k) q + {#} = tq_ids (U k) (er_queues r k) + {#op_id a#}"
    using tq_ids_upd [OF U(1) t, of q "er_queues r k"] enq(3) by simp
  note keep = replace_queue_keeps [OF inv sp k enq(1) _ this]
  let ?r = "r\<lparr>er_queues := (er_queues r)(k := q)\<rparr>"
  have sub: "set (if t \<in> set xs then xs else t # xs) \<subseteq> U k" using xs(2) t by auto
  note started = work_started_accounted [OF keep(1) [OF sub], of ti]
  have "accounted K U (r, ti) (on_sched (\<lambda>(s, t). (work_started s, t)) (?r, ti)) {#op_id a#} 1"
    by (rule accounted_after [OF started]) (use keep(2) [OF sub] in simp_all)
  then have res: "accounted K U (r, ti) (?r\<lparr>er_sched := work_started (er_sched r)\<rparr>, ti) {#op_id a#} 1"
    by (simp add: on_sched_def)
  then have "accounted K U (r, ti) (update_timeout now ctl (?r\<lparr>er_sched := work_started (er_sched r)\<rparr>), ti) {#op_id a#} 1"
    using accounted_trans [OF res accounted_silent [of K U "update_timeout now ctl (?r\<lparr>er_sched := work_started (er_sched r)\<rparr>)"]]
      keep(1) [OF sub] by simp
  then show ?thesis using res False q by (simp add: schedule_timer_def on_sched_def)
qed

lemma cancel_timer_accounted:
  assumes inv: "reactor_inv K U r" and sp: "timer_space K U" and k: "k \<in> K"
  shows "accounted K U (r, ti) (snd (reactor_cancel_timer k t m (r, ti))) {#} 0"
proof -
  obtain xs where xs: "tq_wf (er_queues r k) xs" "set xs \<subseteq> U k"
    using inv k by (auto simp: reactor_inv_def timers_ok_def)
  have U: "finite (U k)" using sp k by (auto simp: timer_space_def)
  obtain n q ops where c: "cancel_timer abort_op t m (er_queues r k) [] = (n, q, ops)"
    by (cases "cancel_timer abort_op t m (er_queues r k) []")
  obtain ys where ys: "tq_wf q ys" "set ys \<subseteq> U k"
    and ids: "tq_ids (U k) q + ids ops = tq_ids (U k) (er_queues r k) + {#}"
    using cancel_timer_keeps [OF c xs U] by auto
  note keep = replace_queue_keeps [OF inv sp k ys ids]
  let ?r = "r\<lparr>er_queues := (er_queues r)(k := q)\<rparr>"
  have "accounted K U (?r, ti) (post_deferred ops (?r, ti)) (ids ops) 0"
    using post_deferred_accounted [of K U "(?r, ti)" ops] keep(1) by simp
  then have "accounted K U (r, ti) (post_deferred ops (?r, ti)) {#} 0"
    by (rule accounted_after) (use keep(2) in simp_all)
  then show ?thesis by (simp add: reactor_cancel_timer_def c)
qed

lemma erase_subset: "set (timer_set_erase q qs) \<subseteq> set qs"
  by (induction q qs rule: timer_set_erase.induct) auto

lemma exec_call_accounted:
  assumes inv: "reactor_inv K U r" and sp: "timer_space K U" and ok: "call_ok K U x r"
  shows "accounted K U (r, ti) (snd (exec_call perform x (w, (r, ti)))) (started x) (int (size (started x)))"
proof (cases x)
  case (Start_op j fd dd a cont spec ctl)
  then show ?thesis using ok start_op_accounted [OF inv, of dd ti perform j fd a cont spec ctl w] by simp
next
  case (Cancel_ops dd)
  then show ?thesis using ok cancel_ops_accounted [OF inv, of dd ti] by simp
next
  case (Register fd fresh ctl)
  then show ?thesis using ok register_accounted [OF inv, of fresh ti fd ctl] by simp
next
  case (Deregister fd dd closing)
  then show ?thesis using ok deregister_accounted [OF inv, of dd ti fd closing] by simp
next
  case (Cleanup dd)
  then show ?thesis using ok cleanup_accounted [OF inv, of dd ti] by simp
next
  case (Add_timer_queue q)
  then have "reactor_inv K U (do_add_timer_queue q r)"
    using ok inv by (simp add: do_add_timer_queue_def timer_set_insert_def reactor_inv_def)
  then show ?thesis using Add_timer_queue accounted_silent [of K U "do_add_timer_queue q r" r ti]
    by (simp add: do_add_timer_queue_def store_ids_def desc_ids_def)
next
  case (Remove_timer_queue q)
  then have "reactor_inv K U (do_remove_timer_queue q r)"
    using inv erase_subset [of q "er_queue_set r"] by (auto simp: do_remove_timer_queue_def reactor_inv_def)
  then show ?thesis using Remove_timer_queue accounted_silent [of K U "do_remove_timer_queue q r" r ti]
    by (simp add: do_remove_timer_queue_def store_ids_def desc_ids_def)
next
  case (Schedule_timer now ctl q time t a)
  then show ?thesis using ok schedule_timer_accounted [OF inv sp] by simp
next
  case (Cancel_timer q t m)
  then show ?thesis using ok cancel_timer_accounted [OF inv sp] by simp
next
  case (Post_immediate a cont)
  then show ?thesis using inv post_immediate_accounted [of K U "(r, ti)" a cont] by simp
qed

lemma exec_calls_accounted:
  assumes "reactor_inv K U (fst c)" "timer_space K U" "calls_ok perform K U xs (w, c)"
  shows "accounted K U c (snd (exec_calls perform xs (w, c))) (\<Sum>x\<leftarrow>xs. started x)
    (int (size (\<Sum>x\<leftarrow>xs. started x)))"
  using assms(1,3)
proof (induction xs arbitrary: w c)
  case Nil
  then show ?case by (simp add: accounted_refl)
next
  case (Cons x xs)
  obtain w1 c1 where e: "exec_call perform x (w, c) = (w1, c1)" by (cases "exec_call perform x (w, c)")
  have 1: "accounted K U c c1 (started x) (int (size (started x)))"
    using exec_call_accounted [of K U "fst c" x "snd c" perform w] Cons.prems assms(2) e by simp
  then have "reactor_inv K U (fst c1)" by (simp add: accounted_def)
  from accounted_trans [OF 1 Cons.IH [OF this, of w1]] show ?case using Cons.prems(2) e by simp
qed

end
