(* ===== verification/Reactor_Properties.thy ===== *)
theory Reactor_Properties
  imports Reactor_Accounting
begin

text \<open>
  The steps of the reactor preserve the invariant, and the properties of the reactor: no operation
  is lost or completed twice, the order in which ready operations are completed, and the setting of
  the timer descriptor.
\<close>

section \<open>Performing ready operations\<close>

lemma perform_ops_ids:
  "perform_ops perform w q = (fin, rest, ex, w') \<Longrightarrow> ids fin + ids rest = ids q"
proof (induction perform w q arbitrary: fin rest ex w' rule: perform_ops.induct)
  case (2 perform w a q)
  obtain st a' w1 where p: "do_perform perform w a = (st, a', w1)" by (cases "do_perform perform w a")
  obtain fin1 rest1 ex1 w2 where r: "perform_ops perform w1 q = (fin1, rest1, ex1, w2)"
    by (cases "perform_ops perform w1 q")
  show ?case
    using 2(1) [OF p [symmetric], of a' w1 fin1 rest1 ex1 w2] 2(2) p r ids_do_perform [OF p] by (cases st) auto
qed simp

lemma ids_update:
  "ids (all_ops (x\<lparr>op_queues := (op_queues x)(j := q), try_speculative := g\<rparr>)) + ids (op_queues x j)
     = ids (all_ops x) + ids q"
  by (cases j) (simp_all add: all_ops_def)

lemma perform_queue_ids:
  assumes "perform_queue perform events j (x, ops, w) = (x', ops', w')"
  shows "ids (all_ops x') + ids ops' = ids (all_ops x) + ids ops"
proof (cases "events AND (event_flag j OR EPOLLERR OR EPOLLHUP) \<noteq> 0")
  case True
  obtain fin rest ex w1 where p: "perform_ops perform w (op_queues x j) = (fin, rest, ex, w1)"
    by (cases "perform_ops perform w (op_queues x j)")
  have "x' = x\<lparr>op_queues := (op_queues x)(j := rest), try_speculative := (try_speculative x)(j := \<not> ex)\<rparr>"
    "ops' = ops @ fin"
    using assms True p by (auto simp: perform_queue_def)
  moreover from this have "ids (all_ops x') + ids (op_queues x j) = ids (all_ops x) + ids rest"
    using ids_update [where x = x and j = j and q = rest and g = "(try_speculative x)(j := \<not> ex)"] by simp
  then have "(ids (all_ops x') + ids fin) + ids rest = ids (all_ops x) + ids rest"
    unfolding perform_ops_ids [OF p, symmetric] by (simp add: add.assoc)
  ultimately show ?thesis by (simp add: ac_simps)
next
  case False
  then show ?thesis using assms by (simp add: perform_queue_def)
qed

text \<open>Performing never adds an operation to a queue and never changes the registration.\<close>

definition fewer_ops :: "descriptor_state \<Rightarrow> descriptor_state \<Rightarrow> bool" where
  "fewer_ops x x' \<longleftrightarrow> registered_events x' = registered_events x \<and> ds_shutdown x' = ds_shutdown x \<and>
     (\<forall>j. op_queues x j = [] \<longrightarrow> op_queues x' j = [])"

lemma perform_queue_fewer:
  "perform_queue perform events j (x, ops, w) = (x', ops', w') \<Longrightarrow> fewer_ops x x'"
  by (auto simp: perform_queue_def fewer_ops_def split: if_splits prod.splits)

lemma fewer_ops_ok: "fewer_ops x x' \<Longrightarrow> descriptor_ok b x \<Longrightarrow> descriptor_ok b x'"
  unfolding fewer_ops_def descriptor_ok_def by metis

lemma perform_all_keeps:
  assumes "perform_all perform events x w = (x', ops, w')"
  shows "ids (all_ops x') + ids ops = ids (all_ops x)" "descriptor_ok b x \<Longrightarrow> descriptor_ok b x'"
proof -
  obtain x1 o1 w1 where 1: "perform_queue perform events except_op (x, [], w) = (x1, o1, w1)"
    by (cases "perform_queue perform events except_op (x, [], w)")
  obtain x2 o2 w2 where 2: "perform_queue perform events write_op (x1, o1, w1) = (x2, o2, w2)"
    by (cases "perform_queue perform events write_op (x1, o1, w1)")
  have 3: "perform_queue perform events read_op (x2, o2, w2) = (x', ops, w')"
    using assms 1 2 by (simp add: perform_all_def)
  show "ids (all_ops x') + ids ops = ids (all_ops x)"
    using perform_queue_ids [OF 1] perform_queue_ids [OF 2] perform_queue_ids [OF 3] by simp
  show "descriptor_ok b x \<Longrightarrow> descriptor_ok b x'"
    using 1 2 3 by (blast dest: perform_queue_fewer intro: fewer_ops_ok)
qed

lemma perform_io_accounted:
  assumes inv: "reactor_inv K U r" and io: "perform_io perform events d w (r, Some t) = (res, w', c')"
  shows "reactor_inv K U (fst c') \<and> grows (r, Some t) c' \<and>
    (case res of
       None \<Rightarrow> pending K U c' = pending K U (r, Some t) \<and> work_load c' = work_load (r, Some t) + 1
     | Some a \<Rightarrow> pending K U (r, Some t) = add_mset (op_id a) (pending K U c') \<and> work_load c' = work_load (r, Some t))"
proof -
  obtain x ops w1 where p: "perform_all perform events (er_states r d) w = (x, ops, w1)"
    by (cases "perform_all perform events (er_states r d) w")
  let ?r = "upd_state d (\<lambda>_. x) r"
  have ok: "reactor_inv K U ?r"
    using inv perform_all_keeps(2) [OF p inv_descriptor [OF inv]] by (rule inv_upd_state)
  have st: "store_ids K U ?r + ids ops = store_ids K U r"
  proof (cases "d \<in> set (er_live r)")
    case True
    then have "store_ids K U ?r + ids (all_ops (er_states r d)) = store_ids K U r + ids (all_ops x)"
      by (rule store_upd_state)
    then show ?thesis using perform_all_keeps(1) [OF p] by (metis add.commute add.assoc add_right_cancel)
  next
    case False
    then have "all_ops (er_states r d) = []"
      using inv_descriptor [OF inv, of d] by (simp add: descriptor_ok_def all_ops_def)
    moreover have "ids (all_ops x) = {#}" "ops = []"
      using perform_all_keeps(1) [OF p] calculation by (auto simp: ids_def)
    moreover have "all_ops x = []" using calculation(2) by (simp add: ids_def)
    ultimately show ?thesis using store_upd_same [of "\<lambda>_. x" r d K U] by simp
  qed
  show ?thesis
  proof (cases ops)
    case Nil
    have "grows (r, Some t) (?r, Some (compensating_work_started t))"
      using grows_private [of "compensating_work_started t" t "[]" ?r]
      by (simp add: compensating_work_started_def grows_def)
    then show ?thesis
      using io p Nil ok st
      by (auto simp: perform_io_def pending_eq work_load_def compensating_work_started_def)
  next
    case (Cons a rest)
    have post: "accounted K U (?r, Some t) (post_deferred rest (?r, Some t)) (ids rest) 0"
      using post_deferred_accounted [of K U "(?r, Some t)" rest] ok by simp
    have "grows (r, Some t) (?r, Some t)" using grows_refl [of "(r, Some t)"] by (simp add: grows_def)
    then have "grows (r, Some t) (post_deferred rest (?r, Some t))"
      using post grows_trans by (auto simp: accounted_def)
    moreover have "pending K U (r, Some t) = pending K U (?r, Some t) + ids ops"
      using st by (simp add: pending_eq ac_simps)
    ultimately show ?thesis
      using io p Cons post by (auto simp: perform_io_def accounted_def work_load_def)
  qed
qed

section \<open>The queue of the scheduler\<close>

text \<open>
  The reactor's place in the queue is behind every descriptor it handed over, and no descriptor is
  in the queue twice.
\<close>

fun descs_before_task :: "rop operation list \<Rightarrow> bool" where
  "descs_before_task [] = True"
| "descs_before_task (Task_operation # q) = (Task_operation \<notin> set q \<and> descs_before_task q)"
| "descs_before_task (Op (Descriptor_op d) # q) =
     (Task_operation \<in> set q \<and> Op (Descriptor_op d) \<notin> set q \<and> descs_before_task q)"
| "descs_before_task (Op (Async_op a) # q) = descs_before_task q"

lemma descs_append: "descs_before_task q \<Longrightarrow> descs_before_task (q @ map (Op \<circ> Async_op) news)"
proof (induction q rule: descs_before_task.induct)
  case 1
  then show ?case by (induction news) simp_all
qed auto

lemma descs_tl: "descs_before_task (x # q) \<Longrightarrow> descs_before_task q"
  by (cases "x # q" rule: descs_before_task.cases) auto

lemma no_task_no_descs: "descs_before_task q \<Longrightarrow> Task_operation \<notin> set q \<Longrightarrow> Op (Descriptor_op d) \<notin> set q"
  by (induction q rule: descs_before_task.induct) auto

lemma descs_handed_over:
  "distinct ds \<Longrightarrow> descs_before_task (map (Op \<circ> Descriptor_op) ds @ map (Op \<circ> Async_op) as @ [Task_operation])"
proof (induction ds)
  case Nil
  then show ?case by (induction as) simp_all
qed auto

lemma descs_task:
  assumes "\<And>d. Op (Descriptor_op d) \<notin> set q" "Task_operation \<notin> set q" "descs_before_task p"
  shows "descs_before_task (q @ p)"
  using assms by (induction q rule: descs_before_task.induct) auto

section \<open>A run of the reactor\<close>

lemma dispatch_event_keeps:
  assumes "dispatch_event ev (r, map Descriptor_op ds, b) = (r', ops, b')" "distinct ds"
  shows "er_sched r' = er_sched r \<and> er_queues r' = er_queues r \<and> er_queue_set r' = er_queue_set r \<and>
    store_ids K U r' = store_ids K U r \<and> (reactor_inv K U r \<longrightarrow> reactor_inv K U r') \<and>
    (\<exists>ds'. ops = map Descriptor_op ds' \<and> distinct ds')"
proof (cases "fst ev")
  case (Descriptor d)
  have keep: "reactor_inv K U (upd_state d f r)" "store_ids K U (upd_state d f r) = store_ids K U r"
    if "reactor_inv K U r" "\<And>x. op_queues (f x) = op_queues x" "\<And>x. ds_shutdown (f x) = ds_shutdown x"
      "\<And>x. registered_events (f x) = registered_events x" for f
    using that inv_descriptor [OF that(1), of d]
    by (auto intro!: inv_upd_state store_upd_same simp: descriptor_ok_def all_ops_def)
  have same: "store_ids K U (upd_state d f r) = store_ids K U r" if "\<And>x. op_queues (f x) = op_queues x" for f
    by (rule store_upd_same) (simp add: all_ops_def that)
  show ?thesis
  proof (cases "d \<in> set ds")
    case True
    then show ?thesis
      using assms Descriptor keep(1) [of "add_ready_events (snd ev)"] same [of "add_ready_events (snd ev)"]
      by (auto simp: dispatch_event_def add_ready_events_def)
  next
    case False
    then have "r' = upd_state d (set_ready_events (snd ev)) r" "ops = map Descriptor_op (ds @ [d])"
      using assms Descriptor by (auto simp: dispatch_event_def image_iff split: if_splits)
    moreover have "distinct (ds @ [d])" using assms(2) False by simp
    ultimately show ?thesis
      using keep(1) [of "set_ready_events (snd ev)"] same [of "set_ready_events (snd ev)"]
      by (auto simp: set_ready_events_def simp del: map_append)
  qed
qed (use assms in \<open>auto simp: dispatch_event_def\<close>)

lemma dispatch_events_keeps:
  assumes "fold dispatch_event evs (r, map Descriptor_op ds, b) = (r', ops, b')" "distinct ds"
  shows "er_sched r' = er_sched r \<and> er_queues r' = er_queues r \<and> er_queue_set r' = er_queue_set r \<and>
    store_ids K U r' = store_ids K U r \<and> (reactor_inv K U r \<longrightarrow> reactor_inv K U r') \<and>
    (\<exists>ds'. ops = map Descriptor_op ds' \<and> distinct ds')"
  using assms
proof (induction evs arbitrary: r ds b)
  case (Cons ev evs)
  obtain r1 ops1 b1 where 1: "dispatch_event ev (r, map Descriptor_op ds, b) = (r1, ops1, b1)"
    by (cases "dispatch_event ev (r, map Descriptor_op ds, b)")
  note keep = dispatch_event_keeps [OF 1 Cons.prems(2), of K U]
  then obtain ds1 where ds1: "ops1 = map Descriptor_op ds1" "distinct ds1" by blast
  have "fold dispatch_event evs (r1, map Descriptor_op ds1, b1) = (r', ops, b')"
    using Cons.prems(1) 1 ds1 by simp
  from Cons.IH [OF this ds1(2)] keep show ?case by simp
qed auto

lemma reactor_run_keeps:
  assumes inv: "reactor_inv K U r" and sp: "timer_space K U"
    and run: "reactor_run now events [] r = Some (ops, r')"
  shows "er_sched r' = er_sched r \<and> reactor_inv K U r' \<and>
    (\<exists>ds as. ops = map Descriptor_op ds @ map Async_op as \<and> distinct ds \<and>
       store_ids K U r' + ids as = store_ids K U r)"
proof -
  obtain r1 ops1 b where d: "fold dispatch_event events (r, [], er_timer_fd r = - 1) = (r1, ops1, b)"
    by (cases "fold dispatch_event events (r, [], er_timer_fd r = - 1)")
  have "fold dispatch_event events (r, map Descriptor_op [], er_timer_fd r = - 1) = (r1, ops1, b)" using d by simp
  note keep = dispatch_events_keeps [OF this, of K U, simplified]
  then obtain ds where ds: "ops1 = map Descriptor_op ds" "distinct ds" by blast
  have inv1: "reactor_inv K U r1" using keep inv by blast
  show ?thesis
  proof (cases b)
    case False
    then have "ops = map Descriptor_op ds @ map Async_op []" "r' = r1"
      using run d ds by (simp_all add: reactor_run_def)
    moreover have "store_ids K U r1 + ids [] = store_ids K U r" using keep by simp
    ultimately show ?thesis using keep inv1 ds(2) by blast
  next
    case True
    then obtain st as where s: "set_ready_timers now (er_queue_set r1) (er_queues r1) [] = Some (st, as)"
      and res: "ops = map Descriptor_op ds @ map Async_op as"
        "r' = r1\<lparr>er_queues := st\<rparr> \<or> r' = r1\<lparr>er_queues := st, er_timer_setting := get_timeout_timerfd now (r1\<lparr>er_queues := st\<rparr>)\<rparr>"
      using run d ds by (auto simp: reactor_run_def Let_def split: option.splits if_splits)
    have "set (er_queue_set r1) \<subseteq> K" "timers_ok K U (er_queues r1)" using inv1 by (auto simp: reactor_inv_def)
    note t = set_ready_timers_keeps [OF sp this s]
    have "reactor_inv K U r'" using inv1 t res(2) by (auto simp: reactor_inv_def)
    moreover have "store_ids K U r' + ids as = store_ids K U r1"
      using t res(2) by (auto simp: store_ids_def desc_ids_def ac_simps)
    ultimately show ?thesis using keep res ds(2) by auto
  qed
qed

section \<open>The steps keep the invariant\<close>

definition reactor_good :: "tqref set \<Rightarrow> (tqref \<Rightarrow> timer_ref set) \<Rightarrow> int \<Rightarrow> 'w rconfig \<Rightarrow> bool" where
  "reactor_good K U base = (\<lambda>(w, r, S, C).
     reactor_inv K U r \<and> descs_before_task (op_queue (er_sched r)) \<and>
     S = C + pending K U (r, None) \<and>
     outstanding_work (er_sched r) = base + int (size (pending K U (r, None))))"

lemma begin_handler_frame [simp]:
  "op_queue (begin_handler q s) = q" "outstanding_work (begin_handler q s) = outstanding_work s"
  by (simp_all add: begin_handler_def Let_def)

lemma end_handler_keeps:
  assumes g: "grows (r0, Some new_thread_info) (r, ti)" and inv: "reactor_inv K U r"
    and e: "end_handler (w, (r, ti)) = (w', r')"
  shows "reactor_inv K U r' \<and> pending K U (r', None) = pending K U (r, ti) \<and>
    work_load (r', None) = work_load (r, ti) - 1 \<and>
    (\<exists>news. op_queue (er_sched r') = op_queue (er_sched r0) @ map (Op \<circ> Async_op) news)"
proof -
  obtain t n1 n2 where t: "ti = Some t" "private_op_queue t = map (Op \<circ> Async_op) n1" "0 \<le> private_outstanding_work t"
      "op_queue (er_sched r) = op_queue (er_sched r0) @ map (Op \<circ> Async_op) n2"
    using g by (auto simp: grows_def new_thread_info_def)
  obtain s' t' where c: "work_cleanup (er_sched r, t) = (s', t')" by (cases "work_cleanup (er_sched r, t)")
  have q: "op_queue s' = op_queue (er_sched r) @ private_op_queue t"
    using c by (auto simp: work_cleanup_def Let_def split: if_splits)
  have r': "r' = r\<lparr>er_sched := s'\<rparr>" using e t(1) c by (auto simp: end_handler_def)
  have "outstanding_work s' = outstanding_work (er_sched r) + private_outstanding_work t - 1"
    using c t(3) by (auto simp: work_cleanup_def Let_def split: if_splits)
  then have "work_load (r', None) = work_load (r, ti) - 1" by (simp add: work_load_def r' t(1))
  moreover have "pending K U (r', None) = pending K U (r, ti)" by (simp add: pending_eq r' q t(1) ac_simps)
  moreover have "op_queue (er_sched r') = op_queue (er_sched r0) @ map (Op \<circ> Async_op) (n2 @ n1)"
    using q t r' by simp
  ultimately show ?thesis using inv r' by (simp del: map_append) blast
qed

text \<open>A handler that makes calls, from the state in which it starts to the state after it.\<close>

lemma handler_keeps:
  assumes inv: "reactor_inv K U (fst c)" and sp: "timer_space K U"
    and g: "grows (r0, Some new_thread_info) c" and ok: "calls_ok perform K U xs (w, c)"
    and e: "end_handler (exec_calls perform xs (w, c)) = (w', r')"
  shows "reactor_inv K U r' \<and> pending K U (r', None) = pending K U c + (\<Sum>x\<leftarrow>xs. started x) \<and>
    work_load (r', None) = work_load c + int (size (\<Sum>x\<leftarrow>xs. started x)) - 1 \<and>
    (\<exists>news. op_queue (er_sched r') = op_queue (er_sched r0) @ map (Op \<circ> Async_op) news)"
proof -
  obtain w1 r1 ti where c1: "exec_calls perform xs (w, c) = (w1, (r1, ti))"
    by (cases "exec_calls perform xs (w, c)") auto
  have a: "accounted K U c (r1, ti) (\<Sum>x\<leftarrow>xs. started x) (int (size (\<Sum>x\<leftarrow>xs. started x)))"
    using exec_calls_accounted [OF inv sp ok] c1 by simp
  then have "grows (r0, Some new_thread_info) (r1, ti)" "reactor_inv K U r1"
    using grows_trans [OF g] by (simp_all add: accounted_def)
  from end_handler_keeps [OF this, of w1 w' r'] a e c1 show ?thesis by (simp add: accounted_def)
qed

lemma good_from:
  assumes "reactor_good K U base (w, r, S, C)" and "descs_before_task (op_queue (er_sched r'))"
    and "reactor_inv K U r'" "pending K U (r', None) + M = pending K U (r, None) + N"
    and "work_load (r', None) = work_load (r, None) + int (size N) - int (size M)"
  shows "reactor_good K U base (w', r', S + N, C + M)"
proof -
  have "size (pending K U (r', None)) + size M = size (pending K U (r, None)) + size N"
    using arg_cong [OF assms(4), of size] by simp
  moreover have "S + N = C + M + pending K U (r', None)"
    using assms(1,4) by (simp add: reactor_good_def) (metis add.assoc add.commute)
  ultimately show ?thesis using assms(1-3,5) by (simp add: reactor_good_def work_load_def)
qed

lemma good_queue:
  assumes "reactor_good K U base (w, r, S, C)" "op_queue (er_sched r) = x # q"
    "\<exists>news. op_queue (er_sched r') = q @ map (Op \<circ> Async_op) news"
  shows "descs_before_task (op_queue (er_sched r'))"
  using assms descs_append [OF descs_tl] by (auto simp: reactor_good_def)

lemma step_keeps_good:
  assumes "reactor_step perform K U c c'" "timer_space K U" "reactor_good K U base c"
  shows "reactor_good K U base c'"
  using assms(1,3)
proof (induction rule: reactor_step.induct)
  case (External x r w w' r' ti S C)
  have inv: "reactor_inv K U r" using External by (simp add: reactor_good_def)
  note a = exec_call_accounted [OF inv assms(2) External(1), of None perform w, unfolded External(2), simplified]
  then obtain news where "ti = None" "op_queue (er_sched r') = op_queue (er_sched r) @ map (Op \<circ> Async_op) news"
    by (auto simp: accounted_def grows_def)
  moreover have "descs_before_task (op_queue (er_sched r))" using External by (simp add: reactor_good_def)
  ultimately show ?case
    using good_from [OF External(3), of r' "{#}" "started x" w'] a descs_append by (simp add: accounted_def)
next
  case (Complete r a q c w xs w' r' S C)
  let ?r0 = "r\<lparr>er_sched := begin_handler q (er_sched r)\<rparr>"
  have inv: "reactor_inv K U (fst (?r0, Some new_thread_info))" using Complete by (simp add: reactor_good_def)
  note h = handler_keeps [OF inv assms(2) grows_refl Complete(4,5) [unfolded Complete(3)]]
  have "pending K U (?r0, Some new_thread_info) + {#op_id a#} = pending K U (r, None)"
    "work_load (?r0, Some new_thread_info) = work_load (r, None)"
    using Complete(2) by (simp_all add: pending_eq work_load_def new_thread_info_def)
  then show ?case
    using good_from [OF Complete(6), of r' "{#op_id a#}" "\<Sum>x\<leftarrow>xs. started x" w'] h
      good_queue [OF Complete(6,2), of r'] by simp
next
  case (Ready r d q w a w1 c1 xs w' r' S C)
  let ?r0 = "r\<lparr>er_sched := begin_handler q (er_sched r)\<rparr>"
  have inv: "reactor_inv K U ?r0" using Ready by (simp add: reactor_good_def)
  note io = perform_io_accounted [OF inv Ready(3), simplified]
  have inv1: "reactor_inv K U (fst c1)" using io by simp
  note h = handler_keeps [OF inv1 assms(2) _ Ready(4,5), of ?r0]
  have "pending K U (?r0, Some new_thread_info) = pending K U (r, None)"
    "work_load (?r0, Some new_thread_info) = work_load (r, None)"
    using Ready(2) by (simp_all add: pending_eq work_load_def new_thread_info_def)
  then show ?case
    using good_from [OF Ready(6), of r' "{#op_id a#}" "\<Sum>x\<leftarrow>xs. started x" w'] h io
      good_queue [OF Ready(6,2), of r'] by simp
next
  case (Spurious r d q w w1 c1 w' r' S C)
  let ?r0 = "r\<lparr>er_sched := begin_handler q (er_sched r)\<rparr>"
  have inv: "reactor_inv K U ?r0" using Spurious by (simp add: reactor_good_def)
  note io = perform_io_accounted [OF inv Spurious(3), simplified]
  obtain r1 ti where c1: "c1 = (r1, ti)" by (cases c1)
  have "grows (?r0, Some new_thread_info) (r1, ti)" "reactor_inv K U r1" using io c1 by simp_all
  note e = end_handler_keeps [OF this Spurious(4) [unfolded c1]]
  have "pending K U (?r0, Some new_thread_info) = pending K U (r, None)"
    "work_load (?r0, Some new_thread_info) = work_load (r, None)"
    using Spurious(2) by (simp_all add: pending_eq work_load_def new_thread_info_def)
  then show ?case
    using good_from [OF Spurious(5), of r' "{#}" "{#}" w'] e io c1 good_queue [OF Spurious(5,2), of r'] by simp
next
  case (Task r q now events ops r1 r' w S C)
  have inv: "reactor_inv K U r" and q: "Task_operation \<notin> set q" "descs_before_task q"
    using Task by (auto simp: reactor_good_def)
  obtain ds as where o: "er_sched r1 = er_sched r" "reactor_inv K U r1" "ops = map Descriptor_op ds @ map Async_op as"
      "distinct ds" "store_ids K U r1 + ids as = store_ids K U r"
    using reactor_run_keeps [OF inv assms(2) Task(3)] by blast
  have s: "op_queue (er_sched r') = q @ (map (Op \<circ> Descriptor_op) ds @ map (Op \<circ> Async_op) as @ [Task_operation])"
    "outstanding_work (er_sched r') = outstanding_work (er_sched r)"
    by (simp_all add: Task(4) run_task_def task_cleanup_def new_thread_info_def Let_def o(1,3))
  have inv': "reactor_inv K U r'" and st: "store_ids K U r' = store_ids K U r1"
    unfolding Task(4) using o(2) by simp_all
  have "rop_ids (map (Op \<circ> Descriptor_op) ds) = {#}" by (induction ds) simp_all
  then have "pending K U (r', None) = pending K U (r, None)"
    unfolding pending_eq s(1) st o(5) [symmetric] Task(2) by (simp add: ac_simps)
  moreover have "Op (Descriptor_op d) \<notin> set q" for d using no_task_no_descs [OF q(2,1)] .
  then have "descs_before_task (op_queue (er_sched r'))"
    unfolding s(1) using q(1) descs_handed_over [OF o(4)] by (rule descs_task)
  ultimately show ?case
    using good_from [OF Task(5), of r' "{#}" "{#}" w] s(2) inv' by (simp add: work_load_def)
qed

section \<open>Reachable states\<close>

text \<open>A reactor as the constructor and \<open>init_task\<close> leave it, on a new scheduler.\<close>

definition initial_reactor ::
  "int \<Rightarrow> bool \<Rightarrow> int \<Rightarrow> int + int \<Rightarrow> int + int \<Rightarrow> int + int \<Rightarrow> int + int \<Rightarrow> system_error + epoll_reactor" where
  "initial_reactor hint own_thread intr_fd e1 e2 t1 t2 =
     (case new_epoll_reactor (new_scheduler hint own_thread) intr_fd e1 e2 t1 t2 None None
             (\<lambda>_. new_timer_queue (\<lambda>_. new_per_timer_data)) of
        Inl ex \<Rightarrow> Inl ex
      | Inr r \<Rightarrow> Inr (reactor_init_task r))"

definition reactor_reachable ::
  "'w perform \<Rightarrow> tqref set \<Rightarrow> (tqref \<Rightarrow> timer_ref set) \<Rightarrow> bool \<Rightarrow> 'w rconfig \<Rightarrow> bool" where
  "reactor_reachable perform K U own_thread c \<longleftrightarrow>
     (\<exists>hint intr_fd e1 e2 t1 t2 r0 w0.
        initial_reactor hint own_thread intr_fd e1 e2 t1 t2 = Inr r0 \<and>
        (reactor_step perform K U)\<^sup>*\<^sup>* (w0, r0, {#}, {#}) c)"

lemma add_internal_frame [simp]:
  "er_sched (add_internal_fds c1 c2 r) = er_sched r" "er_live (add_internal_fds c1 c2 r) = er_live r"
  "er_free (add_internal_fds c1 c2 r) = er_free r" "er_states (add_internal_fds c1 c2 r) = er_states r"
  "er_queues (add_internal_fds c1 c2 r) = er_queues r" "er_queue_set (add_internal_fds c1 c2 r) = er_queue_set r"
  by (simp_all add: add_internal_fds_def Let_def)

lemma initial_good:
  assumes "initial_reactor hint own_thread intr_fd e1 e2 t1 t2 = Inr r0"
  shows "reactor_good K U (if own_thread then 1 else 0) (w, r0, {#}, {#})"
proof -
  obtain r where n: "new_epoll_reactor (new_scheduler hint own_thread) intr_fd e1 e2 t1 t2 None None
      (\<lambda>_. new_timer_queue (\<lambda>_. new_per_timer_data)) = Inr r" and r0: "r0 = reactor_init_task r"
    using assms by (auto simp: initial_reactor_def split: sum.splits)
  have r: "er_sched r = new_scheduler hint own_thread" "er_live r = []" "er_free r = []" "er_queue_set r = []"
    "er_states r = (\<lambda>_. new_descriptor_state)" "er_queues r = (\<lambda>_. new_timer_queue (\<lambda>_. new_per_timer_data))"
    using n by (auto simp: new_epoll_reactor_def split: sum.splits)
  have wf: "tq_wf (new_timer_queue (\<lambda>_. new_per_timer_data)) []" by (rule new_timer_queue_wf)
  have "timers_ok K U (er_queues r)" unfolding timers_ok_def r(6) using wf by (intro ballI exI [of _ "[]"]) simp
  then have "reactor_inv K U r0"
    by (simp add: r0 reactor_init_task_def reactor_inv_def r descriptor_ok_def new_descriptor_state_def)
  moreover have "store_ids K U r0 = {#}"
    by (simp add: r0 reactor_init_task_def store_ids_def desc_ids_def timer_ids_def tq_ids_def r
        new_timer_queue_def new_per_timer_data_def)
  moreover have "op_queue (er_sched r0) = [Task_operation]" "outstanding_work (er_sched r0) = (if own_thread then 1 else 0)"
    by (simp_all add: r0 reactor_init_task_def r init_task_def new_scheduler_def)
  ultimately show ?thesis by (simp add: reactor_good_def pending_eq)
qed

lemma reachable_good:
  assumes "timer_space K U" "reactor_reachable perform K U own_thread c"
  shows "reactor_good K U (if own_thread then 1 else 0) c"
proof -
  obtain hint intr_fd e1 e2 t1 t2 r0 w0 where
    i: "initial_reactor hint own_thread intr_fd e1 e2 t1 t2 = Inr r0"
    and steps: "(reactor_step perform K U)\<^sup>*\<^sup>* (w0, r0, {#}, {#}) c"
    using assms(2) by (auto simp: reactor_reachable_def)
  from steps show ?thesis
  proof (induction rule: rtranclp_induct)
    case base
    show ?case by (rule initial_good [OF i])
  next
    case (step c1 c2)
    show ?case using step_keeps_good [OF step(2) assms(1) step(3)] .
  qed
qed

section \<open>The order of completion\<close>

lemma perform_ops_result:
  "perform_ops perform w q = (fin, rest, ex, w') \<Longrightarrow>
     map op_id q = map op_id fin @ map op_id rest \<and>
     (rest \<noteq> [] \<longrightarrow> ex \<or> (\<exists>w1 a w2. a \<in> set q \<and> do_perform perform w1 a = (not_done, hd rest, w2)))"
proof (induction perform w q arbitrary: fin rest ex w' rule: perform_ops.induct)
  case (2 perform w a q)
  obtain st a' w1 where p: "do_perform perform w a = (st, a', w1)" by (cases "do_perform perform w a")
  obtain fin1 rest1 ex1 w2 where r: "perform_ops perform w1 q = (fin1, rest1, ex1, w2)"
    by (cases "perform_ops perform w1 q")
  show ?case
  proof (cases st)
    case op_done
    then have IH: "map op_id q = map op_id fin1 @ map op_id rest1 \<and>
        (rest1 \<noteq> [] \<longrightarrow> ex1 \<or> (\<exists>w1 a w2. a \<in> set q \<and> do_perform perform w1 a = (not_done, hd rest1, w2)))"
      using 2(1) [OF p [symmetric], of a' w1 fin1 rest1 ex1 w2] r by simp
    have "fin = a' # fin1" "rest = rest1" "ex = ex1" using 2(2) p r op_done by auto
    then show ?thesis using IH ids_do_perform [OF p] by auto
  next
    case not_done
    then have "fin = []" "rest = a' # q" using 2(2) p by auto
    moreover have "\<exists>w1 b w2. b \<in> set (a # q) \<and> do_perform perform w1 b = (not_done, hd (a' # q), w2)"
      using p not_done by (intro exI [of _ w] exI [of _ a] exI [of _ w1]) simp
    ultimately show ?thesis using ids_do_perform [OF p] by simp
  next
    case done_and_exhausted
    then show ?thesis using 2(2) p ids_do_perform [OF p] by auto
  qed
qed simp

definition flagged :: "u32 \<Rightarrow> op_types \<Rightarrow> bool" where
  "flagged events j \<longleftrightarrow> events AND (event_flag j OR EPOLLERR OR EPOLLHUP) \<noteq> 0"

text \<open>What one queue contributes: \<open>fin\<close> are its finished operations.\<close>

definition queue_performed ::
  "'w perform \<Rightarrow> u32 \<Rightarrow> op_types \<Rightarrow> descriptor_state \<Rightarrow> descriptor_state \<Rightarrow> reactor_op list \<Rightarrow> bool" where
  "queue_performed perform events j x x' fin \<longleftrightarrow>
     map op_id (op_queues x j) = map op_id fin @ map op_id (op_queues x' j) \<and>
     (\<not> flagged events j \<longrightarrow> fin = []) \<and>
     (flagged events j \<longrightarrow> op_queues x' j \<noteq> [] \<longrightarrow>
        \<not> try_speculative x' j \<or>
        (\<exists>w1 a w2. a \<in> set (op_queues x j) \<and> do_perform perform w1 a = (not_done, hd (op_queues x' j), w2)))"

lemma perform_queue_result:
  assumes "perform_queue perform events j (x, ops, w) = (x', ops', w')"
  shows "\<exists>fin. ops' = ops @ fin \<and> queue_performed perform events j x x' fin"
    and "i \<noteq> j \<Longrightarrow> op_queues x' i = op_queues x i \<and> try_speculative x' i = try_speculative x i"
proof -
  obtain fin rest ex w1 where p: "perform_ops perform w (op_queues x j) = (fin, rest, ex, w1)"
    by (cases "perform_ops perform w (op_queues x j)")
  show "\<exists>fin. ops' = ops @ fin \<and> queue_performed perform events j x x' fin"
  proof (cases "flagged events j")
    case True
    then have "ops' = ops @ fin" "op_queues x' j = rest" "try_speculative x' j = (\<not> ex)"
      using assms p by (auto simp: perform_queue_def flagged_def)
    then show ?thesis using perform_ops_result [OF p] True by (auto simp: queue_performed_def)
  next
    case False
    then show ?thesis using assms by (simp add: perform_queue_def flagged_def queue_performed_def)
  qed
  show "i \<noteq> j \<Longrightarrow> op_queues x' i = op_queues x i \<and> try_speculative x' i = try_speculative x i"
    using assms p by (auto simp: perform_queue_def split: if_splits)
qed

lemma queue_performed_frame:
  assumes "queue_performed perform events j x1 x2 fin"
    "op_queues x1 j = op_queues x j" "op_queues x2 j = op_queues x' j" "try_speculative x2 j = try_speculative x' j"
  shows "queue_performed perform events j x x' fin"
  using assms by (simp add: queue_performed_def)

lemma perform_all_result:
  assumes "perform_all perform events x w = (x', ops, w')"
  shows "\<exists>fin. ops = fin except_op @ fin write_op @ fin read_op \<and> (\<forall>j. queue_performed perform events j x x' (fin j))"
proof -
  obtain x1 o1 w1 where 1: "perform_queue perform events except_op (x, [], w) = (x1, o1, w1)"
    by (cases "perform_queue perform events except_op (x, [], w)")
  obtain x2 o2 w2 where 2: "perform_queue perform events write_op (x1, o1, w1) = (x2, o2, w2)"
    by (cases "perform_queue perform events write_op (x1, o1, w1)")
  have 3: "perform_queue perform events read_op (x2, o2, w2) = (x', ops, w')"
    using assms 1 2 by (simp add: perform_all_def)
  obtain e v d where f: "o1 = e" "o2 = o1 @ v" "ops = o2 @ d"
    "queue_performed perform events except_op x x1 e" "queue_performed perform events write_op x1 x2 v"
    "queue_performed perform events read_op x2 x' d"
    using perform_queue_result(1) [OF 1] perform_queue_result(1) [OF 2] perform_queue_result(1) [OF 3] by auto
  note frame = perform_queue_result(2) [OF 1] perform_queue_result(2) [OF 2] perform_queue_result(2) [OF 3]
  define fin where "fin = (\<lambda>j. case j of except_op \<Rightarrow> e | write_op \<Rightarrow> v | read_op \<Rightarrow> d)"
  have "queue_performed perform events except_op x x' e" using f(4) by (rule queue_performed_frame) (simp_all add: frame)
  moreover have "queue_performed perform events write_op x x' v" using f(5) by (rule queue_performed_frame) (simp_all add: frame)
  moreover have "queue_performed perform events read_op x x' d" using f(6) by (rule queue_performed_frame) (simp_all add: frame)
  ultimately have "queue_performed perform events j x x' (fin j)" for j by (cases j) (simp_all add: fin_def)
  moreover have "ops = fin except_op @ fin write_op @ fin read_op" using f by (simp add: fin_def)
  ultimately show ?thesis by blast
qed

section \<open>The timeout of the timer descriptor\<close>

definition due :: "int \<Rightarrow> (tqref \<Rightarrow> reactor_op timer_queue) \<Rightarrow> tqref set \<Rightarrow> bool" where
  "due now st ks \<longleftrightarrow> (\<exists>k\<in>ks. \<exists>e\<in>set (heap (st k)). fst e \<le> now)"

lemma wait_duration_cases:
  assumes wf: "tq_wf q xs" and "0 < u" "0 \<le> m"
  shows "0 \<le> wait_duration u now m q \<and> wait_duration u now m q \<le> max 1 m \<and>
    ((\<exists>e\<in>set (heap q). fst e \<le> now) \<longrightarrow> wait_duration u now m q = 0) \<and>
    (wait_duration u now m q = 0 \<longrightarrow> m = 0 \<or> (\<exists>e\<in>set (heap q). fst e \<le> now)) \<and>
    (1 < wait_duration u now m q \<longrightarrow>
       wait_duration u now m q \<le> m \<and> (\<forall>e\<in>set (heap q). now + u * wait_duration u now m q \<le> fst e))"
proof (cases "heap q = []")
  case True
  then show ?thesis using assms by (simp add: wait_duration_def)
next
  case ne: False
  let ?d = "fst (heap q ! 0) - now" and ?w = "wait_duration u now m q"
  have head: "heap q ! 0 \<in> set (heap q)" using ne by simp
  have le: "fst (heap q ! 0) \<le> fst e" if "e \<in> set (heap q)" for e
    using heap_wf_head_min [of q "fst e" "snd e"] wf that by (simp add: tq_wf_def)
  have w: "?w = to_units u ?d m" using ne by (simp add: wait_duration_def)
  have due: "(\<exists>e\<in>set (heap q). fst e \<le> now) \<longleftrightarrow> ?d \<le> 0" using head le by force
  have pos: "0 \<le> ?d div u" if "0 < ?d" using that assms(2) by (simp add: pos_imp_zdiv_nonneg_iff)
  have bound: "now + u * ?w \<le> fst e" "?w \<le> m" if "1 < ?w" "e \<in> set (heap q)" for e
  proof -
    have "?w \<le> ?d div u" "?w \<le> m" using that(1) by (auto simp: w to_units_def Let_def split: if_splits)
    then have "u * ?w \<le> u * (?d div u)" using assms(2) by simp
    also have "\<dots> \<le> ?d" using mult_div_mod_eq [of u ?d] pos_mod_sign [OF assms(2), of ?d] by linarith
    finally show "now + u * ?w \<le> fst e" using le [OF that(2)] by linarith
    show "?w \<le> m" by fact
  qed
  have "0 \<le> ?w" "?w \<le> max 1 m" "?d \<le> 0 \<Longrightarrow> ?w = 0" "?w = 0 \<Longrightarrow> m = 0 \<or> ?d \<le> 0"
    using assms(3) pos by (auto simp: w to_units_def Let_def split: if_splits)
  then show ?thesis using bound head unfolding due by blast
qed

lemma set_wait_duration_cases:
  assumes "\<forall>k\<in>set ks. \<exists>xs. tq_wf (st k) xs" "0 < u" "0 \<le> m"
  shows "0 \<le> set_wait_duration u now st ks m \<and> set_wait_duration u now st ks m \<le> max 1 m \<and>
    (m \<le> 1 \<or> due now st (set ks) \<longrightarrow> set_wait_duration u now st ks m \<le> 1) \<and>
    (set_wait_duration u now st ks m = 0 \<longrightarrow> m = 0 \<or> due now st (set ks)) \<and>
    (1 < set_wait_duration u now st ks m \<longrightarrow> set_wait_duration u now st ks m \<le> m \<and>
       (\<forall>k\<in>set ks. \<forall>e\<in>set (heap (st k)). now + u * set_wait_duration u now st ks m \<le> fst e))"
  using assms(1,3)
proof (induction ks arbitrary: m)
  case Nil
  then show ?case by (simp add: due_def)
next
  case (Cons k ks)
  obtain xs where wf: "tq_wf (st k) xs" using Cons.prems(1) by auto
  let ?m = "wait_duration u now m (st k)"
  note one = wait_duration_cases [OF wf assms(2) Cons.prems(2), of now]
  have IH: "0 \<le> set_wait_duration u now st ks ?m \<and> set_wait_duration u now st ks ?m \<le> max 1 ?m \<and>
    (?m \<le> 1 \<or> due now st (set ks) \<longrightarrow> set_wait_duration u now st ks ?m \<le> 1) \<and>
    (set_wait_duration u now st ks ?m = 0 \<longrightarrow> ?m = 0 \<or> due now st (set ks)) \<and>
    (1 < set_wait_duration u now st ks ?m \<longrightarrow> set_wait_duration u now st ks ?m \<le> ?m \<and>
       (\<forall>k\<in>set ks. \<forall>e\<in>set (heap (st k)). now + u * set_wait_duration u now st ks ?m \<le> fst e))"
    using Cons.IH [of ?m] Cons.prems(1) one by simp
  let ?w = "set_wait_duration u now st ks ?m"
  have d: "due now st (set (k # ks)) \<longleftrightarrow> (\<exists>e\<in>set (heap (st k)). fst e \<le> now) \<or> due now st (set ks)"
    by (auto simp: due_def)
  have 1: "0 \<le> ?w" "?w \<le> max 1 m" using IH one by auto
  have 2: "?w \<le> 1" if "m \<le> 1 \<or> due now st (set (k # ks))"
    using that d IH one by fastforce
  have 3: "m = 0 \<or> due now st (set (k # ks))" if "?w = 0" using that d IH one by blast
  have 4: "?w \<le> m \<and> (\<forall>k'\<in>set (k # ks). \<forall>e\<in>set (heap (st k')). now + u * ?w \<le> fst e)" if "1 < ?w"
  proof -
    have le: "?w \<le> ?m" "1 < ?m" using IH that by auto
    have "now + u * ?w \<le> fst e" if "e \<in> set (heap (st k))" for e
    proof -
      have "u * ?w \<le> u * ?m" using le(1) assms(2) by simp
      then show ?thesis using one le(2) that by fastforce
    qed
    then show ?thesis using IH one le that by auto
  qed
  show ?case using 1 2 3 4 by simp
qed

section \<open>What the reactor guarantees\<close>

definition demo_perform :: "nat perform" where
  "demo_perform w a = (not_done, ec_success, 0, w)"

definition demo_op :: reactor_op where
  "demo_op = \<lparr>op_id = 7, op_ec = ec_success, op_bytes = 0\<rparr>"

definition demo_start :: epoll_reactor where
  "demo_start = (case initial_reactor 1 False 3 (Inr 4) (Inl 0) (Inr 5) (Inl 0) of Inr r \<Rightarrow> r)"

definition demo_registered :: epoll_reactor where
  "demo_registered = snd (snd (register_descriptor 6 0 None demo_start))"

definition demo_waiting :: epoll_reactor where
  "demo_waiting = fst (snd (start_op demo_perform read_op 6 (Some 0) demo_op False True None 0 (demo_registered, None)))"

lemma demo_initial: "initial_reactor 1 False 3 (Inr 4) (Inl 0) (Inr 5) (Inl 0) = Inr demo_start"
  by (simp add: demo_start_def initial_reactor_def new_epoll_reactor_def do_epoll_create_def)

lemma demo_start_fields: "er_live demo_start = []" "er_free demo_start = []"
  by (simp_all add: demo_start_def initial_reactor_def new_epoll_reactor_def do_epoll_create_def reactor_init_task_def)

lemma demo_registered_fields:
  "er_live demo_registered = [0]"
  "er_states demo_registered 0 = new_descriptor_state
     \<lparr>descriptor := 6, ds_shutdown := False, try_speculative := (\<lambda>_. True), registered_events := register_events\<rparr>"
  by (simp_all add: demo_registered_def register_descriptor_def allocate_descriptor_state_def demo_start_fields Let_def)

lemma demo_start_op:
  "start_op demo_perform read_op 6 (Some 0) demo_op False True None 0 (demo_registered, None)
     = (0, enqueue_op read_op demo_op 0 (demo_registered, None))"
  by (simp add: start_op_def demo_registered_fields new_descriptor_state_def demo_perform_def do_perform_def
      demo_op_def start_speculative_def)

lemma demo_waiting_queue: "op_queues (er_states demo_waiting 0) read_op = [demo_op]"
  by (simp add: demo_waiting_def demo_start_op enqueue_op_def on_sched_def push_op_def demo_registered_fields
      new_descriptor_state_def)

lemma demo_waiting_reachable:
  "reactor_reachable demo_perform {} (\<lambda>_. {}) False (0, demo_waiting, {#7#}, {#})"
proof -
  let ?x1 = "Register 6 0 None" and ?x2 = "Start_op read_op 6 (Some 0) demo_op False True None"
  have "reactor_step demo_perform {} (\<lambda>_. {}) (0, demo_start, {#}, {#}) (0, demo_registered, {#} + started ?x1, {#})"
    by (rule reactor_step.External [where ti = None]) (simp_all add: demo_start_fields demo_registered_def)
  moreover have "reactor_step demo_perform {} (\<lambda>_. {}) (0, demo_registered, {#} + started ?x1, {#})
      (0, demo_waiting, {#} + started ?x1 + started ?x2, {#})"
    by (rule reactor_step.External [where ti = "snd (enqueue_op read_op demo_op 0 (demo_registered, None))"])
      (simp_all add: demo_registered_fields demo_waiting_def demo_start_op)
  ultimately have "(reactor_step demo_perform {} (\<lambda>_. {}))\<^sup>*\<^sup>* (0, demo_start, {#}, {#}) (0, demo_waiting, {#7#}, {#})"
    by (simp add: demo_op_def)
  with demo_initial show ?thesis unfolding reactor_reachable_def by blast
qed

text \<open>
  C18: No asynchronous operation is lost or completed twice: in every reachable state the started
  operations are exactly those whose handler has run and those that are still in one place (a
  descriptor's queue, a timer queue or the scheduler's queue), and the scheduler's count of
  outstanding work is the number of the latter, so the event loop does not stop before they are
  completed.
\<close>

theorem reactor_no_op_lost:
  assumes "timer_space K U" "reactor_reachable perform K U own_thread (w, r, S, C)"
  shows "S = C + pending K U (r, None) \<and>
    outstanding_work (er_sched r) = (if own_thread then 1 else 0) + int (size (pending K U (r, None)))"
  using reachable_good [OF assms] by (simp add: reactor_good_def)

theorem reactor_no_op_lost_witness:
  "pending {} (\<lambda>_. {}) (demo_waiting, None) = {#7#} \<and> outstanding_work (er_sched demo_waiting) = 1"
proof -
  have "timer_space {} (\<lambda>_. {})" by (simp add: timer_space_def)
  from reactor_no_op_lost [OF this demo_waiting_reachable]
  have "pending {} (\<lambda>_. {}) (demo_waiting, None) = {#7#}"
    "outstanding_work (er_sched demo_waiting) = int (size (pending {} (\<lambda>_. {}) (demo_waiting, None)))" by simp_all
  then show ?thesis by (simp only:) simp
qed

text \<open>
  When a thread is about to run the reactor, no descriptor handed over by an earlier run is left
  in the queue, and otherwise every queued descriptor is queued once and in front of the reactor's
  place; the reactor's place is in the queue at most once.
\<close>

theorem reactor_queue_order:
  assumes "timer_space K U" "reactor_reachable perform K U own_thread (w, r, S, C)"
  shows "descs_before_task (op_queue (er_sched r)) \<and>
    (op_queue (er_sched r) = Task_operation # q \<longrightarrow> Op (Descriptor_op d) \<notin> set q)"
  using reachable_good [OF assms] no_task_no_descs [of q d] by (auto simp: reactor_good_def)

theorem reactor_queue_order_witness: "descs_before_task (op_queue (er_sched demo_waiting))"
proof -
  have "timer_space {} (\<lambda>_. {})" by (simp add: timer_space_def)
  from reactor_queue_order [OF this demo_waiting_reachable] show ?thesis by auto
qed

text \<open>
  C19: A descriptor with waiting operations is registered and not shut down, the events it is
  registered for include writability when a write is waiting, and a descriptor state in the free
  list, which the next registration takes as it is, has no operations.
\<close>

theorem reactor_waiting_watched:
  assumes "timer_space K U" "reactor_reachable perform K U own_thread (w, r, S, C)"
  shows "(op_queues (er_states r d) j \<noteq> [] \<longrightarrow>
      d \<in> set (er_live r) \<and> \<not> ds_shutdown (er_states r d) \<and> registered_events (er_states r d) \<noteq> 0 \<and>
      (j = write_op \<longrightarrow> registered_events (er_states r d) AND EPOLLOUT \<noteq> 0)) \<and>
    (d \<in> set (er_free r) \<longrightarrow> all_ops (er_states r d) = [])"
proof -
  have inv: "reactor_inv K U r" using reachable_good [OF assms] by (simp add: reactor_good_def)
  have "d \<notin> set (er_live r)" if "d \<in> set (er_free r)" using inv that by (auto simp: reactor_inv_def)
  then show ?thesis using inv_descriptor [OF inv, of d] by (auto simp: descriptor_ok_def all_ops_def)
qed

theorem reactor_waiting_watched_witness:
  "op_queues (er_states demo_waiting 0) read_op = [demo_op] \<and> registered_events (er_states demo_waiting 0) \<noteq> 0"
proof -
  have "timer_space {} (\<lambda>_. {})" by (simp add: timer_space_def)
  from reactor_waiting_watched [OF this demo_waiting_reachable, of 0 read_op] demo_waiting_queue show ?thesis by simp
qed

text \<open>
  When a descriptor is ready, its operations finish in order, those waiting for exceptional
  conditions first, then writes, then reads; a queue whose event was not signalled is left alone,
  and a signalled queue is left with operations only when the first of them could not proceed or the
  descriptor is exhausted. The first finished operation is completed at once and the others are
  posted in this order.
\<close>

theorem perform_io_order:
  assumes "perform_io perform events d w (r, ti) = (res, w', c')"
  shows "\<exists>x' fin. (\<forall>j. queue_performed perform events j (er_states r d) x' (fin j)) \<and>
    (case fin except_op @ fin write_op @ fin read_op of
       [] \<Rightarrow> res = None \<and> c' = (upd_state d (\<lambda>_. x') r, map_option compensating_work_started ti)
     | a # rest \<Rightarrow> res = Some a \<and> c' = post_deferred rest (upd_state d (\<lambda>_. x') r, ti))"
proof -
  obtain x' ops w1 where p: "perform_all perform events (er_states r d) w = (x', ops, w1)"
    by (cases "perform_all perform events (er_states r d) w")
  obtain fin where fin: "ops = fin except_op @ fin write_op @ fin read_op"
      "\<forall>j. queue_performed perform events j (er_states r d) x' (fin j)"
    using perform_all_result [OF p] by blast
  then show ?thesis
    using assms p by (intro exI [of _ x'] exI [of _ fin]) (auto simp: perform_io_def split: list.splits)
qed

theorem perform_io_order_witness:
  "\<exists>x' fin. (\<forall>j. queue_performed demo_perform EPOLLIN j (er_states demo_waiting 0) x' (fin j)) \<and>
    (case fin except_op @ fin write_op @ fin read_op of
       [] \<Rightarrow> fst (perform_io demo_perform EPOLLIN 0 0 (demo_waiting, None)) = None \<and>
         snd (snd (perform_io demo_perform EPOLLIN 0 0 (demo_waiting, None)))
           = (upd_state 0 (\<lambda>_. x') demo_waiting, map_option compensating_work_started None)
     | a # rest \<Rightarrow> fst (perform_io demo_perform EPOLLIN 0 0 (demo_waiting, None)) = Some a \<and>
         snd (snd (perform_io demo_perform EPOLLIN 0 0 (demo_waiting, None)))
           = post_deferred rest (upd_state 0 (\<lambda>_. x') demo_waiting, None))"
  by (rule perform_io_order [where w' = "fst (snd (perform_io demo_perform EPOLLIN 0 0 (demo_waiting, None)))"]) simp

text \<open>
  The timer descriptor is never disarmed: the time set is positive and well-formed; when a timer
  is due it is set to at most a microsecond, it is set to fire at once (an absolute time) only when a
  timer is due, and a longer time is at most five minutes and ends before the expiry of every timer.
\<close>

theorem timer_fd_setting:
  assumes "reactor_inv K U r" "get_timeout_timerfd now r = (sec, nsec, absolute)"
  shows "0 \<le> sec \<and> 0 \<le> nsec \<and> nsec < 1000000000 \<and> 0 < sec * 1000000000 + nsec \<and>
    (due now (er_queues r) (set (er_queue_set r)) \<longrightarrow> sec = 0 \<and> nsec \<le> 1000) \<and>
    (absolute \<longrightarrow> due now (er_queues r) (set (er_queue_set r))) \<and>
    sec * 1000000000 + nsec \<le> 300 * 1000000000 \<and>
    (1000 < sec * 1000000000 + nsec \<longrightarrow>
       (\<forall>k\<in>set (er_queue_set r). \<forall>e\<in>set (heap (er_queues r k)). now + (sec * 1000000000 + nsec) \<le> fst e))"
proof -
  let ?w = "set_wait_duration 1000 now (er_queues r) (er_queue_set r) 300000000"
  have "\<forall>k\<in>set (er_queue_set r). \<exists>xs. tq_wf (er_queues r k) xs"
    using assms(1) by (auto simp: reactor_inv_def timers_ok_def)
  note w = set_wait_duration_cases [OF this, of 1000 300000000 now, simplified]
  have r: "sec = ?w div 1000000" "nsec = (if ?w \<noteq> 0 then (?w mod 1000000) * 1000 else 1)" "absolute = (?w = 0)"
    using assms(2) by (auto simp: get_timeout_timerfd_def Let_def)
  have total: "sec * 1000000000 + nsec = (if ?w = 0 then 1 else 1000 * ?w)"
  proof (cases "?w = 0")
    case False
    have "1000 * ?w = 1000 * (?w div 1000000 * 1000000 + ?w mod 1000000)" by simp
    also have "\<dots> = ?w div 1000000 * 1000000000 + (?w mod 1000000) * 1000" unfolding distrib_left by linarith
    finally show ?thesis unfolding r(1,2) using False by simp
  qed (simp add: r(1,2))
  have n: "0 \<le> sec" "0 \<le> nsec" "nsec < 1000000000"
    using w unfolding r(1,2) by (auto simp: pos_imp_zdiv_nonneg_iff)
  have "sec = 0 \<and> nsec \<le> 1000" if "?w \<le> 1" using that w unfolding r(1,2) by auto
  moreover have "now + (sec * 1000000000 + nsec) \<le> fst e"
    if "1000 < sec * 1000000000 + nsec" "k \<in> set (er_queue_set r)" "e \<in> set (heap (er_queues r k))" for k e
    using that w unfolding total by (auto split: if_splits)
  ultimately show ?thesis using n w total r(3) by (auto split: if_splits)
qed

theorem timer_fd_setting_witness: "get_timeout_timerfd 0 demo_waiting = (300, 0, False) \<and> (0 :: int) < 300 * 1000000000 + 0"
proof -
  have inv: "reactor_inv {} (\<lambda>_. {}) demo_waiting"
    using reachable_good [OF _ demo_waiting_reachable] by (simp add: timer_space_def reactor_good_def)
  then have "get_timeout_timerfd 0 demo_waiting = (300, 0, False)"
    by (simp add: get_timeout_timerfd_def reactor_inv_def)
  from timer_fd_setting [OF inv this] this show ?thesis by simp
qed

end
