(* ===== verification/Socket_Service.thy ===== *)
theory Socket_Service
  imports Reactor_Properties Socket_Io
begin

text \<open>
  The service behind every socket and acceptor, on the reactor:
  \<open>src/ext/asio/asio/detail/impl/reactive_socket_service_base.ipp\<close>, the asynchronous and synchronous
  operations of \<open>detail/reactive_socket_service_base.hpp\<close>, and accepting and connecting in
  \<open>detail/reactive_socket_service.hpp\<close>.

  Every function gets the socket implementation and the reactor with the calling thread. The results
  of the system calls and of the reactor's \<open>epoll_ctl\<close> are arguments, as in \<open>Sockets\<close> and
  \<open>Epoll_Reactor\<close>: \<open>ioctl\<close> is the result of putting the descriptor into non-blocking mode.
\<close>

unbundle bit_operations_syntax

section \<open>The socket implementation\<close>

text \<open>\<open>base_implementation_type\<close> with the reactor's data.\<close>

record reactive_impl = socket_impl +
  reactor_data :: "dref option"

definition fd_of :: "reactive_impl \<Rightarrow> int" where
  "fd_of impl = (case native impl of None \<Rightarrow> - 1 | Some n \<Rightarrow> int n)"

definition rs_is_open :: "reactive_impl \<Rightarrow> bool" where
  "rs_is_open impl \<longleftrightarrow> native impl \<noteq> None"

text \<open>\<open>construct\<close> leaves the reactor's data alone; a new implementation has none.\<close>

definition rs_construct :: "reactive_impl \<Rightarrow> reactive_impl" where
  "rs_construct impl = impl\<lparr>native := None, sock_state := 0\<rparr>"

definition new_impl :: reactive_impl where
  "new_impl = rs_construct \<lparr>native = None, sock_state = 0, reactor_data = None\<rparr>"

text \<open>\<open>base_move_construct\<close>: the new implementation and what is left of the other one.\<close>

definition rs_move_construct :: "reactive_impl \<Rightarrow> reactive_impl \<times> reactive_impl" where
  "rs_move_construct other =
     (let (d, od) = move_descriptor (reactor_data other)
      in (\<lparr>native = native other, sock_state = sock_state other, reactor_data = d\<rparr>,
          \<lparr>native = None, sock_state = 0, reactor_data = od\<rparr>))"

section \<open>Opening and closing\<close>

definition rs_destroy :: "int option \<Rightarrow> int option \<Rightarrow> reactive_impl \<Rightarrow> rctx \<Rightarrow> reactive_impl \<times> rctx" where
  "rs_destroy r1 r2 impl c =
     (if native impl \<noteq> None
      then
        (let (dd, c1) = deregister_descriptor (fd_of impl) (reactor_data impl) (sock_state impl AND possible_dup = 0) c;
             (_, st) = ops_close (native impl) (sock_state impl) True r1 r2 ec_success;
             (dd', r') = cleanup_descriptor_data dd (fst c1)
         in (impl\<lparr>sock_state := st, reactor_data := dd'\<rparr>, (r', snd c1)))
      else (impl, c))"

definition rs_move_assign ::
  "int option \<Rightarrow> int option \<Rightarrow> reactive_impl \<Rightarrow> reactive_impl \<Rightarrow> rctx \<Rightarrow> reactive_impl \<times> reactive_impl \<times> rctx" where
  "rs_move_assign r1 r2 impl other c =
     (let (impl1, c1) = rs_destroy r1 r2 impl c;
          (impl2, other2) = rs_move_construct other
      in (impl2, other2, c1))"

definition rs_close :: "int option \<Rightarrow> int option \<Rightarrow> reactive_impl \<Rightarrow> rctx \<Rightarrow> error_code \<times> reactive_impl \<times> rctx" where
  "rs_close r1 r2 impl c =
     (let (ec, impl1, c') =
            (if rs_is_open impl
             then
               (let (dd, c1) = deregister_descriptor (fd_of impl) (reactor_data impl) (sock_state impl AND possible_dup = 0) c;
                    (ec, st) = ops_close (native impl) (sock_state impl) False r1 r2 ec_success;
                    (dd', r') = cleanup_descriptor_data dd (fst c1)
                in (ec, impl\<lparr>sock_state := st, reactor_data := dd'\<rparr>, (r', snd c1)))
             else (ec_success, impl, c))
      in (ec, rs_construct impl1, c'))"

definition rs_release :: "reactive_impl \<Rightarrow> rctx \<Rightarrow> error_code \<times> nat option \<times> reactive_impl \<times> rctx" where
  "rs_release impl c =
     (if \<not> rs_is_open impl then (ec_bad_descriptor, None, impl, c)
      else
        (let (dd, c1) = deregister_descriptor (fd_of impl) (reactor_data impl) False c;
             (dd', r') = cleanup_descriptor_data dd (fst c1)
         in (ec_success, native impl, rs_construct (impl\<lparr>reactor_data := dd'\<rparr>), (r', snd c1))))"

definition rs_cancel :: "reactive_impl \<Rightarrow> rctx \<Rightarrow> error_code \<times> rctx" where
  "rs_cancel impl c =
     (if \<not> rs_is_open impl then (ec_bad_descriptor, c) else (ec_success, cancel_ops (reactor_data impl) c))"

text \<open>
  \<open>do_open\<close> and \<open>do_assign\<close>. The reactor stores its data in the implementation even when the
  registration fails; \<open>do_open\<close> then closes the new descriptor (\<open>socket_holder\<close>).
\<close>

definition rs_do_open ::
  "sock_type \<Rightarrow> int + nat \<Rightarrow> dref \<Rightarrow> int option \<Rightarrow> reactive_impl \<Rightarrow> rctx \<Rightarrow> error_code \<times> reactive_impl \<times> rctx" where
  "rs_do_open type result fresh ctl impl c =
     (if rs_is_open impl then (make_misc_error already_open, impl, c)
      else case result of
             Inl errno \<Rightarrow> (get_last_error ec_success (Some errno), impl, c)
           | Inr sock \<Rightarrow>
               (let (err, d, r') = register_descriptor (int sock) fresh ctl (fst c);
                    impl1 = impl\<lparr>reactor_data := Some d\<rparr>
                in if err \<noteq> 0 then (\<lparr>ec_value = err, ec_category = system_category\<rparr>, impl1, (r', snd c))
                   else (ec_success, impl1\<lparr>native := Some sock, sock_state := state_of_type type\<rparr>, (r', snd c))))"

definition rs_do_assign ::
  "sock_type \<Rightarrow> nat \<Rightarrow> dref \<Rightarrow> int option \<Rightarrow> reactive_impl \<Rightarrow> rctx \<Rightarrow> error_code \<times> reactive_impl \<times> rctx" where
  "rs_do_assign type native_socket fresh ctl impl c =
     (if rs_is_open impl then (make_misc_error already_open, impl, c)
      else
        (let (err, d, r') = register_descriptor (int native_socket) fresh ctl (fst c);
             impl1 = impl\<lparr>reactor_data := Some d\<rparr>
         in if err \<noteq> 0 then (\<lparr>ec_value = err, ec_category = system_category\<rparr>, impl1, (r', snd c))
            else (ec_success, impl1\<lparr>native := Some native_socket, sock_state := state_of_type type OR possible_dup\<rparr>,
                  (r', snd c))))"

section \<open>Modes and options\<close>

definition rs_set_option :: "socket_option \<Rightarrow> int option \<Rightarrow> reactive_impl \<Rightarrow> error_code \<times> reactive_impl" where
  "rs_set_option opt r impl =
     (let (ec, st) = ops_setsockopt (native impl) (sock_state impl) opt r ec_success in (ec, impl\<lparr>sock_state := st\<rparr>))"

definition rs_non_blocking :: "reactive_impl \<Rightarrow> bool" where
  "rs_non_blocking impl \<longleftrightarrow> sock_state impl AND user_set_non_blocking \<noteq> 0"

definition rs_set_non_blocking :: "bool \<Rightarrow> int option \<Rightarrow> reactive_impl \<Rightarrow> error_code \<times> reactive_impl" where
  "rs_set_non_blocking mode ioctl impl =
     (let (_, ec, st) = ops_set_user_non_blocking (native impl) (sock_state impl) mode ioctl ec_success
      in (ec, impl\<lparr>sock_state := st\<rparr>))"

definition rs_native_non_blocking :: "reactive_impl \<Rightarrow> bool" where
  "rs_native_non_blocking impl \<longleftrightarrow> sock_state impl AND internal_non_blocking \<noteq> 0"

definition rs_set_native_non_blocking :: "bool \<Rightarrow> int option \<Rightarrow> reactive_impl \<Rightarrow> error_code \<times> reactive_impl" where
  "rs_set_native_non_blocking mode ioctl impl =
     (let (_, ec, st) = ops_set_internal_non_blocking (native impl) (sock_state impl) mode ioctl ec_success
      in (ec, impl\<lparr>sock_state := st\<rparr>))"

section \<open>Starting operations\<close>

text \<open>
  The disjunction that guards an operation: the descriptor is in non-blocking mode already, or can be
  put into it; the call may set the code of the operation.
\<close>

definition make_non_blocking :: "int option \<Rightarrow> reactive_impl \<Rightarrow> reactor_op \<Rightarrow> bool \<times> reactive_impl \<times> reactor_op" where
  "make_non_blocking ioctl impl a =
     (if sock_state impl AND non_blocking \<noteq> 0 then (True, impl, a)
      else
        (let (ok, ec, st) = ops_set_internal_non_blocking (native impl) (sock_state impl) True ioctl (op_ec a)
         in (ok, impl\<lparr>sock_state := st\<rparr>, a\<lparr>op_ec := ec\<rparr>)))"

definition rs_start_op ::
  "'w perform \<Rightarrow> op_types \<Rightarrow> reactor_op \<Rightarrow> bool \<Rightarrow> bool \<Rightarrow> bool \<Rightarrow> int option \<Rightarrow> int option
     \<Rightarrow> reactive_impl \<Rightarrow> 'w \<Rightarrow> rctx \<Rightarrow> reactive_impl \<times> 'w \<times> rctx" where
  "rs_start_op perform op_type a is_continuation is_non_blocking noop ioctl ctl impl w c =
     (if \<not> noop
      then
        (let (ok, impl1, a1) = make_non_blocking ioctl impl a
         in if ok
            then (impl1, start_op perform op_type (fd_of impl1) (reactor_data impl1) a1 is_continuation is_non_blocking ctl w c)
            else (impl1, w, post_immediate a1 is_continuation c))
      else (impl, w, post_immediate a is_continuation c))"

definition rs_start_accept_op ::
  "'w perform \<Rightarrow> reactor_op \<Rightarrow> bool \<Rightarrow> bool \<Rightarrow> int option \<Rightarrow> int option
     \<Rightarrow> reactive_impl \<Rightarrow> 'w \<Rightarrow> rctx \<Rightarrow> reactive_impl \<times> 'w \<times> rctx" where
  "rs_start_accept_op perform a is_continuation peer_is_open ioctl ctl impl w c =
     (if \<not> peer_is_open then rs_start_op perform read_op a is_continuation True False ioctl ctl impl w c
      else (impl, w, post_immediate (a\<lparr>op_ec := make_misc_error already_open\<rparr>) is_continuation c))"

text \<open>\<open>connect_result\<close> is the result of the \<open>connect\<close> call, made for an open socket only.\<close>

definition rs_start_connect_op ::
  "'w perform \<Rightarrow> reactor_op \<Rightarrow> bool \<Rightarrow> int option \<Rightarrow> int option \<Rightarrow> int option
     \<Rightarrow> reactive_impl \<Rightarrow> 'w \<Rightarrow> rctx \<Rightarrow> reactive_impl \<times> 'w \<times> rctx" where
  "rs_start_connect_op perform a is_continuation connect_result ioctl ctl impl w c =
     (let (ok, impl1, a1) = make_non_blocking ioctl impl a
      in if ok
         then
           (let (connected, ec) = connect_code connect_result (op_ec a1);
                a2 = a1\<lparr>op_ec := ec\<rparr>
            in if \<not> connected \<and> (ec = make_basic_error in_progress \<or> ec = make_basic_error would_block)
               then (impl1, start_op perform connect_op (fd_of impl1) (reactor_data impl1) (a2\<lparr>op_ec := ec_success\<rparr>)
                       is_continuation False ctl w c)
               else (impl1, w, post_immediate a2 is_continuation c))
         else (impl1, w, post_immediate a1 is_continuation c))"

section \<open>The operations of a socket\<close>

datatype wait_type = Wait_read | Wait_write | Wait_error | Wait_other

abbreviation (input) message_out_of_band :: u32 where "message_out_of_band \<equiv> 1"

definition rs_async_wait ::
  "'w perform \<Rightarrow> wait_type \<Rightarrow> reactor_op \<Rightarrow> bool \<Rightarrow> int option \<Rightarrow> int option
     \<Rightarrow> reactive_impl \<Rightarrow> 'w \<Rightarrow> rctx \<Rightarrow> reactive_impl \<times> 'w \<times> rctx" where
  "rs_async_wait perform wt a is_continuation ioctl ctl impl w c =
     (case wt of
        Wait_read \<Rightarrow> rs_start_op perform read_op a is_continuation False False ioctl ctl impl w c
      | Wait_write \<Rightarrow> rs_start_op perform write_op a is_continuation False False ioctl ctl impl w c
      | Wait_error \<Rightarrow> rs_start_op perform except_op a is_continuation False False ioctl ctl impl w c
      | Wait_other \<Rightarrow> (impl, w, post_immediate (a\<lparr>op_ec := make_basic_error invalid_argument\<rparr>) is_continuation c))"

definition rs_async_send ::
  "'w perform \<Rightarrow> buffer list \<Rightarrow> reactor_op \<Rightarrow> bool \<Rightarrow> int option \<Rightarrow> int option
     \<Rightarrow> reactive_impl \<Rightarrow> 'w \<Rightarrow> rctx \<Rightarrow> reactive_impl \<times> 'w \<times> rctx" where
  "rs_async_send perform bufs a is_continuation ioctl ctl impl w c =
     rs_start_op perform write_op a is_continuation True
       (sock_state impl AND stream_oriented \<noteq> 0 \<and> adapter_all_empty bufs) ioctl ctl impl w c"

definition rs_async_send_null ::
  "'w perform \<Rightarrow> reactor_op \<Rightarrow> bool \<Rightarrow> int option \<Rightarrow> int option
     \<Rightarrow> reactive_impl \<Rightarrow> 'w \<Rightarrow> rctx \<Rightarrow> reactive_impl \<times> 'w \<times> rctx" where
  "rs_async_send_null perform a is_continuation ioctl ctl impl w c =
     rs_start_op perform write_op a is_continuation False False ioctl ctl impl w c"

definition rs_async_receive ::
  "'w perform \<Rightarrow> buffer list \<Rightarrow> u32 \<Rightarrow> reactor_op \<Rightarrow> bool \<Rightarrow> int option \<Rightarrow> int option
     \<Rightarrow> reactive_impl \<Rightarrow> 'w \<Rightarrow> rctx \<Rightarrow> reactive_impl \<times> 'w \<times> rctx" where
  "rs_async_receive perform bufs flags a is_continuation ioctl ctl impl w c =
     rs_start_op perform (if flags AND message_out_of_band \<noteq> 0 then except_op else read_op) a is_continuation
       (flags AND message_out_of_band = 0) (sock_state impl AND stream_oriented \<noteq> 0 \<and> adapter_all_empty bufs)
       ioctl ctl impl w c"

definition rs_async_receive_null ::
  "'w perform \<Rightarrow> u32 \<Rightarrow> reactor_op \<Rightarrow> bool \<Rightarrow> int option \<Rightarrow> int option
     \<Rightarrow> reactive_impl \<Rightarrow> 'w \<Rightarrow> rctx \<Rightarrow> reactive_impl \<times> 'w \<times> rctx" where
  "rs_async_receive_null perform flags a is_continuation ioctl ctl impl w c =
     rs_start_op perform (if flags AND message_out_of_band \<noteq> 0 then except_op else read_op) a is_continuation
       False False ioctl ctl impl w c"

definition rs_async_receive_with_flags ::
  "'w perform \<Rightarrow> u32 \<Rightarrow> reactor_op \<Rightarrow> bool \<Rightarrow> int option \<Rightarrow> int option
     \<Rightarrow> reactive_impl \<Rightarrow> 'w \<Rightarrow> rctx \<Rightarrow> reactive_impl \<times> 'w \<times> rctx" where
  "rs_async_receive_with_flags perform in_flags a is_continuation ioctl ctl impl w c =
     rs_start_op perform (if in_flags AND message_out_of_band \<noteq> 0 then except_op else read_op) a is_continuation
       (in_flags AND message_out_of_band = 0) False ioctl ctl impl w c"

text \<open>The synchronous forms: a single buffer has its own functions.\<close>

definition rs_wait :: "'w kernel \<Rightarrow> wait_type \<Rightarrow> reactive_impl \<Rightarrow> error_code \<Rightarrow> 'w \<Rightarrow> error_code \<times> 'w" where
  "rs_wait K wt impl ec w =
     (case wt of
        Wait_read \<Rightarrow> snd (poll_read K (native impl) (sock_state impl) (- 1) ec w)
      | Wait_write \<Rightarrow> snd (poll_write K (native impl) (sock_state impl) (- 1) ec w)
      | Wait_error \<Rightarrow> snd (poll_error K (native impl) (sock_state impl) (- 1) ec w)
      | Wait_other \<Rightarrow> (make_basic_error invalid_argument, w))"

definition rs_send ::
  "'w kernel \<Rightarrow> memory \<Rightarrow> buffer list \<Rightarrow> bool \<Rightarrow> u32 \<Rightarrow> reactive_impl \<Rightarrow> error_code \<Rightarrow> 'w \<Rightarrow> (nat \<times> error_code \<times> 'w) option" where
  "rs_send K mem bufs is_single_buffer flags impl ec w =
     (if is_single_buffer
      then sync_send1 K (native impl) (sock_state impl) (map mem (addrs (hd bufs))) flags ec w
      else sync_send K (native impl) (sock_state impl) (map (\<lambda>b. map mem (addrs b)) (fst (adapter_init bufs))) flags
             (adapter_all_empty bufs) ec w)"

definition rs_receive ::
  "'w kernel \<Rightarrow> buffer list \<Rightarrow> bool \<Rightarrow> u32 \<Rightarrow> reactive_impl \<Rightarrow> error_code \<Rightarrow> 'w \<Rightarrow> (u8 list \<times> error_code \<times> 'w) option" where
  "rs_receive K bufs is_single_buffer flags impl ec w =
     (if is_single_buffer then sync_recv1 K (native impl) (sock_state impl) (buf_size (hd bufs)) flags ec w
      else sync_recv K (native impl) (sock_state impl) (fst (adapter_init bufs)) flags (adapter_all_empty bufs) ec w)"

text \<open>
  \<open>accept\<close> with the result of \<open>sync_accept\<close>, and \<open>do_assign\<close> of a finished accept operation: the new
  socket is assigned to the peer. A peer that is open already is an error.
\<close>

definition rs_accept_assign ::
  "sock_type \<Rightarrow> nat option \<Rightarrow> error_code \<Rightarrow> dref \<Rightarrow> int option \<Rightarrow> reactive_impl \<Rightarrow> rctx \<Rightarrow> error_code \<times> reactive_impl \<times> rctx" where
  "rs_accept_assign type new_socket ec fresh ctl peer c =
     (case new_socket of
        None \<Rightarrow> (ec, peer, c)
      | Some s \<Rightarrow> rs_do_assign type s fresh ctl peer c)"

definition rs_accept ::
  "sock_type \<Rightarrow> nat option \<times> error_code \<Rightarrow> dref \<Rightarrow> int option \<Rightarrow> reactive_impl \<Rightarrow> rctx \<Rightarrow> error_code \<times> reactive_impl \<times> rctx" where
  "rs_accept type accepted fresh ctl peer c =
     (if rs_is_open peer then (make_misc_error already_open, peer, c)
      else rs_accept_assign type (fst accepted) (snd accepted) fresh ctl peer c)"

end
