(* ===== verification/Reactor_Client.thy ===== *)
theory Reactor_Client
  imports Reactor_Properties
begin

text \<open>
  Services on the reactor. A service has calls on a state of its own; a program makes calls from
  outside the scheduler's threads and in its handlers. \<open>client_step\<close> is the steps of such a program,
  and the locale \<open>reactor_client\<close> the contract of a service: its calls are calls of the reactor within
  the reactor's contract, and keep an invariant that the reactor's own steps keep too. Inside it, every
  run of a program is shown to be a run of the reactor.
\<close>

section \<open>Every call is a run of calls of the reactor\<close>

text \<open>
  \<open>served\<close>: the calls of the reactor that a call of the service makes keep to the reactor's contract
  and start the operations \<open>M\<close>.
\<close>

definition served ::
  "'w perform \<Rightarrow> tqref set \<Rightarrow> (tqref \<Rightarrow> timer_ref set) \<Rightarrow> nat multiset \<Rightarrow> 'w \<times> rctx \<Rightarrow> 'w \<times> rctx \<Rightarrow> bool" where
  "served perform K U M s s' \<longleftrightarrow>
     (\<exists>xs. calls_ok perform K U xs s \<and> exec_calls perform xs s = s' \<and> (\<Sum>x\<leftarrow>xs. started x) = M)"

lemma served_none [simp]: "served perform K U {#} s s"
  unfolding served_def by (rule exI [of _ "[]"]) simp

lemma served_one:
  assumes "call_ok K U x (fst (snd s))"
  shows "served perform K U (started x) s (exec_call perform x s)"
  unfolding served_def by (rule exI [of _ "[x]"]) (simp add: assms)

lemma exec_calls_append: "exec_calls perform (xs @ ys) s = exec_calls perform ys (exec_calls perform xs s)"
  by (induction xs arbitrary: s) simp_all

lemma calls_ok_append:
  "calls_ok perform K U (xs @ ys) s \<longleftrightarrow> calls_ok perform K U xs s \<and> calls_ok perform K U ys (exec_calls perform xs s)"
  by (induction xs arbitrary: s) simp_all

lemma served_trans:
  assumes "served perform K U M s s1" "served perform K U N s1 s2"
  shows "served perform K U (M + N) s s2"
proof -
  obtain xs ys where "calls_ok perform K U xs s" "exec_calls perform xs s = s1" "(\<Sum>x\<leftarrow>xs. started x) = M"
    "calls_ok perform K U ys s1" "exec_calls perform ys s1 = s2" "(\<Sum>x\<leftarrow>ys. started x) = N"
    using assms unfolding served_def by blast
  then show ?thesis unfolding served_def
    by (intro exI [of _ "xs @ ys"]) (simp add: exec_calls_append calls_ok_append)
qed

lemma served_post [simp]: "served perform K U {#op_id a#} (w, c) (w, post_immediate a cont c)"
  using served_one [of K U "Post_immediate a cont" "(w, c)" perform] by simp

lemma served_start:
  assumes "\<And>d. dd = Some d \<Longrightarrow> d \<in> set (er_live (fst c))"
  shows "served perform K U {#op_id a#} (w, c) (start_op perform j fd dd a cont spec ctl w c)"
  using served_one [of K U "Start_op j fd dd a cont spec ctl" "(w, c)" perform] assms by simp

lemma served_accounted:
  assumes "served perform K U M (w, c) (w', c')" "reactor_inv K U (fst c)" "timer_space K U"
  shows "accounted K U c c' M (int (size M))"
proof -
  obtain xs where "calls_ok perform K U xs (w, c)" "exec_calls perform xs (w, c) = (w', c')" "(\<Sum>x\<leftarrow>xs. started x) = M"
    using assms(1) by (auto simp: served_def)
  then show ?thesis using exec_calls_accounted [OF assms(2,3), of perform xs w] by simp
qed

lemma reactor_inv_distinct: "reactor_inv K U r \<Longrightarrow> distinct (er_live r @ er_free r)"
  by (simp add: reactor_inv_def)

section \<open>Programs\<close>

text \<open>
  \<open>exec\<close>, \<open>ok\<close> and \<open>starts\<close> are the service: the effect of a call, what a program keeps to, and the
  operation a call starts.
\<close>

type_synonym ('w, 's) client_config = "'w \<times> epoll_reactor \<times> 's \<times> nat multiset \<times> nat multiset"

fun exec_all :: "('x \<Rightarrow> 'w \<times> rctx \<times> 's \<Rightarrow> 'w \<times> rctx \<times> 's) \<Rightarrow> 'x list \<Rightarrow> 'w \<times> rctx \<times> 's \<Rightarrow> 'w \<times> rctx \<times> 's" where
  "exec_all exec [] st = st"
| "exec_all exec (x # xs) st = exec_all exec xs (exec x st)"

fun all_ok ::
  "('x \<Rightarrow> 'w \<times> rctx \<times> 's \<Rightarrow> 'w \<times> rctx \<times> 's) \<Rightarrow> ('x \<Rightarrow> 's \<Rightarrow> epoll_reactor \<Rightarrow> bool) \<Rightarrow> 'x list \<Rightarrow> 'w \<times> rctx \<times> 's \<Rightarrow> bool" where
  "all_ok exec ok [] st = True"
| "all_ok exec ok (x # xs) st = (ok x (snd (snd st)) (fst (fst (snd st))) \<and> all_ok exec ok xs (exec x st))"

text \<open>As the steps of the reactor, with the calls of the program in place of calls of the reactor.\<close>

inductive client_step ::
  "'w perform \<Rightarrow> ('x \<Rightarrow> 'w \<times> rctx \<times> 's \<Rightarrow> 'w \<times> rctx \<times> 's) \<Rightarrow> ('x \<Rightarrow> 's \<Rightarrow> epoll_reactor \<Rightarrow> bool) \<Rightarrow> ('x \<Rightarrow> nat multiset)
     \<Rightarrow> ('w, 's) client_config \<Rightarrow> ('w, 's) client_config \<Rightarrow> bool" for perform exec ok starts where
  Client_external:
    "ok x s r \<Longrightarrow> exec x (w, (r, None), s) = (w', (r', ti), s') \<Longrightarrow>
     client_step perform exec ok starts (w, r, s, S, C) (w', r', s', S + starts x, C)"
| Client_complete:
    "\<not> stopped (er_sched r) \<Longrightarrow> op_queue (er_sched r) = Op (Async_op a) # q \<Longrightarrow>
     c = (w, (r\<lparr>er_sched := begin_handler q (er_sched r)\<rparr>, Some new_thread_info), s) \<Longrightarrow>
     all_ok exec ok xs c \<Longrightarrow> exec_all exec xs c = (w1, c1, s') \<Longrightarrow> end_handler (w1, c1) = (w', r') \<Longrightarrow>
     client_step perform exec ok starts (w, r, s, S, C) (w', r', s', S + (\<Sum>x\<leftarrow>xs. starts x), add_mset (op_id a) C)"
| Client_ready:
    "\<not> stopped (er_sched r) \<Longrightarrow> op_queue (er_sched r) = Op (Descriptor_op d) # q \<Longrightarrow>
     perform_io perform (task_result (er_states r d)) d w
       (r\<lparr>er_sched := begin_handler q (er_sched r)\<rparr>, Some new_thread_info) = (Some a, w1, c1) \<Longrightarrow>
     all_ok exec ok xs (w1, c1, s) \<Longrightarrow> exec_all exec xs (w1, c1, s) = (w2, c2, s') \<Longrightarrow>
     end_handler (w2, c2) = (w', r') \<Longrightarrow>
     client_step perform exec ok starts (w, r, s, S, C) (w', r', s', S + (\<Sum>x\<leftarrow>xs. starts x), add_mset (op_id a) C)"
| Client_spurious:
    "\<not> stopped (er_sched r) \<Longrightarrow> op_queue (er_sched r) = Op (Descriptor_op d) # q \<Longrightarrow>
     perform_io perform (task_result (er_states r d)) d w
       (r\<lparr>er_sched := begin_handler q (er_sched r)\<rparr>, Some new_thread_info) = (None, w1, c1) \<Longrightarrow>
     end_handler (w1, c1) = (w', r') \<Longrightarrow>
     client_step perform exec ok starts (w, r, s, S, C) (w', r', s, S, C)"
| Client_task:
    "\<not> stopped (er_sched r) \<Longrightarrow> op_queue (er_sched r) = Task_operation # q \<Longrightarrow>
     reactor_run now events [] r = Some (ops, r1) \<Longrightarrow>
     r' = r1\<lparr>er_sched := fst (run_task ops q (er_sched r1, new_thread_info))\<rparr> \<Longrightarrow>
     client_step perform exec ok starts (w, r, s, S, C) (w, r', s, S, C)"

text \<open>A program starts with a new reactor, from a given state of the service.\<close>

definition client_reachable ::
  "'w perform \<Rightarrow> ('x \<Rightarrow> 'w \<times> rctx \<times> 's \<Rightarrow> 'w \<times> rctx \<times> 's) \<Rightarrow> ('x \<Rightarrow> 's \<Rightarrow> epoll_reactor \<Rightarrow> bool) \<Rightarrow> ('x \<Rightarrow> nat multiset)
     \<Rightarrow> 's \<Rightarrow> bool \<Rightarrow> ('w, 's) client_config \<Rightarrow> bool" where
  "client_reachable perform exec ok starts s0 own_thread c \<longleftrightarrow>
     (\<exists>hint intr_fd e1 e2 t1 t2 r0 w0.
        initial_reactor hint own_thread intr_fd e1 e2 t1 t2 = Inr r0 \<and>
        (client_step perform exec ok starts)\<^sup>*\<^sup>* (w0, r0, s0, {#}, {#}) c)"

text \<open>A run of several calls from outside is a run of steps.\<close>

lemma external_steps:
  assumes "calls_ok perform K U xs (w, (r, None))" "exec_calls perform xs (w, (r, None)) = (w', (r', ti))"
    and "reactor_inv K U r" "timer_space K U"
  shows "(reactor_step perform K U)\<^sup>*\<^sup>* (w, r, S, C) (w', r', S + (\<Sum>x\<leftarrow>xs. started x), C)"
  using assms(1-3)
proof (induction xs arbitrary: w r S)
  case (Cons x xs)
  obtain w1 r1 t1 where 1: "exec_call perform x (w, (r, None)) = (w1, (r1, t1))"
    by (cases "exec_call perform x (w, (r, None))") auto
  have ok: "call_ok K U x r" using Cons.prems(1) by simp
  have "accounted K U (r, None) (r1, t1) (started x) (int (size (started x)))"
    using exec_call_accounted [OF Cons.prems(3) assms(4) ok, of None perform w] 1 by simp
  then have a: "t1 = None" "reactor_inv K U r1" by (auto simp: accounted_def grows_def)
  have "reactor_step perform K U (w, r, S, C) (w1, r1, S + started x, C)"
    by (rule reactor_step.External [OF ok 1])
  moreover have "(reactor_step perform K U)\<^sup>*\<^sup>* (w1, r1, S + started x, C) (w', r', S + started x + (\<Sum>x\<leftarrow>xs. started x), C)"
    using Cons.IH [of w1 r1] Cons.prems(1,2) 1 a by simp
  ultimately show ?case by (simp add: add.assoc converse_rtranclp_into_rtranclp)
qed simp

section \<open>What the reactor's own steps keep\<close>

text \<open>The calls that do not register or deregister leave the registration alone.\<close>

definition same_registration :: "epoll_reactor \<Rightarrow> epoll_reactor \<Rightarrow> bool" where
  "same_registration r r' \<longleftrightarrow> er_live r' = er_live r \<and>
     (\<forall>d. ds_shutdown (er_states r' d) = ds_shutdown (er_states r d) \<and>
       descriptor (er_states r' d) = descriptor (er_states r d))"

lemma same_registration_refl [simp]: "same_registration r r"
  by (simp add: same_registration_def)

lemma same_registration_trans:
  "same_registration r r1 \<Longrightarrow> same_registration r1 r2 \<Longrightarrow> same_registration r r2"
  by (simp add: same_registration_def)

lemma same_registration_sched [simp]:
  "same_registration r (r'\<lparr>er_sched := s\<rparr>) = same_registration r r'"
  "same_registration (r\<lparr>er_sched := s\<rparr>) r' = same_registration r r'"
  by (simp_all add: same_registration_def)

lemma same_registration_upd:
  assumes "\<And>x. ds_shutdown (f x) = ds_shutdown x" "\<And>x. descriptor (f x) = descriptor x"
  shows "same_registration r (upd_state d f r)"
  using assms by (simp add: same_registration_def upd_state_def)

lemma same_registration_ctl [simp]: "same_registration r (epoll_ctl_set fd p ev ctl r)"
  by (simp add: same_registration_def epoll_ctl_set_def split: option.split)

lemma on_sched_registration [simp]: "same_registration r (fst (on_sched f (r, ti)))"
  by (simp add: on_sched_def split: prod.split)

lemma post_registration [simp]:
  "same_registration r (fst (post_immediate a cont (r, ti)))"
  "same_registration r (fst (post_deferred ops (r, ti)))"
  by (simp_all add: post_immediate_def post_deferred_def)

lemma cancel_ops_registration: "same_registration r (fst (cancel_ops dd (r, ti)))"
proof (cases dd)
  case (Some d)
  have "same_registration r (upd_state d clear_ops r)" by (rule same_registration_upd) (simp_all add: clear_ops_def)
  then show ?thesis using same_registration_trans [OF _ post_registration(2)] by (simp add: Some cancel_ops_def)
qed (simp add: cancel_ops_def)

lemma enqueue_op_registration: "same_registration r r' \<Longrightarrow> same_registration r (fst (enqueue_op j a d (r', ti)))"
  unfolding enqueue_op_def using same_registration_upd [of "push_op j a" r' d]
  by (auto simp: push_op_def intro: same_registration_trans on_sched_registration)

lemma post_immediate_registration: "same_registration r r' \<Longrightarrow> same_registration r (fst (post_immediate a cont (r', ti)))"
  using same_registration_trans [OF _ post_registration(1)] .

lemma start_speculative_registration:
  "same_registration r r' \<Longrightarrow> same_registration r (fst (start_speculative j fd d a cont ctl (r', ti)))"
  unfolding start_speculative_def
  by (auto simp: Let_def split: option.split
      intro!: post_immediate_registration enqueue_op_registration
        same_registration_trans [OF _ same_registration_upd] same_registration_trans [OF _ same_registration_ctl])

lemma start_op_registration: "same_registration r (fst (snd (start_op perform j fd dd a cont spec ctl w (r, ti))))"
proof (cases dd)
  case (Some d)
  have upd: "same_registration r (upd_state d (\<lambda>x. x\<lparr>try_speculative := f x\<rparr>) r)" for f
    by (rule same_registration_upd) simp_all
  have upd2: "same_registration r (upd_state d (\<lambda>x. x\<lparr>registered_events := f x\<rparr>) r)" for f
    by (rule same_registration_upd) simp_all
  show ?thesis
    unfolding start_op_def Some
    by (auto simp: Let_def upd split: prod.split status.split
        intro!: post_immediate_registration enqueue_op_registration start_speculative_registration
          same_registration_trans [OF upd2 same_registration_ctl])
qed (simp add: start_op_def)

lemma end_handler_registration:
  "end_handler (w, (r, ti)) = (w', r') \<Longrightarrow> same_registration r r'"
  by (auto simp: end_handler_def split: option.splits)

lemma perform_queue_registration:
  "perform_queue perform events j (x, ops, w) = (x', ops', w') \<Longrightarrow> ds_shutdown x' = ds_shutdown x \<and> descriptor x' = descriptor x"
  by (auto simp: perform_queue_def split: if_splits prod.splits)

lemma perform_io_registration:
  assumes "perform_io perform events d w (r, ti) = (res, w', c')"
  shows "same_registration r (fst c')"
proof -
  let ?x = "er_states r d"
  obtain x1 o1 w1 where 1: "perform_queue perform events except_op (?x, [], w) = (x1, o1, w1)"
    by (cases "perform_queue perform events except_op (?x, [], w)")
  obtain x2 o2 w2 where 2: "perform_queue perform events write_op (x1, o1, w1) = (x2, o2, w2)"
    by (cases "perform_queue perform events write_op (x1, o1, w1)")
  obtain x3 o3 w3 where 3: "perform_queue perform events read_op (x2, o2, w2) = (x3, o3, w3)"
    by (cases "perform_queue perform events read_op (x2, o2, w2)")
  have all: "perform_all perform events ?x w = (x3, o3, w3)" using 1 2 3 by (simp add: perform_all_def)
  have "ds_shutdown x3 = ds_shutdown ?x" "descriptor x3 = descriptor ?x"
    using perform_queue_registration [OF 1] perform_queue_registration [OF 2] perform_queue_registration [OF 3] by simp_all
  then have u: "same_registration r (upd_state d (\<lambda>_. x3) r)" by (simp add: same_registration_def upd_state_def)
  show ?thesis
  proof (cases o3)
    case Nil
    then show ?thesis using assms all u by (auto simp: perform_io_def)
  next
    case (Cons a rest)
    then have "c' = post_deferred rest (upd_state d (\<lambda>_. x3) r, ti)" using assms all by (auto simp: perform_io_def)
    then show ?thesis using same_registration_trans [OF u post_registration(2)] by simp
  qed
qed

lemma dispatch_event_registration: "same_registration r (fst (dispatch_event ev (r, ops, b)))"
  by (cases "fst ev")
    (auto simp: dispatch_event_def set_ready_events_def add_ready_events_def intro: same_registration_upd)

lemma dispatch_events_registration: "same_registration r (fst (fold dispatch_event evs (r, ops, b)))"
proof (induction evs arbitrary: r ops b)
  case (Cons ev evs)
  obtain r1 ops1 b1 where 1: "dispatch_event ev (r, ops, b) = (r1, ops1, b1)" by (cases "dispatch_event ev (r, ops, b)")
  then have "same_registration r r1" using dispatch_event_registration [of r ev ops b] by simp
  then show ?case using Cons.IH [of r1 ops1 b1] 1 same_registration_trans by simp
qed simp

lemma reactor_run_registration:
  assumes "reactor_run now events ops r = Some (ops', r')"
  shows "same_registration r r'"
proof -
  obtain r1 ops1 b where d: "fold dispatch_event events (r, ops, er_timer_fd r = - 1) = (r1, ops1, b)"
    by (cases "fold dispatch_event events (r, ops, er_timer_fd r = - 1)")
  then have "same_registration r r1"
    using dispatch_events_registration [of r events ops "er_timer_fd r = - 1"] by simp
  moreover have "er_live r' = er_live r1 \<and> er_states r' = er_states r1"
    using assms d by (auto simp: reactor_run_def Let_def split: if_splits option.splits)
  ultimately show ?thesis by (simp add: same_registration_def)
qed

section \<open>Operations that are handed over\<close>

text \<open>The operations are appended to the queue of the scheduler or of the calling thread.\<close>

definition handed_over :: "reactor_op list \<Rightarrow> rctx \<Rightarrow> rctx \<Rightarrow> bool" where
  "handed_over ops c c' \<longleftrightarrow>
     op_queue (er_sched (fst c')) = op_queue (er_sched (fst c)) @ map (Op \<circ> Async_op) ops \<and>
       map_option private_op_queue (snd c') = map_option private_op_queue (snd c) \<or>
     op_queue (er_sched (fst c')) = op_queue (er_sched (fst c)) \<and> snd c \<noteq> None \<and>
       map_option private_op_queue (snd c') = map_option (\<lambda>t. private_op_queue t @ map (Op \<circ> Async_op) ops) (snd c)"

lemma post_deferred_hands_over: "handed_over ops c (post_deferred ops c)"
  by (cases c)
    (auto simp: handed_over_def post_deferred_def on_sched_def post_deferred_completions_def
      split: prod.splits option.splits if_splits)

section \<open>The contract of a service\<close>

locale reactor_client =
  fixes perform :: "'w perform" and exec :: "'x \<Rightarrow> 'w \<times> rctx \<times> 's \<Rightarrow> 'w \<times> rctx \<times> 's"
    and ok :: "'x \<Rightarrow> 's \<Rightarrow> epoll_reactor \<Rightarrow> bool" and starts :: "'x \<Rightarrow> nat multiset"
    and inv :: "'s \<Rightarrow> epoll_reactor \<Rightarrow> bool" and K :: "tqref set" and U :: "tqref \<Rightarrow> timer_ref set"
  assumes call: "inv s r \<Longrightarrow> reactor_inv K U r \<Longrightarrow> ok x s r \<Longrightarrow> exec x (w, (r, ti), s) = (w', c', s') \<Longrightarrow>
      served perform K U (starts x) (w, (r, ti)) (w', c') \<and> inv s' (fst c')"
    and sched: "inv s (r\<lparr>er_sched := sc\<rparr>) = inv s r"
    and io: "inv s r \<Longrightarrow> perform_io perform events d w (r, ti) = (res, w', c') \<Longrightarrow> inv s (fst c')"
    and run: "inv s r \<Longrightarrow> reactor_inv K U r \<Longrightarrow> reactor_run now evs [] r = Some (ops, r') \<Longrightarrow> inv s r'"
begin

lemma calls:
  assumes "inv s (fst c)" "reactor_inv K U (fst c)" "timer_space K U"
    and "all_ok exec ok xs (w, c, s)" "exec_all exec xs (w, c, s) = (w', c', s')"
  shows "served perform K U (\<Sum>x\<leftarrow>xs. starts x) (w, c) (w', c') \<and> inv s' (fst c')"
  using assms(1,2,4,5)
proof (induction xs arbitrary: w c s)
  case (Cons x xs)
  obtain r ti where c: "c = (r, ti)" by (cases c)
  obtain w1 c1 s1 where 1: "exec x (w, (r, ti), s) = (w1, c1, s1)" by (cases "exec x (w, (r, ti), s)")
  have sv: "served perform K U (starts x) (w, c) (w1, c1)" "inv s1 (fst c1)"
    using call [OF _ _ _ 1] Cons.prems(1-3) unfolding c by auto
  have "reactor_inv K U (fst c1)"
    using served_accounted [OF sv(1) Cons.prems(2) assms(3)] by (simp add: accounted_def)
  then show ?case
    using Cons.IH [OF sv(2), of w1] Cons.prems(3,4) 1 served_trans [OF sv(1)] unfolding c by simp
qed simp

lemma end_handler_inv:
  assumes "inv s (fst c)" "end_handler (w, c) = (w', r')"
  shows "inv s r'"
proof (cases c)
  case (Pair r ti)
  then show ?thesis using assms by (auto simp: end_handler_def sched split: option.splits)
qed

lemma simulated:
  assumes "client_step perform exec ok starts (w, r, s, S, C) (w', r', s', S', C')"
    and "inv s r" "reactor_inv K U r" "timer_space K U"
  shows "(reactor_step perform K U)\<^sup>*\<^sup>* (w, r, S, C) (w', r', S', C') \<and> inv s' r'"
  using assms(1)
proof cases
  case (Client_external x ti)
  have sv: "served perform K U (starts x) (w, (r, None)) (w', (r', ti))" "inv s' r'"
    using call [OF assms(2,3) Client_external(3,4)] by simp_all
  then obtain xs where xs: "calls_ok perform K U xs (w, (r, None))" "exec_calls perform xs (w, (r, None)) = (w', (r', ti))"
    "(\<Sum>x\<leftarrow>xs. started x) = starts x"
    by (auto simp: served_def)
  show ?thesis using external_steps [OF xs(1,2) assms(3,4), of S C] sv(2) xs(3) Client_external(1,2) by simp
next
  case (Client_complete a q c xs w1 c1)
  let ?r = "r\<lparr>er_sched := begin_handler q (er_sched r)\<rparr>"
  have i: "inv s (fst (?r, Some new_thread_info))" "reactor_inv K U (fst (?r, Some new_thread_info))"
    using assms(2,3) by (simp_all add: sched)
  have sv: "served perform K U (\<Sum>x\<leftarrow>xs. starts x) (w, (?r, Some new_thread_info)) (w1, c1)" "inv s' (fst c1)"
    using calls [OF i assms(4) Client_complete(6,7) [unfolded Client_complete(5)]] by simp_all
  then obtain ys where ys: "calls_ok perform K U ys (w, (?r, Some new_thread_info))"
    "exec_calls perform ys (w, (?r, Some new_thread_info)) = (w1, c1)" "(\<Sum>x\<leftarrow>ys. started x) = (\<Sum>x\<leftarrow>xs. starts x)"
    by (auto simp: served_def)
  have "reactor_step perform K U (w, r, S, C) (w', r', S + (\<Sum>x\<leftarrow>ys. started x), add_mset (op_id a) C)"
    by (rule reactor_step.Complete [OF Client_complete(3,4) refl ys(1)]) (use ys(2) Client_complete in simp)
  then show ?thesis using end_handler_inv [OF sv(2) Client_complete(8)] ys(3) Client_complete(1,2) by auto
next
  case (Client_ready d q a w1 c1 xs w2 c2)
  let ?r = "r\<lparr>er_sched := begin_handler q (er_sched r)\<rparr>"
  have i: "reactor_inv K U (fst c1)" using perform_io_accounted [OF _ Client_ready(5), of K U] assms(3) by simp
  have "inv s (fst c1)" using io [OF _ Client_ready(5)] assms(2) by (simp add: sched)
  then have sv: "served perform K U (\<Sum>x\<leftarrow>xs. starts x) (w1, c1) (w2, c2)" "inv s' (fst c2)"
    using calls [OF _ i assms(4) Client_ready(6,7)] by simp_all
  then obtain ys where ys: "calls_ok perform K U ys (w1, c1)" "exec_calls perform ys (w1, c1) = (w2, c2)"
    "(\<Sum>x\<leftarrow>ys. started x) = (\<Sum>x\<leftarrow>xs. starts x)"
    by (auto simp: served_def)
  have "reactor_step perform K U (w, r, S, C) (w', r', S + (\<Sum>x\<leftarrow>ys. started x), add_mset (op_id a) C)"
    by (rule reactor_step.Ready [OF Client_ready(3-5) ys(1)]) (use ys(2) Client_ready(8) in simp)
  then show ?thesis using end_handler_inv [OF sv(2) Client_ready(8)] ys(3) Client_ready(1,2) by auto
next
  case (Client_spurious d q w1 c1)
  have "reactor_step perform K U (w, r, S, C) (w', r', S, C)"
    by (rule reactor_step.Spurious [OF Client_spurious(4-7)])
  moreover have "inv s (fst c1)" using io [OF _ Client_spurious(6)] assms(2) by (simp add: sched)
  ultimately show ?thesis using end_handler_inv [OF _ Client_spurious(7)] Client_spurious(1-3) by auto
next
  case (Client_task q now events ops r1)
  have "reactor_step perform K U (w, r, S, C) (w, r', S, C)"
    by (rule reactor_step.Task [OF Client_task(5-8)])
  moreover have "inv s r'" using run [OF assms(2,3) Client_task(7)] Client_task(8) by (simp add: sched)
  ultimately show ?thesis using Client_task(1-4) by auto
qed

lemma steps:
  assumes "(client_step perform exec ok starts)\<^sup>*\<^sup>* (w0, r0, s0, S0, C0) c"
    and "inv s0 r0" "reactor_good K U base (w0, r0, S0, C0)" "timer_space K U"
  shows "case c of (w, r, s, S, C) \<Rightarrow>
    (reactor_step perform K U)\<^sup>*\<^sup>* (w0, r0, S0, C0) (w, r, S, C) \<and> inv s r \<and> reactor_good K U base (w, r, S, C)"
  using assms(1)
proof (induction rule: rtranclp_induct)
  case base
  then show ?case using assms(2,3) by simp
next
  case (step c1 c2)
  obtain w1 r1 s1 S1 C1 where c1: "c1 = (w1, r1, s1, S1, C1)" by (cases c1)
  obtain w2 r2 s2 S2 C2 where c2: "c2 = (w2, r2, s2, S2, C2)" by (cases c2)
  have IH: "(reactor_step perform K U)\<^sup>*\<^sup>* (w0, r0, S0, C0) (w1, r1, S1, C1)" "inv s1 r1"
    "reactor_good K U base (w1, r1, S1, C1)" using step.IH unfolding c1 by simp_all
  have i: "reactor_inv K U r1" using IH(3) by (simp add: reactor_good_def)
  have st: "(reactor_step perform K U)\<^sup>*\<^sup>* (w1, r1, S1, C1) (w2, r2, S2, C2)" "inv s2 r2"
    using simulated [OF step.hyps(2) [unfolded c1 c2] IH(2) i assms(4)] by simp_all
  from st(1) have "reactor_good K U base (w2, r2, S2, C2)"
  proof (induction rule: rtranclp_induct)
    case base
    then show ?case using IH(3) .
  next
    case (step c1 c2)
    then show ?case using step_keeps_good [OF _ assms(4)] by blast
  qed
  then show ?case using st rtranclp_trans [OF IH(1) st(1)] unfolding c2 by simp
qed

lemma reachable:
  assumes "client_reachable perform exec ok starts s0 own_thread (w, r, s, S, C)" "timer_space K U"
    and "\<And>hint intr_fd e1 e2 t1 t2 r0. initial_reactor hint own_thread intr_fd e1 e2 t1 t2 = Inr r0 \<Longrightarrow> inv s0 r0"
  shows "reactor_reachable perform K U own_thread (w, r, S, C) \<and> inv s r \<and>
    reactor_good K U (if own_thread then 1 else 0) (w, r, S, C)"
proof -
  obtain hint intr_fd e1 e2 t1 t2 r0 w0 where i: "initial_reactor hint own_thread intr_fd e1 e2 t1 t2 = Inr r0"
    and st: "(client_step perform exec ok starts)\<^sup>*\<^sup>* (w0, r0, s0, {#}, {#}) (w, r, s, S, C)"
    using assms(1) by (auto simp: client_reachable_def)
  note sv = steps [OF st assms(3) [OF i] initial_good [OF i] assms(2), simplified]
  then show ?thesis unfolding reactor_reachable_def using i by blast
qed

end

end
