(* ===== verification/Service_Steps.thy ===== *)
theory Service_Steps
  imports Socket_Service Reactor_Client
begin

text \<open>
  A program that uses sockets, the socket service and the reactor together: what the program may call,
  the steps of the threads, the invariant that every open socket owns a descriptor of its own, and
  the proof that every step is a run of the reactor that keeps to the reactor's contract.
\<close>

unbundle bit_operations_syntax

section \<open>Calls of a program\<close>

text \<open>The socket objects have names; an object exists from its construction to its destruction.\<close>

type_synonym sockets = "nat \<rightharpoonup> reactive_impl"

datatype socket_call =
    Sock_construct nat
  | Sock_move_construct nat nat
  | Sock_move_assign nat nat "int option" "int option"
  | Sock_destroy nat "int option" "int option"
  | Sock_open nat sock_type "int + nat" dref "int option"
  | Sock_assign nat sock_type nat dref "int option"
  | Sock_close nat "int option" "int option"
  | Sock_release nat
  | Sock_cancel nat
  | Sock_set_option nat socket_option "int option"
  | Sock_non_blocking nat bool "int option"
  | Sock_native_non_blocking nat bool "int option"
  | Sock_async_wait nat wait_type reactor_op bool "int option" "int option"
  | Sock_async_send nat "buffer list" reactor_op bool "int option" "int option"
  | Sock_async_receive nat "buffer list" u32 reactor_op bool "int option" "int option"
  | Sock_async_receive_with_flags nat u32 reactor_op bool "int option" "int option"
  | Sock_async_accept nat "nat option" reactor_op bool "int option" "int option"
  | Sock_async_connect nat reactor_op bool "int option" "int option" "int option"
  | Sock_accepted nat sock_type "nat option" dref "int option"

type_synonym 'w program = "'w \<times> rctx \<times> sockets"

text \<open>An operation on one object; objects that do not exist cannot be used.\<close>

definition on_impl ::
  "nat \<Rightarrow> (reactive_impl \<Rightarrow> 'w \<Rightarrow> rctx \<Rightarrow> reactive_impl \<times> 'w \<times> rctx) \<Rightarrow> 'w program \<Rightarrow> 'w program" where
  "on_impl i f = (\<lambda>(w, c, socks).
     (case socks i of
        None \<Rightarrow> (w, c, socks)
      | Some impl \<Rightarrow> (let (impl', w', c') = f impl w c in (w', c', socks(i \<mapsto> impl')))))"

text \<open>A moved accept has no peer; otherwise the peer may be open already.\<close>

definition peer_is_open :: "nat option \<Rightarrow> sockets \<Rightarrow> bool" where
  "peer_is_open peer socks \<longleftrightarrow>
     (case peer of None \<Rightarrow> False | Some j \<Rightarrow> (case socks j of None \<Rightarrow> False | Some impl \<Rightarrow> rs_is_open impl))"

fun exec_socket :: "'w perform \<Rightarrow> socket_call \<Rightarrow> 'w program \<Rightarrow> 'w program" where
  "exec_socket perform (Sock_construct i) (w, c, socks) = (w, c, socks(i \<mapsto> new_impl))"
| "exec_socket perform (Sock_move_construct i j) (w, c, socks) =
     (case socks j of
        None \<Rightarrow> (w, c, socks)
      | Some other \<Rightarrow> (let (impl', other') = rs_move_construct other in (w, c, socks(i \<mapsto> impl', j \<mapsto> other'))))"
| "exec_socket perform (Sock_move_assign i j r1 r2) (w, c, socks) =
     (case (socks i, socks j) of
        (Some impl, Some other) \<Rightarrow>
          (let (impl', other', c') = rs_move_assign r1 r2 impl other c in (w, c', socks(i \<mapsto> impl', j \<mapsto> other')))
      | _ \<Rightarrow> (w, c, socks))"
| "exec_socket perform (Sock_destroy i r1 r2) (w, c, socks) =
     (case socks i of
        None \<Rightarrow> (w, c, socks)
      | Some impl \<Rightarrow> (w, snd (rs_destroy r1 r2 impl c), socks(i := None)))"
| "exec_socket perform (Sock_open i type result fresh ctl) s =
     on_impl i (\<lambda>impl w c. let (_, impl', c') = rs_do_open type result fresh ctl impl c in (impl', w, c')) s"
| "exec_socket perform (Sock_assign i type fd fresh ctl) s =
     on_impl i (\<lambda>impl w c. let (_, impl', c') = rs_do_assign type fd fresh ctl impl c in (impl', w, c')) s"
| "exec_socket perform (Sock_close i r1 r2) s =
     on_impl i (\<lambda>impl w c. let (_, impl', c') = rs_close r1 r2 impl c in (impl', w, c')) s"
| "exec_socket perform (Sock_release i) s =
     on_impl i (\<lambda>impl w c. let (_, _, impl', c') = rs_release impl c in (impl', w, c')) s"
| "exec_socket perform (Sock_cancel i) s = on_impl i (\<lambda>impl w c. (impl, w, snd (rs_cancel impl c))) s"
| "exec_socket perform (Sock_set_option i opt r) s = on_impl i (\<lambda>impl w c. (snd (rs_set_option opt r impl), w, c)) s"
| "exec_socket perform (Sock_non_blocking i mode r) s =
     on_impl i (\<lambda>impl w c. (snd (rs_set_non_blocking mode r impl), w, c)) s"
| "exec_socket perform (Sock_native_non_blocking i mode r) s =
     on_impl i (\<lambda>impl w c. (snd (rs_set_native_non_blocking mode r impl), w, c)) s"
| "exec_socket perform (Sock_async_wait i wt a cont ioctl ctl) s = on_impl i (rs_async_wait perform wt a cont ioctl ctl) s"
| "exec_socket perform (Sock_async_send i bufs a cont ioctl ctl) s =
     on_impl i (rs_async_send perform bufs a cont ioctl ctl) s"
| "exec_socket perform (Sock_async_receive i bufs flags a cont ioctl ctl) s =
     on_impl i (rs_async_receive perform bufs flags a cont ioctl ctl) s"
| "exec_socket perform (Sock_async_receive_with_flags i flags a cont ioctl ctl) s =
     on_impl i (rs_async_receive_with_flags perform flags a cont ioctl ctl) s"
| "exec_socket perform (Sock_async_accept i peer a cont ioctl ctl) s =
     on_impl i (rs_start_accept_op perform a cont (peer_is_open peer (snd (snd s))) ioctl ctl) s"
| "exec_socket perform (Sock_async_connect i a cont result ioctl ctl) s =
     on_impl i (rs_start_connect_op perform a cont result ioctl ctl) s"
| "exec_socket perform (Sock_accepted i type new_socket fresh ctl) s =
     on_impl i (\<lambda>impl w c.
       let (_, impl', c') = rs_accept_assign type new_socket ec_success fresh ctl impl c in (impl', w, c')) s"

text \<open>
  What the program keeps to: it uses objects that exist, constructs an object that does not, moves
  between two objects, and a new descriptor state has an address of its own.
\<close>

fun socket_ok :: "socket_call \<Rightarrow> sockets \<Rightarrow> epoll_reactor \<Rightarrow> bool" where
  "socket_ok (Sock_construct i) socks r = (socks i = None)"
| "socket_ok (Sock_move_construct i j) socks r = (socks i = None \<and> socks j \<noteq> None)"
| "socket_ok (Sock_move_assign i j r1 r2) socks r = (socks i \<noteq> None \<and> socks j \<noteq> None \<and> i \<noteq> j)"
| "socket_ok (Sock_destroy i r1 r2) socks r = (socks i \<noteq> None)"
| "socket_ok (Sock_open i type result fresh ctl) socks r = (socks i \<noteq> None \<and> fresh \<notin> set (er_live r) \<union> set (er_free r))"
| "socket_ok (Sock_assign i type fd fresh ctl) socks r = (socks i \<noteq> None \<and> fresh \<notin> set (er_live r) \<union> set (er_free r))"
| "socket_ok (Sock_close i r1 r2) socks r = (socks i \<noteq> None)"
| "socket_ok (Sock_release i) socks r = (socks i \<noteq> None)"
| "socket_ok (Sock_cancel i) socks r = (socks i \<noteq> None)"
| "socket_ok (Sock_set_option i opt res) socks r = (socks i \<noteq> None)"
| "socket_ok (Sock_non_blocking i mode res) socks r = (socks i \<noteq> None)"
| "socket_ok (Sock_native_non_blocking i mode res) socks r = (socks i \<noteq> None)"
| "socket_ok (Sock_async_wait i wt a cont ioctl ctl) socks r = (socks i \<noteq> None)"
| "socket_ok (Sock_async_send i bufs a cont ioctl ctl) socks r = (socks i \<noteq> None)"
| "socket_ok (Sock_async_receive i bufs flags a cont ioctl ctl) socks r = (socks i \<noteq> None)"
| "socket_ok (Sock_async_receive_with_flags i flags a cont ioctl ctl) socks r = (socks i \<noteq> None)"
| "socket_ok (Sock_async_accept i peer a cont ioctl ctl) socks r = (socks i \<noteq> None)"
| "socket_ok (Sock_async_connect i a cont result ioctl ctl) socks r = (socks i \<noteq> None)"
| "socket_ok (Sock_accepted i type new_socket fresh ctl) socks r =
     (socks i \<noteq> None \<and> fresh \<notin> set (er_live r) \<union> set (er_free r))"

text \<open>The operation a call starts.\<close>

fun sock_started :: "socket_call \<Rightarrow> nat multiset" where
  "sock_started (Sock_async_wait i wt a cont ioctl ctl) = {#op_id a#}"
| "sock_started (Sock_async_send i bufs a cont ioctl ctl) = {#op_id a#}"
| "sock_started (Sock_async_receive i bufs flags a cont ioctl ctl) = {#op_id a#}"
| "sock_started (Sock_async_receive_with_flags i flags a cont ioctl ctl) = {#op_id a#}"
| "sock_started (Sock_async_accept i peer a cont ioctl ctl) = {#op_id a#}"
| "sock_started (Sock_async_connect i a cont result ioctl ctl) = {#op_id a#}"
| "sock_started _ = {#}"

text \<open>The steps of a program that uses sockets.\<close>

abbreviation socket_step where
  "socket_step perform \<equiv> client_step perform (exec_socket perform) socket_ok sock_started"

section \<open>The invariant\<close>

text \<open>
  An open socket owns a registered descriptor with its number; two open sockets own different ones;
  a closed socket has no state bits.
\<close>

definition owns :: "sockets \<Rightarrow> nat \<Rightarrow> dref \<Rightarrow> bool" where
  "owns socks i d \<longleftrightarrow> (\<exists>impl. socks i = Some impl \<and> native impl \<noteq> None \<and> reactor_data impl = Some d)"

definition impl_ok :: "epoll_reactor \<Rightarrow> reactive_impl \<Rightarrow> bool" where
  "impl_ok r impl \<longleftrightarrow>
     (case native impl of
        None \<Rightarrow> sock_state impl = 0
      | Some n \<Rightarrow> (\<exists>d\<in>set (er_live r). reactor_data impl = Some d \<and> \<not> ds_shutdown (er_states r d) \<and>
          descriptor (er_states r d) = int n))"

definition sockets_inv :: "sockets \<Rightarrow> epoll_reactor \<Rightarrow> bool" where
  "sockets_inv socks r \<longleftrightarrow>
     (\<forall>i impl. socks i = Some impl \<longrightarrow> impl_ok r impl) \<and>
     (\<forall>i j d. owns socks i d \<and> owns socks j d \<longrightarrow> i = j)"

lemma same_registration_impl: "same_registration r r' \<Longrightarrow> impl_ok r' impl = impl_ok r impl"
  by (cases "native impl") (simp_all add: same_registration_def impl_ok_def)

lemma same_registration_inv: "same_registration r r' \<Longrightarrow> sockets_inv socks r \<Longrightarrow> sockets_inv socks r'"
  using same_registration_impl by (simp add: sockets_inv_def)

section \<open>A change of the registration\<close>

text \<open>Outside \<open>D\<close>, what was registered still is.\<close>

definition keeps_except :: "dref set \<Rightarrow> epoll_reactor \<Rightarrow> epoll_reactor \<Rightarrow> bool" where
  "keeps_except D r r' \<longleftrightarrow>
     (\<forall>d\<in>set (er_live r). d \<notin> D \<longrightarrow> d \<in> set (er_live r') \<and> ds_shutdown (er_states r' d) = ds_shutdown (er_states r d) \<and>
       descriptor (er_states r' d) = descriptor (er_states r d))"

lemma keeps_same: "same_registration r r' \<Longrightarrow> keeps_except D r r'"
  by (simp add: same_registration_def keeps_except_def)

lemma keeps_impl:
  assumes "keeps_except D r r'" "impl_ok r impl" "\<And>d. native impl \<noteq> None \<Longrightarrow> reactor_data impl = Some d \<Longrightarrow> d \<notin> D"
  shows "impl_ok r' impl"
  using assms unfolding keeps_except_def impl_ok_def by (cases "native impl") auto

lemma owns_upd [simp]:
  "owns (socks(i \<mapsto> impl)) j d \<longleftrightarrow> (if j = i then native impl \<noteq> None \<and> reactor_data impl = Some d else owns socks j d)"
  "owns (socks(i := None)) j d \<longleftrightarrow> j \<noteq> i \<and> owns socks j d"
  by (auto simp: owns_def)

lemma inv_impl: "sockets_inv socks r \<Longrightarrow> socks i = Some impl \<Longrightarrow> impl_ok r impl"
  by (simp add: sockets_inv_def)

lemma inv_unique: "sockets_inv socks r \<Longrightarrow> owns socks j d \<Longrightarrow> owns socks k d \<Longrightarrow> j = k"
  unfolding sockets_inv_def by blast

lemma inv_upd:
  assumes inv: "sockets_inv socks r" and keep: "keeps_except D r r'" and impl: "impl_ok r' impl'"
    and others: "\<And>j d. j \<noteq> i \<Longrightarrow> owns socks j d \<Longrightarrow> d \<notin> D \<and> (native impl' \<noteq> None \<longrightarrow> reactor_data impl' \<noteq> Some d)"
  shows "sockets_inv (socks(i \<mapsto> impl')) r'"
proof -
  have "impl_ok r' x" if "socks j = Some x" "j \<noteq> i" for j x
    using others that by (intro keeps_impl [OF keep inv_impl [OF inv that(1)]]) (auto simp: owns_def)
  then have 1: "impl_ok r' x" if "(socks(i \<mapsto> impl')) j = Some x" for j x
    using impl that by (cases "j = i") auto
  have 2: "j = k" if "owns (socks(i \<mapsto> impl')) j d" "owns (socks(i \<mapsto> impl')) k d" for j k d
  proof (cases "j = i \<or> k = i")
    case True
    then show ?thesis using that others [of j d] others [of k d] by (auto split: if_splits)
  next
    case False
    then show ?thesis using that inv_unique [OF inv, of j d k] by simp
  qed
  show ?thesis unfolding sockets_inv_def using 1 2 by blast
qed

lemma inv_remove:
  assumes inv: "sockets_inv socks r" and keep: "keeps_except D r r'"
    and others: "\<And>j d. j \<noteq> i \<Longrightarrow> owns socks j d \<Longrightarrow> d \<notin> D"
  shows "sockets_inv (socks(i := None)) r'"
proof -
  have "impl_ok r' x" if "socks j = Some x" "j \<noteq> i" for j x
    using others that by (intro keeps_impl [OF keep inv_impl [OF inv that(1)]]) (auto simp: owns_def)
  then show ?thesis using inv_unique [OF inv] unfolding sockets_inv_def by auto
qed

lemma impl_closed: "impl_ok r impl \<Longrightarrow> native impl = None \<Longrightarrow> sock_state impl = 0"
  by (simp add: impl_ok_def)

lemma owns_live:
  assumes "sockets_inv socks r" "owns socks j d"
  shows "d \<in> set (er_live r)"
proof -
  obtain impl n where i: "socks j = Some impl" "native impl = Some n" "reactor_data impl = Some d"
    using assms(2) by (auto simp: owns_def)
  then show ?thesis using inv_impl [OF assms(1) i(1)] by (simp add: impl_ok_def)
qed

text \<open>An object whose ownership and validity do not change.\<close>

lemma inv_same:
  assumes "sockets_inv socks r" "socks i = Some impl" "same_registration r r'"
    "native impl' = native impl" "reactor_data impl' = reactor_data impl" "native impl = None \<Longrightarrow> sock_state impl' = 0"
  shows "sockets_inv (socks(i \<mapsto> impl')) r'"
proof (rule inv_upd [OF assms(1) keeps_same [OF assms(3)]])
  have "impl_ok r impl'" using inv_impl [OF assms(1,2)] assms(4-6) by (auto simp: impl_ok_def split: option.splits)
  then show "impl_ok r' impl'" using same_registration_impl [OF assms(3)] by simp
  show "d \<notin> {} \<and> (native impl' \<noteq> None \<longrightarrow> reactor_data impl' \<noteq> Some d)" if "j \<noteq> i" "owns socks j d" for j d
    using assms(1,2,4,5) that by (auto simp: sockets_inv_def owns_def)
qed

lemma register_registration:
  assumes "register_descriptor fd fresh ctl r = (err, d, r')" "fresh \<notin> set (er_live r) \<union> set (er_free r)"
    "distinct (er_live r @ er_free r)"
  shows "d \<notin> set (er_live r)" "er_live r' = d # er_live r" "\<not> ds_shutdown (er_states r' d)"
    "descriptor (er_states r' d) = fd" "keeps_except {} r r'"
proof -
  obtain r1 where a: "allocate_descriptor_state fresh r = (d, r1)"
    using assms(1) by (cases "allocate_descriptor_state fresh r") (auto simp: register_descriptor_def Let_def split: option.splits if_splits)
  have 1: "d \<notin> set (er_live r)" "er_live r1 = d # er_live r" "\<And>x. x \<noteq> d \<Longrightarrow> er_states r1 x = er_states r x"
    using a assms(2,3) by (auto simp: allocate_descriptor_state_def upd_state_def split: list.splits)
  have 2: "er_live r' = er_live r1" "ds_shutdown (er_states r' d) = False" "descriptor (er_states r' d) = fd"
    "\<And>x. x \<noteq> d \<Longrightarrow> er_states r' x = er_states r1 x"
    using assms(1) a by (auto simp: register_descriptor_def Let_def upd_state_def split: option.splits if_splits)
  show "d \<notin> set (er_live r)" "er_live r' = d # er_live r" "\<not> ds_shutdown (er_states r' d)"
    "descriptor (er_states r' d) = fd" using 1 2 by simp_all
  have "er_states r' x = er_states r x" if "x \<in> set (er_live r)" for x
    using 1 2 that by (cases "x = d") auto
  then show "keeps_except {} r r'" using 1 2(1) by (simp add: keeps_except_def)
qed

lemma deregister_registration:
  assumes "d \<in> set (er_live r)" "\<not> ds_shutdown (er_states r d)" "distinct (er_live r)"
    and "deregister_descriptor fd (Some d) closing (r, ti) = (dd, (r1, ti1))"
    and "cleanup_descriptor_data dd r1 = (dd', r')"
  shows "dd = Some d" "dd' = None" "d \<in> set (er_live r1)" "ds_shutdown (er_states r1 d)" "keeps_except {d} r r'"
proof -
  let ?r = "if \<not> closing \<and> registered_events (er_states r d) \<noteq> 0 then epoll_ctl_del fd r else r"
  let ?r2 = "upd_state d (\<lambda>x. (clear_ops x)\<lparr>descriptor := - 1, ds_shutdown := True\<rparr>) ?r"
  have e: "dd = Some d" "(r1, ti1) = post_deferred (map abort_op (all_ops (er_states r d))) (?r2, ti)"
    using assms(2,4) by (auto simp: deregister_descriptor_def Let_def)
  have same: "same_registration ?r2 r1"
    using post_registration(2) [of ?r2 "map abort_op (all_ops (er_states r d))" ti] unfolding e(2) [symmetric] by simp
  have r2: "er_live ?r2 = er_live r" "ds_shutdown (er_states ?r2 d)" "\<And>x. x \<noteq> d \<Longrightarrow> er_states ?r2 x = er_states r x"
    by (simp_all add: upd_state_def epoll_ctl_del_def)
  have r': "dd' = None" "r' = free_descriptor_state d r1" using assms(5) e(1) by (simp_all add: cleanup_descriptor_data_def)
  show "dd = Some d" "dd' = None" using e r' by simp_all
  show "d \<in> set (er_live r1)" "ds_shutdown (er_states r1 d)" using same r2 assms(1) by (simp_all add: same_registration_def)
  show "keeps_except {d} r r'"
    using same r2(1,3) assms(3) unfolding r'(2) by (simp add: keeps_except_def same_registration_def free_descriptor_state_def)
qed

section \<open>Every call is a run of calls of the reactor\<close>

lemma close_served:
  assumes "sockets_inv socks r" "socks i = Some impl" "native impl \<noteq> None" "distinct (er_live r)"
    and "deregister_descriptor fd (reactor_data impl) closing (r, ti) = (dd, c1)"
    and "cleanup_descriptor_data dd (fst c1) = (dd', r')"
  obtains d where "reactor_data impl = Some d" "dd' = None" "keeps_except {d} r r'"
    "served perform K U {#} (w, (r, ti)) (w, (r', snd c1))"
    "\<And>j. j \<noteq> i \<Longrightarrow> \<not> owns socks j d"
proof -
  obtain d where d: "reactor_data impl = Some d" "d \<in> set (er_live r)" "\<not> ds_shutdown (er_states r d)"
    using inv_impl [OF assms(1,2)] assms(3) by (auto simp: impl_ok_def)
  obtain r1 ti1 where c1: "c1 = (r1, ti1)" by (cases c1)
  note g = deregister_registration [OF d(2,3) assms(4) assms(5) [unfolded d(1) c1] assms(6) [unfolded c1, simplified]]
  have "served perform K U {#} (w, (r, ti)) (w, c1)"
    using served_one [of K U "Deregister fd (Some d) closing" "(w, (r, ti))" perform] d(2) assms(5) d(1) by simp
  moreover have "served perform K U {#} (w, c1) (w, (r', ti1))"
    using served_one [of K U "Cleanup (Some d)" "(w, c1)" perform] g(1,3,4) assms(6) c1 by simp
  ultimately have "served perform K U {#} (w, (r, ti)) (w, (r', snd c1))"
    using served_trans [of perform K U "{#}" "(w, (r, ti))" "(w, c1)" "{#}"] c1 by simp
  moreover have "\<not> owns socks j d" if "j \<noteq> i" for j
    using inv_unique [OF assms(1), of j d i] that assms(2,3) d(1) by (auto simp: owns_def)
  ultimately show thesis using that [OF d(1) g(2,5)] by blast
qed

lemma register_served:
  assumes inv: "sockets_inv socks r" and fresh: "fresh \<notin> set (er_live r) \<union> set (er_free r)"
    and dist: "distinct (er_live r @ er_free r)"
    and reg: "register_descriptor fd fresh ctl r = (err, d, r')"
  shows "served perform K U {#} (w, (r, ti)) (w, (r', ti))"
    and "keeps_except {} r r'" "d \<in> set (er_live r')" "\<not> ds_shutdown (er_states r' d)" "descriptor (er_states r' d) = fd"
    and "\<not> owns socks j d"
proof -
  show "served perform K U {#} (w, (r, ti)) (w, (r', ti))"
    using served_one [of K U "Register fd fresh ctl" "(w, (r, ti))" perform] fresh reg by simp
  note g = register_registration [OF reg fresh dist]
  show "keeps_except {} r r'" "d \<in> set (er_live r')" "\<not> ds_shutdown (er_states r' d)" "descriptor (er_states r' d) = fd"
    using g by simp_all
  show "\<not> owns socks j d" using owns_live [OF inv] g(1) by blast
qed

lemma make_non_blocking_keeps:
  assumes "impl_ok r impl" "make_non_blocking ioctl impl a = (ok, impl1, a1)"
  shows "native impl1 = native impl" "reactor_data impl1 = reactor_data impl" "op_id a1 = op_id a"
    "native impl = None \<Longrightarrow> sock_state impl1 = 0" "ok \<Longrightarrow> native impl \<noteq> None"
  using assms by (auto simp: make_non_blocking_def ops_set_internal_non_blocking_def impl_ok_def Let_def
      split: if_splits option.splits)

lemma start_served:
  assumes inv: "sockets_inv socks r" "socks i = Some impl"
    and st: "rs_start_op perform j a cont nb noop ioctl ctl impl w (r, ti) = (impl', w', c')"
  shows "served perform K U {#op_id a#} (w, (r, ti)) (w', c') \<and> sockets_inv (socks(i \<mapsto> impl')) (fst c')"
proof -
  note ok = inv_impl [OF inv]
  obtain b impl1 a1 where m: "make_non_blocking ioctl impl a = (b, impl1, a1)" by (cases "make_non_blocking ioctl impl a")
  note k = make_non_blocking_keeps [OF ok m]
  have live: "d \<in> set (er_live r)" if "b" "reactor_data impl1 = Some d" for d
    using ok k that by (auto simp: impl_ok_def)
  consider "noop" | "\<not> noop" "b" | "\<not> noop" "\<not> b" by blast
  then show ?thesis
  proof cases
    case 1
    then have e: "impl' = impl" "w' = w" "c' = post_immediate a cont (r, ti)" using st by (simp_all add: rs_start_op_def)
    have "sockets_inv (socks(i \<mapsto> impl)) (fst c')"
      unfolding e(3) by (rule inv_same [OF inv post_registration(1) refl refl]) (rule impl_closed [OF ok])
    then show ?thesis unfolding e by (simp add: e)
  next
    case 2
    then have e: "impl' = impl1" "(w', c') = start_op perform j (fd_of impl1) (reactor_data impl1) a1 cont nb ctl w (r, ti)"
      using st m by (auto simp: rs_start_op_def)
    have "same_registration r (fst c')"
      using start_op_registration [of r perform j "fd_of impl1" "reactor_data impl1" a1 cont nb ctl w ti]
      unfolding e(2) [symmetric] by simp
    then have "sockets_inv (socks(i \<mapsto> impl')) (fst c')"
      unfolding e(1) by (rule inv_same [OF inv _ k(1,2,4)])
    moreover have "served perform K U {#op_id a#} (w, (r, ti)) (w', c')"
      unfolding e(2) k(3) [symmetric] by (rule served_start) (use live 2(2) in simp)
    ultimately show ?thesis by blast
  next
    case 3
    then have e: "impl' = impl1" "w' = w" "c' = post_immediate a1 cont (r, ti)" using st m by (simp_all add: rs_start_op_def)
    have "sockets_inv (socks(i \<mapsto> impl')) (fst c')"
      unfolding e(1,3) by (rule inv_same [OF inv post_registration(1) k(1,2,4)])
    moreover have "served perform K U {#op_id a#} (w, (r, ti)) (w', c')"
      unfolding e(2,3) k(3) [symmetric] by (rule served_post)
    ultimately show ?thesis by blast
  qed
qed

lemma destroy_served:
  assumes inv: "sockets_inv socks r" "socks i = Some impl" "distinct (er_live r)"
    and d: "rs_destroy r1 r2 impl (r, ti) = (impl', c')"
  obtains D where "served perform K U {#} (w, (r, ti)) (w, c')" "keeps_except D r (fst c')"
    "\<And>j d. j \<noteq> i \<Longrightarrow> owns socks j d \<Longrightarrow> d \<notin> D"
proof (cases "native impl = None")
  case True
  then have "c' = (r, ti)" using d by (simp add: rs_destroy_def)
  then show thesis using that [of "{}"] keeps_same [OF same_registration_refl] by simp
next
  case False
  obtain dd c1 where de: "deregister_descriptor (fd_of impl) (reactor_data impl) (sock_state impl AND possible_dup = 0) (r, ti) = (dd, c1)"
    by (cases "deregister_descriptor (fd_of impl) (reactor_data impl) (sock_state impl AND possible_dup = 0) (r, ti)")
  obtain dd' r' where cl: "cleanup_descriptor_data dd (fst c1) = (dd', r')" by (cases "cleanup_descriptor_data dd (fst c1)")
  have c': "c' = (r', snd c1)" using d de cl False by (simp add: rs_destroy_def split: prod.splits)
  show thesis
    by (rule close_served [OF inv(1,2) False inv(3) de cl, of perform K U w]) (use that c' in auto)
qed

lemma close_call_served:
  assumes inv: "sockets_inv socks r" "socks i = Some impl" "distinct (er_live r)"
    and c: "rs_close r1 r2 impl (r, ti) = (ec, impl', c')"
  shows "served perform K U {#} (w, (r, ti)) (w, c') \<and> sockets_inv (socks(i \<mapsto> impl')) (fst c')"
proof (cases "native impl = None")
  case True
  then have "c' = (r, ti)" "impl' = rs_construct impl" using c by (simp_all add: rs_close_def rs_is_open_def)
  then show ?thesis using True inv_same [OF inv(1,2) same_registration_refl, of impl'] by (simp add: rs_construct_def)
next
  case False
  obtain dd c1 where de: "deregister_descriptor (fd_of impl) (reactor_data impl) (sock_state impl AND possible_dup = 0) (r, ti) = (dd, c1)"
    by (cases "deregister_descriptor (fd_of impl) (reactor_data impl) (sock_state impl AND possible_dup = 0) (r, ti)")
  obtain dd' r' where cl: "cleanup_descriptor_data dd (fst c1) = (dd', r')" by (cases "cleanup_descriptor_data dd (fst c1)")
  have e: "c' = (r', snd c1)" "native impl' = None" "sock_state impl' = 0"
    using c de cl False by (auto simp: rs_close_def rs_is_open_def rs_construct_def split: prod.splits)
  obtain d where g: "keeps_except {d} r r'" "served perform K U {#} (w, (r, ti)) (w, (r', snd c1))"
    "\<And>j. j \<noteq> i \<Longrightarrow> \<not> owns socks j d"
    using close_served [OF inv(1,2) False inv(3) de cl] by metis
  have "sockets_inv (socks(i \<mapsto> impl')) r'"
    by (rule inv_upd [OF inv(1) g(1)]) (use e g(3) in \<open>auto simp: impl_ok_def\<close>)
  then show ?thesis using g(2) e(1) by simp
qed

lemma release_call_served:
  assumes inv: "sockets_inv socks r" "socks i = Some impl" "distinct (er_live r)"
    and c: "rs_release impl (r, ti) = (ec, s, impl', c')"
  shows "served perform K U {#} (w, (r, ti)) (w, c') \<and> sockets_inv (socks(i \<mapsto> impl')) (fst c')"
proof (cases "native impl = None")
  case True
  then have "c' = (r, ti)" "impl' = impl" using c by (simp_all add: rs_release_def rs_is_open_def)
  then show ?thesis using inv(1,2) by (simp add: fun_upd_idem)
next
  case False
  obtain dd c1 where de: "deregister_descriptor (fd_of impl) (reactor_data impl) False (r, ti) = (dd, c1)"
    by (cases "deregister_descriptor (fd_of impl) (reactor_data impl) False (r, ti)")
  obtain dd' r' where cl: "cleanup_descriptor_data dd (fst c1) = (dd', r')" by (cases "cleanup_descriptor_data dd (fst c1)")
  have e: "c' = (r', snd c1)" "native impl' = None" "sock_state impl' = 0"
    using c de cl False by (auto simp: rs_release_def rs_is_open_def rs_construct_def split: prod.splits)
  obtain d where g: "keeps_except {d} r r'" "served perform K U {#} (w, (r, ti)) (w, (r', snd c1))"
    "\<And>j. j \<noteq> i \<Longrightarrow> \<not> owns socks j d"
    using close_served [OF inv(1,2) False inv(3) de cl] by metis
  have "sockets_inv (socks(i \<mapsto> impl')) r'"
    by (rule inv_upd [OF inv(1) g(1)]) (use e g(3) in \<open>auto simp: impl_ok_def\<close>)
  then show ?thesis using g(2) e(1) by simp
qed

lemma assign_call_served:
  assumes inv: "sockets_inv socks r" "socks i = Some impl" "distinct (er_live r @ er_free r)"
    and fresh: "fresh \<notin> set (er_live r) \<union> set (er_free r)"
    and c: "rs_do_assign type fd fresh ctl impl (r, ti) = (ec, impl', c')"
  shows "served perform K U {#} (w, (r, ti)) (w, c') \<and> sockets_inv (socks(i \<mapsto> impl')) (fst c')"
proof (cases "native impl = None")
  case False
  then have "c' = (r, ti)" "impl' = impl" using c by (simp_all add: rs_do_assign_def rs_is_open_def)
  then show ?thesis using inv(1,2) by (simp add: fun_upd_idem)
next
  case True
  obtain err d r' where reg: "register_descriptor (int fd) fresh ctl r = (err, d, r')"
    by (cases "register_descriptor (int fd) fresh ctl r")
  note g = register_served [OF inv(1) fresh inv(3) reg]
  have e: "c' = (r', ti)" "reactor_data impl' = Some d" "native impl' = None \<Longrightarrow> sock_state impl' = 0"
    "native impl' = None \<or> native impl' = Some fd"
    using c reg True impl_closed [OF inv_impl [OF inv(1,2)]]
    by (auto simp: rs_do_assign_def rs_is_open_def Let_def split: if_splits)
  have "sockets_inv (socks(i \<mapsto> impl')) r'"
    by (rule inv_upd [OF inv(1) g(2)]) (use e g(3-6) in \<open>auto simp: impl_ok_def\<close>)
  then show ?thesis using g(1) e(1) by simp
qed

lemma open_call_served:
  assumes inv: "sockets_inv socks r" "socks i = Some impl" "distinct (er_live r @ er_free r)"
    and fresh: "fresh \<notin> set (er_live r) \<union> set (er_free r)"
    and c: "rs_do_open type res fresh ctl impl (r, ti) = (ec, impl', c')"
  shows "served perform K U {#} (w, (r, ti)) (w, c') \<and> sockets_inv (socks(i \<mapsto> impl')) (fst c')"
proof (cases "native impl = None \<and> (\<exists>fd. res = Inr fd)")
  case False
  then have "c' = (r, ti)" "impl' = impl" using c by (auto simp: rs_do_open_def rs_is_open_def split: sum.splits if_splits)
  then show ?thesis using inv(1,2) by (simp add: fun_upd_idem)
next
  case True
  then obtain fd where fd: "native impl = None" "res = Inr fd" by blast
  obtain err d r' where reg: "register_descriptor (int fd) fresh ctl r = (err, d, r')"
    by (cases "register_descriptor (int fd) fresh ctl r")
  note g = register_served [OF inv(1) fresh inv(3) reg]
  have e: "c' = (r', ti)" "reactor_data impl' = Some d" "native impl' = None \<Longrightarrow> sock_state impl' = 0"
    "native impl' = None \<or> native impl' = Some fd"
    using c reg fd impl_closed [OF inv_impl [OF inv(1,2)]]
    by (auto simp: rs_do_open_def rs_is_open_def Let_def split: if_splits)
  have "sockets_inv (socks(i \<mapsto> impl')) r'"
    by (rule inv_upd [OF inv(1) g(2)]) (use e g(3-6) in \<open>auto simp: impl_ok_def\<close>)
  then show ?thesis using g(1) e(1) by simp
qed

text \<open>Two objects change hands.\<close>

lemma move_inv:
  assumes inv: "sockets_inv socks r" and j: "socks j = Some other" "i \<noteq> j"
    and keep: "keeps_except D r r'" "\<And>k d. k \<noteq> i \<Longrightarrow> owns socks k d \<Longrightarrow> d \<notin> D"
    and mv: "rs_move_construct other = (impl', other')"
  shows "sockets_inv (socks(i \<mapsto> impl', j \<mapsto> other')) r'"
proof -
  have e: "native impl' = native other" "sock_state impl' = sock_state other" "reactor_data impl' = reactor_data other"
    "native other' = None" "sock_state other' = 0"
    using mv by (auto simp: rs_move_construct_def move_descriptor_def)
  have 1: "sockets_inv ((socks(i := None))(j \<mapsto> other')) r'"
    by (rule inv_upd [OF inv_remove [OF inv keep(1)]]) (use e keep(2) keeps_same [OF same_registration_refl] in \<open>auto simp: impl_ok_def\<close>)
  have other: "impl_ok r' other"
    by (rule keeps_impl [OF keep(1) inv_impl [OF inv j(1)]]) (use keep(2) [of j] j in \<open>auto simp: owns_def\<close>)
  have "sockets_inv ((socks(i := None))(j \<mapsto> other', i \<mapsto> impl')) r'"
  proof (rule inv_upd [OF 1 keeps_same [OF same_registration_refl]])
    show "impl_ok r' impl'" using other e by (cases "native other") (simp_all add: impl_ok_def)
    show "d \<notin> {} \<and> (native impl' \<noteq> None \<longrightarrow> reactor_data impl' \<noteq> Some d)"
      if "k \<noteq> i" "owns ((socks(i := None))(j \<mapsto> other')) k d" for k d
      using that e(1,3,4) j inv_unique [OF inv, of k d j] by (auto simp: owns_def split: if_splits)
  qed
  then show ?thesis using j(2) by (simp add: fun_upd_twist)
qed

lemma connect_served:
  assumes inv: "sockets_inv socks r" "socks i = Some impl"
    and st: "rs_start_connect_op perform a cont result ioctl ctl impl w (r, ti) = (impl', w', c')"
  shows "served perform K U {#op_id a#} (w, (r, ti)) (w', c') \<and> sockets_inv (socks(i \<mapsto> impl')) (fst c')"
proof -
  note ok = inv_impl [OF inv]
  obtain b impl1 a1 where m: "make_non_blocking ioctl impl a = (b, impl1, a1)" by (cases "make_non_blocking ioctl impl a")
  note k = make_non_blocking_keeps [OF ok m]
  obtain a2 where a2: "op_id a2 = op_id a" and
    e: "impl' = impl1 \<and> w' = w \<and> c' = post_immediate a2 cont (r, ti) \<or>
        impl' = impl1 \<and> b \<and> (w', c') = start_op perform connect_op (fd_of impl1) (reactor_data impl1) a2 cont False ctl w (r, ti)"
  proof (cases b)
    case False
    show thesis by (rule that [of a1]) (use st m k(3) False in \<open>auto simp: rs_start_connect_op_def\<close>)
  next
    case True
    obtain cn ec where cc: "connect_code result (op_ec a1) = (cn, ec)" by (cases "connect_code result (op_ec a1)")
    show thesis
    proof (cases "\<not> cn \<and> (ec = make_basic_error in_progress \<or> ec = make_basic_error would_block)")
      case t: True
      show thesis by (rule that [of "a1\<lparr>op_ec := ec_success\<rparr>"])
        (use st m k(3) cc t True in \<open>auto simp: rs_start_connect_op_def\<close>)
    next
      case f: False
      show thesis by (rule that [of "a1\<lparr>op_ec := ec\<rparr>"])
        (use st m k(3) cc f True in \<open>auto simp: rs_start_connect_op_def split: if_splits\<close>)
    qed
  qed
  have same: "same_registration r (fst c')" using e
  proof
    assume "impl' = impl1 \<and> b \<and> (w', c') = start_op perform connect_op (fd_of impl1) (reactor_data impl1) a2 cont False ctl w (r, ti)"
    then show ?thesis
      using start_op_registration [of r perform connect_op "fd_of impl1" "reactor_data impl1" a2 cont False ctl w ti]
      by (metis snd_conv)
  qed simp
  have "sockets_inv (socks(i \<mapsto> impl')) (fst c')"
    using e inv_same [OF inv same k(1,2,4)] by auto
  moreover have "served perform K U {#op_id a#} (w, (r, ti)) (w', c')" using e
  proof
    assume "impl' = impl1 \<and> w' = w \<and> c' = post_immediate a2 cont (r, ti)"
    then show ?thesis unfolding a2 [symmetric] by simp
  next
    assume e2: "impl' = impl1 \<and> b \<and> (w', c') = start_op perform connect_op (fd_of impl1) (reactor_data impl1) a2 cont False ctl w (r, ti)"
    have "d \<in> set (er_live (fst (r, ti)))" if "reactor_data impl1 = Some d" for d
      using ok k(2,5) that e2 by (auto simp: impl_ok_def)
    then have "served perform K U {#op_id a2#} (w, (r, ti))
        (start_op perform connect_op (fd_of impl1) (reactor_data impl1) a2 cont False ctl w (r, ti))"
      by (rule served_start)
    then show ?thesis using a2 e2 by metis
  qed
  ultimately show ?thesis by blast
qed

text \<open>Calls that only change the state bits.\<close>

lemma modes_keep:
  "native (snd (rs_set_option opt res impl)) = native impl"
  "reactor_data (snd (rs_set_option opt res impl)) = reactor_data impl"
  "native impl = None \<Longrightarrow> sock_state (snd (rs_set_option opt res impl)) = sock_state impl"
  "native (snd (rs_set_non_blocking mode res impl)) = native impl"
  "reactor_data (snd (rs_set_non_blocking mode res impl)) = reactor_data impl"
  "native impl = None \<Longrightarrow> sock_state (snd (rs_set_non_blocking mode res impl)) = sock_state impl"
  "native (snd (rs_set_native_non_blocking mode res impl)) = native impl"
  "reactor_data (snd (rs_set_native_non_blocking mode res impl)) = reactor_data impl"
  "native impl = None \<Longrightarrow> sock_state (snd (rs_set_native_non_blocking mode res impl)) = sock_state impl"
  by (simp_all add: rs_set_option_def rs_set_non_blocking_def rs_set_native_non_blocking_def ops_setsockopt_def
      ops_set_user_non_blocking_def ops_set_internal_non_blocking_def split: prod.splits)

lemma on_impl_None [simp]: "socks i = None \<Longrightarrow> on_impl i f (w, c, socks) = (w, c, socks)"
  by (simp add: on_impl_def)

lemma on_impl_Some [simp]:
  "socks i = Some impl \<Longrightarrow> on_impl i f (w, c, socks) = (let (impl', w', c') = f impl w c in (w', c', socks(i \<mapsto> impl')))"
  by (simp add: on_impl_def)

lemma mode_call_served:
  assumes "sockets_inv socks r" "socks i = Some impl" "native impl' = native impl" "reactor_data impl' = reactor_data impl"
    "native impl = None \<Longrightarrow> sock_state impl' = sock_state impl"
  shows "served perform K U {#} (w, (r, ti)) (w, (r, ti)) \<and> sockets_inv (socks(i \<mapsto> impl')) r"
  using inv_same [OF assms(1,2) same_registration_refl assms(3,4)] impl_closed [OF inv_impl [OF assms(1,2)]] assms(5)
  by simp

lemma async_call_served:
  assumes inv: "sockets_inv socks r" "socks i = Some impl"
    and f: "f = (\<lambda>impl w c. (impl, w, post_immediate a' cont c)) \<or>
      (\<exists>j nb noop. f impl w (r, ti) = rs_start_op perform j a cont nb noop ioctl ctl impl w (r, ti))"
    and a': "op_id a' = op_id a"
    and x: "on_impl i f (w, (r, ti), socks) = (w', c', socks')"
  shows "served perform K U {#op_id a#} (w, (r, ti)) (w', c') \<and> sockets_inv socks' (fst c')"
proof -
  obtain impl' w1 c1 where fi: "f impl w (r, ti) = (impl', w1, c1)" by (cases "f impl w (r, ti)")
  have e: "w' = w1" "c' = c1" "socks' = socks(i \<mapsto> impl')" using x inv(2) fi by simp_all
  consider "f = (\<lambda>impl w c. (impl, w, post_immediate a' cont c))"
    | j nb noop where "f impl w (r, ti) = rs_start_op perform j a cont nb noop ioctl ctl impl w (r, ti)"
    using f by blast
  then show ?thesis
  proof cases
    case 1
    then have c1: "impl' = impl" "w1 = w" "c1 = post_immediate a' cont (r, ti)" using fi by simp_all
    have "sockets_inv (socks(i \<mapsto> impl)) (fst c1)"
      unfolding c1(3) by (rule inv_same [OF inv post_registration(1) refl refl]) (rule impl_closed [OF inv_impl [OF inv]])
    then show ?thesis unfolding e c1 a' [symmetric] by simp
  next
    case 2
    then have "rs_start_op perform j a cont nb noop ioctl ctl impl w (r, ti) = (impl', w1, c1)" using fi by simp
    from start_served [OF inv this] show ?thesis unfolding e .
  qed
qed

lemma exec_socket_served:
  assumes inv: "sockets_inv socks r" and dist: "distinct (er_live r @ er_free r)" and ok: "socket_ok x socks r"
    and x: "exec_socket perform x (w, (r, ti), socks) = (w', c', socks')"
  shows "served perform K U (sock_started x) (w, (r, ti)) (w', c') \<and> sockets_inv socks' (fst c')"
proof (cases x)
  case (Sock_construct i)
  have "sockets_inv (socks(i \<mapsto> new_impl)) r"
    by (rule inv_upd [OF inv keeps_same [where D = "{}", OF same_registration_refl]]) (simp_all add: impl_ok_def new_impl_def rs_construct_def)
  then show ?thesis using Sock_construct x by auto
next
  case (Sock_move_construct i j)
  then obtain other where o: "socks j = Some other" "socks i = None" using ok by auto
  then have ij: "i \<noteq> j" by auto
  obtain impl' other' where mv: "rs_move_construct other = (impl', other')" by (cases "rs_move_construct other")
  have "sockets_inv (socks(i \<mapsto> impl', j \<mapsto> other')) r"
    by (rule move_inv [OF inv o(1) ij keeps_same [where D = "{}", OF same_registration_refl] _ mv]) simp
  then show ?thesis using Sock_move_construct x o ij mv by auto
next
  case (Sock_move_assign i j r1 r2)
  then obtain impl other where o: "socks i = Some impl" "socks j = Some other" "i \<noteq> j" using ok by auto
  obtain impl1 c1 where d: "rs_destroy r1 r2 impl (r, ti) = (impl1, c1)" by (cases "rs_destroy r1 r2 impl (r, ti)")
  obtain impl' other' where mv: "rs_move_construct other = (impl', other')" by (cases "rs_move_construct other")
  obtain D where D: "served perform K U {#} (w, (r, ti)) (w, c1)" "keeps_except D r (fst c1)"
    "\<And>j d. j \<noteq> i \<Longrightarrow> owns socks j d \<Longrightarrow> d \<notin> D"
    using destroy_served [OF inv o(1) _ d] dist by (metis distinct_append)
  have "sockets_inv (socks(i \<mapsto> impl', j \<mapsto> other')) (fst c1)"
    by (rule move_inv [OF inv o(2,3) D(2,3) mv])
  then show ?thesis using Sock_move_assign x o d mv D(1) by (auto simp: rs_move_assign_def)
next
  case (Sock_destroy i r1 r2)
  then obtain impl where o: "socks i = Some impl" using ok by auto
  obtain impl1 c1 where d: "rs_destroy r1 r2 impl (r, ti) = (impl1, c1)" by (cases "rs_destroy r1 r2 impl (r, ti)")
  obtain D where D: "served perform K U {#} (w, (r, ti)) (w, c1)" "keeps_except D r (fst c1)"
    "\<And>j d. j \<noteq> i \<Longrightarrow> owns socks j d \<Longrightarrow> d \<notin> D"
    using destroy_served [OF inv o _ d] dist by (metis distinct_append)
  then show ?thesis using Sock_destroy x o d inv_remove [OF inv D(2,3)] by auto
next
  case (Sock_open i type res fresh ctl)
  then obtain impl where o: "socks i = Some impl" "fresh \<notin> set (er_live r) \<union> set (er_free r)" using ok by auto
  obtain ec impl' c1 where d: "rs_do_open type res fresh ctl impl (r, ti) = (ec, impl', c1)"
    by (cases "rs_do_open type res fresh ctl impl (r, ti)")
  then show ?thesis using open_call_served [OF inv o(1) dist o(2) d, of perform K U w] Sock_open x o by auto
next
  case (Sock_assign i type fd fresh ctl)
  then obtain impl where o: "socks i = Some impl" "fresh \<notin> set (er_live r) \<union> set (er_free r)" using ok by auto
  obtain ec impl' c1 where d: "rs_do_assign type fd fresh ctl impl (r, ti) = (ec, impl', c1)"
    by (cases "rs_do_assign type fd fresh ctl impl (r, ti)")
  then show ?thesis using assign_call_served [OF inv o(1) dist o(2) d, of perform K U w] Sock_assign x o by auto
next
  case (Sock_close i r1 r2)
  then obtain impl where o: "socks i = Some impl" using ok by auto
  obtain ec impl' c1 where d: "rs_close r1 r2 impl (r, ti) = (ec, impl', c1)" by (cases "rs_close r1 r2 impl (r, ti)")
  then show ?thesis using close_call_served [OF inv o _ d, of perform K U w] dist Sock_close x o by auto
next
  case (Sock_release i)
  then obtain impl where o: "socks i = Some impl" using ok by auto
  obtain ec s impl' c1 where d: "rs_release impl (r, ti) = (ec, s, impl', c1)" by (cases "rs_release impl (r, ti)")
  then show ?thesis using release_call_served [OF inv o _ d, of perform K U w] dist Sock_release x o by auto
next
  case (Sock_cancel i)
  then obtain impl where o: "socks i = Some impl" using ok by auto
  have "served perform K U {#} (w, (r, ti)) (w, snd (rs_cancel impl (r, ti))) \<and>
      sockets_inv socks (fst (snd (rs_cancel impl (r, ti))))"
  proof (cases "native impl = None")
    case False
    have "call_ok K U (Cancel_ops (reactor_data impl)) r"
      using inv_impl [OF inv o] False by (auto simp: impl_ok_def)
    then show ?thesis
      using served_one [of K U "Cancel_ops (reactor_data impl)" "(w, (r, ti))" perform]
        same_registration_inv [OF cancel_ops_registration inv] False
      by (simp add: rs_cancel_def rs_is_open_def)
  qed (use inv in \<open>simp add: rs_cancel_def rs_is_open_def\<close>)
  then show ?thesis using Sock_cancel x o by (auto simp: fun_upd_idem)
next
  case (Sock_set_option i opt res)
  then obtain impl where o: "socks i = Some impl" using ok by auto
  show ?thesis using mode_call_served [OF inv o modes_keep(1-3)] Sock_set_option x o by auto
next
  case (Sock_non_blocking i mode res)
  then obtain impl where o: "socks i = Some impl" using ok by auto
  show ?thesis using mode_call_served [OF inv o modes_keep(4-6)] Sock_non_blocking x o by auto
next
  case (Sock_native_non_blocking i mode res)
  then obtain impl where o: "socks i = Some impl" using ok by auto
  show ?thesis using mode_call_served [OF inv o modes_keep(7-9)] Sock_native_non_blocking x o by auto
next
  case (Sock_async_wait i wt a cont ioctl ctl)
  then obtain impl where o: "socks i = Some impl" using ok by auto
  have "rs_async_wait perform wt a cont ioctl ctl = (\<lambda>impl w c. (impl, w, post_immediate (a\<lparr>op_ec := make_basic_error invalid_argument\<rparr>) cont c)) \<or>
      (\<exists>j nb noop. rs_async_wait perform wt a cont ioctl ctl impl w (r, ti) = rs_start_op perform j a cont nb noop ioctl ctl impl w (r, ti))"
    by (cases wt) (auto simp: rs_async_wait_def fun_eq_iff)
  from async_call_served [where f = "rs_async_wait perform wt a cont ioctl ctl" and a' = "a\<lparr>op_ec := make_basic_error invalid_argument\<rparr>", OF inv o this] x Sock_async_wait
  show ?thesis by simp
next
  case (Sock_async_send i bufs a cont ioctl ctl)
  then obtain impl where o: "socks i = Some impl" using ok by auto
  have "\<exists>j nb noop. rs_async_send perform bufs a cont ioctl ctl impl w (r, ti) = rs_start_op perform j a cont nb noop ioctl ctl impl w (r, ti)"
    unfolding rs_async_send_def by blast
  from async_call_served [where f = "rs_async_send perform bufs a cont ioctl ctl" and a' = a, OF inv o disjI2 [OF this] refl] x Sock_async_send
  show ?thesis by simp
next
  case (Sock_async_receive i bufs flags a cont ioctl ctl)
  then obtain impl where o: "socks i = Some impl" using ok by auto
  have "\<exists>j nb noop. rs_async_receive perform bufs flags a cont ioctl ctl impl w (r, ti) = rs_start_op perform j a cont nb noop ioctl ctl impl w (r, ti)"
    unfolding rs_async_receive_def by blast
  from async_call_served [where f = "rs_async_receive perform bufs flags a cont ioctl ctl" and a' = a, OF inv o disjI2 [OF this] refl] x Sock_async_receive
  show ?thesis by simp
next
  case (Sock_async_receive_with_flags i flags a cont ioctl ctl)
  then obtain impl where o: "socks i = Some impl" using ok by auto
  have "\<exists>j nb noop. rs_async_receive_with_flags perform flags a cont ioctl ctl impl w (r, ti) = rs_start_op perform j a cont nb noop ioctl ctl impl w (r, ti)"
    unfolding rs_async_receive_with_flags_def by blast
  from async_call_served [where f = "rs_async_receive_with_flags perform flags a cont ioctl ctl" and a' = a, OF inv o disjI2 [OF this] refl] x Sock_async_receive_with_flags
  show ?thesis by simp
next
  case (Sock_async_accept i peer a cont ioctl ctl)
  then obtain impl where o: "socks i = Some impl" using ok by auto
  let ?p = "peer_is_open peer socks"
  have "rs_start_accept_op perform a cont ?p ioctl ctl = (\<lambda>impl w c. (impl, w, post_immediate (a\<lparr>op_ec := make_misc_error already_open\<rparr>) cont c)) \<or>
      (\<exists>j nb noop. rs_start_accept_op perform a cont ?p ioctl ctl impl w (r, ti) = rs_start_op perform j a cont nb noop ioctl ctl impl w (r, ti))"
    by (cases ?p) (auto simp: rs_start_accept_op_def fun_eq_iff)
  from async_call_served [where f = "rs_start_accept_op perform a cont ?p ioctl ctl" and a' = "a\<lparr>op_ec := make_misc_error already_open\<rparr>", OF inv o this] x Sock_async_accept
  show ?thesis by simp
next
  case (Sock_async_connect i a cont res ioctl ctl)
  then obtain impl where o: "socks i = Some impl" using ok by auto
  obtain impl' w1 c1 where d: "rs_start_connect_op perform a cont res ioctl ctl impl w (r, ti) = (impl', w1, c1)"
    by (cases "rs_start_connect_op perform a cont res ioctl ctl impl w (r, ti)")
  then show ?thesis using connect_served [OF inv o d, of K U] Sock_async_connect x o by auto
next
  case (Sock_accepted i type s fresh ctl)
  then obtain impl where o: "socks i = Some impl" "fresh \<notin> set (er_live r) \<union> set (er_free r)" using ok by auto
  show ?thesis
  proof (cases s)
    case None
    then show ?thesis using Sock_accepted x o inv by (auto simp: rs_accept_assign_def fun_upd_idem)
  next
    case (Some fd)
    obtain ec impl' c1 where d: "rs_do_assign type fd fresh ctl impl (r, ti) = (ec, impl', c1)"
      by (cases "rs_do_assign type fd fresh ctl impl (r, ti)")
    then show ?thesis
      using assign_call_served [OF inv o(1) dist o(2) d, of perform K U w] Sock_accepted Some x o by (auto simp: rs_accept_assign_def)
  qed
qed


interpretation socket_client: reactor_client perform "exec_socket perform" socket_ok sock_started sockets_inv K U
  for perform K U
proof (unfold_locales, goal_cases)
  case (1 s r x w ti w' c' s')
  then show ?case using exec_socket_served [OF 1(1) reactor_inv_distinct [OF 1(2)] 1(3,4)] by blast
next
  case (2 s sc r)
  then show ?case using same_registration_inv [of r "r\<lparr>er_sched := sc\<rparr>" s] same_registration_inv [of "r\<lparr>er_sched := sc\<rparr>" r s] by auto
next
  case (3 s r events d w ti res w' c')
  then show ?case using same_registration_inv [OF perform_io_registration [OF 3(2)] 3(1)] by simp
next
  case (4 s r now evs ops r')
  then show ?case using same_registration_inv [OF reactor_run_registration [OF 4(3)] 4(1)] by simp
qed

end
