(* ===== verification/Service_Properties.thy ===== *)
theory Service_Properties
  imports Service_Steps
begin

text \<open>
  The properties of the socket service: a program's run is a run of the reactor, what closing a socket
  does to its operations, operations on a closed socket, a registration that fails, and the model of
  a socket without the reactor as an abstraction of the service.
\<close>

unbundle bit_operations_syntax

section \<open>Reachable states\<close>

text \<open>A program starts without sockets; the service has started the reactor.\<close>

definition socket_reachable :: "'w perform \<Rightarrow> bool \<Rightarrow> ('w, sockets) client_config \<Rightarrow> bool" where
  "socket_reachable perform = client_reachable perform (exec_socket perform) socket_ok sock_started (\<lambda>_. None)"

lemma socket_reachable_good:
  assumes "socket_reachable perform own_thread (w, r, socks, S, C)" "timer_space K U"
  shows "reactor_reachable perform K U own_thread (w, r, S, C)" "sockets_inv socks r"
    "reactor_good K U (if own_thread then 1 else 0) (w, r, S, C)"
proof -
  have "sockets_inv (\<lambda>_. None) r0" for r0 by (simp add: sockets_inv_def owns_def)
  note g = socket_client.reachable [OF assms(1) [unfolded socket_reachable_def] assms(2) this]
  show "reactor_reachable perform K U own_thread (w, r, S, C)" "sockets_inv socks r"
    "reactor_good K U (if own_thread then 1 else 0) (w, r, S, C)" using g by simp_all
qed

lemma no_timers: "timer_space {} (\<lambda>_. {})"
  by (simp add: timer_space_def)

section \<open>Giving up a descriptor\<close>

lemma deregister_hands_over:
  assumes "d \<in> set (er_live r)" "\<not> ds_shutdown (er_states r d)" "distinct (er_live r)"
    and "deregister_descriptor fd (Some d) closing (r, ti) = (dd, c1)" "cleanup_descriptor_data dd (fst c1) = (dd', r')"
  shows "handed_over (map abort_op (all_ops (er_states r d))) (r, ti) (r', snd c1)"
    "all_ops (er_states r' d) = []" "d \<in> set (er_free r')" "d \<notin> set (er_live r')" "dd' = None"
    "e \<noteq> d \<Longrightarrow> er_states r' e = er_states r e"
proof -
  let ?r = "if \<not> closing \<and> registered_events (er_states r d) \<noteq> 0 then epoll_ctl_del fd r else r"
  let ?r2 = "upd_state d (\<lambda>x. (clear_ops x)\<lparr>descriptor := - 1, ds_shutdown := True\<rparr>) ?r"
  have e: "dd = Some d" "c1 = post_deferred (map abort_op (all_ops (er_states r d))) (?r2, ti)"
    using assms(2,4) by (auto simp: deregister_descriptor_def Let_def)
  have r': "dd' = None" "r' = free_descriptor_state d (fst c1)" using assms(5) e(1) by (simp_all add: cleanup_descriptor_data_def)
  have st: "er_states (fst c1) = er_states ?r2" "er_live (fst c1) = er_live ?r2"
    by (simp_all add: e(2) post_deferred_def on_sched_def split: prod.split)
  have q: "er_sched ?r = er_sched r" by (simp add: epoll_ctl_del_def)
  show "handed_over (map abort_op (all_ops (er_states r d))) (r, ti) (r', snd c1)"
    using post_deferred_hands_over [of "map abort_op (all_ops (er_states r d))" "(?r2, ti)"]
    by (simp add: handed_over_def r'(2) free_descriptor_state_def q e(2) [symmetric])
  show "dd' = None" by (rule r'(1))
  show "all_ops (er_states r' d) = []"
    by (simp add: r'(2) free_descriptor_state_def st upd_state_def all_ops_def clear_ops_def)
  show "d \<in> set (er_free r')" by (simp add: r'(2) free_descriptor_state_def)
  show "d \<notin> set (er_live r')"
    using assms(3) by (simp add: r'(2) free_descriptor_state_def st upd_state_def epoll_ctl_del_def)
  show "e \<noteq> d \<Longrightarrow> er_states r' e = er_states r e"
    by (simp add: r'(2) free_descriptor_state_def st upd_state_def epoll_ctl_del_def)
qed

text \<open>What a socket leaves behind that gave up its descriptor \<open>d\<close>.\<close>

definition descriptor_released :: "sockets \<Rightarrow> nat \<Rightarrow> dref \<Rightarrow> rctx \<Rightarrow> rctx \<Rightarrow> bool" where
  "descriptor_released socks i d c c' \<longleftrightarrow>
     handed_over (map abort_op (all_ops (er_states (fst c) d))) c c' \<and>
     all_ops (er_states (fst c') d) = [] \<and> d \<in> set (er_free (fst c')) \<and> d \<notin> set (er_live (fst c')) \<and>
     (\<forall>j e. owns socks j e \<and> j \<noteq> i \<longrightarrow> er_states (fst c') e = er_states (fst c) e)"

lemma gives_up:
  assumes inv: "sockets_inv socks r" "distinct (er_live r)" and o: "socks i = Some impl" "native impl = Some n" "reactor_data impl = Some d"
    and "deregister_descriptor fd (reactor_data impl) closing (r, ti) = (dd, c1)" "cleanup_descriptor_data dd (fst c1) = (dd', r')"
  shows "descriptor_released socks i d (r, ti) (r', snd c1)" "dd' = None"
proof -
  have d: "d \<in> set (er_live r)" "\<not> ds_shutdown (er_states r d)"
    using inv_impl [OF inv(1) o(1)] o(2,3) by (auto simp: impl_ok_def)
  note h = deregister_hands_over [OF d inv(2) assms(6) [unfolded o(3)] assms(7)]
  show "dd' = None" by (rule h(5))
  have "owns socks i d" using o by (simp add: owns_def)
  then have "e \<noteq> d" if "owns socks j e" "j \<noteq> i" for j e using inv_unique [OF inv(1)] that by blast
  then show "descriptor_released socks i d (r, ti) (r', snd c1)"
    unfolding descriptor_released_def using h by auto
qed

section \<open>The socket without the reactor\<close>

abbreviation base_of :: "reactive_impl \<Rightarrow> socket_impl" where
  "base_of \<equiv> socket_impl.truncate"

lemma base_simps [simp]:
  "native (base_of impl) = native impl" "sock_state (base_of impl) = sock_state impl"
  "is_open (base_of impl) = rs_is_open impl"
  by (simp_all add: socket_impl.truncate_def is_open_def rs_is_open_def)

text \<open>The error number of a registration: \<open>EPERM\<close> is no error.\<close>

definition registration_error :: "int option \<Rightarrow> int" where
  "registration_error ctl = (case ctl of None \<Rightarrow> 0 | Some e \<Rightarrow> if e = EPERM then 0 else e)"

lemma register_error: "fst (register_descriptor fd fresh ctl r) = registration_error ctl"
  by (simp add: register_descriptor_def registration_error_def Let_def split: prod.split option.split)

section \<open>A program with one socket\<close>

text \<open>It opens a stream socket, number 6, and starts to receive on it.\<close>

definition demo_impl :: reactive_impl where
  "demo_impl = \<lparr>native = Some 6, sock_state = stream_oriented OR internal_non_blocking, reactor_data = Some 0\<rparr>"

abbreviation demo_call :: socket_call where
  "demo_call \<equiv> Sock_async_receive 0 [\<lparr>buf_data = 100, buf_size = 8\<rparr>] 0 demo_op False None None"

lemma demo_not_empty: "\<not> adapter_all_empty [\<lparr>buf_data = 100, buf_size = 8\<rparr>]"
  by (simp add: adapter_all_empty_def adapter_max_buffers_def)

lemma demo_steps:
  "socket_step demo_perform (0, demo_start, \<lambda>_. None, {#}, {#}) (0, demo_start, [0 \<mapsto> new_impl], {#}, {#})"
  "socket_step demo_perform (0, demo_start, [0 \<mapsto> new_impl], {#}, {#})
     (0, demo_registered, [0 \<mapsto> \<lparr>native = Some 6, sock_state = stream_oriented, reactor_data = Some 0\<rparr>], {#}, {#})"
  "socket_step demo_perform
     (0, demo_registered, [0 \<mapsto> \<lparr>native = Some 6, sock_state = stream_oriented, reactor_data = Some 0\<rparr>], {#}, {#})
     (0, demo_waiting, [0 \<mapsto> demo_impl], {#7#}, {#})"
proof -
  show "socket_step demo_perform (0, demo_start, \<lambda>_. None, {#}, {#}) (0, demo_start, [0 \<mapsto> new_impl], {#}, {#})"
    using Client_external [of socket_ok "Sock_construct 0" "\<lambda>_. None" demo_start "exec_socket demo_perform" 0 0 demo_start None
        "[0 \<mapsto> new_impl]" demo_perform sock_started "{#}" "{#}"]
    by simp
  have "register_descriptor 6 0 None demo_start = (0, 0, demo_registered)"
    by (simp add: demo_registered_def register_descriptor_def allocate_descriptor_state_def demo_start_fields Let_def)
  then show "socket_step demo_perform (0, demo_start, [0 \<mapsto> new_impl], {#}, {#})
     (0, demo_registered, [0 \<mapsto> \<lparr>native = Some 6, sock_state = stream_oriented, reactor_data = Some 0\<rparr>], {#}, {#})"
    using Client_external [of socket_ok "Sock_open 0 SOCK_STREAM (Inr 6) 0 None" "[0 \<mapsto> new_impl]" demo_start "exec_socket demo_perform" 0 0
        demo_registered None "[0 \<mapsto> \<lparr>native = Some 6, sock_state = stream_oriented, reactor_data = Some 0\<rparr>]" demo_perform
        sock_started "{#}" "{#}"]
    by (simp add: demo_start_fields rs_do_open_def rs_is_open_def new_impl_def rs_construct_def state_of_type_def)
  have op: "demo_op\<lparr>op_ec := ec_success\<rparr> = demo_op" "op_ec demo_op = ec_success" "op_id demo_op = 7"
    by (simp_all add: demo_op_def)
  have nb: "(stream_oriented :: u8) AND non_blocking = 0" by simp
  have "fst (enqueue_op read_op demo_op 0 (demo_registered, None)) = demo_waiting"
    "snd (enqueue_op read_op demo_op 0 (demo_registered, None)) = None"
    by (simp add: demo_waiting_def demo_start_op) (simp add: enqueue_op_def on_sched_def)
  then have "start_op demo_perform read_op 6 (Some 0) demo_op False True None 0 (demo_registered, None) = (0, (demo_waiting, None))"
    unfolding demo_start_op by (metis prod.collapse)
  then show "socket_step demo_perform
     (0, demo_registered, [0 \<mapsto> \<lparr>native = Some 6, sock_state = stream_oriented, reactor_data = Some 0\<rparr>], {#}, {#})
     (0, demo_waiting, [0 \<mapsto> demo_impl], {#7#}, {#})"
    using Client_external [of socket_ok demo_call "[0 \<mapsto> \<lparr>native = Some 6, sock_state = stream_oriented, reactor_data = Some 0\<rparr>]"
        demo_registered "exec_socket demo_perform" 0 0 demo_waiting None "[0 \<mapsto> demo_impl]" demo_perform sock_started "{#}" "{#}"]
    by (simp add: rs_async_receive_def rs_start_op_def make_non_blocking_def nb ops_set_internal_non_blocking_def
        demo_not_empty fd_of_def op demo_impl_def)
qed

lemma demo_socket_reachable: "socket_reachable demo_perform False (0, demo_waiting, [0 \<mapsto> demo_impl], {#7#}, {#})"
proof -
  have "(socket_step demo_perform)\<^sup>*\<^sup>* (0, demo_start, \<lambda>_. None, {#}, {#}) (0, demo_waiting, [0 \<mapsto> demo_impl], {#7#}, {#})"
    using demo_steps by (meson converse_rtranclp_into_rtranclp r_into_rtranclp)
  with demo_initial show ?thesis unfolding socket_reachable_def client_reachable_def by blast
qed

section \<open>Properties\<close>

text \<open>
  C25: The socket service keeps to the contract of the reactor: every state that a program using only
  sockets reaches, with calls from outside and from handlers in any order, is reached by the reactor
  with calls that the reactor allows. So every operation a program started on a socket has been
  completed once, or is in one place, and is counted as outstanding work.
\<close>

theorem socket_program_refines_reactor:
  assumes "socket_reachable perform own_thread (w, r, socks, S, C)" "timer_space K U"
  shows "reactor_reachable perform K U own_thread (w, r, S, C) \<and> S = C + pending K U (r, None) \<and>
    outstanding_work (er_sched r) = (if own_thread then 1 else 0) + int (size (pending K U (r, None)))"
  using socket_reachable_good [OF assms] by (simp add: reactor_good_def)

theorem socket_program_refines_reactor_witness:
  "reactor_reachable demo_perform {} (\<lambda>_. {}) False (0, demo_waiting, {#7#}, {#}) \<and> pending {} (\<lambda>_. {}) (demo_waiting, None) = {#7#}"
proof -
  note run = socket_program_refines_reactor [OF demo_socket_reachable no_timers]
  have "{#7#} = {#} + pending {} (\<lambda>_. {}) (demo_waiting, None)" by (rule conjunct1 [OF conjunct2 [OF run]])
  then have "pending {} (\<lambda>_. {}) (demo_waiting, None) = {#7#}" by simp
  with conjunct1 [OF run] show ?thesis by blast
qed

text \<open>
  C26: In every reachable state of a program an open socket has a descriptor state of the reactor that
  is registered for its native socket, in use and not shut down; no two open sockets share one; and
  a closed socket has no state bits left. The implementation of a socket is never half open, whatever
  system calls failed.
\<close>

theorem open_sockets_own_descriptors:
  assumes "socket_reachable perform own_thread (w, r, socks, S, C)"
  shows "(socks i = Some impl \<longrightarrow>
      (case native impl of
         None \<Rightarrow> sock_state impl = 0
       | Some n \<Rightarrow> \<exists>d\<in>set (er_live r). reactor_data impl = Some d \<and> \<not> ds_shutdown (er_states r d) \<and>
           descriptor (er_states r d) = int n)) \<and>
    (owns socks i d \<and> owns socks j d \<longrightarrow> i = j)"
proof -
  have inv: "sockets_inv socks r" by (rule socket_reachable_good [OF assms no_timers])
  show ?thesis using inv_impl [OF inv, of i impl] inv_unique [OF inv, of i d j] unfolding impl_ok_def by blast
qed

theorem open_sockets_own_descriptors_witness:
  "0 \<in> set (er_live demo_waiting) \<and> descriptor (er_states demo_waiting 0) = 6"
  using open_sockets_own_descriptors [OF demo_socket_reachable, of 0 demo_impl] by (simp add: demo_impl_def)

text \<open>
  C27: Closing, releasing or destroying an open socket in a reachable state completes every operation
  that waits on it with \<open>operation_aborted\<close>, in the order reads, writes, exceptional conditions; the
  descriptor state goes back to the reactor's pool with no operation left in it, and the operations of
  the other sockets are untouched. A closed or released socket is as new, even when the system call
  failed.
\<close>

theorem socket_close_aborts_operations:
  assumes "socket_reachable perform own_thread (w, r, socks, S, C)" "socks i = Some impl" "owns socks i d"
  shows "(case rs_close r1 r2 impl (r, ti) of (ec, impl', c') \<Rightarrow> descriptor_released socks i d (r, ti) c' \<and> impl' = new_impl) \<and>
    (case rs_release impl (r, ti) of
       (ec, s, impl', c') \<Rightarrow> descriptor_released socks i d (r, ti) c' \<and> impl' = new_impl \<and> s = native impl \<and> ec = ec_success) \<and>
    (case rs_destroy r1 r2 impl (r, ti) of (impl', c') \<Rightarrow> descriptor_released socks i d (r, ti) c' \<and> reactor_data impl' = None)"
proof -
  note good = socket_reachable_good [OF assms(1) no_timers]
  have dist: "distinct (er_live r)" using good(3) by (simp add: reactor_good_def reactor_inv_def)
  obtain n where n: "native impl = Some n" "reactor_data impl = Some d" using assms(2,3) by (auto simp: owns_def)
  have g: "descriptor_released socks i d (r, ti) (r', snd c1) \<and> dd' = None"
    if "deregister_descriptor (fd_of impl) (reactor_data impl) closing (r, ti) = (dd, c1)"
      "cleanup_descriptor_data dd (fst c1) = (dd', r')" for closing dd c1 dd' r'
    using gives_up [OF good(2) dist assms(2) n that] by blast
  show ?thesis
    using n(1) g by (auto simp: rs_close_def rs_release_def rs_destroy_def rs_is_open_def rs_construct_def new_impl_def split: prod.splits)
qed

theorem socket_close_aborts_operations_witness:
  "case rs_close None None demo_impl (demo_waiting, None) of
     (ec, impl', c') \<Rightarrow> descriptor_released [0 \<mapsto> demo_impl] 0 0 (demo_waiting, None) c' \<and> impl' = new_impl"
proof -
  have "owns [0 \<mapsto> demo_impl] 0 0" by (simp add: owns_def demo_impl_def)
  from socket_close_aborts_operations [OF demo_socket_reachable _ this, of demo_impl] show ?thesis by simp
qed

text \<open>
  An operation on a closed socket never reaches the reactor's descriptors: a send, a receive, a
  wait, an accept without an open peer or a connect is completed at once with \<open>bad_descriptor\<close>, and the
  socket stays closed; an accept into an open peer is completed with \<open>already_open\<close>; releasing or
  cancelling fails with \<open>bad_descriptor\<close>, closing succeeds, and neither calls the reactor.
\<close>

theorem closed_socket_operations:
  assumes "socket_reachable perform own_thread (w0, r, socks, S, C)" "socks i = Some impl" "native impl = None"
  shows "rs_async_send perform bufs a cont ioctl ctl impl w c = (impl, w, post_immediate (a\<lparr>op_ec := ec_bad_descriptor\<rparr>) cont c) \<and>
    rs_async_receive perform bufs flags a cont ioctl ctl impl w c = (impl, w, post_immediate (a\<lparr>op_ec := ec_bad_descriptor\<rparr>) cont c) \<and>
    (wt \<noteq> Wait_other \<longrightarrow> rs_async_wait perform wt a cont ioctl ctl impl w c = (impl, w, post_immediate (a\<lparr>op_ec := ec_bad_descriptor\<rparr>) cont c)) \<and>
    rs_start_accept_op perform a cont peer_open ioctl ctl impl w c =
      (impl, w, post_immediate (a\<lparr>op_ec := if peer_open then make_misc_error already_open else ec_bad_descriptor\<rparr>) cont c) \<and>
    rs_start_connect_op perform a cont result ioctl ctl impl w c = (impl, w, post_immediate (a\<lparr>op_ec := ec_bad_descriptor\<rparr>) cont c) \<and>
    rs_release impl c = (ec_bad_descriptor, None, impl, c) \<and> rs_cancel impl c = (ec_bad_descriptor, c) \<and>
    (case rs_close r1 r2 impl c of (ec, impl', c') \<Rightarrow> ec = ec_success \<and> c' = c \<and> native impl' = None)"
proof -
  have "sock_state impl = 0"
    using inv_impl [OF socket_reachable_good(2) [OF assms(1) no_timers] assms(2)] assms(3) by (simp add: impl_ok_def)
  then have impl: "impl\<lparr>sock_state := 0\<rparr> = impl" "sock_state impl = 0" by simp_all
  then have nb: "make_non_blocking ioctl impl a = (False, impl, a\<lparr>op_ec := ec_bad_descriptor\<rparr>)" for ioctl a
    using assms(3) by (simp add: make_non_blocking_def ops_set_internal_non_blocking_def)
  have st: "rs_start_op perform j a cont n False ioctl ctl impl w c = (impl, w, post_immediate (a\<lparr>op_ec := ec_bad_descriptor\<rparr>) cont c)" for j n
    by (simp add: rs_start_op_def nb)
  show ?thesis
    using assms(3) by (auto simp: rs_async_send_def rs_async_receive_def rs_async_wait_def rs_start_accept_op_def
        rs_start_connect_op_def rs_release_def rs_cancel_def rs_close_def rs_is_open_def rs_construct_def st nb impl(2)
        split: wait_type.split)
qed

theorem closed_socket_operations_witness:
  "rs_async_send demo_perform [] demo_op False None None new_impl 0 (demo_start, None) =
     (new_impl, 0, post_immediate (demo_op\<lparr>op_ec := ec_bad_descriptor\<rparr>) False (demo_start, None))"
proof -
  have "(socket_step demo_perform)\<^sup>*\<^sup>* (0, demo_start, \<lambda>_. None, {#}, {#}) (0, demo_start, [0 \<mapsto> new_impl], {#}, {#})"
    using demo_steps(1) by (rule r_into_rtranclp)
  with demo_initial have "socket_reachable demo_perform False (0, demo_start, [0 \<mapsto> new_impl], {#}, {#})"
    unfolding socket_reachable_def client_reachable_def by blast
  from closed_socket_operations [OF this, of 0 new_impl] show ?thesis by (simp add: new_impl_def rs_construct_def)
qed

text \<open>
  C28: When the registration of a new descriptor fails, \<open>open\<close> and \<open>assign\<close> report the error and leave
  the socket closed, but the descriptor state the reactor allocated for it is not given back: it stays
  in the reactor's list of live states, no open socket owns it, and destroying the socket does not
  touch it.
\<close>

theorem failed_registration_keeps_state:
  assumes "socket_reachable perform own_thread (w, r, socks, S, C)" "socks i = Some impl" "native impl = None"
    "fresh \<notin> set (er_live r) \<union> set (er_free r)" "registration_error ctl = e" "e \<noteq> 0"
  shows "\<exists>d r'. rs_do_open type (Inr sock) fresh ctl impl (r, ti)
        = (\<lparr>ec_value = e, ec_category = system_category\<rparr>, impl\<lparr>reactor_data := Some d\<rparr>, (r', ti)) \<and>
    rs_do_assign type sock fresh ctl impl (r, ti)
        = (\<lparr>ec_value = e, ec_category = system_category\<rparr>, impl\<lparr>reactor_data := Some d\<rparr>, (r', ti)) \<and>
    d \<in> set (er_live r') \<and> \<not> owns (socks(i \<mapsto> impl\<lparr>reactor_data := Some d\<rparr>)) j d \<and>
    rs_destroy r1 r2 (impl\<lparr>reactor_data := Some d\<rparr>) (r', ti) = (impl\<lparr>reactor_data := Some d\<rparr>, (r', ti))"
proof -
  note good = socket_reachable_good [OF assms(1) no_timers]
  have dist: "distinct (er_live r @ er_free r)" using good(3) by (simp add: reactor_good_def reactor_inv_def)
  obtain err d r' where reg: "register_descriptor (int sock) fresh ctl r = (err, d, r')"
    by (cases "register_descriptor (int sock) fresh ctl r")
  have err: "err = e" using register_error [of "int sock" fresh ctl r] reg assms(5) by simp
  note g = register_served [OF good(2) assms(4) dist reg]
  show ?thesis
    using g(3) g(6) [of j] reg err assms(3,6)
    by (intro exI [of _ d] exI [of _ r']) (simp add: rs_do_open_def rs_do_assign_def rs_is_open_def rs_destroy_def)
qed

theorem failed_registration_keeps_state_witness:
  "\<exists>d r'. rs_do_open SOCK_STREAM (Inr 9) 1 (Some 24) new_impl (demo_start, None)
      = (\<lparr>ec_value = 24, ec_category = system_category\<rparr>, new_impl\<lparr>reactor_data := Some d\<rparr>, (r', None)) \<and> d \<in> set (er_live r')"
proof -
  have "(socket_step demo_perform)\<^sup>*\<^sup>* (0, demo_start, \<lambda>_. None, {#}, {#}) (0, demo_start, [0 \<mapsto> new_impl], {#}, {#})"
    using demo_steps(1) by (rule r_into_rtranclp)
  with demo_initial have r: "socket_reachable demo_perform False (0, demo_start, [0 \<mapsto> new_impl], {#}, {#})"
    unfolding socket_reachable_def client_reachable_def by blast
  have "\<exists>d r'. rs_do_open SOCK_STREAM (Inr 9) 1 (Some 24) new_impl (demo_start, None)
      = (\<lparr>ec_value = 24, ec_category = system_category\<rparr>, new_impl\<lparr>reactor_data := Some d\<rparr>, (r', None)) \<and>
      rs_do_assign SOCK_STREAM 9 1 (Some 24) new_impl (demo_start, None)
      = (\<lparr>ec_value = 24, ec_category = system_category\<rparr>, new_impl\<lparr>reactor_data := Some d\<rparr>, (r', None)) \<and>
      d \<in> set (er_live r') \<and> \<not> owns ([0 \<mapsto> new_impl](0 \<mapsto> new_impl\<lparr>reactor_data := Some d\<rparr>)) 0 d \<and>
      rs_destroy None None (new_impl\<lparr>reactor_data := Some d\<rparr>) (r', None) = (new_impl\<lparr>reactor_data := Some d\<rparr>, (r', None))"
    by (rule failed_registration_keeps_state [OF r]) (simp_all add: new_impl_def rs_construct_def demo_start_fields registration_error_def)
  then show ?thesis by blast
qed

text \<open>
  The socket model that the server's theories use, a native handle with its state bits, is an
  abstraction of the service with the reactor: opening, assigning, closing, releasing, cancelling and
  setting an option give the same error code and the same handle and bits, where the registration is
  summed up by its error number.
\<close>

theorem socket_model_abstracts_service:
  shows "(case rs_do_open type res fresh ctl impl c of
       (ec, impl', c') \<Rightarrow> do_open type res (registration_error ctl) (base_of impl) = (ec, base_of impl')) \<and>
    (case rs_do_assign type fd fresh ctl impl c of
       (ec, impl', c') \<Rightarrow> do_assign type fd (registration_error ctl) (base_of impl) = (ec, base_of impl')) \<and>
    (case rs_close r1 r2 impl c of (ec, impl', c') \<Rightarrow> sock_close r1 r2 (base_of impl) = (ec, base_of impl')) \<and>
    (case rs_release impl c of (ec, s, impl', c') \<Rightarrow> sock_release (base_of impl) = (ec, s, base_of impl')) \<and>
    sock_cancel (base_of impl) = fst (rs_cancel impl c) \<and>
    (case rs_set_option opt res2 impl of (ec, impl') \<Rightarrow> sock_set_option opt res2 (base_of impl) = (ec, base_of impl'))"
proof -
  have t: "base_of impl = \<lparr>native = native impl, sock_state = sock_state impl\<rparr>" for impl
    by (simp add: socket_impl.truncate_def)
  have reg: "\<exists>d r'. register_descriptor n fresh ctl r = (registration_error ctl, d, r')" for n r
    using register_error [of n fresh ctl r] by (cases "register_descriptor n fresh ctl r") auto
  have 2: "case rs_do_assign type fd fresh ctl impl c of
       (ec, impl', c') \<Rightarrow> do_assign type fd (registration_error ctl) (base_of impl) = (ec, base_of impl')" for fd
    using reg [of "int fd" "fst c"] by (auto simp: rs_do_assign_def do_assign_def is_open_def t rs_is_open_def)
  have 1: "case rs_do_open type res fresh ctl impl c of
       (ec, impl', c') \<Rightarrow> do_open type res (registration_error ctl) (base_of impl) = (ec, base_of impl')"
  proof (cases res)
    case (Inr n)
    then show ?thesis using reg [of "int n" "fst c"] by (auto simp: rs_do_open_def do_open_def is_open_def t rs_is_open_def)
  qed (simp add: rs_do_open_def do_open_def t is_open_def rs_is_open_def)
  have 3: "case rs_close r1 r2 impl c of (ec, impl', c') \<Rightarrow> sock_close r1 r2 (base_of impl) = (ec, base_of impl')"
    by (simp add: rs_close_def sock_close_def t rs_construct_def sock_construct_def rs_is_open_def is_open_def split: prod.splits)
  have 4: "case rs_release impl c of (ec, s, impl', c') \<Rightarrow> sock_release (base_of impl) = (ec, s, base_of impl')"
    by (simp add: rs_release_def sock_release_def t rs_construct_def sock_construct_def rs_is_open_def is_open_def split: prod.splits)
  show ?thesis using 1 2 3 4
    by (simp add: sock_cancel_def rs_cancel_def rs_set_option_def sock_set_option_def t rs_is_open_def is_open_def split: prod.splits)
qed

end
