(* ===== verification/Chrono_Time.thy ===== *)
theory Chrono_Time
  imports Prelude "HOL-Library.Signed_Division"
begin

text \<open>
  The arithmetic on times and durations of the timers: \<open>chrono_time_traits\<close> of
  \<open>src/ext/asio/asio/detail/chrono_time_traits.hpp\<close>, whose times and durations are signed 64-bit
  numbers of ticks, and its conversion of a duration to seconds, milliseconds and microseconds.
\<close>

type_synonym s64 = "64 word"

abbreviation (input) time_max :: s64 where "time_max \<equiv> 0x7FFFFFFFFFFFFFFF"
abbreviation (input) time_min :: s64 where "time_min \<equiv> 0x8000000000000000"

section \<open>Times and durations\<close>

definition ct_add :: "s64 \<Rightarrow> s64 \<Rightarrow> s64" where
  "ct_add t d =
     (if 0 \<le>s t
      then (if time_max - t <s d then time_max else t + d)
      else (if d <s - (t - time_min) then time_min else t + d))"

definition ct_subtract :: "s64 \<Rightarrow> s64 \<Rightarrow> s64" where
  "ct_subtract t1 t2 =
     (if 0 \<le>s t1
      then
        (if 0 \<le>s t2 then t1 - t2
         else if t2 = time_min then time_max
         else if time_max - t1 <s 0 - t2 then time_max
         else t1 - t2)
      else
        (if t2 <s 0 then t1 - t2
         else if t1 = time_min then time_min
         else if time_max - t2 <s 0 - t1 then time_min
         else - (t2 - t1)))"

definition ct_less_than :: "s64 \<Rightarrow> s64 \<Rightarrow> bool" where
  "ct_less_than t1 t2 \<longleftrightarrow> t1 <s t2"

text \<open>The result of the arithmetic on integers, moved into the range.\<close>

definition saturate :: "int \<Rightarrow> int" where
  "saturate n = max (- (2 ^ 63)) (min (2 ^ 63 - 1) n)"

lemma s64_range: "- (2 ^ 63) \<le> sint (x :: s64)" "sint (x :: s64) < 2 ^ 63"
  using sint_ge [of x] sint_lt [of x] by simp_all

lemma s64_exact:
  "- (2 ^ 63) \<le> sint x + sint y \<Longrightarrow> sint x + sint y < 2 ^ 63 \<Longrightarrow> sint (x + y :: s64) = sint x + sint y"
  "- (2 ^ 63) \<le> sint x - sint y \<Longrightarrow> sint x - sint y < 2 ^ 63 \<Longrightarrow> sint (x - y :: s64) = sint x - sint y"
  "- (2 ^ 63) < sint x \<Longrightarrow> sint (- x :: s64) = - sint x"
  using s64_range [of x] by (simp_all add: sint_word_ariths signed_take_bit_int_eq_self)

lemma s64_consts: "sint (time_max :: s64) = 2 ^ 63 - 1" "sint (time_min :: s64) = - (2 ^ 63)" "sint (0 :: s64) = 0"
  by simp_all

lemma ct_add_sint: "sint (ct_add t d) = saturate (sint t + sint d)"
proof (cases "0 \<le> sint t")
  case True
  have m: "sint (time_max - t) = 2 ^ 63 - 1 - sint t"
    using s64_exact(2) [of time_max t] True s64_range [of t] unfolding s64_consts by simp
  have e: "ct_add t d = (if 2 ^ 63 - 1 - sint t < sint d then time_max else t + d)"
    using True m by (simp only: ct_add_def word_sle_eq word_sless_alt s64_consts if_True)
  show ?thesis
    using s64_exact(1) [of t d] True s64_range [of t] s64_range [of d] unfolding e saturate_def
    by (simp add: s64_consts del: signed_numeral)
next
  case False
  have m: "sint (t - time_min) = sint t + 2 ^ 63"
    using s64_exact(2) [of t time_min] False s64_range [of t] unfolding s64_consts by simp
  then have m2: "sint (- (t - time_min)) = - (sint t + 2 ^ 63)"
    using s64_exact(3) [of "t - time_min"] s64_range [of t] by simp
  have e: "ct_add t d = (if sint d < - (sint t + 2 ^ 63) then time_min else t + d)"
    using False m2 by (simp only: ct_add_def word_sle_eq word_sless_alt s64_consts if_False)
  show ?thesis
    using s64_exact(1) [of t d] False s64_range [of t] s64_range [of d] unfolding e saturate_def
    by (simp add: s64_consts del: signed_numeral)
qed

lemma ct_subtract_sint: "sint (ct_subtract t1 t2) = saturate (sint t1 - sint t2)"
proof -
  note r = s64_range [of t1] s64_range [of t2]
  have neg: "sint (0 - t) = - sint t" if "t \<noteq> time_min" for t :: s64
  proof -
    have "sint t \<noteq> - (2 ^ 63)" using that s64_consts(2) by (metis signed_word_eqI)
    then show ?thesis using s64_exact(3) [of t] s64_range [of t] by simp
  qed
  have diff: "sint (t1 - t2) = sint t1 - sint t2" if "- (2 ^ 63) \<le> sint t1 - sint t2" "sint t1 - sint t2 < 2 ^ 63"
    using s64_exact(2) that by blast
  show ?thesis
  proof (cases "0 \<le> sint t1")
    case t1: True
    show ?thesis
    proof (cases "0 \<le> sint t2")
      case True
      then have "ct_subtract t1 t2 = t1 - t2" using t1 by (simp add: ct_subtract_def word_sle_eq)
      then show ?thesis using diff t1 True r by (simp add: saturate_def)
    next
      case False
      show ?thesis
      proof (cases "t2 = time_min")
        case True
        then have "ct_subtract t1 t2 = time_max" using t1 False by (simp add: ct_subtract_def word_sle_eq del: signed_numeral)
        moreover have "sint t2 = - (2 ^ 63)" using True s64_consts(2) by simp
        ultimately show ?thesis using t1 by (simp add: saturate_def s64_consts del: signed_numeral)
      next
        case nm: False
        have m: "sint (time_max - t1) = 2 ^ 63 - 1 - sint t1"
          using s64_exact(2) [of time_max t1] t1 r unfolding s64_consts by simp
        have "ct_subtract t1 t2 = (if 2 ^ 63 - 1 - sint t1 < - sint t2 then time_max else t1 - t2)"
          using t1 False nm m neg [OF nm] by (simp only: ct_subtract_def word_sle_eq word_sless_alt s64_consts if_True if_False)
        then show ?thesis using diff t1 False r by (simp add: saturate_def s64_consts del: signed_numeral)
      qed
    qed
  next
    case t1: False
    show ?thesis
    proof (cases "sint t2 < 0")
      case True
      then have "ct_subtract t1 t2 = t1 - t2" using t1 by (simp add: ct_subtract_def word_sle_eq word_sless_alt)
      then show ?thesis using diff t1 True r by (simp add: saturate_def)
    next
      case False
      show ?thesis
      proof (cases "t1 = time_min")
        case True
        then have "ct_subtract t1 t2 = time_min" using t1 False by (simp add: ct_subtract_def word_sle_eq word_sless_alt)
        moreover have "sint t1 = - (2 ^ 63)" using True s64_consts(2) by simp
        ultimately show ?thesis using False by (simp add: saturate_def s64_consts del: signed_numeral)
      next
        case nm: False
        have m: "sint (time_max - t2) = 2 ^ 63 - 1 - sint t2"
          using s64_exact(2) [of time_max t2] False r unfolding s64_consts by simp
        have e: "ct_subtract t1 t2 = (if 2 ^ 63 - 1 - sint t2 < - sint t1 then time_min else - (t2 - t1))"
          using t1 False nm m neg [OF nm] by (simp only: ct_subtract_def word_sle_eq word_sless_alt s64_consts if_True if_False)
        have "sint (- (t2 - t1)) = sint t1 - sint t2" if "\<not> 2 ^ 63 - 1 - sint t2 < - sint t1"
        proof -
          have "sint (t2 - t1) = sint t2 - sint t1" using that s64_exact(2) [of t2 t1] t1 False r by simp
          then show ?thesis using s64_exact(3) [of "t2 - t1"] that t1 False by simp
        qed
        then show ?thesis using t1 False r unfolding e by (simp add: saturate_def s64_consts del: signed_numeral)
      qed
    qed
  qed
qed

section \<open>Conversion of durations\<close>

text \<open>The helper template \<open>gcd\<close>, and \<open>duration_cast\<close> for the period \<open>pn / pd\<close> and the unit \<open>n / d\<close> of a second.\<close>

fun ct_gcd :: "nat \<Rightarrow> nat \<Rightarrow> nat" where
  "ct_gcd v1 v2 = (if v2 = 0 then v1 else ct_gcd v2 (v1 mod v2))"

declare ct_gcd.simps [simp del]

definition duration_cast :: "nat \<Rightarrow> nat \<Rightarrow> nat \<Rightarrow> nat \<Rightarrow> int \<Rightarrow> int" where
  "duration_cast pn pd n d ticks =
     (let num1 = pn div ct_gcd pn n; num2 = n div ct_gcd pn n;
          den1 = pd div ct_gcd pd d; den2 = d div ct_gcd pd d;
          num = num1 * den2; den = num2 * den1
      in if num = 1 \<and> den = 1 then ticks
         else if num \<noteq> 1 \<and> den = 1 then ticks * int num
         else if num = 1 \<and> pd \<noteq> 1 then ticks sdiv int den
         else (ticks * int num) sdiv int den)"

definition total_seconds :: "nat \<Rightarrow> nat \<Rightarrow> int \<Rightarrow> int" where
  "total_seconds pn pd = duration_cast pn pd 1 1"

definition total_milliseconds :: "nat \<Rightarrow> nat \<Rightarrow> int \<Rightarrow> int" where
  "total_milliseconds pn pd = duration_cast pn pd 1 1000"

definition total_microseconds :: "nat \<Rightarrow> nat \<Rightarrow> int \<Rightarrow> int" where
  "total_microseconds pn pd = duration_cast pn pd 1 1000000"

lemma ct_gcd_gcd: "ct_gcd v1 v2 = gcd v1 v2"
proof (induction v1 v2 rule: ct_gcd.induct)
  case (1 v1 v2)
  then show ?case by (subst ct_gcd.simps) (simp add: gcd_red_nat [symmetric] gcd.commute)
qed

lemma sdiv_cancel:
  fixes a b :: int
  assumes "0 < k"
  shows "(a * k) sdiv (b * k) = a sdiv b"
  using assms by (simp add: signed_divide_int_def sgn_mult abs_mult)

lemma duration_cast_eq:
  assumes "0 < pn" "0 < pd" "0 < n" "0 < d"
  shows "duration_cast pn pd n d ticks = (ticks * int (pn * d)) sdiv int (pd * n)"
proof -
  let ?g = "gcd pn n" and ?h = "gcd pd d"
  define num where "num = pn div ?g * (d div ?h)"
  define den where "den = n div ?g * (pd div ?h)"
  have k: "0 < ?g * ?h" using assms by simp
  have eq: "num * (?g * ?h) = pn * d" "den * (?g * ?h) = pd * n"
  proof -
    have f: "pn div ?g * ?g = pn" "d div ?h * ?h = d" "n div ?g * ?g = n" "pd div ?h * ?h = pd" by simp_all
    have "num * (?g * ?h) = (pn div ?g * ?g) * (d div ?h * ?h)" by (simp only: num_def ac_simps)
    then show "num * (?g * ?h) = pn * d" unfolding f .
    have "den * (?g * ?h) = (n div ?g * ?g) * (pd div ?h * ?h)" by (simp only: den_def ac_simps)
    then show "den * (?g * ?h) = pd * n" unfolding f by (simp only: mult.commute)
  qed
  have "duration_cast pn pd n d ticks = (ticks * int num) sdiv int den"
    unfolding duration_cast_def Let_def ct_gcd_gcd num_def [symmetric] den_def [symmetric]
    by (simp add: signed_divide_int_def mult_sgn_abs)
  also have "\<dots> = (ticks * int num * int (?g * ?h)) sdiv (int den * int (?g * ?h))"
    by (rule sdiv_cancel [symmetric]) (use k in simp)
  also have "\<dots> = (ticks * int (pn * d)) sdiv int (pd * n)"
    unfolding eq [symmetric] of_nat_mult by (simp only: mult.assoc)
  finally show ?thesis .
qed

section \<open>Properties\<close>

text \<open>
  The arithmetic on times saturates: adding a duration to a time and subtracting two times give the
  exact result when it is representable in 64 bits, and otherwise the nearest representable value, for
  every pair of values; in particular a later time never becomes an earlier one. Converting a duration
  to seconds, milliseconds or microseconds gives the exact value rounded towards zero, for every
  period of the clock.
\<close>

theorem chrono_time_saturates:
  "sint (ct_add t d) = saturate (sint t + sint d) \<and> sint (ct_subtract t u) = saturate (sint t - sint u) \<and>
   (ct_less_than t u \<longleftrightarrow> sint t < sint u) \<and>
   (0 < pn \<and> 0 < pd \<longrightarrow>
      total_seconds pn pd ticks = (ticks * int pn) sdiv int pd \<and>
      total_milliseconds pn pd ticks = (ticks * int pn * 1000) sdiv int pd \<and>
      total_microseconds pn pd ticks = (ticks * int pn * 1000000) sdiv int pd)"
  by (simp add: ct_add_sint ct_subtract_sint ct_less_than_def word_sless_alt total_seconds_def
      total_milliseconds_def total_microseconds_def duration_cast_eq ac_simps)

theorem chrono_time_saturates_witness:
  "ct_add time_max 1 = time_max \<and> total_microseconds 1 1000000000 (- 1500) = - 1"
proof -
  note t = chrono_time_saturates [of time_max 1 0 1 1000000000 "- 1500"]
  have "sint (ct_add time_max 1) = sint (time_max :: s64)"
    using conjunct1 [OF t] by (simp add: saturate_def)
  moreover have "total_microseconds 1 1000000000 (- 1500) = - 1"
    using t by (simp add: signed_divide_int_def)
  ultimately show ?thesis using signed_word_eqI by blast
qed

end
