(* ===== verification/Deadline_Timer.thy ===== *)
theory Deadline_Timer
  imports Reactor_Client Chrono_Time
begin

text \<open>
  The service behind \<open>steady_timer\<close>: \<open>src/ext/asio/asio/detail/deadline_timer_service.hpp\<close>, on the
  reactor and its timer queue. A timer is the address of its \<open>per_timer_data\<close>; the service's queue is
  the address \<open>q\<close>. The second part is about the service's queue: which timers are in its heap, and
  what the operations of the queue do to it.
\<close>

section \<open>The timers\<close>

record timer_impl =
  expiry :: s64
  might_have_pending_waits :: bool

definition dt_construct :: timer_impl where
  "dt_construct = \<lparr>expiry = 0, might_have_pending_waits = False\<rparr>"

text \<open>The constructor and the destructor of the service.\<close>

definition dt_service_new :: "tqref \<Rightarrow> epoll_reactor \<Rightarrow> epoll_reactor" where
  "dt_service_new q r = do_add_timer_queue q (reactor_init_task r)"

definition dt_service_delete :: "tqref \<Rightarrow> epoll_reactor \<Rightarrow> epoll_reactor" where
  "dt_service_delete q r = do_remove_timer_queue q r"

text \<open>The first component of a result is the number of operations that were cancelled.\<close>

definition dt_cancel :: "tqref \<Rightarrow> timer_ref \<Rightarrow> timer_impl \<Rightarrow> rctx \<Rightarrow> nat \<times> timer_impl \<times> rctx" where
  "dt_cancel q t impl c =
     (if \<not> might_have_pending_waits impl then (0, impl, c)
      else (let (count, c') = reactor_cancel_timer q t npos c in (count, impl\<lparr>might_have_pending_waits := False\<rparr>, c')))"

definition dt_cancel_one :: "tqref \<Rightarrow> timer_ref \<Rightarrow> timer_impl \<Rightarrow> rctx \<Rightarrow> nat \<times> timer_impl \<times> rctx" where
  "dt_cancel_one q t impl c =
     (if \<not> might_have_pending_waits impl then (0, impl, c)
      else
        (let (count, c') = reactor_cancel_timer q t 1 c
         in (count, if count = 0 then impl\<lparr>might_have_pending_waits := False\<rparr> else impl, c')))"

definition dt_destroy :: "tqref \<Rightarrow> timer_ref \<Rightarrow> timer_impl \<Rightarrow> rctx \<Rightarrow> rctx" where
  "dt_destroy q t impl c = snd (snd (dt_cancel q t impl c))"

text \<open>The moved timer, what is left of the other one at \<open>s\<close>.\<close>

definition dt_move_construct :: "tqref \<Rightarrow> timer_ref \<Rightarrow> timer_ref \<Rightarrow> timer_impl \<Rightarrow> rctx \<Rightarrow> timer_impl \<times> timer_impl \<times> rctx" where
  "dt_move_construct q t s other c =
     (let c' = reactor_move_timer q t s c
      in (\<lparr>expiry = expiry other, might_have_pending_waits = might_have_pending_waits other\<rparr>,
          \<lparr>expiry = 0, might_have_pending_waits = False\<rparr>, c'))"

text \<open>\<open>q\<close> and \<open>other_q\<close> are the queues of the two services, which may be the same.\<close>

definition dt_move_assign ::
  "tqref \<Rightarrow> timer_ref \<Rightarrow> timer_impl \<Rightarrow> tqref \<Rightarrow> timer_ref \<Rightarrow> timer_impl \<Rightarrow> rctx \<Rightarrow> timer_impl \<times> timer_impl \<times> rctx" where
  "dt_move_assign q t impl other_q s other c =
     (let c1 = (if q \<noteq> other_q \<and> might_have_pending_waits impl then snd (reactor_cancel_timer q t npos c) else c);
          c2 = reactor_move_timer other_q t s c1
      in (\<lparr>expiry = expiry other, might_have_pending_waits = might_have_pending_waits other\<rparr>,
          \<lparr>expiry = 0, might_have_pending_waits = False\<rparr>, c2))"

definition dt_expires_from_now :: "s64 \<Rightarrow> timer_impl \<Rightarrow> s64" where
  "dt_expires_from_now now impl = ct_subtract (expiry impl) now"

definition dt_expires_at :: "tqref \<Rightarrow> timer_ref \<Rightarrow> s64 \<Rightarrow> timer_impl \<Rightarrow> rctx \<Rightarrow> nat \<times> timer_impl \<times> rctx" where
  "dt_expires_at q t expiry_time impl c =
     (let (count, impl1, c') = dt_cancel q t impl c in (count, impl1\<lparr>expiry := expiry_time\<rparr>, c'))"

definition dt_expires_after :: "tqref \<Rightarrow> timer_ref \<Rightarrow> s64 \<Rightarrow> s64 \<Rightarrow> timer_impl \<Rightarrow> rctx \<Rightarrow> nat \<times> timer_impl \<times> rctx" where
  "dt_expires_after q t now d impl c = dt_expires_at q t (ct_add now d) impl c"

text \<open>\<open>now\<close> and \<open>ctl\<close> are for the reactor's timer descriptor.\<close>

definition dt_async_wait ::
  "int \<Rightarrow> int option \<Rightarrow> tqref \<Rightarrow> timer_ref \<Rightarrow> reactor_op \<Rightarrow> timer_impl \<Rightarrow> rctx \<Rightarrow> timer_impl \<times> rctx" where
  "dt_async_wait now ctl q t a impl c =
     (impl\<lparr>might_have_pending_waits := True\<rparr>, schedule_timer now ctl q (sint (expiry impl)) t a c)"

text \<open>
  The blocking wait: the list holds, for each \<open>select\<close>, its error code and the time read after it. The
  result has the time values passed to \<open>select\<close>; it is \<open>None\<close> when the list is used up.
\<close>

definition dt_do_wait :: "nat \<Rightarrow> nat \<Rightarrow> s64 \<Rightarrow> int \<times> int" where
  "dt_do_wait pn pd timeout = (total_seconds pn pd (sint timeout), total_microseconds pn pd (sint timeout) smod 1000000)"

fun dt_wait ::
  "nat \<Rightarrow> nat \<Rightarrow> s64 \<Rightarrow> s64 \<Rightarrow> error_code \<Rightarrow> (error_code \<times> s64) list \<Rightarrow> (error_code \<times> s64 \<times> (int \<times> int) list) option" where
  "dt_wait pn pd expiry_time now ec rs =
     (if ct_less_than now expiry_time \<and> \<not> ec_failed ec
      then (case rs of
              [] \<Rightarrow> None
            | (ec', now') # rs' \<Rightarrow>
                map_option (\<lambda>(ec2, now2, tvs). (ec2, now2, dt_do_wait pn pd (ct_subtract expiry_time now) # tvs))
                  (dt_wait pn pd expiry_time now' ec' rs'))
      else Some (ec, now, []))"

declare dt_wait.simps [simp del]

lemma dt_wait_not_early:
  "dt_wait pn pd e now ec rs = Some (ec', now', tvs) \<Longrightarrow> ec_failed ec' \<or> sint e \<le> sint now'"
proof (induction pn pd e now ec rs arbitrary: tvs rule: dt_wait.induct)
  case (1 pn pd e now ec rs)
  then show ?case
    by (subst (asm) (2) dt_wait.simps) (auto simp: ct_less_than_def word_sless_alt split: if_splits list.splits prod.splits)
qed

section \<open>The queue of a program\<close>

text \<open>Every active timer has an entry in the heap, and a timer that is not active has no operations.\<close>

definition tq_full :: "reactor_op timer_queue \<Rightarrow> bool" where
  "tq_full tq \<longleftrightarrow>
     (\<exists>xs. tq_wf tq xs \<and> set xs = snd ` set (heap tq) \<and> (\<forall>t. t \<notin> set xs \<longrightarrow> td_ops (tstore tq t) = []))"

lemma tq_full_remove:
  assumes "tq_full tq" "t \<in> snd ` set (heap tq)"
  shows "tq_full (remove_timer t (upd_timer t (\<lambda>d. d\<lparr>td_ops := []\<rparr>) tq))"
    and "set (heap (remove_timer t (upd_timer t (\<lambda>d. d\<lparr>td_ops := []\<rparr>) tq))) = {e \<in> set (heap tq). snd e \<noteq> t}"
    and "td_ops (tstore (remove_timer t (upd_timer t (\<lambda>d. d\<lparr>td_ops := []\<rparr>) tq)) t') = (if t' = t then [] else td_ops (tstore tq t'))"
proof -
  let ?q1 = "upd_timer t (\<lambda>d. d\<lparr>td_ops := []\<rparr>) tq"
  let ?q = "remove_timer t ?q1"
  obtain xs where xs: "tq_wf tq xs" "set xs = snd ` set (heap tq)" "\<And>t. t \<notin> set xs \<Longrightarrow> td_ops (tstore tq t) = []"
    using assms(1) by (auto simp: tq_full_def)
  then obtain as bs where sp: "xs = as @ t # bs" using assms(2) by (metis split_list)
  have w1: "tq_wf ?q1 (as @ t # bs)" using xs(1) sp by (simp add: tq_wf_ops)
  note rm = remove_timer_wf [OF w1]
  show st: "set (heap ?q) = {e \<in> set (heap tq). snd e \<noteq> t}"
    using arg_cong [OF rm(2), of set_mset] by simp
  show ops: "td_ops (tstore ?q t') = (if t' = t then [] else td_ops (tstore tq t'))" for t'
    unfolding rm(3) by (simp add: upd_timer_def)
  have "distinct xs" using xs(1) by (simp add: tq_wf_def active_list_def)
  then have "set (as @ bs) = set xs - {t}" unfolding sp by auto
  then have "set (as @ bs) = snd ` set (heap ?q)" unfolding st xs(2) by auto
  moreover have "td_ops (tstore ?q t') = []" if "t' \<notin> set (as @ bs)" for t'
    using that xs(3) [of t'] ops [of t'] by (auto simp: sp)
  ultimately show "tq_full ?q" unfolding tq_full_def using rm(1) by blast
qed

lemma tq_full_enqueue:
  assumes "tq_full tq" "length (heap tq) < npos" "enqueue_timer (\<lambda>_. False) time t a tq = (b, tq')"
  shows "tq_full tq'" "set (heap tq') = set (heap tq) \<union> (if t \<in> snd ` set (heap tq) then {} else {(time, t)})"
    "td_ops (tstore tq' t') = td_ops (tstore tq t') @ (if t' = t then [a] else [])"
proof -
  obtain xs where xs: "tq_wf tq xs" "set xs = snd ` set (heap tq)" "\<And>t. t \<notin> set xs \<Longrightarrow> td_ops (tstore tq t) = []"
    using assms(1) by (auto simp: tq_full_def)
  note e = enqueue_timer_wf [where never = "\<lambda>_. False" and time = time and t = t and op = a, OF xs(1) assms(2), unfolded assms(3) snd_conv]
  show st: "set (heap tq') = set (heap tq) \<union> (if t \<in> snd ` set (heap tq) then {} else {(time, t)})"
    using arg_cong [OF e(2), of set_mset] by (auto simp flip: xs(2))
  show ops: "td_ops (tstore tq' t') = td_ops (tstore tq t') @ (if t' = t then [a] else [])" for t' by (rule e(3))
  show "tq_full tq'"
    unfolding tq_full_def
  proof (intro exI conjI)
    show "tq_wf tq' (if t \<in> set xs then xs else t # xs)" by (rule e(1))
    show "set (if t \<in> set xs then xs else t # xs) = snd ` set (heap tq')" using xs(2) st by auto
    show "\<forall>t'. t' \<notin> set (if t \<in> set xs then xs else t # xs) \<longrightarrow> td_ops (tstore tq' t') = []"
      using xs(3) ops by auto
  qed
qed

lemma tq_full_cancel:
  assumes "tq_full tq" "cancel_timer abort_op t m tq [] = (n, tq', ops)"
  shows "tq_full tq' \<and> set (heap tq') \<subseteq> set (heap tq) \<and> n = min m (length (td_ops (tstore tq t))) \<and>
    ops = map abort_op (take m (td_ops (tstore tq t))) \<and>
    (\<forall>t'. td_ops (tstore tq' t') = (if t' = t then drop m (td_ops (tstore tq t)) else td_ops (tstore tq t'))) \<and>
    (length (td_ops (tstore tq t)) \<le> m \<longrightarrow> t \<notin> snd ` set (heap tq'))"
proof -
  obtain xs where xs: "tq_wf tq xs" "set xs = snd ` set (heap tq)" "\<And>t. t \<notin> set xs \<Longrightarrow> td_ops (tstore tq t) = []"
    using assms(1) by (auto simp: tq_full_def)
  have act: "timer_active tq t \<longleftrightarrow> t \<in> set xs" using timer_active_iff xs(1) by (auto simp: tq_wf_def)
  let ?ops = "td_ops (tstore tq t)"
  let ?q1 = "upd_timer t (\<lambda>d. d\<lparr>td_ops := drop m ?ops\<rparr>) tq"
  have eq: "(n, tq', ops) = (if t \<in> set xs
      then (min m (length ?ops), if length ?ops \<le> m then remove_timer t ?q1 else ?q1, map abort_op (take m ?ops))
      else (0, tq, []))"
    using assms(2) act cancel_loop_eq [of 0 m abort_op ?ops "[]"] by (auto simp: cancel_timer_def Let_def min_def split: if_splits)
  show ?thesis
  proof (cases "t \<in> set xs")
    case False
    then show ?thesis using eq assms(1) xs by auto
  next
    case t: True
    show ?thesis
    proof (cases "length ?ops \<le> m")
      case True
      then have "tq' = remove_timer t (upd_timer t (\<lambda>d. d\<lparr>td_ops := []\<rparr>) tq)" using eq t by simp
      then show ?thesis using tq_full_remove [OF assms(1), of t] t xs(2) eq True by auto
    next
      case False
      then have q': "tq' = ?q1" using eq t by simp
      have "tq_wf ?q1 xs" using xs(1) by (simp add: tq_wf_ops)
      then have "tq_full tq'"
        unfolding tq_full_def q' using xs(2,3) t by (intro exI [of _ xs]) (auto simp: upd_timer_def)
      then show ?thesis using eq t False by (auto simp: upd_timer_def)
    qed
  qed
qed

lemma ready_loop_full:
  assumes "ready_loop now0 q0 ops0 ts0 = Some y0" "tq_full q0"
  shows "tq_full (fst y0) \<and> (\<forall>t. td_ops (tstore (fst y0) t) = (if t \<in> snd ` set (heap (fst y0)) then td_ops (tstore q0 t) else []))"
proof -
  have "tq_full q0 \<longrightarrow> tq_full (fst y0) \<and> set (heap (fst y0)) \<subseteq> set (heap q0) \<and>
    (\<forall>t. t \<in> snd ` set (heap (fst y0)) \<longrightarrow> td_ops (tstore (fst y0) t) = td_ops (tstore q0 t))"
  proof (rule ready_loop.raw_induct [where P = "\<lambda>now q ops ts y. tq_full q \<longrightarrow> tq_full (fst y) \<and>
      set (heap (fst y)) \<subseteq> set (heap q) \<and>
      (\<forall>t. t \<in> snd ` set (heap (fst y)) \<longrightarrow> td_ops (tstore (fst y) t) = td_ops (tstore q t))", OF _ assms(1)], goal_cases)
    case (1 rec now q ops ts y)
    show ?case
    proof (intro impI)
      assume full: "tq_full q"
      show "tq_full (fst y) \<and> set (heap (fst y)) \<subseteq> set (heap q) \<and>
        (\<forall>t. t \<in> snd ` set (heap (fst y)) \<longrightarrow> td_ops (tstore (fst y) t) = td_ops (tstore q t))"
      proof (cases "heap q = [] \<or> now < fst (heap q ! 0)")
        case True
        then show ?thesis using 1(2) full by auto
      next
        case False
        define t where "t = snd (heap q ! 0)"
        define q2 where "q2 = remove_timer t (upd_timer t (\<lambda>d. d\<lparr>td_ops := []\<rparr>) q)"
        have "heap q ! 0 \<in> set (heap q)" using False by simp
        then have t: "t \<in> snd ` set (heap q)" unfolding t_def by blast
        note rm = tq_full_remove [OF full t, folded q2_def]
        have "rec now q2 (ops @ td_ops (tstore q t)) (ts @ [t]) = Some y"
          using 1(2) False by (simp add: t_def q2_def Let_def)
        from 1(1) [OF this] rm(1) have IH: "tq_full (fst y)" "set (heap (fst y)) \<subseteq> set (heap q2)"
          "\<And>t. t \<in> snd ` set (heap (fst y)) \<Longrightarrow> td_ops (tstore (fst y) t) = td_ops (tstore q2 t)" by blast+
        have "td_ops (tstore (fst y) t') = td_ops (tstore q t')" if "t' \<in> snd ` set (heap (fst y))" for t'
          using IH(2) IH(3) [OF that] that rm(2,3) by auto
        then show ?thesis using IH(1,2) rm(2) by auto
      qed
    qed
  qed
  then have r: "tq_full (fst y0)" "t \<in> snd ` set (heap (fst y0)) \<Longrightarrow> td_ops (tstore (fst y0) t) = td_ops (tstore q0 t)" for t
    using assms(2) by blast+
  moreover have "t \<notin> snd ` set (heap (fst y0)) \<Longrightarrow> td_ops (tstore (fst y0) t) = []" for t
    using r(1) by (auto simp: tq_full_def)
  ultimately show ?thesis by auto
qed

text \<open>What \<open>get_ready_timers\<close> does: the operations of the timers that are due, earliest first.\<close>

lemma get_ready_full:
  assumes "get_ready_timers now tq ops = Some (tq', ops', ts)" "tq_full tq"
  shows "tq_full tq'" "set (heap tq') = {e \<in> set (heap tq). now < fst e}"
    "td_ops (tstore tq' t) = (if t \<in> snd ` set (heap tq') then td_ops (tstore tq t) else [])"
    "\<exists>es. ops' = ops @ concat (map (\<lambda>e. td_ops (tstore tq (snd e))) es) \<and> sorted (map fst es) \<and> distinct (map snd es) \<and>
       set es = {e \<in> set (heap tq). fst e \<le> now}"
proof -
  obtain xs where wf: "tq_wf tq xs" using assms(2) by (auto simp: tq_full_def)
  have dist: "distinct (map snd (heap tq))" using wf coherent_distinct by (auto simp: tq_wf_def heap_wf_def)
  have rl: "ready_loop now tq ops [] = Some (tq', ops', ts)"
  proof (cases "heap tq = []")
    case True
    then show ?thesis using assms(1) by (subst ready_loop.simps) (simp add: get_ready_timers_def)
  qed (use assms(1) in \<open>simp add: get_ready_timers_def\<close>)
  obtain os es where res: "ops' = ops @ os" "ready_result now tq tq' os ts es"
    using ready_loop_result [OF wf, of now ops "[]"] unfolding rl by auto
  note full = ready_loop_full [OF rl assms(2), simplified]
  show "tq_full tq'" "td_ops (tstore tq' t) = (if t \<in> snd ` set (heap tq') then td_ops (tstore tq t) else [])"
    using full by blast+
  have "mset (heap tq') = filter_mset (\<lambda>e. now < fst e) (mset (heap tq))" using res(2) by (simp add: ready_result_def)
  from arg_cong [OF this, of set_mset] show "set (heap tq') = {e \<in> set (heap tq). now < fst e}" by simp
  have m: "mset es = filter_mset (\<lambda>e. fst e \<le> now) (mset (heap tq))" using res(2) by (simp add: ready_result_def)
  have "mset (map snd es) = mset (map snd (filter (\<lambda>e. fst e \<le> now) (heap tq)))"
    using m by (simp flip: mset_filter)
  then have "distinct (map snd es) = distinct (map snd (filter (\<lambda>e. fst e \<le> now) (heap tq)))" by (rule mset_eq_imp_distinct_iff)
  moreover have "distinct (map snd (filter (\<lambda>e. fst e \<le> now) (heap tq)))" using dist by (rule distinct_map_filter)
  moreover have "set es = {e \<in> set (heap tq). fst e \<le> now}" using arg_cong [OF m, of set_mset] by simp
  ultimately show "\<exists>es. ops' = ops @ concat (map (\<lambda>e. td_ops (tstore tq (snd e))) es) \<and> sorted (map fst es) \<and>
      distinct (map snd es) \<and> set es = {e \<in> set (heap tq). fst e \<le> now}"
    using res by (intro exI [of _ es]) (auto simp: ready_result_def comp_def)
qed

end
