(* ===== verification/Timer_Program.thy ===== *)
theory Timer_Program
  imports Deadline_Timer
begin

text \<open>
  A program that uses timers, as a client of the reactor: its calls are calls of the reactor within
  the reactor's contract. Moving a timer is not a call of the programs here. The invariant ties the
  expiry of a timer object to its entry in the heap; the statements about reachable states follow.
\<close>

section \<open>A program with timers\<close>

type_synonym timer_objects = "timer_ref \<rightharpoonup> timer_impl"

datatype timer_call =
    Timer_service
  | Timer_construct timer_ref
  | Timer_destroy timer_ref
  | Timer_cancel timer_ref
  | Timer_cancel_one timer_ref
  | Timer_expires_at timer_ref s64
  | Timer_expires_after timer_ref s64 s64
  | Timer_async_wait timer_ref reactor_op int "int option"

definition on_timer ::
  "timer_ref \<Rightarrow> (timer_impl \<Rightarrow> rctx \<Rightarrow> timer_impl \<times> rctx) \<Rightarrow> 'w \<times> rctx \<times> timer_objects \<Rightarrow> 'w \<times> rctx \<times> timer_objects" where
  "on_timer t f = (\<lambda>(w, c, tims).
     (case tims t of
        None \<Rightarrow> (w, c, tims)
      | Some impl \<Rightarrow> (let (impl', c') = f impl c in (w, c', tims(t \<mapsto> impl')))))"

fun exec_timer :: "tqref \<Rightarrow> timer_call \<Rightarrow> 'w \<times> rctx \<times> timer_objects \<Rightarrow> 'w \<times> rctx \<times> timer_objects" where
  "exec_timer q Timer_service (w, (r, ti), tims) = (w, (do_add_timer_queue q r, ti), tims)"
| "exec_timer q (Timer_construct t) (w, c, tims) = (w, c, tims(t \<mapsto> dt_construct))"
| "exec_timer q (Timer_destroy t) (w, c, tims) =
     (case tims t of None \<Rightarrow> (w, c, tims) | Some impl \<Rightarrow> (w, dt_destroy q t impl c, tims(t := None)))"
| "exec_timer q (Timer_cancel t) s = on_timer t (\<lambda>impl c. snd (dt_cancel q t impl c)) s"
| "exec_timer q (Timer_cancel_one t) s = on_timer t (\<lambda>impl c. snd (dt_cancel_one q t impl c)) s"
| "exec_timer q (Timer_expires_at t e) s = on_timer t (\<lambda>impl c. snd (dt_expires_at q t e impl c)) s"
| "exec_timer q (Timer_expires_after t now d) s = on_timer t (\<lambda>impl c. snd (dt_expires_after q t now d impl c)) s"
| "exec_timer q (Timer_async_wait t a now ctl) s = on_timer t (dt_async_wait now ctl q t a) s"

text \<open>
  What a program keeps to: the timers it uses exist; a new timer is at an address of \<open>T\<close> where a
  \<open>per_timer_data\<close> has been constructed; and fewer operations wait on a timer than there are
  addresses.
\<close>

abbreviation waits :: "tqref \<Rightarrow> timer_ref \<Rightarrow> epoll_reactor \<Rightarrow> reactor_op list" where
  "waits q t r \<equiv> td_ops (tstore (er_queues r q) t)"

fun timer_call_ok :: "tqref \<Rightarrow> timer_ref set \<Rightarrow> timer_call \<Rightarrow> timer_objects \<Rightarrow> epoll_reactor \<Rightarrow> bool" where
  "timer_call_ok q T Timer_service tims r = True"
| "timer_call_ok q T (Timer_construct t) tims r =
     (t \<in> T \<and> tims t = None \<and> tstore (er_queues r q) t = new_per_timer_data)"
| "timer_call_ok q T (Timer_destroy t) tims r = (tims t \<noteq> None)"
| "timer_call_ok q T (Timer_cancel t) tims r = (tims t \<noteq> None)"
| "timer_call_ok q T (Timer_cancel_one t) tims r = (tims t \<noteq> None)"
| "timer_call_ok q T (Timer_expires_at t e) tims r = (tims t \<noteq> None)"
| "timer_call_ok q T (Timer_expires_after t now d) tims r = (tims t \<noteq> None)"
| "timer_call_ok q T (Timer_async_wait t a now ctl) tims r =
     (tims t \<noteq> None \<and> length (waits q t r) < npos)"

fun timer_starts :: "timer_call \<Rightarrow> nat multiset" where
  "timer_starts (Timer_async_wait t a now ctl) = {#op_id a#}"
| "timer_starts _ = {#}"

section \<open>The invariant of a program\<close>

definition timer_inv :: "tqref \<Rightarrow> timer_ref set \<Rightarrow> timer_objects \<Rightarrow> epoll_reactor \<Rightarrow> bool" where
  "timer_inv q T tims r \<longleftrightarrow>
     finite T \<and> card T < npos \<and> dom tims \<subseteq> T \<and> tq_full (er_queues r q) \<and>
     (\<forall>(time, t)\<in>set (heap (er_queues r q)).
        \<exists>impl. tims t = Some impl \<and> might_have_pending_waits impl \<and> time = sint (expiry impl)) \<and>
     (\<forall>t. length (waits q t r) \<le> npos)"

lemma timer_inv_cong: "er_queues r' q = er_queues r q \<Longrightarrow> timer_inv q T tims r' = timer_inv q T tims r"
  by (simp add: timer_inv_def)

lemma timer_inv_entry:
  "timer_inv q T tims r \<Longrightarrow> (time, t) \<in> set (heap (er_queues r q)) \<Longrightarrow>
     \<exists>impl. tims t = Some impl \<and> might_have_pending_waits impl \<and> time = sint (expiry impl)"
  by (auto simp: timer_inv_def)

lemma timer_inv_waits:
  assumes "timer_inv q T tims r" "waits q t r \<noteq> []"
  shows "\<exists>impl. tims t = Some impl \<and> might_have_pending_waits impl \<and> (sint (expiry impl), t) \<in> set (heap (er_queues r q))"
proof -
  have "t \<in> snd ` set (heap (er_queues r q))" using assms by (auto simp: timer_inv_def tq_full_def)
  then obtain time where "(time, t) \<in> set (heap (er_queues r q))" by force
  with timer_inv_entry [OF assms(1) this] show ?thesis by auto
qed

lemma idle_timer:
  assumes "timer_inv q T tims r" "tims t = Some impl" "\<not> might_have_pending_waits impl"
  shows "waits q t r = []" "t \<notin> snd ` set (heap (er_queues r q))"
  using timer_inv_waits [OF assms(1), of t] timer_inv_entry [OF assms(1), of _ t] assms(2,3) by auto

lemma post_queues [simp]:
  "er_queues (fst (post_immediate a cont c)) = er_queues (fst c)" "er_queues (fst (post_deferred ops c)) = er_queues (fst c)"
  by (cases c; simp add: post_immediate_def post_deferred_def on_sched_def split: prod.split)+

text \<open>A call on the timer \<open>t\<close> that changes the object and the operations of \<open>t\<close> only.\<close>

lemma timer_inv_change:
  assumes "timer_inv q T tims r" "tims t = Some impl" "tq_full (er_queues r' q)"
    and "\<And>e. e \<in> set (heap (er_queues r' q)) \<Longrightarrow> snd e \<noteq> t \<Longrightarrow> e \<in> set (heap (er_queues r q))"
    and "\<And>time. (time, t) \<in> set (heap (er_queues r' q)) \<Longrightarrow> might_have_pending_waits impl' \<and> time = sint (expiry impl')"
    and "\<And>t'. t' \<noteq> t \<Longrightarrow> waits q t' r' = waits q t' r" "length (waits q t r') \<le> npos"
  shows "timer_inv q T (tims(t \<mapsto> impl')) r'"
proof -
  have "\<exists>i. (tims(t \<mapsto> impl')) t' = Some i \<and> might_have_pending_waits i \<and> time = sint (expiry i)"
    if "(time, t') \<in> set (heap (er_queues r' q))" for time t'
    using assms(4) [OF that] assms(5) [of time] timer_inv_entry [OF assms(1), of time t'] that by (cases "t' = t") auto
  moreover have "length (waits q t' r') \<le> npos" for t'
    using assms(1,6,7) by (cases "t' = t") (auto simp: timer_inv_def)
  moreover have "dom (tims(t \<mapsto> impl')) \<subseteq> T" "finite T" "card T < npos" using assms(1,2) by (auto simp: timer_inv_def)
  ultimately show ?thesis using assms(3) unfolding timer_inv_def by blast
qed

section \<open>Cancelling\<close>

lemma reactor_cancel_timer_result:
  assumes "timer_inv q T tims r" "reactor_cancel_timer q t m (r, ti) = (n, c')"
  shows "n = min m (length (waits q t r))"
    and "\<exists>r1. c' = post_deferred (map abort_op (take m (waits q t r))) (r1, ti) \<and> er_sched r1 = er_sched r"
    and "tq_full (er_queues (fst c') q)" "set (heap (er_queues (fst c') q)) \<subseteq> set (heap (er_queues r q))"
    and "waits q t' (fst c') = (if t' = t then drop m (waits q t r) else waits q t' r)"
    and "length (waits q t r) \<le> m \<Longrightarrow> t \<notin> snd ` set (heap (er_queues (fst c') q))"
proof -
  obtain k tq ops where ct: "cancel_timer abort_op t m (er_queues r q) [] = (k, tq, ops)"
    by (cases "cancel_timer abort_op t m (er_queues r q) []")
  let ?r1 = "r\<lparr>er_queues := (er_queues r)(q := tq)\<rparr>"
  have e: "n = k" "c' = post_deferred ops (?r1, ti)" using assms(2) ct by (simp_all add: reactor_cancel_timer_def)
  have full: "tq_full (er_queues r q)" using assms(1) by (simp add: timer_inv_def)
  note c = tq_full_cancel [OF full ct]
  have tq: "er_queues (fst c') q = tq" by (simp add: e(2))
  show "n = min m (length (waits q t r))" using c e(1) by simp
  show "\<exists>r1. c' = post_deferred (map abort_op (take m (waits q t r))) (r1, ti) \<and> er_sched r1 = er_sched r"
    using c e(2) by (intro exI [of _ ?r1]) simp
  show "tq_full (er_queues (fst c') q)" "set (heap (er_queues (fst c') q)) \<subseteq> set (heap (er_queues r q))"
    using c unfolding tq by simp_all
  show "waits q t' (fst c') = (if t' = t then drop m (waits q t r) else waits q t' r)" using c unfolding tq by simp
  show "length (waits q t r) \<le> m \<Longrightarrow> t \<notin> snd ` set (heap (er_queues (fst c') q))" using c unfolding tq by simp
qed

text \<open>\<open>cancelled n\<close>: what cancelling the first \<open>n\<close> waits of a timer does.\<close>

definition cancelled :: "tqref \<Rightarrow> timer_ref \<Rightarrow> nat \<Rightarrow> rctx \<Rightarrow> rctx \<Rightarrow> bool" where
  "cancelled q t n c c' \<longleftrightarrow>
     handed_over (map abort_op (take n (waits q t (fst c)))) c c' \<and>
     waits q t (fst c') = drop n (waits q t (fst c)) \<and> (\<forall>t'. t' \<noteq> t \<longrightarrow> waits q t' (fst c') = waits q t' (fst c))"

lemma cancelled_none: "cancelled q t n c c" if "waits q t (fst c) = []"
  using that by (simp add: cancelled_def handed_over_def)

lemma reactor_cancel_timer_cancelled:
  assumes "timer_inv q T tims r" "reactor_cancel_timer q t m (r, ti) = (n, c')"
  shows "cancelled q t m (r, ti) c'"
proof -
  note c = reactor_cancel_timer_result [OF assms]
  obtain r1 where r1: "c' = post_deferred (map abort_op (take m (waits q t r))) (r1, ti)" "er_sched r1 = er_sched r"
    using c(2) by blast
  have "handed_over (map abort_op (take m (waits q t r))) (r1, ti) c'" unfolding r1(1) by (rule post_deferred_hands_over)
  then have "handed_over (map abort_op (take m (waits q t r))) (r, ti) c'" by (simp add: handed_over_def r1(2))
  then show ?thesis using c(5) by (simp add: cancelled_def)
qed

lemma dt_cancel_keeps:
  assumes inv: "timer_inv q T tims r" "tims t = Some impl" and d: "dt_cancel q t impl (r, ti) = (n, impl', c')"
  shows "timer_inv q T (tims(t \<mapsto> impl'\<lparr>expiry := e\<rparr>)) (fst c')" "timer_inv q T (tims(t \<mapsto> impl')) (fst c')"
    "timer_inv q T (tims(t := None)) (fst c')"
    "\<not> might_have_pending_waits impl'" "expiry impl' = expiry impl" "n = length (waits q t r)"
    "cancelled q t n (r, ti) c'"
proof -
  have len: "length (waits q t r) \<le> npos" using inv(1) by (simp add: timer_inv_def)
  have main: "tq_full (er_queues (fst c') q) \<and> set (heap (er_queues (fst c') q)) \<subseteq> set (heap (er_queues r q)) \<and>
    (\<forall>t'. waits q t' (fst c') = (if t' = t then [] else waits q t' r)) \<and> t \<notin> snd ` set (heap (er_queues (fst c') q)) \<and>
    \<not> might_have_pending_waits impl' \<and> expiry impl' = expiry impl \<and> n = length (waits q t r) \<and> cancelled q t n (r, ti) c'"
  proof (cases "might_have_pending_waits impl")
    case True
    obtain k c1 where rc: "reactor_cancel_timer q t npos (r, ti) = (k, c1)" by (cases "reactor_cancel_timer q t npos (r, ti)")
    then have e: "n = k" "c' = c1" "impl' = impl\<lparr>might_have_pending_waits := False\<rparr>" using d True by (auto simp: dt_cancel_def)
    have k: "k = length (waits q t r)" using reactor_cancel_timer_result(1) [OF inv(1) rc] len by simp
    have "cancelled q t n (r, ti) c'"
      using reactor_cancel_timer_cancelled [OF inv(1) rc] len by (simp add: cancelled_def e k)
    then show ?thesis using reactor_cancel_timer_result(3-6) [OF inv(1) rc] len by (simp add: e k)
  next
    case False
    note idle = idle_timer [OF inv False]
    have "tq_full (er_queues r q)" using inv(1) by (simp add: timer_inv_def)
    then show ?thesis using d False idle cancelled_none [of "(r, ti)" q t n] by (auto simp: dt_cancel_def)
  qed
  then have nh: "(time, t) \<notin> set (heap (er_queues (fst c') q))" for time by force
  have change: "timer_inv q T (tims(t \<mapsto> i)) (fst c')" for i
    by (rule timer_inv_change [OF inv]) (use main nh in \<open>auto simp: npos_def\<close>)
  show "timer_inv q T (tims(t \<mapsto> impl'\<lparr>expiry := e\<rparr>)) (fst c')" "timer_inv q T (tims(t \<mapsto> impl')) (fst c')"
    by (rule change)+
  show "timer_inv q T (tims(t := None)) (fst c')"
    using change [of impl] nh unfolding timer_inv_def by fastforce
  show "\<not> might_have_pending_waits impl'" "expiry impl' = expiry impl" "n = length (waits q t r)"
    "cancelled q t n (r, ti) c'" using main by blast+
qed

lemma dt_cancel_one_keeps:
  assumes inv: "timer_inv q T tims r" "tims t = Some impl" and d: "dt_cancel_one q t impl (r, ti) = (n, impl', c')"
  shows "timer_inv q T (tims(t \<mapsto> impl')) (fst c')" "n = min 1 (length (waits q t r))" "cancelled q t 1 (r, ti) c'"
    "expiry impl' = expiry impl"
proof -
  have "timer_inv q T (tims(t \<mapsto> impl')) (fst c') \<and> n = min 1 (length (waits q t r)) \<and> cancelled q t 1 (r, ti) c' \<and> expiry impl' = expiry impl"
  proof (cases "might_have_pending_waits impl")
    case True
    obtain k c1 where rc: "reactor_cancel_timer q t 1 (r, ti) = (k, c1)" by (cases "reactor_cancel_timer q t 1 (r, ti)")
    then have e: "n = k" "c' = c1" "impl' = (if k = 0 then impl\<lparr>might_have_pending_waits := False\<rparr> else impl)"
      using d True by (auto simp: dt_cancel_one_def split: if_splits)
    note c = reactor_cancel_timer_result [OF inv(1) rc]
    have "might_have_pending_waits impl' \<and> time = sint (expiry impl')" if h: "(time, t) \<in> set (heap (er_queues (fst c1) q))" for time
    proof -
      have "\<not> length (waits q t r) \<le> 1" using c(6) h by force
      then have "k \<noteq> 0" using c(1) by simp
      then show ?thesis using timer_inv_entry [OF inv(1), of time t] c(4) h inv(2) e(3) by auto
    qed
    moreover have "length (waits q t r) \<le> npos" using inv(1) by (simp add: timer_inv_def)
    then have "length (waits q t (fst c1)) \<le> npos" by (simp add: c(5))
    ultimately have "timer_inv q T (tims(t \<mapsto> impl')) (fst c')"
      unfolding e(2) by (intro timer_inv_change [OF inv]) (use c(3-5) in auto)
    then show ?thesis using c(1) reactor_cancel_timer_cancelled [OF inv(1) rc] by (simp add: e)
  next
    case False
    note idle = idle_timer [OF inv False]
    have "tims(t \<mapsto> impl) = tims" using inv(2) by (simp add: fun_upd_idem)
    then show ?thesis using d False idle inv cancelled_none [of "(r, ti)" q t 1] by (auto simp: dt_cancel_one_def)
  qed
  then show "timer_inv q T (tims(t \<mapsto> impl')) (fst c')" "n = min 1 (length (waits q t r))" "cancelled q t 1 (r, ti) c'"
    "expiry impl' = expiry impl" by blast+
qed

section \<open>Waiting\<close>

lemma schedule_timer_queues:
  assumes "\<not> er_shutdown r" "enqueue_timer (\<lambda>_. False) time t a (er_queues r q) = (b, tq)"
  shows "er_queues (fst (schedule_timer now ctl q time t a (r, ti))) q = tq"
  using assms
  by (auto simp: schedule_timer_def on_sched_def update_timeout_def interrupt_def epoll_ctl_set_def
      split: option.split prod.split)

lemma dt_async_wait_keeps:
  assumes inv: "timer_inv q T tims r" "tims t = Some impl" "length (waits q t r) < npos"
    and d: "dt_async_wait now ctl q t a impl (r, ti) = (impl', c')"
  shows "timer_inv q T (tims(t \<mapsto> impl')) (fst c')"
    and "\<not> er_shutdown r \<Longrightarrow> waits q t' (fst c') = waits q t' r @ (if t' = t then [a] else [])"
proof -
  obtain b tq where e: "enqueue_timer (\<lambda>_. False) (sint (expiry impl)) t a (er_queues r q) = (b, tq)"
    by (cases "enqueue_timer (\<lambda>_. False) (sint (expiry impl)) t a (er_queues r q)")
  have i: "impl' = impl\<lparr>might_have_pending_waits := True\<rparr>" "c' = schedule_timer now ctl q (sint (expiry impl)) t a (r, ti)"
    using d by (simp_all add: dt_async_wait_def)
  have ex: "time = sint (expiry impl)" if "(time, t) \<in> set (heap (er_queues r q))" for time
    using timer_inv_entry [OF inv(1) that] inv(2) by auto
  have full: "tq_full (er_queues r q)" using inv(1) by (simp add: timer_inv_def)
  then obtain xs where xs: "tq_wf (er_queues r q) xs" "set xs = snd ` set (heap (er_queues r q))" by (auto simp: tq_full_def)
  have "snd ` set (heap (er_queues r q)) \<subseteq> T" using timer_inv_entry [OF inv(1)] inv(1) by (fastforce simp: timer_inv_def)
  then have "length (heap (er_queues r q)) < npos"
    using heap_below_npos [OF xs(1)] xs(2) inv(1) by (auto simp: timer_inv_def)
  note q = tq_full_enqueue [OF full this e]
  have tq: "er_queues (fst c') q = tq" if "\<not> er_shutdown r"
    unfolding i(2) by (rule schedule_timer_queues [OF that e])
  show "waits q t' (fst c') = waits q t' r @ (if t' = t then [a] else [])" if "\<not> er_shutdown r"
    using q(3) tq [OF that] by simp
  show "timer_inv q T (tims(t \<mapsto> impl')) (fst c')"
  proof (cases "er_shutdown r")
    case True
    then have "er_queues (fst c') = er_queues r" by (simp add: i schedule_timer_def)
    then show ?thesis using inv full ex by (intro timer_inv_change [OF inv(1,2)]) (auto simp: i timer_inv_def)
  next
    case False
    show ?thesis
      by (rule timer_inv_change [OF inv(1,2)]) (use q tq [OF False] ex inv(3) in \<open>auto simp: i split: if_splits\<close>)
  qed
qed

section \<open>The service keeps to the contract\<close>

lemma cancel_served:
  assumes "t \<in> T" "reactor_cancel_timer q t m (r, ti) = (n, c')"
  shows "served perform {q} (\<lambda>_. T) {#} (w, (r, ti)) (w, c')"
  using served_one [of "{q}" "\<lambda>_. T" "Cancel_timer q t m" "(w, (r, ti))" perform] assms by simp

lemma dt_cancel_served:
  assumes "t \<in> T"
  shows "served perform {q} (\<lambda>_. T) {#} (w, (r, ti)) (w, snd (snd (dt_cancel q t impl (r, ti))))"
    and "served perform {q} (\<lambda>_. T) {#} (w, (r, ti)) (w, snd (snd (dt_cancel_one q t impl (r, ti))))"
  using cancel_served [OF assms] by (auto simp: dt_cancel_def dt_cancel_one_def split: prod.split)

lemma dt_expires_served:
  assumes "t \<in> T"
  shows "served perform {q} (\<lambda>_. T) {#} (w, (r, ti)) (w, snd (snd (dt_expires_at q t e impl (r, ti))))"
  using dt_cancel_served(1) [OF assms, of perform q w r ti impl]
  by (cases "dt_cancel q t impl (r, ti)") (simp add: dt_expires_at_def)

lemma dt_expires_keeps:
  assumes "timer_inv q T tims r" "tims t = Some impl" "dt_expires_at q t e impl (r, ti) = (n, impl', c')"
  shows "timer_inv q T (tims(t \<mapsto> impl')) (fst c')"
proof -
  obtain n1 impl1 c1 where c: "dt_cancel q t impl (r, ti) = (n1, impl1, c1)" by (cases "dt_cancel q t impl (r, ti)")
  then show ?thesis using dt_cancel_keeps(1) [OF assms(1,2) c, of e] assms(3) by (auto simp: dt_expires_at_def)
qed

lemma calls_keep:
  assumes "timer_inv q T tims r" "tims t = Some impl"
  shows "timer_inv q T (tims(t \<mapsto> fst (snd (dt_cancel q t impl (r, ti))))) (fst (snd (snd (dt_cancel q t impl (r, ti)))))"
    and "timer_inv q T (tims(t \<mapsto> fst (snd (dt_cancel_one q t impl (r, ti))))) (fst (snd (snd (dt_cancel_one q t impl (r, ti)))))"
    and "timer_inv q T (tims(t \<mapsto> fst (snd (dt_expires_at q t e impl (r, ti))))) (fst (snd (snd (dt_expires_at q t e impl (r, ti)))))"
  using dt_cancel_keeps(2) [OF assms, of ti "fst x" "fst (snd x)" "snd (snd x)" for x]
    dt_cancel_one_keeps(1) [OF assms, of ti "fst x" "fst (snd x)" "snd (snd x)" for x]
    dt_expires_keeps [OF assms, of e ti "fst x" "fst (snd x)" "snd (snd x)" for x] by simp_all

lemma on_timer_served:
  assumes "timer_inv q T tims r" "on_timer t f (w, (r, ti), tims) = (w', c', tims')"
    and "\<And>impl. tims t = Some impl \<Longrightarrow> served perform {q} (\<lambda>_. T) M (w, (r, ti)) (w, snd (f impl (r, ti))) \<and>
      timer_inv q T (tims(t \<mapsto> fst (f impl (r, ti)))) (fst (snd (f impl (r, ti))))" "tims t \<noteq> None"
  shows "served perform {q} (\<lambda>_. T) M (w, (r, ti)) (w', c') \<and> timer_inv q T tims' (fst c')"
  using assms by (auto simp: on_timer_def split: prod.splits)

lemma exec_timer_served:
  assumes inv: "timer_inv q T tims r" and ok: "timer_call_ok q T x tims r" and x: "exec_timer q x (w, (r, ti), tims) = (w', c', tims')"
  shows "served perform {q} (\<lambda>_. T) (timer_starts x) (w, (r, ti)) (w', c') \<and> timer_inv q T tims' (fst c')"
proof -
  have T: "t \<in> T" if "tims t = Some impl" for t impl using inv that by (auto simp: timer_inv_def)
  show ?thesis
  proof (cases x)
    case Timer_service
    have "timer_inv q T tims (do_add_timer_queue q r)" using inv by (simp add: do_add_timer_queue_def timer_inv_def)
    then show ?thesis
      using served_one [of "{q}" "\<lambda>_. T" "Add_timer_queue q" "(w, (r, ti))" perform] x Timer_service by auto
  next
    case (Timer_construct t)
    have "timer_inv q T (tims(t \<mapsto> dt_construct)) r"
    proof -
      have "t' \<noteq> t" if "(time, t') \<in> set (heap (er_queues r q))" for time t'
        using timer_inv_entry [OF inv that] ok Timer_construct by auto
      then have "\<exists>i. (tims(t \<mapsto> dt_construct)) t' = Some i \<and> might_have_pending_waits i \<and> time = sint (expiry i)"
        if "(time, t') \<in> set (heap (er_queues r q))" for time t'
        using timer_inv_entry [OF inv that] that by auto
      then show ?thesis using inv ok Timer_construct unfolding timer_inv_def by auto
    qed
    then show ?thesis using x Timer_construct by auto
  next
    case (Timer_destroy t)
    then obtain impl where o: "tims t = Some impl" using ok by auto
    obtain n impl' c1 where d: "dt_cancel q t impl (r, ti) = (n, impl', c1)" by (cases "dt_cancel q t impl (r, ti)")
    show ?thesis
      using dt_cancel_keeps(3) [OF inv o d] dt_cancel_served(1) [OF T [OF o], of perform q w r ti impl] d x Timer_destroy o
      by (auto simp: dt_destroy_def)
  next
    case (Timer_cancel t)
    then have x: "on_timer t (\<lambda>impl c. snd (dt_cancel q t impl c)) (w, (r, ti), tims) = (w', c', tims')"
      and ne: "tims t \<noteq> None" using x ok by simp_all
    show ?thesis
      unfolding Timer_cancel timer_starts.simps
      by (rule on_timer_served [OF inv x _ ne])
        (intro conjI calls_keep [OF inv] dt_cancel_served T)
  next
    case (Timer_cancel_one t)
    then have x: "on_timer t (\<lambda>impl c. snd (dt_cancel_one q t impl c)) (w, (r, ti), tims) = (w', c', tims')"
      and ne: "tims t \<noteq> None" using x ok by simp_all
    show ?thesis
      unfolding Timer_cancel_one timer_starts.simps
      by (rule on_timer_served [OF inv x _ ne])
        (intro conjI calls_keep [OF inv] dt_cancel_served T)
  next
    case (Timer_expires_at t e)
    then have x: "on_timer t (\<lambda>impl c. snd (dt_expires_at q t e impl c)) (w, (r, ti), tims) = (w', c', tims')"
      and ne: "tims t \<noteq> None" using x ok by simp_all
    show ?thesis
      unfolding Timer_expires_at timer_starts.simps
      by (rule on_timer_served [OF inv x _ ne])
        (intro conjI calls_keep [OF inv] dt_expires_served T)
  next
    case (Timer_expires_after t now d)
    then have x: "on_timer t (\<lambda>impl c. snd (dt_expires_after q t now d impl c)) (w, (r, ti), tims) = (w', c', tims')"
      and ne: "tims t \<noteq> None" using x ok by simp_all
    show ?thesis
      unfolding Timer_expires_after timer_starts.simps
      by (rule on_timer_served [OF inv x _ ne])
        (unfold dt_expires_after_def, intro conjI calls_keep [OF inv] dt_expires_served T)
  next
    case (Timer_async_wait t a now ctl)
    then have x: "on_timer t (dt_async_wait now ctl q t a) (w, (r, ti), tims) = (w', c', tims')"
      and ne: "tims t \<noteq> None" "length (waits q t r) < npos" using x ok by simp_all
    have "served perform {q} (\<lambda>_. T) {#op_id a#} (w, (r, ti)) (w, snd (dt_async_wait now ctl q t a impl (r, ti)))" if "tims t = Some impl" for impl
      using served_one [of "{q}" "\<lambda>_. T" "Schedule_timer now ctl q (sint (expiry impl)) t a" "(w, (r, ti))" perform] T [OF that]
      by (simp add: dt_async_wait_def)
    then show ?thesis
      unfolding Timer_async_wait timer_starts.simps
      by (intro on_timer_served [OF inv x _ ne(1)] conjI dt_async_wait_keeps(1) [OF inv _ ne(2)]) simp_all
  qed
qed

section \<open>The reactor hands over what is due\<close>

text \<open>\<open>fires now tq tq' ops\<close>: the waits of the timers that are due, earliest first, and no others.\<close>

definition fires :: "int \<Rightarrow> reactor_op timer_queue \<Rightarrow> reactor_op timer_queue \<Rightarrow> reactor_op list \<Rightarrow> bool" where
  "fires now tq tq' ops \<longleftrightarrow>
     set (heap tq') = {e \<in> set (heap tq). now < fst e} \<and>
     (\<forall>t. td_ops (tstore tq' t) = (if t \<in> snd ` set (heap tq') then td_ops (tstore tq t) else [])) \<and>
     (\<exists>es. ops = concat (map (\<lambda>e. td_ops (tstore tq (snd e))) es) \<and> sorted (map fst es) \<and> distinct (map snd es) \<and>
        set es = {e \<in> set (heap tq). fst e \<le> now})"

lemma set_ready_full:
  assumes "set_ready_timers now ks st ops = Some (st', ops')" "set ks \<subseteq> {q}" "tq_full (st q)"
  shows "tq_full (st' q) \<and> (if ks = [] then st' = st \<and> ops' = ops else \<exists>os. ops' = ops @ os \<and> fires now (st q) (st' q) os)"
  using assms
proof (induction now ks st ops rule: set_ready_timers.induct)
  case (2 now p ps st ops)
  have p: "p = q" using 2(3) by simp
  obtain tq ops1 ts where g: "get_ready_timers now (st q) ops = Some (tq, ops1, ts)"
    using 2(2) p by (auto split: option.splits)
  note r = get_ready_full [OF g 2(4)]
  obtain os where os: "ops1 = ops @ os" "fires now (st q) tq os"
    using r(2-4) unfolding fires_def by blast
  have rest: "set_ready_timers now ps (st(q := tq)) ops1 = Some (st', ops')" using 2(2) g p by simp
  have full: "tq_full ((st(p := tq)) q)" and upd: "st(p := tq) = st(q := tq)" using r(1) p by simp_all
  have IH: "tq_full (st' q) \<and> (if ps = [] then st' = st(q := tq) \<and> ops' = ops1 else \<exists>os. ops' = ops1 @ os \<and> fires now tq (st' q) os)"
    using 2(1) [OF g [folded p] refl refl, unfolded upd, OF rest _ full [unfolded upd]] 2(3) r(1) by (cases "ps = []") simp_all
  show ?case
  proof (cases "ps = []")
    case True
    then show ?thesis using IH os by auto
  next
    case False
    then obtain os2 where os2: "ops' = ops1 @ os2" "fires now tq (st' q) os2" using IH by auto
    have none: "{e \<in> set (heap tq). fst e \<le> now} = {}" using r(2) by auto
    have "os2 = []" using os2(2) unfolding fires_def none by auto
    moreover have "set (heap (st' q)) = set (heap tq)" using os2(2) none unfolding fires_def by fastforce
    moreover have "td_ops (tstore (st' q) t) = td_ops (tstore tq t)" for t
      using os2(2) r(3) calculation(2) unfolding fires_def by simp
    ultimately have "fires now (st q) (st' q) os" using os(2) unfolding fires_def by simp
    then show ?thesis using IH os(1) os2(1) \<open>os2 = []\<close> by auto
  qed
qed simp

text \<open>Whether a run of the reactor looks at the timers.\<close>

definition checks_timers :: "(event_ptr \<times> u32) list \<Rightarrow> epoll_reactor \<Rightarrow> bool" where
  "checks_timers events r \<longleftrightarrow> er_timer_fd r = - 1 \<or> Timer_fd \<in> fst ` set events"

lemma dispatch_events_timers:
  "fold dispatch_event events (r, map Descriptor_op ds, b) = (r', ops, b') \<Longrightarrow>
     er_queues r' = er_queues r \<and> er_queue_set r' = er_queue_set r \<and> er_timer_fd r' = er_timer_fd r \<and>
     (\<exists>ds'. ops = map Descriptor_op ds') \<and>
     (b' \<longleftrightarrow> b \<or> Timer_fd \<in> fst ` set events \<or> er_timer_fd r = - 1 \<and> Interrupter \<in> fst ` set events)"
proof (induction events arbitrary: r ds b)
  case (Cons ev events)
  obtain r1 ds1 b1 where 1: "dispatch_event ev (r, map Descriptor_op ds, b) = (r1, map Descriptor_op ds1, b1)"
    "er_queues r1 = er_queues r" "er_queue_set r1 = er_queue_set r" "er_timer_fd r1 = er_timer_fd r"
    "b1 \<longleftrightarrow> b \<or> fst ev = Timer_fd \<or> er_timer_fd r = - 1 \<and> fst ev = Interrupter"
  proof (cases "fst ev")
    case (Descriptor d)
    then show ?thesis
      using that [of "upd_state d (add_ready_events (snd ev)) r" ds b] that [of "upd_state d (set_ready_events (snd ev)) r" "ds @ [d]" b]
      by (cases "d \<in> set ds") (simp_all add: dispatch_event_def upd_state_def image_iff)
  qed (auto simp: dispatch_event_def)
  show ?case using Cons.IH [of r1 ds1 b1] Cons.prems 1 by auto
qed auto

lemma reactor_run_timers:
  assumes "reactor_run now events [] r = Some (ops, r')" "set (er_queue_set r) \<subseteq> {q}" "tq_full (er_queues r q)"
  shows "tq_full (er_queues r' q)"
    and "\<exists>ds os. ops = map Descriptor_op ds @ map Async_op os \<and>
      (if checks_timers events r \<and> er_queue_set r \<noteq> [] then fires now (er_queues r q) (er_queues r' q) os
       else os = [] \<and> er_queues r' = er_queues r)"
proof -
  obtain r1 ops1 b where d: "fold dispatch_event events (r, [], er_timer_fd r = - 1) = (r1, ops1, b)"
    by (cases "fold dispatch_event events (r, [], er_timer_fd r = - 1)")
  then have k: "er_queues r1 = er_queues r" "er_queue_set r1 = er_queue_set r" "b = checks_timers events r"
    "\<exists>ds. ops1 = map Descriptor_op ds"
    using dispatch_events_timers [of events r "[]" "er_timer_fd r = - 1" r1 ops1 b] by (auto simp: checks_timers_def)
  have "tq_full (er_queues r' q) \<and> (\<exists>ds os. ops = map Descriptor_op ds @ map Async_op os \<and>
      (if b \<and> er_queue_set r \<noteq> [] then fires now (er_queues r q) (er_queues r' q) os
       else os = [] \<and> er_queues r' = er_queues r))"
  proof (cases b)
    case True
    then obtain st os where s: "set_ready_timers now (er_queue_set r) (er_queues r) [] = Some (st, os)"
      "ops = ops1 @ map Async_op os" "er_queues r' = st"
      using assms(1) d k(1,2) by (auto simp: reactor_run_def Let_def split: option.splits if_splits)
    show ?thesis using set_ready_full [OF s(1) assms(2,3)] s(2,3) k(4) True by (auto split: if_splits)
  next
    case False
    then show ?thesis using assms(1,3) d k(1,4) by (auto simp: reactor_run_def)
  qed
  then show "tq_full (er_queues r' q)" "\<exists>ds os. ops = map Descriptor_op ds @ map Async_op os \<and>
      (if checks_timers events r \<and> er_queue_set r \<noteq> [] then fires now (er_queues r q) (er_queues r' q) os
       else os = [] \<and> er_queues r' = er_queues r)" unfolding k(3) by blast+
qed

lemma get_ready_returns:
  assumes "tq_full tq"
  shows "\<exists>res. get_ready_timers now tq ops = Some res"
proof -
  obtain xs where "tq_wf tq xs" using assms by (auto simp: tq_full_def)
  from ready_loop_result [OF this, of now ops "[]"] show ?thesis by (auto simp: get_ready_timers_def)
qed

lemma set_ready_returns:
  assumes "set ks \<subseteq> {q}" "tq_full (st q)"
  shows "\<exists>res. set_ready_timers now ks st ops = Some res"
  using assms
proof (induction ks arbitrary: st ops)
  case (Cons p ps)
  obtain tq ops1 ts where g: "get_ready_timers now (st q) ops = Some (tq, ops1, ts)"
    using get_ready_returns [OF Cons.prems(2), of now ops] by auto
  show ?case
    using Cons.IH [of "st(q := tq)" ops1] get_ready_full(1) [OF g Cons.prems(2)] Cons.prems(1) g
    by (simp add: fun_upd_def)
qed simp

lemma reactor_run_returns:
  assumes "set (er_queue_set r) \<subseteq> {q}" "tq_full (er_queues r q)"
  shows "\<exists>ops r'. reactor_run now events [] r = Some (ops, r')"
proof -
  obtain r1 ops1 b where d: "fold dispatch_event events (r, [], er_timer_fd r = - 1) = (r1, ops1, b)"
    by (cases "fold dispatch_event events (r, [], er_timer_fd r = - 1)")
  then have "er_queues r1 = er_queues r" "er_queue_set r1 = er_queue_set r"
    using dispatch_events_timers [of events r "[]" "er_timer_fd r = - 1" r1 ops1 b] by auto
  then show ?thesis
    using d set_ready_returns [of "er_queue_set r" q "er_queues r" now "[]"] assms
    by (auto simp: reactor_run_def Let_def split: option.splits)
qed

lemma reactor_run_keeps_timers:
  assumes "timer_inv q T tims r" "set (er_queue_set r) \<subseteq> {q}" "reactor_run now events [] r = Some (ops, r')"
  shows "timer_inv q T tims r'"
proof -
  have full: "tq_full (er_queues r q)" using assms(1) by (simp add: timer_inv_def)
  note run = reactor_run_timers [OF assms(3,2) full]
  have h: "set (heap (er_queues r' q)) \<subseteq> set (heap (er_queues r q))"
    using run(2) by (auto simp: fires_def split: if_splits)
  have "waits q t r' = waits q t r \<or> waits q t r' = []" for t
    using run(2) by (auto simp: fires_def split: if_splits)
  then have "length (waits q t r') \<le> npos" for t
    using assms(1) unfolding timer_inv_def by (metis list.size(3) zero_le)
  then show ?thesis using assms(1) run(1) h unfolding timer_inv_def by blast
qed

lemma perform_io_queues:
  assumes "perform_io perform events d w (r, ti) = (res, w', c')"
  shows "er_queues (fst c') = er_queues r"
  using assms by (auto simp: perform_io_def upd_state_def Let_def split: prod.splits list.splits)

interpretation timer_client: reactor_client perform "exec_timer q" "timer_call_ok q T" timer_starts "timer_inv q T" "{q}" "\<lambda>_. T"
  for perform q T
proof (unfold_locales, goal_cases)
  case (1 s r x w ti w' c' s')
  then show ?case using exec_timer_served [OF 1(1,3,4)] by blast
next
  case (2 s r sc)
  then show ?case by (rule timer_inv_cong) simp
next
  case (3 s r events d w ti res w' c')
  then show ?case using timer_inv_cong [OF perform_io_queues [OF 3(2), THEN fun_cong]] by blast
next
  case (4 s r now evs ops r')
  then show ?case using reactor_run_keeps_timers [OF 4(1) _ 4(3)] by (simp add: reactor_inv_def)
qed

end
