(* ===== verification/Timer_Properties.thy ===== *)
theory Timer_Properties
  imports Timer_Program
begin

text \<open>
  The properties of the timer service: a program's run is a run of the reactor, no wait completes
  before the expiry of its timer and every one that is due does, what changing the expiry does to the
  waits, and the blocking wait.
\<close>

section \<open>Reachable states\<close>

text \<open>A program starts without timers.\<close>

definition timer_reachable ::
  "'w perform \<Rightarrow> tqref \<Rightarrow> timer_ref set \<Rightarrow> bool \<Rightarrow> ('w, timer_objects) client_config \<Rightarrow> bool" where
  "timer_reachable perform q T = client_reachable perform (exec_timer q) (timer_call_ok q T) timer_starts (\<lambda>_. None)"

lemma new_timer_queue_full: "tq_full (new_timer_queue (\<lambda>_. new_per_timer_data))"
  unfolding tq_full_def using new_timer_queue_wf
  by (intro exI [of _ "[]"]) (simp add: new_timer_queue_def new_per_timer_data_def)

lemma initial_timers:
  assumes "initial_reactor hint own_thread intr_fd e1 e2 t1 t2 = Inr r0" "finite T" "card T < npos"
  shows "timer_inv q T (\<lambda>_. None) r0"
proof -
  have "er_queues r0 = (\<lambda>_. new_timer_queue (\<lambda>_. new_per_timer_data))"
    using assms(1) by (auto simp: initial_reactor_def new_epoll_reactor_def reactor_init_task_def split: sum.splits)
  then show ?thesis
    using assms(2,3) new_timer_queue_full
    by (simp add: timer_inv_def) (simp add: new_timer_queue_def new_per_timer_data_def)
qed

lemma timer_reachable_good:
  assumes "timer_reachable perform q T own_thread (w, r, tims, S, C)" "finite T" "card T < npos"
  shows "reactor_reachable perform {q} (\<lambda>_. T) own_thread (w, r, S, C)" "timer_inv q T tims r"
    "reactor_good {q} (\<lambda>_. T) (if own_thread then 1 else 0) (w, r, S, C)"
proof -
  have "timer_space {q} (\<lambda>_. T)" using assms(2,3) by (simp add: timer_space_def)
  note g = timer_client.reachable [OF assms(1) [unfolded timer_reachable_def] this initial_timers [OF _ assms(2,3)]]
  show "reactor_reachable perform {q} (\<lambda>_. T) own_thread (w, r, S, C)" "timer_inv q T tims r"
    "reactor_good {q} (\<lambda>_. T) (if own_thread then 1 else 0) (w, r, S, C)" using g by simp_all
qed

section \<open>A program with one timer\<close>

text \<open>It sets the expiry of the timer 1 to 5 and waits for it.\<close>

definition demo_timer :: timer_impl where
  "demo_timer = \<lparr>expiry = 5, might_have_pending_waits = True\<rparr>"

definition demo_scheduled :: epoll_reactor where
  "demo_scheduled = fst (schedule_timer 0 None 0 5 1 demo_op (do_add_timer_queue 0 demo_start, None))"

lemma demo_start_queues: "er_queues demo_start = (\<lambda>_. new_timer_queue (\<lambda>_. new_per_timer_data))" "er_queue_set demo_start = []"
  "er_shutdown demo_start = False"
  by (simp_all add: demo_start_def initial_reactor_def new_epoll_reactor_def do_epoll_create_def reactor_init_task_def
      add_internal_fds_def epoll_ctl_set_def Let_def)

lemma demo_space: "finite {1 :: nat}" "card {1 :: nat} < npos"
  by (simp_all add: npos_def)

lemma demo_timer_steps:
  "(client_step demo_perform (exec_timer 0) (timer_call_ok 0 {1}) timer_starts)\<^sup>*\<^sup>*
     (0, demo_start, \<lambda>_. None, {#}, {#}) (0, do_add_timer_queue 0 demo_start, [1 \<mapsto> \<lparr>expiry = 5, might_have_pending_waits = False\<rparr>], {#}, {#})"
proof -
  let ?step = "client_step demo_perform (exec_timer 0) (timer_call_ok 0 {1}) timer_starts"
  let ?r = "do_add_timer_queue 0 demo_start"
  have "?step (0, demo_start, \<lambda>_. None, {#}, {#}) (0, ?r, \<lambda>_. None, {#}, {#})"
    using Client_external [of "timer_call_ok 0 {1}" Timer_service "\<lambda>_. None" demo_start "exec_timer 0" 0 0 ?r None
        "\<lambda>_. None" demo_perform timer_starts "{#}" "{#}"] by simp
  moreover have "?step (0, ?r, \<lambda>_. None, {#}, {#}) (0, ?r, [1 \<mapsto> dt_construct], {#}, {#})"
    using Client_external [of "timer_call_ok 0 {1}" "Timer_construct 1" "\<lambda>_. None" ?r "exec_timer 0" 0 0 ?r None
        "[1 \<mapsto> dt_construct]" demo_perform timer_starts "{#}" "{#}"]
    by (simp add: do_add_timer_queue_def demo_start_queues new_timer_queue_def)
  moreover have "?step (0, ?r, [1 \<mapsto> dt_construct], {#}, {#}) (0, ?r, [1 \<mapsto> \<lparr>expiry = 5, might_have_pending_waits = False\<rparr>], {#}, {#})"
    using Client_external [of "timer_call_ok 0 {1}" "Timer_expires_at 1 5" "[1 \<mapsto> dt_construct]" ?r "exec_timer 0" 0 0 ?r None
        "[1 \<mapsto> \<lparr>expiry = 5, might_have_pending_waits = False\<rparr>]" demo_perform timer_starts "{#}" "{#}"]
    by (simp add: on_timer_def dt_expires_at_def dt_cancel_def dt_construct_def)
  ultimately show ?thesis by (meson converse_rtranclp_into_rtranclp r_into_rtranclp)
qed

lemma demo_timer_reachable: "timer_reachable demo_perform 0 {1} False (0, demo_scheduled, [1 \<mapsto> demo_timer], {#7#}, {#})"
  and demo_timer_waits: "waits 0 1 demo_scheduled = [demo_op]"
proof -
  let ?impl = "\<lparr>expiry = 5, might_have_pending_waits = False\<rparr> :: timer_impl"
  let ?r = "do_add_timer_queue 0 demo_start"
  have reach: "timer_reachable demo_perform 0 {1} False (0, ?r, [1 \<mapsto> ?impl], {#}, {#})"
    unfolding timer_reachable_def client_reachable_def using demo_initial demo_timer_steps by blast
  note good = timer_reachable_good [OF reach demo_space]
  have w: "waits 0 1 ?r = []" by (simp add: do_add_timer_queue_def demo_start_queues new_timer_queue_def new_per_timer_data_def)
  have sc: "schedule_timer 0 None 0 5 1 demo_op (?r, None) = (demo_scheduled, None)"
    by (simp add: demo_scheduled_def prod_eq_iff) (simp add: schedule_timer_def on_sched_def do_add_timer_queue_def demo_start_queues split: prod.split)
  then have d: "dt_async_wait 0 None 0 1 demo_op ?impl (?r, None) = (demo_timer, (demo_scheduled, None))"
    by (simp add: dt_async_wait_def demo_timer_def)
  show "waits 0 1 demo_scheduled = [demo_op]"
    using dt_async_wait_keeps(2) [OF good(2) _ _ d, of 1] w by (simp add: npos_def do_add_timer_queue_def demo_start_queues)
  have "client_step demo_perform (exec_timer 0) (timer_call_ok 0 {1}) timer_starts
      (0, ?r, [1 \<mapsto> ?impl], {#}, {#}) (0, demo_scheduled, [1 \<mapsto> demo_timer], {#7#}, {#})"
    using Client_external [of "timer_call_ok 0 {1}" "Timer_async_wait 1 demo_op 0 None" "[1 \<mapsto> ?impl]" ?r "exec_timer 0" 0 0
        demo_scheduled None "[1 \<mapsto> demo_timer]" demo_perform timer_starts "{#}" "{#}"] w d
    by (simp add: on_timer_def npos_def demo_op_def)
  then show "timer_reachable demo_perform 0 {1} False (0, demo_scheduled, [1 \<mapsto> demo_timer], {#7#}, {#})"
    unfolding timer_reachable_def client_reachable_def using demo_initial demo_timer_steps by (meson rtranclp.rtrancl_into_rtrancl)
qed

section \<open>The blocking wait\<close>

text \<open>An observation of \<open>wait\<close>, an error code and a time, after which it goes on.\<close>

definition still_early :: "s64 \<Rightarrow> error_code \<times> s64 \<Rightarrow> bool" where
  "still_early e = (\<lambda>(ec, now). \<not> ec_failed ec \<and> sint now < sint e)"

lemma dt_wait_first:
  "dt_wait pn pd e now ec rs =
     (case dropWhile (still_early e) ((ec, now) # rs) of
        [] \<Rightarrow> None
      | (ec', now') # _ \<Rightarrow>
          Some (ec', now', map (\<lambda>(_, t). dt_do_wait pn pd (ct_subtract e t)) (takeWhile (still_early e) ((ec, now) # rs))))"
proof (induction pn pd e now ec rs rule: dt_wait.induct)
  case (1 pn pd e now ec rs)
  have early: "still_early e (ec, now) \<longleftrightarrow> ct_less_than now e \<and> \<not> ec_failed ec"
    by (auto simp: still_early_def ct_less_than_def word_sless_alt)
  show ?case
  proof (cases "ct_less_than now e \<and> \<not> ec_failed ec")
    case True
    show ?thesis
    proof (cases rs)
      case Nil
      then show ?thesis using True early by (subst dt_wait.simps) simp
    next
      case (Cons x rs')
      obtain ec1 now1 where x: "x = (ec1, now1)" by (cases x)
      show ?thesis
        using 1 [OF True Cons x [symmetric]] True early unfolding Cons x
        by (subst dt_wait.simps) (auto split: list.split simp del: dropWhile_eq_Nil_conv)
    qed
  next
    case False
    then show ?thesis using early by (subst dt_wait.simps) auto
  qed
qed

lemma select_time:
  assumes "0 < pn" "0 < pd" "0 < sint d" "dt_do_wait pn pd d = (sec, usec)"
  shows "0 \<le> sec \<and> 0 \<le> usec \<and> usec < 1000000 \<and> sec * 1000000 + usec = sint d * int pn * 1000000 div int pd"
proof -
  let ?x = "sint d * int pn"
  have pos: "0 < ?x" "0 < int pd" "sgn (sint d) = 1" using assms(1-3) by simp_all
  have s: "total_seconds pn pd (sint d) = ?x div int pd" "total_microseconds pn pd (sint d) = ?x * 1000000 div int pd"
    using assms(1-3) pos
    by (simp_all add: total_seconds_def total_microseconds_def duration_cast_eq signed_divide_int_def sgn_mult ac_simps)
  have "?x div int pd = ?x * 1000000 div int pd div 1000000"
    using pos by (simp add: div_mult2_eq [symmetric] mult.commute [of "int pd"] zdiv_zmult2_eq [symmetric])
  moreover have "0 \<le> ?x * 1000000 div int pd" "0 \<le> ?x div int pd" using pos by (simp_all add: pos_imp_zdiv_nonneg_iff)
  moreover have "?x * 1000000 div int pd smod 1000000 = ?x * 1000000 div int pd mod 1000000" if "0 \<le> ?x * 1000000 div int pd"
    using that by (cases "?x * 1000000 div int pd = 0") (simp_all add: signed_modulo_int_def)
  ultimately show ?thesis
    using assms(4) s div_mult_mod_eq [of "?x * 1000000 div int pd" 1000000] by (auto simp: dt_do_wait_def)
qed

section \<open>Properties\<close>

text \<open>
  In every reachable state of a program that uses timers, every operation that waits on a timer is
  of an existing timer whose entry in the heap of the queue has the expiry that the timer object shows
  now: no wait is left with an expiry that was changed since. The program's run is a run of the
  reactor, so every wait has been completed once or is in one place.
\<close>

theorem waits_have_current_expiry:
  assumes "timer_reachable perform q T own_thread (w, r, tims, S, C)" "finite T" "card T < npos"
  shows "reactor_reachable perform {q} (\<lambda>_. T) own_thread (w, r, S, C) \<and> S = C + pending {q} (\<lambda>_. T) (r, None) \<and>
    (waits q t r \<noteq> [] \<longrightarrow> (\<exists>impl. tims t = Some impl \<and> (sint (expiry impl), t) \<in> set (heap (er_queues r q)))) \<and>
    ((time, t) \<in> set (heap (er_queues r q)) \<longrightarrow> (\<exists>impl. tims t = Some impl \<and> time = sint (expiry impl)))"
  using timer_reachable_good [OF assms] timer_inv_waits [OF timer_reachable_good(2) [OF assms], of t]
    timer_inv_entry [OF timer_reachable_good(2) [OF assms], of time t]
  by (auto simp: reactor_good_def)

theorem waits_have_current_expiry_witness:
  "(5, 1) \<in> set (heap (er_queues demo_scheduled 0))"
  using waits_have_current_expiry [OF demo_timer_reachable demo_space, of 1 0] demo_timer_waits by (simp add: demo_timer_def)

text \<open>
  C30: A run of the reactor that looks at the timers, in a reachable state and at the time \<open>now\<close>, hands
  over the waits of exactly the timers whose expiry is not after \<open>now\<close>, in the order of their expiry,
  and leaves the waits of the other timers as they are: no asynchronous wait completes before the
  expiry of its timer, and none that is due stays behind. The run returns.
\<close>

theorem due_waits_complete:
  assumes "timer_reachable perform q T own_thread (w, r, tims, S, C)" "finite T" "card T < npos"
    "q \<in> set (er_queue_set r)" "checks_timers events r"
  shows "\<exists>ds ts r'. reactor_run now events [] r =
        Some (map Descriptor_op ds @ map Async_op (concat (map (\<lambda>t. waits q t r) ts)), r') \<and>
      sorted (map (\<lambda>t. sint (expiry (the (tims t)))) ts) \<and> distinct ts \<and>
      (\<forall>t. waits q t r \<noteq> [] \<longrightarrow> (t \<in> set ts \<longleftrightarrow> sint (expiry (the (tims t))) \<le> now)) \<and>
      (\<forall>t. waits q t r' = (if t \<in> set ts then [] else waits q t r))"
proof -
  note good = timer_reachable_good [OF assms(1-3)]
  have inv: "set (er_queue_set r) \<subseteq> {q}" "tq_full (er_queues r q)"
    using good(2,3) by (simp_all add: reactor_good_def reactor_inv_def timer_inv_def)
  obtain ops r' where run: "reactor_run now events [] r = Some (ops, r')" using reactor_run_returns [OF inv] by blast
  obtain ds os where os: "ops = map Descriptor_op ds @ map Async_op os" "fires now (er_queues r q) (er_queues r' q) os"
    using reactor_run_timers(2) [OF run inv] assms(4,5) by (auto split: if_splits)
  obtain es where es: "os = concat (map (\<lambda>e. waits q (snd e) r) es)" "sorted (map fst es)" "distinct (map snd es)"
    "set es = {e \<in> set (heap (er_queues r q)). fst e \<le> now}"
    and rest: "set (heap (er_queues r' q)) = {e \<in> set (heap (er_queues r q)). now < fst e}"
      "\<And>t. waits q t r' = (if t \<in> snd ` set (heap (er_queues r' q)) then waits q t r else [])"
    using os(2) unfolding fires_def by blast
  have ex: "fst e = sint (expiry (the (tims (snd e))))" if "e \<in> set (heap (er_queues r q))" for e
    using timer_inv_entry [OF good(2), of "fst e" "snd e"] that by auto
  have "map (\<lambda>t. sint (expiry (the (tims t)))) (map snd es) = map fst es" using ex es(4) by auto
  then have sorted: "sorted (map (\<lambda>t. sint (expiry (the (tims t)))) (map snd es))" using es(2) by (simp only:)
  have entry: "t \<in> snd ` {e \<in> set (heap (er_queues r q)). P (fst e)} \<longleftrightarrow> P (sint (expiry (the (tims t))))"
    if ne: "waits q t r \<noteq> []" for t P
  proof -
    obtain impl where i: "tims t = Some impl" "(sint (expiry impl), t) \<in> set (heap (er_queues r q))"
      using timer_inv_waits [OF good(2) ne] by blast
    have at: "fst e = sint (expiry impl)" if "e \<in> set (heap (er_queues r q))" "snd e = t" for e
      using ex [OF that(1)] that(2) i(1) by simp
    show ?thesis
    proof
      assume "t \<in> snd ` {e \<in> set (heap (er_queues r q)). P (fst e)}"
      then obtain e where e: "e \<in> set (heap (er_queues r q))" "snd e = t" "P (fst e)" by blast
      then show "P (sint (expiry (the (tims t))))" using at [OF e(1,2)] i(1) by simp
    next
      assume "P (sint (expiry (the (tims t))))"
      then show "t \<in> snd ` {e \<in> set (heap (er_queues r q)). P (fst e)}"
        using i by (intro image_eqI [of _ _ "(sint (expiry impl), t)"]) simp_all
    qed
  qed
  have due: "t \<in> set (map snd es) \<longleftrightarrow> sint (expiry (the (tims t))) \<le> now" if "waits q t r \<noteq> []" for t
    using entry [OF that, of "\<lambda>x. x \<le> now"] by (simp add: es(4))
  have left: "waits q t r' = (if t \<in> set (map snd es) then [] else waits q t r)" for t
  proof (cases "waits q t r = []")
    case False
    then show ?thesis using entry [OF False, of "\<lambda>x. now < x"] due [OF False] by (simp add: rest not_le)
  qed (simp add: rest(2))
  show ?thesis
    using run os(1) es(1,3) sorted due left
    by (intro exI [of _ ds] exI [of _ "map snd es"] exI [of _ r']) (simp add: comp_def)
qed

theorem due_waits_complete_witness:
  "\<exists>ops r'. reactor_run 7 [(Timer_fd, 1)] [] demo_scheduled = Some (ops, r') \<and> Async_op demo_op \<in> set ops \<and> waits 0 1 r' = []"
proof -
  have q: "0 \<in> set (er_queue_set demo_scheduled)"
    by (simp add: demo_scheduled_def schedule_timer_def on_sched_def do_add_timer_queue_def demo_start_queues
        timer_set_insert_def update_timeout_def interrupt_def epoll_ctl_set_def split: prod.split)
  have "checks_timers [(Timer_fd, 1)] demo_scheduled" by (simp add: checks_timers_def)
  from due_waits_complete [OF demo_timer_reachable demo_space q this, of 7] obtain ds ts r' where
    run: "reactor_run 7 [(Timer_fd, 1)] [] demo_scheduled =
       Some (map Descriptor_op ds @ map Async_op (concat (map (\<lambda>t. waits 0 t demo_scheduled) ts)), r')"
    and ts: "\<forall>t. waits 0 t demo_scheduled \<noteq> [] \<longrightarrow> (t \<in> set ts \<longleftrightarrow> sint (expiry (the ([1 \<mapsto> demo_timer] t))) \<le> 7)"
    and left: "\<forall>t. waits 0 t r' = (if t \<in> set ts then [] else waits 0 t demo_scheduled)"
    by blast
  have "1 \<in> set ts" using ts demo_timer_waits by (simp add: demo_timer_def)
  then show ?thesis using run left demo_timer_waits by force
qed

text \<open>
  Changing the expiry of a timer, or cancelling it, completes every operation that waits on it with
  \<open>operation_aborted\<close>, in the order they were started, and returns their number; the new expiry is
  the given time, for \<open>expires_after\<close> the saturated sum, and the waits of other timers are as they
  were. \<open>cancel_one\<close> does so for the first one only, and keeps the expiry.
\<close>

theorem expiry_change_aborts_waits:
  assumes "timer_reachable perform q T own_thread (w, r, tims, S, C)" "finite T" "card T < npos" "tims t = Some impl"
  shows "(case dt_expires_at q t e impl (r, ti) of (n, impl', c') \<Rightarrow>
        n = length (waits q t r) \<and> cancelled q t n (r, ti) c' \<and> expiry impl' = e \<and> \<not> might_have_pending_waits impl') \<and>
    (case dt_expires_after q t now d impl (r, ti) of (n, impl', c') \<Rightarrow>
        n = length (waits q t r) \<and> cancelled q t n (r, ti) c' \<and> sint (expiry impl') = saturate (sint now + sint d)) \<and>
    (case dt_cancel q t impl (r, ti) of (n, impl', c') \<Rightarrow>
        n = length (waits q t r) \<and> cancelled q t n (r, ti) c' \<and> expiry impl' = expiry impl) \<and>
    (case dt_cancel_one q t impl (r, ti) of (n, impl', c') \<Rightarrow>
        n = min 1 (length (waits q t r)) \<and> cancelled q t 1 (r, ti) c' \<and> expiry impl' = expiry impl)"
proof -
  note inv = timer_reachable_good(2) [OF assms(1-3)]
  obtain n impl1 c1 where c: "dt_cancel q t impl (r, ti) = (n, impl1, c1)" by (cases "dt_cancel q t impl (r, ti)")
  obtain n2 impl2 c2 where c2: "dt_cancel_one q t impl (r, ti) = (n2, impl2, c2)" by (cases "dt_cancel_one q t impl (r, ti)")
  show ?thesis
    using dt_cancel_keeps(4-7) [OF inv assms(4) c] dt_cancel_one_keeps(2-4) [OF inv assms(4) c2] c c2
    by (simp add: dt_expires_after_def dt_expires_at_def ct_add_sint)
qed

theorem expiry_change_aborts_waits_witness:
  "case dt_expires_at 0 1 9 demo_timer (demo_scheduled, None) of (n, impl', c') \<Rightarrow>
     n = 1 \<and> expiry impl' = 9 \<and> cancelled 0 1 1 (demo_scheduled, None) c'"
proof -
  have "[1 \<mapsto> demo_timer] 1 = Some demo_timer" by simp
  note change = conjunct1 [OF expiry_change_aborts_waits [OF demo_timer_reachable demo_space this, where e = 9 and ti = None]]
  show ?thesis using change demo_timer_waits by (auto split: prod.splits)
qed

text \<open>
  The blocking wait returns at the first observation that is an error of \<open>select\<close> or a time not
  before the expiry, with that error and that time; before it, it calls \<open>select\<close> once for each
  observation, with a valid \<open>timeval\<close> that is the remaining time rounded down to microseconds.
\<close>

theorem blocking_wait_reference:
  assumes "0 < pn" "0 < pd"
  shows "dt_wait pn pd e now ec rs =
     (case dropWhile (still_early e) ((ec, now) # rs) of
        [] \<Rightarrow> None
      | (ec', now') # _ \<Rightarrow>
          Some (ec', now', map (\<lambda>(_, t). dt_do_wait pn pd (ct_subtract e t)) (takeWhile (still_early e) ((ec, now) # rs)))) \<and>
    (still_early e (ec', t) \<longrightarrow>
       (case dt_do_wait pn pd (ct_subtract e t) of (sec, usec) \<Rightarrow>
          0 \<le> sec \<and> 0 \<le> usec \<and> usec < 1000000 \<and>
          sec * 1000000 + usec = saturate (sint e - sint t) * int pn * 1000000 div int pd))"
proof -
  have "0 < sint (ct_subtract e t)" if "still_early e (ec', t)"
    using that by (simp add: still_early_def ct_subtract_sint saturate_def)
  then show ?thesis
    using dt_wait_first select_time [OF assms, of "ct_subtract e t"]
    by (auto simp: ct_subtract_sint split: prod.split)
qed

theorem blocking_wait_reference_witness:
  "dt_wait 1 1000000000 5000 1000 ec_success [(ec_success, 4000), (ec_success, 6000)] = Some (ec_success, 6000, [(0, 4), (0, 1)])"
proof -
  have "still_early 5000 (ec_success, 1000)" "still_early 5000 (ec_success, 4000)" "\<not> still_early 5000 (ec_success, 6000)"
    by (simp_all add: still_early_def)
  moreover have "ct_subtract 5000 1000 = 4000" "ct_subtract 5000 4000 = 1000" by (simp_all add: ct_subtract_def)
  ultimately show ?thesis
    using blocking_wait_reference [of 1 1000000000 5000 1000 ec_success "[(ec_success, 4000), (ec_success, 6000)]"]
    by (simp add: dt_do_wait_def total_seconds_def total_microseconds_def duration_cast_eq signed_divide_int_def signed_modulo_int_def)
qed

end
