(* ===== verification/Strand_Service.thy ===== *)
theory Strand_Service
  imports Linked_List "HOL-Library.Multiset"
begin

text \<open>
  Strands, \<open>src/ext/asio/asio/detail/strand_executor_service.hpp\<close> and its two \<open>impl\<close> files: functions
  given to a strand run one after the other, on the threads of another executor. A strand is the
  address of its \<open>strand_impl\<close>; the service keeps all of them in a doubly linked list. The operations
  here are the critical sections and the code between them; how the threads interleave them is in
  \<open>Strand_Steps\<close>.
\<close>

unbundle bit_operations_syntax

section \<open>State\<close>

type_synonym sref = u64

record 'op strand_impl =
  impl_mutex :: nat
  locked :: bool
  shut_down :: bool
  waiting_queue :: "'op list"
  ready_queue :: "'op list"
  impl_next :: "sref option"
  impl_prev :: "sref option"

text \<open>\<open>mutexes\<close> tells which mutexes of the pool have been made.\<close>

record 'op strand_service =
  mutexes :: "nat \<Rightarrow> bool"
  salt :: u64
  impl_list :: "sref option"
  strands :: "sref \<Rightarrow> 'op strand_impl"

definition new_strand_service :: "(sref \<Rightarrow> 'op strand_impl) \<Rightarrow> 'op strand_service" where
  "new_strand_service st = \<lparr>mutexes = (\<lambda>_. False), salt = 0, impl_list = None, strands = st\<rparr>"

definition upd_strand :: "sref \<Rightarrow> ('op strand_impl \<Rightarrow> 'op strand_impl) \<Rightarrow> 'op strand_service \<Rightarrow> 'op strand_service" where
  "upd_strand s f v = v\<lparr>strands := (strands v)(s := f (strands v s))\<rparr>"

definition upd_strand_opt ::
  "sref option \<Rightarrow> ('op strand_impl \<Rightarrow> 'op strand_impl) \<Rightarrow> 'op strand_service \<Rightarrow> 'op strand_service" where
  "upd_strand_opt p f v = (case p of None \<Rightarrow> v | Some s \<Rightarrow> upd_strand s f v)"

section \<open>Making and destroying strands\<close>

definition num_mutexes :: u64 where
  "num_mutexes = 193"

definition mutex_index :: "sref \<Rightarrow> u64 \<Rightarrow> nat" where
  "mutex_index p sl =
     (let m = p + drop_bit 3 p;
          m' = m XOR (sl + 0x9e3779b9 + push_bit 6 m + drop_bit 2 m)
      in unat (m' mod num_mutexes))"

text \<open>\<open>p\<close> is the address of the new object.\<close>

definition create_implementation :: "sref \<Rightarrow> 'op strand_service \<Rightarrow> 'op strand_service" where
  "create_implementation p v =
     (let i = mutex_index p (salt v);
          v1 = v\<lparr>salt := salt v + 1, mutexes := (mutexes v)(i := True)\<rparr>;
          v2 = upd_strand p (\<lambda>_. \<lparr>impl_mutex = i, locked = False, shut_down = False, waiting_queue = [],
                 ready_queue = [], impl_next = impl_list v1, impl_prev = None\<rparr>) v1;
          v3 = upd_strand_opt (impl_list v2) (\<lambda>x. x\<lparr>impl_prev := Some p\<rparr>) v2
      in v3\<lparr>impl_list := Some p\<rparr>)"

definition destroy_implementation :: "sref \<Rightarrow> 'op strand_service \<Rightarrow> 'op strand_service" where
  "destroy_implementation p v =
     (let nx = impl_next (strands v p); pv = impl_prev (strands v p);
          v1 = (if impl_list v = Some p then v\<lparr>impl_list := nx\<rparr> else v);
          v2 = upd_strand_opt pv (\<lambda>x. x\<lparr>impl_next := nx\<rparr>) v1
      in upd_strand_opt nx (\<lambda>x. x\<lparr>impl_prev := pv\<rparr>) v2)"

text \<open>The loop of \<open>shutdown\<close>; the functions it collects are destroyed when it returns.\<close>

partial_function (option) shutdown_loop ::
  "sref option \<Rightarrow> 'op strand_service \<Rightarrow> 'op list \<Rightarrow> ('op strand_service \<times> 'op list) option" where
  "shutdown_loop impl v ops =
     (case impl of
        None \<Rightarrow> Some (v, ops)
      | Some s \<Rightarrow>
          (let x = strands v s;
               v1 = upd_strand s (\<lambda>x. x\<lparr>shut_down := True, waiting_queue := [], ready_queue := []\<rparr>) v
           in shutdown_loop (impl_next x) v1 (ops @ waiting_queue x @ ready_queue x)))"

declare shutdown_loop.simps [code]

definition strand_shutdown :: "'op strand_service \<Rightarrow> ('op strand_service \<times> 'op list) option" where
  "strand_shutdown v = shutdown_loop (impl_list v) v []"

section \<open>Adding and taking functions\<close>

text \<open>
  \<open>enqueue\<close> up to the release of the mutex. When the caller has acquired the strand, it then puts the
  function in the ready queue without the mutex.
\<close>

datatype enqueue_result = Refused | Enqueued | Acquired_lock

definition enqueue_locked :: "sref \<Rightarrow> 'op \<Rightarrow> 'op strand_service \<Rightarrow> enqueue_result \<times> 'op strand_service" where
  "enqueue_locked s a v =
     (if shut_down (strands v s) then (Refused, v)
      else if locked (strands v s) then (Enqueued, upd_strand s (\<lambda>x. x\<lparr>waiting_queue := waiting_queue x @ [a]\<rparr>) v)
      else (Acquired_lock, upd_strand s (\<lambda>x. x\<lparr>locked := True\<rparr>) v))"

definition push_ready :: "sref \<Rightarrow> 'op \<Rightarrow> 'op strand_service \<Rightarrow> 'op strand_service" where
  "push_ready s a = upd_strand s (\<lambda>x. x\<lparr>ready_queue := ready_queue x @ [a]\<rparr>)"

definition push_waiting_to_ready :: "sref \<Rightarrow> 'op strand_service \<Rightarrow> bool \<times> 'op strand_service" where
  "push_waiting_to_ready s v =
     (let v1 = upd_strand s (\<lambda>x. x\<lparr>ready_queue := ready_queue x @ waiting_queue x, waiting_queue := []\<rparr>) v;
          more_handlers = (ready_queue (strands v1 s) \<noteq> [])
      in (more_handlers, upd_strand s (\<lambda>x. x\<lparr>locked := more_handlers\<rparr>) v1))"

text \<open>A turn of the loop of \<open>run_ready_handlers\<close>: the function it takes, \<open>None\<close> at the end of the loop.\<close>

definition take_ready :: "sref \<Rightarrow> 'op strand_service \<Rightarrow> ('op \<times> 'op strand_service) option" where
  "take_ready s v =
     (case ready_queue (strands v s) of
        [] \<Rightarrow> None
      | a # rest \<Rightarrow> Some (a, upd_strand s (\<lambda>x. x\<lparr>ready_queue := rest\<rparr>) v))"

lemma take_ready_cases:
  "take_ready s v = None \<longleftrightarrow> ready_queue (strands v s) = []"
  "take_ready s v = Some (a, v') \<longleftrightarrow>
     (\<exists>rest. ready_queue (strands v s) = a # rest \<and> v' = upd_strand s (\<lambda>x. x\<lparr>ready_queue := rest\<rparr>) v)"
  by (auto simp: take_ready_def split: list.split)

section \<open>Threads\<close>

text \<open>
  What a thread is doing, from its innermost activity: a function of a strand, the loop of
  \<open>run_ready_handlers\<close>, or one of the steps around them. \<open>Acquired\<close> and \<open>Scheduling\<close> are in \<open>enqueue\<close> and
  \<open>do_execute\<close> after the mutex is released; their flag tells whether the inner executor may run the
  invoker at once in the calling thread. \<open>Exiting\<close> and \<open>Unwinding\<close> are in the destructor of
  \<open>on_invoker_exit\<close>, after a return or an exception.
\<close>

datatype 'op frame =
    Handler sref 'op
  | Ready_loop sref
  | Exiting sref
  | Unwinding sref
  | Acquired sref 'op bool
  | Scheduling sref bool

text \<open>The call stack of strands of a thread: the object \<open>ctx\<close> lives as long as the loop.\<close>

definition running_in_this_thread :: "sref \<Rightarrow> 'op frame list \<Rightarrow> bool" where
  "running_in_this_thread s stack \<longleftrightarrow> Ready_loop s \<in> set stack"

text \<open>What \<open>do_execute\<close>, \<open>dispatch\<close>, \<open>post\<close> and \<open>defer\<close> share: the strand is scheduled if the function is the first.\<close>

definition add_function ::
  "bool \<Rightarrow> sref \<Rightarrow> 'op \<Rightarrow> 'op strand_service \<times> 'op frame list \<Rightarrow> enqueue_result \<times> 'op strand_service \<times> 'op frame list" where
  "add_function inline s a = (\<lambda>(v, stack).
     (case enqueue_locked s a v of
        (Acquired_lock, v') \<Rightarrow> (Acquired_lock, v', Acquired s a inline # stack)
      | (res, v') \<Rightarrow> (res, v', stack)))"

text \<open>\<open>never\<close>: the executor is never blocking. \<open>None\<close>: the function runs at once.\<close>

definition strand_do_execute ::
  "bool \<Rightarrow> sref \<Rightarrow> 'op \<Rightarrow> 'op strand_service \<times> 'op frame list \<Rightarrow> enqueue_result option \<times> 'op strand_service \<times> 'op frame list" where
  "strand_do_execute never s a = (\<lambda>(v, stack).
     (if \<not> never \<and> running_in_this_thread s stack then (None, v, Handler s a # stack)
      else apfst Some (add_function (\<not> never) s a (v, stack))))"

definition strand_dispatch ::
  "sref \<Rightarrow> 'op \<Rightarrow> 'op strand_service \<times> 'op frame list \<Rightarrow> enqueue_result option \<times> 'op strand_service \<times> 'op frame list" where
  "strand_dispatch s a = (\<lambda>(v, stack).
     (if running_in_this_thread s stack then (None, v, Handler s a # stack)
      else apfst Some (add_function True s a (v, stack))))"

definition strand_post ::
  "sref \<Rightarrow> 'op \<Rightarrow> 'op strand_service \<times> 'op frame list \<Rightarrow> enqueue_result option \<times> 'op strand_service \<times> 'op frame list" where
  "strand_post s a st = apfst Some (add_function False s a st)"

definition strand_defer ::
  "sref \<Rightarrow> 'op \<Rightarrow> 'op strand_service \<times> 'op frame list \<Rightarrow> enqueue_result option \<times> 'op strand_service \<times> 'op frame list" where
  "strand_defer s a st = apfst Some (add_function False s a st)"

datatype request = Execute bool | Dispatch | Post | Defer

fun exec_request ::
  "request \<Rightarrow> sref \<Rightarrow> 'op \<Rightarrow> 'op strand_service \<times> 'op frame list \<Rightarrow> enqueue_result option \<times> 'op strand_service \<times> 'op frame list" where
  "exec_request (Execute never) = strand_do_execute never"
| "exec_request Dispatch = strand_dispatch"
| "exec_request Post = strand_post"
| "exec_request Defer = strand_defer"

end
