(* ===== verification/Strand_Steps.thy ===== *)
theory Strand_Steps
  imports Strand_Service "HOL-Library.Sublist"
begin

text \<open>
  Threads that use strands, as steps between their critical sections. The inner executor is the
  multiset of the invokers it was given and has not run: it may run one on any thread that is not
  inside the library. The logs \<open>accepted\<close> and \<open>begun\<close> hold, for each strand, the functions that were
  added to it and those that its loop has taken, in order; they take no part in the steps.
\<close>

section \<open>Configurations\<close>

record ('t, 'op) strand_config =
  service :: "'op strand_service"
  stacks :: "'t \<Rightarrow> 'op frame list"
  invokers :: "sref multiset"
  alive :: "sref set"
  accepted :: "sref \<Rightarrow> 'op list"
  begun :: "sref \<Rightarrow> 'op list"

definition in_user_code :: "'op frame list \<Rightarrow> bool" where
  "in_user_code stack \<longleftrightarrow> (case stack of [] \<Rightarrow> True | Handler s a # _ \<Rightarrow> True | _ \<Rightarrow> False)"

definition set_stack :: "'t \<Rightarrow> 'op frame list \<Rightarrow> ('t, 'op) strand_config \<Rightarrow> ('t, 'op) strand_config" where
  "set_stack t stack c = c\<lparr>stacks := (stacks c)(t := stack)\<rparr>"

definition impl_of :: "('t, 'op) strand_config \<Rightarrow> sref \<Rightarrow> 'op strand_impl" where
  "impl_of c s = strands (service c) s"

text \<open>The strand whose lock a frame holds.\<close>

fun owns_strand :: "sref \<Rightarrow> 'op frame \<Rightarrow> bool" where
  "owns_strand s (Handler s' a) = False"
| "owns_strand s (Ready_loop s') = (s' = s)"
| "owns_strand s (Exiting s') = (s' = s)"
| "owns_strand s (Unwinding s') = (s' = s)"
| "owns_strand s (Acquired s' a inline) = (s' = s)"
| "owns_strand s (Scheduling s' inline) = (s' = s)"

fun frame_strand :: "'op frame \<Rightarrow> sref" where
  "frame_strand (Handler s a) = s"
| "frame_strand (Ready_loop s) = s"
| "frame_strand (Exiting s) = s"
| "frame_strand (Unwinding s) = s"
| "frame_strand (Acquired s a inline) = s"
| "frame_strand (Scheduling s inline) = s"

section \<open>Steps\<close>

text \<open>
  Calls of the program: a request from a thread in user code, a new strand, the end of the last
  reference to one, and the shutdown of the context when no thread is in a strand.
\<close>

inductive strand_call :: "('t, 'op) strand_config \<Rightarrow> ('t, 'op) strand_config \<Rightarrow> bool" where
  Request:
    "in_user_code (stacks c t) \<Longrightarrow> s \<in> alive c \<Longrightarrow>
     exec_request req s a (service c, stacks c t) = (res, v, stack) \<Longrightarrow>
     acc = (if res = Some Enqueued \<or> res = Some Acquired_lock then (accepted c)(s := accepted c s @ [a]) else accepted c) \<Longrightarrow>
     strand_call c (set_stack t stack (c\<lparr>service := v, accepted := acc\<rparr>))"
| Create:
    "s \<notin> alive c \<Longrightarrow>
     strand_call c (c\<lparr>service := create_implementation s (service c), alive := insert s (alive c),
                     accepted := (accepted c)(s := []), begun := (begun c)(s := [])\<rparr>)"
| Release:
    "s \<in> alive c \<Longrightarrow> s \<notin># invokers c \<Longrightarrow> \<forall>t. s \<notin> frame_strand ` set (stacks c t) \<Longrightarrow>
     strand_call c (c\<lparr>service := destroy_implementation s (service c), alive := alive c - {s}\<rparr>)"
| Shutdown:
    "\<forall>t. stacks c t = [] \<Longrightarrow> strand_shutdown (service c) = Some (v, ops) \<Longrightarrow>
     strand_call c (c\<lparr>service := v\<rparr>)"

text \<open>Steps of the library, the inner executor and the functions.\<close>

inductive strand_internal :: "('t, 'op) strand_config \<Rightarrow> ('t, 'op) strand_config \<Rightarrow> bool" where
  Push:
    "stacks c t = Acquired s a inline # stack \<Longrightarrow>
     strand_internal c (set_stack t (Scheduling s inline # stack) (c\<lparr>service := push_ready s a (service c)\<rparr>))"
| Submit:
    "stacks c t = Scheduling s inline # stack \<Longrightarrow>
     strand_internal c (set_stack t stack (c\<lparr>invokers := add_mset s (invokers c)\<rparr>))"
| Invoke_now:
    "stacks c t = Scheduling s True # stack \<Longrightarrow>
     strand_internal c (set_stack t (Ready_loop s # stack) c)"
| Invoke:
    "in_user_code (stacks c t) \<Longrightarrow> s \<in># invokers c \<Longrightarrow>
     strand_internal c (set_stack t (Ready_loop s # stacks c t) (c\<lparr>invokers := invokers c - {#s#}\<rparr>))"
| Take:
    "stacks c t = Ready_loop s # stack \<Longrightarrow> take_ready s (service c) = Some (a, v) \<Longrightarrow>
     strand_internal c (set_stack t (Handler s a # Ready_loop s # stack)
       (c\<lparr>service := v, begun := (begun c)(s := begun c s @ [a])\<rparr>))"
| Leave_loop:
    "stacks c t = Ready_loop s # stack \<Longrightarrow> take_ready s (service c) = None \<Longrightarrow>
     strand_internal c (set_stack t (Exiting s # stack) c)"
| Return:
    "stacks c t = Handler s a # stack \<Longrightarrow> strand_internal c (set_stack t stack c)"
| Throw:
    "stacks c t = Handler s a # Ready_loop s' # stack \<Longrightarrow> strand_internal c (set_stack t (Unwinding s' # stack) c)"
| Exit:
    "stacks c t = fr # stack \<Longrightarrow> fr = Exiting s \<or> fr = Unwinding s \<Longrightarrow>
     push_waiting_to_ready s (service c) = (again, v) \<Longrightarrow>
     strand_internal c (set_stack t (if again then Scheduling s False # stack else stack) (c\<lparr>service := v\<rparr>))"

definition strand_step :: "('t, 'op) strand_config \<Rightarrow> ('t, 'op) strand_config \<Rightarrow> bool" where
  "strand_step c c' \<longleftrightarrow> strand_call c c' \<or> strand_internal c c'"

definition strand_start :: "(sref \<Rightarrow> 'op strand_impl) \<Rightarrow> ('t, 'op) strand_config" where
  "strand_start st = \<lparr>service = new_strand_service st, stacks = (\<lambda>_. []), invokers = {#}, alive = {},
     accepted = (\<lambda>_. []), begun = (\<lambda>_. [])\<rparr>"

definition strand_reachable :: "('t, 'op) strand_config \<Rightarrow> bool" where
  "strand_reachable c \<longleftrightarrow> (\<exists>st. strand_step\<^sup>*\<^sup>* (strand_start st) c)"

section \<open>The invariant\<close>

text \<open>The frames of all threads that hold the lock of \<open>s\<close>.\<close>

definition holders :: "('t :: finite, 'op) strand_config \<Rightarrow> sref \<Rightarrow> 'op frame multiset" where
  "holders c s = (\<Sum>t\<in>UNIV. mset (filter (owns_strand s) (stacks c t)))"

text \<open>
  \<open>n\<close> invokers and the frames \<open>own\<close> hold the strand \<open>x\<close> together: at most one of them, and exactly one when
  the strand is locked and not shut down. A strand that is not locked has no functions. The functions
  added are those begun, then the one on its way into the ready queue, then the two queues.
\<close>

definition strand_ok :: "sref \<Rightarrow> 'op strand_impl \<Rightarrow> nat \<Rightarrow> 'op frame multiset \<Rightarrow> 'op list \<Rightarrow> 'op list \<Rightarrow> bool" where
  "strand_ok s x n own acc beg \<longleftrightarrow>
     n + size own \<le> (if locked x then 1 else 0) \<and>
     (\<not> shut_down x \<longrightarrow> n + size own = (if locked x then 1 else 0)) \<and>
     (\<not> locked x \<longrightarrow> waiting_queue x = [] \<and> ready_queue x = []) \<and>
     (\<forall>a i. Acquired s a i \<in># own \<longrightarrow> \<not> shut_down x \<and> ready_queue x = [] \<and> acc = beg @ a # waiting_queue x) \<and>
     (Exiting s \<in># own \<longrightarrow> ready_queue x = []) \<and>
     (\<not> shut_down x \<longrightarrow> (\<forall>a i. Acquired s a i \<notin># own) \<longrightarrow> acc = beg @ ready_queue x @ waiting_queue x) \<and>
     (shut_down x \<longrightarrow> waiting_queue x = [] \<and> ready_queue x = [] \<and> prefix beg acc)"

text \<open>
  A function runs above the loop of its strand in the same thread, and every other activity is at the
  bottom or above a function.
\<close>

fun stack_ok :: "'op frame list \<Rightarrow> bool" where
  "stack_ok [] = True"
| "stack_ok (Handler s a # stack) = (Ready_loop s \<in> set stack \<and> stack_ok stack)"
| "stack_ok (fr # stack) = (in_user_code stack \<and> stack_ok stack)"

definition strands_linked :: "'op strand_service \<Rightarrow> sref list \<Rightarrow> bool" where
  "strands_linked v xs \<longleftrightarrow> distinct xs \<and>
     dseg (\<lambda>s. impl_next (strands v s)) (\<lambda>s. impl_prev (strands v s)) None (impl_list v) xs None"

definition strand_inv :: "('t :: finite, 'op) strand_config \<Rightarrow> bool" where
  "strand_inv c \<longleftrightarrow>
     (\<exists>xs. strands_linked (service c) xs \<and> set xs = alive c) \<and> (\<forall>t. stack_ok (stacks c t)) \<and>
     (\<forall>s. s \<notin> alive c \<longrightarrow> s \<notin># invokers c \<and> holders c s = {#}) \<and>
     (\<forall>s\<in>alive c. strand_ok s (impl_of c s) (count (invokers c) s) (holders c s) (accepted c s) (begun c s))"

lemma holders_split:
  "\<exists>R. holders c s = mset (filter (owns_strand s) (stacks c t)) + R \<and>
     (\<forall>stack. holders (set_stack t stack c) s = mset (filter (owns_strand s) stack) + R)"
proof -
  let ?R = "\<Sum>u\<in>UNIV - {t}. mset (filter (owns_strand s) (stacks c u))"
  have "holders c s = mset (filter (owns_strand s) (stacks c t)) + ?R"
    unfolding holders_def by (rule sum.remove) simp_all
  moreover have "holders (set_stack t stack c) s = mset (filter (owns_strand s) stack) + ?R" for stack
  proof -
    have "holders (set_stack t stack c) s = mset (filter (owns_strand s) (stacks (set_stack t stack c) t)) +
        (\<Sum>u\<in>UNIV - {t}. mset (filter (owns_strand s) (stacks (set_stack t stack c) u)))"
      unfolding holders_def by (rule sum.remove) simp_all
    moreover have "(\<Sum>u\<in>UNIV - {t}. mset (filter (owns_strand s) (stacks (set_stack t stack c) u))) = ?R"
      by (rule sum.cong) (simp_all add: set_stack_def)
    ultimately show ?thesis by (simp add: set_stack_def)
  qed
  ultimately show ?thesis by blast
qed

lemma holders_in: "fr \<in> set (stacks c t) \<Longrightarrow> owns_strand s fr \<Longrightarrow> fr \<in># holders c s"
  using holders_split [of c s t] by auto

lemma set_stack_frame [simp]:
  "service (set_stack t stack c) = service c" "invokers (set_stack t stack c) = invokers c"
  "alive (set_stack t stack c) = alive c" "accepted (set_stack t stack c) = accepted c"
  "begun (set_stack t stack c) = begun c" "impl_of (set_stack t stack c) = impl_of c"
  "stacks (set_stack t stack c) = (stacks c)(t := stack)"
  by (simp_all add: set_stack_def impl_of_def fun_eq_iff)

text \<open>A step on the strand \<open>s\<close> by the thread \<open>t\<close>, in terms of what it does to that strand.\<close>

lemma inv_step:
  assumes inv: "strand_inv c" and al: "s \<in> alive c" "alive c' = alive c"
    and impl: "service c' = upd_strand s f (service c)" "\<And>x. impl_next (f x) = impl_next x" "\<And>x. impl_prev (f x) = impl_prev x"
    and st: "stacks c' = (stacks c)(t := stack)" "stack_ok stack"
    and others: "\<And>s'. s' \<noteq> s \<Longrightarrow> filter (owns_strand s') stack = filter (owns_strand s') (stacks c t)"
      "\<And>s'. s' \<noteq> s \<Longrightarrow> count (invokers c') s' = count (invokers c) s'"
      "\<And>s'. s' \<noteq> s \<Longrightarrow> accepted c' s' = accepted c s'" "\<And>s'. s' \<noteq> s \<Longrightarrow> begun c' s' = begun c s'"
    and step: "\<And>R. holders c s = mset (filter (owns_strand s) (stacks c t)) + R \<Longrightarrow>
      strand_ok s (impl_of c s) (count (invokers c) s) (holders c s) (accepted c s) (begun c s) \<Longrightarrow>
      strand_ok s (f (impl_of c s)) (count (invokers c') s) (mset (filter (owns_strand s) stack) + R) (accepted c' s) (begun c' s)"
  shows "strand_inv c'"
proof -
  have h: "holders c' s' = holders (set_stack t stack c) s'" for s' by (simp add: holders_def st(1))
  have same: "holders c' s' = holders c s'" if "s' \<noteq> s" for s'
    using holders_split [of c s' t] others(1) [OF that] unfolding h by metis
  have io: "impl_of c' s' = (if s' = s then f (impl_of c s) else impl_of c s')" for s'
    by (simp add: impl_of_def impl(1) upd_strand_def)
  obtain xs where xs: "strands_linked (service c) xs" "set xs = alive c" using inv by (auto simp: strand_inv_def)
  have "strands_linked (service c') xs"
    using xs(1) dseg_cong [of xs "\<lambda>s. impl_next (strands (service c') s)" "\<lambda>s. impl_next (strands (service c) s)"
        "\<lambda>s. impl_prev (strands (service c') s)" "\<lambda>s. impl_prev (strands (service c) s)"]
    by (simp add: strands_linked_def impl upd_strand_def)
  then have "\<exists>xs. strands_linked (service c') xs \<and> set xs = alive c'" using xs(2) al(2) by auto
  moreover have "\<forall>u. stack_ok (stacks c' u)" using inv st by (simp add: strand_inv_def)
  moreover have "s' \<notin># invokers c' \<and> holders c' s' = {#}" if "s' \<notin> alive c'" for s'
  proof -
    have "s' \<noteq> s" using that al by auto
    then show ?thesis using inv that al(2) same others(2) by (simp add: strand_inv_def not_in_iff)
  qed
  moreover have "strand_ok s' (impl_of c' s') (count (invokers c') s') (holders c' s') (accepted c' s') (begun c' s')" if "s' \<in> alive c'" for s'
  proof (cases "s' = s")
    case True
    obtain R where R: "holders c s = mset (filter (owns_strand s) (stacks c t)) + R"
      "holders (set_stack t stack c) s = mset (filter (owns_strand s) stack) + R" using holders_split [of c s t] by blast
    have "strand_ok s (impl_of c s) (count (invokers c) s) (holders c s) (accepted c s) (begun c s)"
      using inv al(1) by (simp add: strand_inv_def)
    from step [OF R(1) this] show ?thesis using True R(2) by (simp add: h io)
  next
    case False
    then show ?thesis using inv that al(2) same others(2-4) by (simp add: strand_inv_def io)
  qed
  ultimately show ?thesis unfolding strand_inv_def by blast
qed

section \<open>Every step keeps the invariant\<close>

lemma strand_ok_holders: "strand_ok s x n own acc beg \<Longrightarrow> n + size own \<le> (if locked x then 1 else 0)"
  by (simp add: strand_ok_def)

lemma strand_ok_owner:
  assumes "strand_ok s x n (add_mset fr R) acc beg"
  shows "R = {#} \<and> n = 0 \<and> locked x"
  using strand_ok_holders [OF assms] by (auto split: if_splits)

lemma strand_ok_invoker:
  assumes "strand_ok s x n own acc beg" "0 < n"
  shows "own = {#} \<and> n = 1 \<and> locked x"
  using strand_ok_holders [OF assms(1)] assms(2) by (cases "own = {#}") (auto split: if_splits simp: nonempty_has_size)

lemma strand_ok_exit:
  assumes "strand_ok s x n (add_mset fr R) acc beg" "fr = Exiting s \<or> fr = Unwinding s"
    and "again \<longleftrightarrow> ready_queue x @ waiting_queue x \<noteq> []"
  shows "strand_ok s (x\<lparr>ready_queue := ready_queue x @ waiting_queue x, waiting_queue := [], locked := again\<rparr>) n
    ((if again then {#Scheduling s False#} else {#}) + R) acc beg"
proof -
  have e: "R = {#}" "n = 0" "locked x" using strand_ok_owner [OF assms(1)] by simp_all
  have "\<not> shut_down x \<Longrightarrow> acc = beg @ ready_queue x @ waiting_queue x"
    "shut_down x \<Longrightarrow> waiting_queue x = [] \<and> ready_queue x = [] \<and> prefix beg acc"
    using assms(1,2) unfolding e strand_ok_def by auto
  then show ?thesis using assms(3) unfolding e strand_ok_def by (cases again) auto
qed

lemma inv_alive:
  assumes "strand_inv c" "stacks c t = fr # stack" "owns_strand s fr"
  shows "s \<in> alive c"
  using holders_in [of fr c t s] assms by (auto simp: strand_inv_def)

lemma internal_keeps_inv:
  assumes "strand_internal c c'" "strand_inv c"
  shows "strand_inv c'"
  using assms(1)
proof cases
  case (Push t s a inline stack)
  have al: "s \<in> alive c" by (rule inv_alive [OF assms(2) Push(2)]) simp
  have ok: "stack_ok (Scheduling s inline # stack)" using assms(2) Push(2) by (auto simp: strand_inv_def dest: spec [of _ t])
  show ?thesis
    unfolding Push(1)
    by (rule inv_step [OF assms(2) al, where f = "\<lambda>x. x\<lparr>ready_queue := ready_queue x @ [a]\<rparr>" and t = t and stack = "Scheduling s inline # stack"])
      (use Push(2) ok in \<open>auto simp: push_ready_def strand_ok_def split: if_splits\<close>)
next
  case (Submit t s inline stack)
  have al: "s \<in> alive c" by (rule inv_alive [OF assms(2) Submit(2)]) simp
  have ok: "stack_ok stack" using assms(2) Submit(2) by (auto simp: strand_inv_def dest: spec [of _ t])
  show ?thesis
    unfolding Submit(1)
    by (rule inv_step [OF assms(2) al, where f = "\<lambda>x. x" and t = t and stack = stack])
      (use Submit(2) ok in \<open>auto simp: upd_strand_def strand_ok_def split: if_splits\<close>)
next
  case (Invoke_now t s stack)
  have al: "s \<in> alive c" by (rule inv_alive [OF assms(2) Invoke_now(2)]) simp
  have ok: "stack_ok (Ready_loop s # stack)" using assms(2) Invoke_now(2) by (auto simp: strand_inv_def dest: spec [of _ t])
  show ?thesis
    unfolding Invoke_now(1)
    by (rule inv_step [OF assms(2) al, where f = "\<lambda>x. x" and t = t and stack = "Ready_loop s # stack"])
      (use Invoke_now(2) ok in \<open>auto simp: upd_strand_def strand_ok_def split: if_splits\<close>)
next
  case (Invoke t s)
  have al: "s \<in> alive c" using assms(2) Invoke(3) by (auto simp: strand_inv_def)
  have ok: "stack_ok (Ready_loop s # stacks c t)" using assms(2) Invoke(2) by (auto simp: strand_inv_def)
  have n: "0 < count (invokers c) s" using Invoke(3) by simp
  have "strand_ok s (impl_of c s) (count (invokers c) s) (holders c s) (accepted c s) (begun c s)"
    using assms(2) al by (simp add: strand_inv_def)
  note one = strand_ok_invoker [OF this n]
  show ?thesis
    unfolding Invoke(1)
    by (rule inv_step [OF assms(2) al, where f = "\<lambda>x. x" and t = t and stack = "Ready_loop s # stacks c t"])
      (use ok one in \<open>auto simp: upd_strand_def strand_ok_def split: if_splits\<close>)
next
  case (Take t s stack a v)
  obtain rest where r: "ready_queue (impl_of c s) = a # rest" "v = upd_strand s (\<lambda>x. x\<lparr>ready_queue := rest\<rparr>) (service c)"
    using Take(3) by (auto simp: take_ready_cases impl_of_def)
  have al: "s \<in> alive c" by (rule inv_alive [OF assms(2) Take(2)]) simp
  have ok: "stack_ok (Handler s a # Ready_loop s # stack)" using assms(2) Take(2) by (auto simp: strand_inv_def dest: spec [of _ t])
  show ?thesis
    unfolding Take(1)
    by (rule inv_step [OF assms(2) al, where f = "\<lambda>x. x\<lparr>ready_queue := rest\<rparr>" and t = t and stack = "Handler s a # Ready_loop s # stack"])
      (use Take(2) r ok in \<open>auto simp: strand_ok_def split: if_splits\<close>)
next
  case (Leave_loop t s stack)
  have r: "ready_queue (impl_of c s) = []" using Leave_loop(3) by (simp add: take_ready_cases impl_of_def)
  have al: "s \<in> alive c" by (rule inv_alive [OF assms(2) Leave_loop(2)]) simp
  have ok: "stack_ok (Exiting s # stack)" using assms(2) Leave_loop(2) by (auto simp: strand_inv_def dest: spec [of _ t])
  show ?thesis
    unfolding Leave_loop(1)
    by (rule inv_step [OF assms(2) al, where f = "\<lambda>x. x" and t = t and stack = "Exiting s # stack"])
      (use Leave_loop(2) r ok in \<open>auto simp: upd_strand_def strand_ok_def split: if_splits\<close>)
next
  case (Throw t s a s' stack)
  have inv': "Ready_loop s' \<in> set (stacks c t)" using Throw(2) by simp
  have al: "s' \<in> alive c" using holders_in [OF inv', of s'] assms(2) by (auto simp: strand_inv_def)
  have ok: "stack_ok (Unwinding s' # stack)" using assms(2) Throw(2) by (auto simp: strand_inv_def dest: spec [of _ t])
  show ?thesis
    unfolding Throw(1)
    by (rule inv_step [OF assms(2) al, where f = "\<lambda>x. x" and t = t and stack = "Unwinding s' # stack"])
      (use Throw(2) ok in \<open>auto simp: upd_strand_def strand_ok_def split: if_splits\<close>)
next
  case (Exit t fr stack s again v)
  have al: "s \<in> alive c" by (rule inv_alive [OF assms(2) Exit(2)]) (use Exit(3) in auto)
  have ok: "stack_ok stack" "in_user_code stack" using assms(2) Exit(2,3) by (auto simp: strand_inv_def dest: spec [of _ t])
  let ?f = "\<lambda>x. x\<lparr>ready_queue := ready_queue x @ waiting_queue x, waiting_queue := [], locked := again\<rparr>"
  have a: "again \<longleftrightarrow> ready_queue (impl_of c s) @ waiting_queue (impl_of c s) \<noteq> []" and v: "v = upd_strand s ?f (service c)"
    using Exit(4) by (auto simp: push_waiting_to_ready_def upd_strand_def impl_of_def Let_def)
  have own: "owns_strand s fr" using Exit(3) by auto
  show ?thesis
    unfolding Exit(1)
  proof (rule inv_step [OF assms(2) al, where f = ?f and t = t and stack = "if again then Scheduling s False # stack else stack"], goal_cases)
    case (11 R)
    have "strand_ok s (impl_of c s) (count (invokers c) s) (add_mset fr (mset (filter (owns_strand s) stack) + R)) (accepted c s) (begun c s)"
      using 11 own by (simp add: Exit(2))
    from strand_ok_exit [OF this Exit(3) a] show ?case by (simp split: if_splits)
  qed (use Exit(2,3) ok v in \<open>auto split: if_splits\<close>)
next
  case (Return t s a stack)
  have ok: "stack_ok stack" using assms(2) Return(2) by (auto simp: strand_inv_def dest: spec [of _ t])
  have h: "holders (set_stack t stack c) s' = holders c s'" for s'
    using holders_split [of c s' t] Return(2) by (metis (no_types, lifting) filter.simps(2) owns_strand.simps(1))
  show ?thesis
    using assms(2) ok h unfolding Return(1) by (simp add: strand_inv_def)
qed

section \<open>Every call keeps the invariant\<close>

lemma strand_inv_same:
  assumes "strand_inv c" "service c' = service c" "alive c' = alive c" "invokers c' = invokers c"
    "accepted c' = accepted c" "begun c' = begun c" "\<And>t. stack_ok (stacks c' t)" "\<And>s. holders c' s = holders c s"
  shows "strand_inv c'"
  using assms by (simp add: strand_inv_def impl_of_def)

lemma request_keeps_inv:
  assumes "strand_inv c" "in_user_code (stacks c t)" "s \<in> alive c"
    and "exec_request req s a (service c, stacks c t) = (res, v, stack)"
    and "acc = (if res = Some Enqueued \<or> res = Some Acquired_lock then (accepted c)(s := accepted c s @ [a]) else accepted c)"
  shows "strand_inv (set_stack t stack (c\<lparr>service := v, accepted := acc\<rparr>))"
proof -
  have ok: "stack_ok (stacks c t)" using assms(1) by (simp add: strand_inv_def)
  have res: "res = None \<and> v = service c \<and> stack = Handler s a # stacks c t \<and> Ready_loop s \<in> set (stacks c t) \<or>
    (\<exists>inline r. add_function inline s a (service c, stacks c t) = (r, v, stack) \<and> res = Some r)"
    using assms(4) by (cases req)
      (auto simp: strand_do_execute_def strand_dispatch_def strand_post_def strand_defer_def running_in_this_thread_def
        apfst_def map_prod_def split: if_splits prod.splits)
  consider (now) "res = None" "v = service c" "stack = Handler s a # stacks c t" "Ready_loop s \<in> set (stacks c t)"
    | (refused) "res = Some Refused" "v = service c" "stack = stacks c t"
    | (queued) "res = Some Enqueued" "v = upd_strand s (\<lambda>x. x\<lparr>waiting_queue := waiting_queue x @ [a]\<rparr>) (service c)"
        "stack = stacks c t" "locked (impl_of c s)" "\<not> shut_down (impl_of c s)"
    | (first) inline where "res = Some Acquired_lock" "v = upd_strand s (\<lambda>x. x\<lparr>locked := True\<rparr>) (service c)"
        "stack = Acquired s a inline # stacks c t" "\<not> locked (impl_of c s)" "\<not> shut_down (impl_of c s)"
    using res by (auto simp: add_function_def enqueue_locked_def impl_of_def split: if_splits)
  then show ?thesis
  proof cases
    case now
    let ?c = "set_stack t stack (c\<lparr>service := v, accepted := acc\<rparr>)"
    have h: "holders ?c s' = holders c s'" for s'
    proof -
      let ?d = "c\<lparr>service := v, accepted := acc\<rparr>"
      obtain R where R: "holders ?d s' = mset (filter (owns_strand s') (stacks ?d t)) + R"
        "holders ?c s' = mset (filter (owns_strand s') stack) + R" using holders_split [of ?d s' t] by blast
      have "holders ?d s' = holders c s'" by (simp add: holders_def)
      then show ?thesis using R by (simp add: now(3))
    qed
    show ?thesis
      by (rule strand_inv_same [OF assms(1) _ _ _ _ _ _ h]) (use now assms(1,5) ok in \<open>auto simp: strand_inv_def\<close>)
  next
    case refused
    have "set_stack t stack (c\<lparr>service := v, accepted := acc\<rparr>) = c"
      using refused assms(5) by (simp add: set_stack_def)
    then show ?thesis using assms(1) by simp
  next
    case queued
    show ?thesis
      by (rule inv_step [OF assms(1,3), where f = "\<lambda>x. x\<lparr>waiting_queue := waiting_queue x @ [a]\<rparr>" and t = t and stack = "stacks c t"])
        (use queued assms(5) ok in \<open>auto simp: strand_ok_def\<close>)
  next
    case first
    have "stack_ok (Acquired s a inline # stacks c t)" using assms(2) ok by simp
    moreover have "strand_ok s (impl_of c s) (count (invokers c) s) (holders c s) (accepted c s) (begun c s)"
      using assms(1,3) by (simp add: strand_inv_def)
    then have e: "count (invokers c) s = 0" "holders c s = {#}" "waiting_queue (impl_of c s) = []" "ready_queue (impl_of c s) = []"
      "accepted c s = begun c s"
      using first(4,5) by (auto simp: strand_ok_def)
    ultimately show ?thesis
      by (intro inv_step [OF assms(1,3), where f = "\<lambda>x. x\<lparr>locked := True\<rparr>" and t = t and stack = "Acquired s a inline # stacks c t"])
        (use first assms(5) in \<open>auto simp: strand_ok_def\<close>)
  qed
qed

text \<open>Calls that leave the threads alone.\<close>

lemma inv_service:
  assumes "strand_inv c" "stacks c' = stacks c" "invokers c' = invokers c"
    and "strands_linked (service c') xs" "set xs = alive c'"
    and "\<And>s. s \<notin> alive c' \<Longrightarrow> s \<notin> alive c \<or> s \<notin># invokers c \<and> holders c s = {#}"
    and "\<And>s. s \<in> alive c' \<Longrightarrow>
      strand_ok s (impl_of c' s) (count (invokers c) s) (holders c s) (accepted c' s) (begun c' s)"
  shows "strand_inv c'"
proof -
  have "holders c' s = holders c s" for s by (simp add: holders_def assms(2))
  then show ?thesis using assms unfolding strand_inv_def by metis
qed

definition same_content :: "'op strand_impl \<Rightarrow> 'op strand_impl \<Rightarrow> bool" where
  "same_content x y \<longleftrightarrow> locked x = locked y \<and> shut_down x = shut_down y \<and> waiting_queue x = waiting_queue y \<and> ready_queue x = ready_queue y"

lemma strand_ok_content: "same_content x y \<Longrightarrow> strand_ok s x n own acc beg = strand_ok s y n own acc beg"
  by (simp add: same_content_def strand_ok_def)

lemma create_implementation_links:
  assumes "strands_linked v xs" "p \<notin> set xs"
  shows "strands_linked (create_implementation p v) (p # xs)"
    and "s \<noteq> p \<Longrightarrow> same_content (strands (create_implementation p v) s) (strands v s)"
    and "impl_mutex (strands (create_implementation p v) p) < 193"
    and "\<not> locked (strands (create_implementation p v) p) \<and> \<not> shut_down (strands (create_implementation p v) p) \<and>
      waiting_queue (strands (create_implementation p v) p) = [] \<and> ready_queue (strands (create_implementation p v) p) = []"
proof -
  let ?v = "create_implementation p v"
  have d: "dseg (\<lambda>s. impl_next (strands v s)) (\<lambda>s. impl_prev (strands v s)) None (impl_list v) xs None" "distinct xs"
    using assms(1) by (simp_all add: strands_linked_def)
  have ne: "impl_list v \<noteq> Some p" using dseg_head [OF d(1)] assms(2) by (cases xs) auto
  have "dseg (\<lambda>s. impl_next (strands ?v s)) (\<lambda>s. impl_prev (strands ?v s)) None (Some p) (p # xs) None"
    by (rule dseg_push [OF d assms(2)])
      (use ne assms(2) in \<open>auto simp: create_implementation_def Let_def upd_strand_def upd_strand_opt_def split: option.splits\<close>)
  then show "strands_linked ?v (p # xs)"
    using d(2) assms(2) by (simp add: strands_linked_def) (simp add: create_implementation_def Let_def)
  show "s \<noteq> p \<Longrightarrow> same_content (strands ?v s) (strands v s)"
    by (auto simp: create_implementation_def Let_def upd_strand_def upd_strand_opt_def same_content_def split: option.splits)
  have "unat (m mod num_mutexes) < 193" for m :: u64
    using word_mod_less_divisor [of num_mutexes m] by (simp add: num_mutexes_def word_less_nat_alt)
  then show "impl_mutex (strands ?v p) < 193"
    using ne by (auto simp: create_implementation_def Let_def upd_strand_def upd_strand_opt_def mutex_index_def split: option.splits)
  show "\<not> locked (strands ?v p) \<and> \<not> shut_down (strands ?v p) \<and> waiting_queue (strands ?v p) = [] \<and> ready_queue (strands ?v p) = []"
    using ne by (auto simp: create_implementation_def Let_def upd_strand_def upd_strand_opt_def split: option.splits)
qed

lemma destroy_implementation_links:
  assumes "strands_linked v (xs @ p # ys)"
  shows "strands_linked (destroy_implementation p v) (xs @ ys)"
    and "same_content (strands (destroy_implementation p v) s) (strands v s)"
proof -
  let ?v = "destroy_implementation p v"
  have d: "dseg (\<lambda>s. impl_next (strands v s)) (\<lambda>s. impl_prev (strands v s)) None (impl_list v) (xs @ p # ys) None" "distinct (xs @ p # ys)"
    using assms by (simp_all add: strands_linked_def)
  have l: "impl_list ?v = (if impl_list v = Some p then impl_next (strands v p) else impl_list v)"
    by (simp add: destroy_implementation_def Let_def upd_strand_def upd_strand_opt_def split: option.split)
  have "dseg (\<lambda>s. impl_next (strands ?v s)) (\<lambda>s. impl_prev (strands ?v s)) None (impl_list ?v) (xs @ ys) None"
    unfolding l
    by (rule dseg_unlink [OF d])
      (auto simp: destroy_implementation_def Let_def upd_strand_def upd_strand_opt_def split: option.splits)
  then show "strands_linked ?v (xs @ ys)" using d(2) by (simp add: strands_linked_def)
  show "same_content (strands ?v s) (strands v s)"
    by (auto simp: destroy_implementation_def Let_def upd_strand_def upd_strand_opt_def same_content_def split: option.splits)
qed

lemma shutdown_loop_result:
  assumes "dseg (\<lambda>s. impl_next (strands v s)) (\<lambda>s. impl_prev (strands v s)) b p xs None" "distinct xs"
  shows "\<exists>v'. shutdown_loop p v ops = Some (v', ops @ concat (map (\<lambda>s. waiting_queue (strands v s) @ ready_queue (strands v s)) xs)) \<and>
    impl_list v' = impl_list v \<and>
    (\<forall>s. strands v' s = (if s \<in> set xs then (strands v s)\<lparr>shut_down := True, waiting_queue := [], ready_queue := []\<rparr> else strands v s))"
  using assms
proof (induction xs arbitrary: b p v ops)
  case Nil
  then show ?case by (subst shutdown_loop.simps) simp
next
  case (Cons s xs)
  let ?v = "upd_strand s (\<lambda>x. x\<lparr>shut_down := True, waiting_queue := [], ready_queue := []\<rparr>) v"
  let ?ops = "ops @ waiting_queue (strands v s) @ ready_queue (strands v s)"
  have p: "p = Some s" using Cons.prems(1) by simp
  have same: "strands ?v s' = strands v s'" if "s' \<in> set xs" for s' using that Cons.prems(2) by (auto simp: upd_strand_def)
  have "dseg (\<lambda>s. impl_next (strands ?v s)) (\<lambda>s. impl_prev (strands ?v s)) (Some s) (impl_next (strands v s)) xs None"
    using Cons.prems(1) dseg_cong [of xs "\<lambda>s. impl_next (strands ?v s)" "\<lambda>s. impl_next (strands v s)"
        "\<lambda>s. impl_prev (strands ?v s)" "\<lambda>s. impl_prev (strands v s)"] same by simp
  from Cons.IH [OF this, of ?ops] Cons.prems(2) obtain v' where v': "shutdown_loop (impl_next (strands v s)) ?v ?ops =
      Some (v', ?ops @ concat (map (\<lambda>s'. waiting_queue (strands ?v s') @ ready_queue (strands ?v s')) xs))"
    "impl_list v' = impl_list ?v"
    "\<forall>s'. strands v' s' = (if s' \<in> set xs then (strands ?v s')\<lparr>shut_down := True, waiting_queue := [], ready_queue := []\<rparr> else strands ?v s')"
    by auto
  have m: "map (\<lambda>s'. waiting_queue (strands ?v s') @ ready_queue (strands ?v s')) xs = map (\<lambda>s'. waiting_queue (strands v s') @ ready_queue (strands v s')) xs"
    using same by simp
  have "shutdown_loop p v ops = shutdown_loop (impl_next (strands v s)) ?v ?ops"
    unfolding p by (subst shutdown_loop.simps) (simp add: Let_def)
  then have "shutdown_loop p v ops =
      Some (v', ops @ concat (map (\<lambda>s. waiting_queue (strands v s) @ ready_queue (strands v s)) (s # xs)))"
    unfolding v'(1) m by simp
  moreover have "impl_list v' = impl_list v" using v'(2) by (simp add: upd_strand_def)
  moreover have "strands v' s' = (if s' \<in> set (s # xs)
      then (strands v s')\<lparr>shut_down := True, waiting_queue := [], ready_queue := []\<rparr> else strands v s')" for s'
    using v'(3) Cons.prems(2) by (simp add: upd_strand_def)
  ultimately show ?case by (intro exI [of _ v']) blast
qed

lemma call_keeps_inv:
  assumes "strand_call c c'" "strand_inv c"
  shows "strand_inv c'"
  using assms(1)
proof cases
  case (Request t s req a res v stack acc)
  show ?thesis unfolding Request(1) by (rule request_keeps_inv [OF assms(2) Request(2-5)])
next
  case (Create s)
  obtain xs where xs: "strands_linked (service c) xs" "set xs = alive c" using assms(2) by (auto simp: strand_inv_def)
  have s: "s \<notin> set xs" "s \<notin># invokers c" "holders c s = {#}" using assms(2) Create(2) xs(2) by (simp_all add: strand_inv_def)
  note l = create_implementation_links [OF xs(1) s(1)]
  show ?thesis
  proof (rule inv_service [OF assms(2)])
    show "strands_linked (service c') (s # xs)" "set (s # xs) = alive c'" using l(1) xs(2) by (simp_all add: Create(1))
    fix s' assume "s' \<in> alive c'"
    show "strand_ok s' (impl_of c' s') (count (invokers c) s') (holders c s') (accepted c' s') (begun c' s')"
    proof (cases "s' = s")
      case True
      then show ?thesis using l(4) s(2,3) by (simp add: Create(1) impl_of_def strand_ok_def count_eq_zero_iff)
    next
      case False
      then have "s' \<in> alive c" using \<open>s' \<in> alive c'\<close> by (simp add: Create(1))
      then show ?thesis
        using assms(2) strand_ok_content [OF l(2) [OF False]] False by (simp add: strand_inv_def Create(1) impl_of_def)
    qed
  qed (simp_all add: Create(1))
next
  case (Release s)
  obtain zs where zs: "strands_linked (service c) zs" "set zs = alive c" using assms(2) by (auto simp: strand_inv_def)
  then obtain xs ys where sp: "zs = xs @ s # ys" using Release(2) by (metis split_list)
  note l = destroy_implementation_links [OF zs(1) [unfolded sp]]
  have "\<not> owns_strand s fr" if "fr \<in> set (stacks c t)" for fr t
    using Release(4) that by (cases fr) force+
  then have h: "holders c s = {#}" by (simp add: holders_def filter_empty_conv)
  have "distinct zs" using zs(1) by (simp add: strands_linked_def)
  then have set: "set (xs @ ys) = alive c - {s}" using zs(2) by (auto simp: sp)
  show ?thesis
  proof (rule inv_service [OF assms(2)])
    show "strands_linked (service c') (xs @ ys)" "set (xs @ ys) = alive c'" using l(1) set by (simp_all add: Release(1))
    show "s' \<notin> alive c \<or> s' \<notin># invokers c \<and> holders c s' = {#}" if "s' \<notin> alive c'" for s'
      using that Release(3) h by (cases "s' = s") (simp_all add: Release(1))
    show "strand_ok s' (impl_of c' s') (count (invokers c) s') (holders c s') (accepted c' s') (begun c' s')" if "s' \<in> alive c'" for s'
      using that assms(2) strand_ok_content [OF l(2) [of s']] by (simp add: strand_inv_def Release(1) impl_of_def)
  qed (simp_all add: Release(1))
next
  case (Shutdown v ops)
  obtain xs where xs: "strands_linked (service c) xs" "set xs = alive c" using assms(2) by (auto simp: strand_inv_def)
  then have d: "dseg (\<lambda>s. impl_next (strands (service c) s)) (\<lambda>s. impl_prev (strands (service c) s)) None (impl_list (service c)) xs None" "distinct xs"
    by (simp_all add: strands_linked_def)
  have v: "impl_list v = impl_list (service c)" "strands v s = (if s \<in> set xs
      then (strands (service c) s)\<lparr>shut_down := True, waiting_queue := [], ready_queue := []\<rparr> else strands (service c) s)" for s
    using shutdown_loop_result [OF d, of "[]"] Shutdown(3) by (auto simp: strand_shutdown_def)
  have "dseg (\<lambda>s. impl_next (strands v s)) (\<lambda>s. impl_prev (strands v s)) None (impl_list v) xs None"
    using d(1) dseg_cong [of xs "\<lambda>s. impl_next (strands v s)" "\<lambda>s. impl_next (strands (service c) s)"
        "\<lambda>s. impl_prev (strands v s)" "\<lambda>s. impl_prev (strands (service c) s)"] v by simp
  then have l: "strands_linked v xs" using d(2) by (simp add: strands_linked_def)
  have h: "holders c s = {#}" for s using Shutdown(2) by (simp add: holders_def)
  show ?thesis
  proof (rule inv_service [OF assms(2)])
    show "strands_linked (service c') xs" "set xs = alive c'" using l xs(2) by (simp_all add: Shutdown(1))
    show "strand_ok s (impl_of c' s) (count (invokers c) s) (holders c s) (accepted c' s) (begun c' s)" if "s \<in> alive c'" for s
    proof -
      have "strand_ok s (impl_of c s) (count (invokers c) s) (holders c s) (accepted c s) (begun c s)"
        using assms(2) that by (simp add: strand_inv_def Shutdown(1))
      then show ?thesis using that xs(2) v(2) [of s] h [of s] by (auto simp: strand_ok_def Shutdown(1) impl_of_def)
    qed
  qed (simp_all add: Shutdown(1))
qed

lemma start_inv: "strand_inv (strand_start st)"
  unfolding strand_inv_def
  by (auto simp: strand_start_def strands_linked_def new_strand_service_def holders_def intro!: exI [of _ "[]"])

lemma reachable_inv: "strand_reachable c \<Longrightarrow> strand_inv c"
proof -
  assume "strand_reachable c"
  then obtain st where "strand_step\<^sup>*\<^sup>* (strand_start st) c" by (auto simp: strand_reachable_def)
  then show ?thesis
  proof (induction rule: rtranclp_induct)
    case (step c1 c2)
    then show ?case using call_keeps_inv internal_keeps_inv by (auto simp: strand_step_def)
  qed (rule start_inv)
qed

end
