(* ===== verification/Strand_Properties.thy ===== *)
theory Strand_Properties
  imports Strand_Steps
begin

text \<open>
  The properties of strands: mutual exclusion, the order of the functions, that a function which was
  added is not forgotten, and the shutdown of the service.
\<close>

lemma reachable_strand_ok:
  assumes "strand_reachable c" "s \<in> alive c"
  shows "strand_ok s (impl_of c s) (count (invokers c) s) (holders c s) (accepted c s) (begun c s)"
  using reachable_inv [OF assms(1)] assms(2) by (simp add: strand_inv_def)

lemma holders_two:
  assumes "fr \<in> set (stacks c t)" "owns_strand s fr" "fr' \<in> set (stacks c u)" "owns_strand s fr'" "t \<noteq> u"
  shows "2 \<le> size (holders c s)"
proof -
  have "size (holders c s) = (\<Sum>v\<in>UNIV. length (filter (owns_strand s) (stacks c v)))"
    by (simp add: holders_def size_multiset_sum flip: mset_filter)
  moreover have "(\<Sum>v\<in>{t, u}. length (filter (owns_strand s) (stacks c v))) \<le> (\<Sum>v\<in>UNIV. length (filter (owns_strand s) (stacks c v)))"
    by (rule sum_mono2) simp_all
  moreover have "(\<Sum>v\<in>{t, u}. length (filter (owns_strand s) (stacks c v))) =
      length (filter (owns_strand s) (stacks c t)) + length (filter (owns_strand s) (stacks c u))" using assms(5) by simp
  moreover have "0 < length (filter (owns_strand s) (stacks c t))" "0 < length (filter (owns_strand s) (stacks c u))"
    using assms(1-4) by (auto simp: filter_empty_conv)
  ultimately show ?thesis by linarith
qed

lemma handler_in_loop: "stack_ok stack \<Longrightarrow> Handler s a \<in> set stack \<Longrightarrow> Ready_loop s \<in> set stack"
  by (induction stack rule: stack_ok.induct) auto

section \<open>The work that is left\<close>

fun frame_work :: "'op frame \<Rightarrow> nat" where
  "frame_work (Handler s a) = 20"
| "frame_work (Ready_loop s) = 8"
| "frame_work (Exiting s) = 7"
| "frame_work (Unwinding s) = 12"
| "frame_work (Acquired s a inline) = 60"
| "frame_work (Scheduling s inline) = 10"

definition queue_work :: "'op strand_impl \<Rightarrow> nat" where
  "queue_work x = 50 * length (waiting_queue x) + 40 * length (ready_queue x)"

definition strand_work :: "('t :: finite, 'op) strand_config \<Rightarrow> nat" where
  "strand_work c = (\<Sum>s\<in>UNIV. queue_work (impl_of c s)) + 9 * size (invokers c) + (\<Sum>t\<in>UNIV. sum_list (map frame_work (stacks c t)))"

lemma strand_work_step:
  fixes c :: "('t :: finite, 'op) strand_config"
  assumes "service c' = upd_strand s f (service c)" "stacks c' = (stacks c)(t := stack)"
    and "queue_work (f (impl_of c s)) + 9 * size (invokers c') + sum_list (map frame_work stack)
      < queue_work (impl_of c s) + 9 * size (invokers c) + sum_list (map frame_work (stacks c t))"
  shows "strand_work c' < strand_work c"
proof -
  have impl: "impl_of c' s' = (if s' = s then f (impl_of c s) else impl_of c s')" for s'
    by (simp add: impl_of_def assms(1) upd_strand_def)
  have "(\<Sum>s'\<in>UNIV. queue_work (impl_of c' s')) = queue_work (f (impl_of c s)) + (\<Sum>s'\<in>UNIV - {s}. queue_work (impl_of c s'))"
    "(\<Sum>s'\<in>UNIV. queue_work (impl_of c s')) = queue_work (impl_of c s) + (\<Sum>s'\<in>UNIV - {s}. queue_work (impl_of c s'))"
    by (subst sum.remove [of _ s]; simp add: impl)+
  moreover have "(\<Sum>u\<in>UNIV. sum_list (map frame_work (stacks c' u))) =
      sum_list (map frame_work stack) + (\<Sum>u\<in>UNIV - {t}. sum_list (map frame_work (stacks c u)))"
    "(\<Sum>u\<in>UNIV. sum_list (map frame_work (stacks c u))) =
      sum_list (map frame_work (stacks c t)) + (\<Sum>u\<in>UNIV - {t}. sum_list (map frame_work (stacks c u)))"
    by (subst sum.remove [of _ t]; simp add: assms(2))+
  ultimately show ?thesis using assms(3) by (simp add: strand_work_def)
qed

lemma upd_strand_id: "v = upd_strand s (\<lambda>x. x) v"
  by (simp add: upd_strand_def)

lemma internal_decreases:
  assumes "strand_internal c c'" "strand_inv c"
  shows "strand_work c' < strand_work c"
  using assms(1)
proof cases
  case (Push t s a inline stack)
  then show ?thesis
    by (intro strand_work_step [where s = s and t = t and f = "\<lambda>x. x\<lparr>ready_queue := ready_queue x @ [a]\<rparr>" and stack = "Scheduling s inline # stack"])
      (simp_all add: push_ready_def queue_work_def)
next
  case (Submit t s inline stack)
  then show ?thesis
    by (intro strand_work_step [where s = s and t = t and f = "\<lambda>x. x" and stack = stack]) (simp_all add: upd_strand_def)
next
  case (Invoke_now t s stack)
  then show ?thesis
    by (intro strand_work_step [where s = s and t = t and f = "\<lambda>x. x" and stack = "Ready_loop s # stack"]) (simp_all add: upd_strand_def)
next
  case (Invoke t s)
  then have "size (invokers c) = Suc (size (invokers c - {#s#}))" by (metis insert_DiffM size_add_mset)
  then show ?thesis
    using Invoke
    by (intro strand_work_step [where s = s and t = t and f = "\<lambda>x. x" and stack = "Ready_loop s # stacks c t"]) (simp_all add: upd_strand_def)
next
  case (Take t s stack a v)
  then obtain rest where "ready_queue (impl_of c s) = a # rest" "v = upd_strand s (\<lambda>x. x\<lparr>ready_queue := rest\<rparr>) (service c)"
    by (auto simp: take_ready_cases impl_of_def)
  then show ?thesis
    using Take
    by (intro strand_work_step [where s = s and t = t and f = "\<lambda>x. x\<lparr>ready_queue := rest\<rparr>" and stack = "Handler s a # Ready_loop s # stack"])
      (simp_all add: queue_work_def)
next
  case (Leave_loop t s stack)
  then show ?thesis
    by (intro strand_work_step [where s = s and t = t and f = "\<lambda>x. x" and stack = "Exiting s # stack"]) (simp_all add: upd_strand_def)
next
  case (Return t s a stack)
  then show ?thesis
    by (intro strand_work_step [where s = s and t = t and f = "\<lambda>x. x" and stack = stack]) (simp_all add: upd_strand_def)
next
  case (Throw t s a s' stack)
  then show ?thesis
    by (intro strand_work_step [where s = s and t = t and f = "\<lambda>x. x" and stack = "Unwinding s' # stack"]) (simp_all add: upd_strand_def)
next
  case (Exit t fr stack s again v)
  let ?f = "\<lambda>x. x\<lparr>ready_queue := ready_queue x @ waiting_queue x, waiting_queue := [], locked := again\<rparr>"
  have v: "v = upd_strand s ?f (service c)" "again \<longleftrightarrow> ready_queue (impl_of c s) @ waiting_queue (impl_of c s) \<noteq> []"
    using Exit(4) by (auto simp: push_waiting_to_ready_def upd_strand_def impl_of_def Let_def)
  have "ready_queue (impl_of c s) = []" if "fr = Exiting s"
  proof -
    have e: "owns_strand s fr" "fr \<in> set (stacks c t)" using that Exit(2) by simp_all
    have "s \<in> alive c" by (rule inv_alive [OF assms(2) Exit(2) e(1)])
    then have "strand_ok s (impl_of c s) (count (invokers c) s) (holders c s) (accepted c s) (begun c s)"
      using assms(2) by (simp add: strand_inv_def)
    then show ?thesis using holders_in [OF e(2,1)] that by (simp add: strand_ok_def)
  qed
  moreover have "queue_work (?f x) = 40 * length (ready_queue x) + 40 * length (waiting_queue x)" for x :: "'b strand_impl"
    by (simp add: queue_work_def)
  ultimately have "queue_work (?f (impl_of c s)) + (if again then 10 else 0) < queue_work (impl_of c s) + frame_work fr"
    using Exit(3) v(2) by (cases "waiting_queue (impl_of c s)") (auto simp: queue_work_def split: if_splits)
  then show ?thesis
    using Exit(1,2) v(1)
    by (intro strand_work_step [where s = s and t = t and f = ?f and stack = "if again then Scheduling s False # stack else stack"]) (simp_all split: if_splits)
qed

text \<open>A step is possible as long as a thread is in the library or an invoker is left.\<close>

lemma internal_enabled:
  assumes "stacks c t \<noteq> [] \<or> invokers c \<noteq> {#}"
  shows "\<exists>c'. strand_internal c c'"
proof (cases "stacks c t")
  case Nil
  then obtain s where "s \<in># invokers c" using assms by auto
  then show ?thesis using Invoke [of c t s] Nil by (auto simp: in_user_code_def)
next
  case (Cons fr stack)
  show ?thesis
  proof (cases fr)
    case (Ready_loop s)
    then show ?thesis using Take [of c t s stack] Leave_loop [of c t s stack] Cons by (cases "take_ready s (service c)") auto
  next
    case (Exiting s)
    obtain again v where "push_waiting_to_ready s (service c) = (again, v)" by (cases "push_waiting_to_ready s (service c)")
    then show ?thesis using Exit [of c t fr stack s again v] Cons Exiting by blast
  next
    case (Unwinding s)
    obtain again v where "push_waiting_to_ready s (service c) = (again, v)" by (cases "push_waiting_to_ready s (service c)")
    then show ?thesis using Exit [of c t fr stack s again v] Cons Unwinding by blast
  next
    case (Handler s a)
    then show ?thesis using Return [of c t s a stack] Cons by blast
  next
    case (Acquired s a inline)
    then show ?thesis using Push [of c t s a inline stack] Cons by blast
  next
    case (Scheduling s inline)
    then show ?thesis using Submit [of c t s inline stack] Cons by blast
  qed
qed

definition quiet :: "('t, 'op) strand_config \<Rightarrow> bool" where
  "quiet c \<longleftrightarrow> (\<forall>t. stacks c t = []) \<and> invokers c = {#}"

lemma quiet_reached:
  assumes "strand_inv c"
  shows "\<exists>c'. strand_internal\<^sup>*\<^sup>* c c' \<and> quiet c' \<and> strand_inv c'"
  using assms
proof (induction "strand_work c" arbitrary: c rule: less_induct)
  case less
  show ?case
  proof (cases "quiet c")
    case False
    then obtain c1 where c1: "strand_internal c c1" using internal_enabled [of c] by (auto simp: quiet_def)
    obtain c2 where "strand_internal\<^sup>*\<^sup>* c1 c2" "quiet c2" "strand_inv c2"
      using less.hyps [OF internal_decreases [OF c1 less.prems] internal_keeps_inv [OF c1 less.prems]] by blast
    then show ?thesis using c1 by (meson converse_rtranclp_into_rtranclp)
  qed (use less.prems in blast)
qed

lemma internal_frame: "strand_internal c c' \<Longrightarrow> accepted c' = accepted c \<and> alive c' = alive c"
  by (cases rule: strand_internal.cases) auto

lemma internal_run:
  assumes "strand_internal\<^sup>*\<^sup>* c c'"
  shows "accepted c' = accepted c \<and> alive c' = alive c \<and>
    (\<forall>s. shut_down (impl_of c' s) = shut_down (impl_of c s))"
  using assms
proof (induction rule: rtranclp_induct)
  case (step c1 c2)
  have "shut_down (impl_of c2 s) = shut_down (impl_of c1 s)" for s
    using step.hyps(2)
    by (cases rule: strand_internal.cases)
      (auto simp: impl_of_def upd_strand_def push_ready_def push_waiting_to_ready_def take_ready_cases Let_def split: if_splits)
  then show ?case using step.IH internal_frame [OF step.hyps(2)] by simp
qed simp

section \<open>Two threads and one strand\<close>

text \<open>
  The strand 8 and the functions 1 and 2: the thread \<open>True\<close> posts the first, which the thread \<open>False\<close>
  takes; meanwhile the thread \<open>True\<close> posts the second.
\<close>

definition strand_demo_impl :: "bool \<Rightarrow> nat list \<Rightarrow> nat list \<Rightarrow> nat strand_impl" where
  "strand_demo_impl l w r = \<lparr>impl_mutex = mutex_index 8 0, locked = l, shut_down = False, waiting_queue = w, ready_queue = r,
     impl_next = None, impl_prev = None\<rparr>"

definition strand_demo ::
  "bool \<Rightarrow> nat list \<Rightarrow> nat list \<Rightarrow> nat frame list \<Rightarrow> nat frame list \<Rightarrow> sref multiset \<Rightarrow> nat list \<Rightarrow> nat list \<Rightarrow> (bool, nat) strand_config" where
  "strand_demo l w r st sf ivs acc beg =
     \<lparr>service = \<lparr>mutexes = (\<lambda>_. False)(mutex_index 8 0 := True), salt = 1, impl_list = Some 8,
        strands = (\<lambda>_. strand_demo_impl False [] [])(8 := strand_demo_impl l w r)\<rparr>,
      stacks = (\<lambda>t. if t then st else sf), invokers = ivs, alive = {8},
      accepted = (\<lambda>_. [])(8 := acc), begun = (\<lambda>_. [])(8 := beg)\<rparr>"

lemma strand_demo_steps:
  "strand_step (strand_start (\<lambda>_. strand_demo_impl False [] [])) (strand_demo False [] [] [] [] {#} [] [])"
  "strand_step (strand_demo False [] [] [] [] {#} [] []) (strand_demo True [] [] [Acquired 8 1 False] [] {#} [1] [])"
  "strand_step (strand_demo True [] [] [Acquired 8 1 False] [] {#} [1] []) (strand_demo True [] [1] [Scheduling 8 False] [] {#} [1] [])"
  "strand_step (strand_demo True [] [1] [Scheduling 8 False] [] {#} [1] []) (strand_demo True [] [1] [] [] {#8#} [1] [])"
  "strand_step (strand_demo True [] [1] [] [] {#8#} [1] []) (strand_demo True [] [1] [] [Ready_loop 8] {#} [1] [])"
  "strand_step (strand_demo True [] [1] [] [Ready_loop 8] {#} [1] []) (strand_demo True [] [] [] [Handler 8 1, Ready_loop 8] {#} [1] [1])"
  "strand_step (strand_demo True [] [] [] [Handler 8 1, Ready_loop 8] {#} [1] [1])
     (strand_demo True [2] [] [] [Handler 8 1, Ready_loop 8] {#} [1, 2] [1])"
proof -
  let ?s = "strand_start (\<lambda>_. strand_demo_impl False [] []) :: (bool, nat) strand_config"
  let ?c2 = "strand_demo False [] [] [] [] {#} [] []" and ?c3 = "strand_demo True [] [] [Acquired 8 1 False] [] {#} [1] []"
    and ?c4 = "strand_demo True [] [1] [Scheduling 8 False] [] {#} [1] []" and ?c5 = "strand_demo True [] [1] [] [] {#8#} [1] []"
    and ?c6 = "strand_demo True [] [1] [] [Ready_loop 8] {#} [1] []"
    and ?c7 = "strand_demo True [] [] [] [Handler 8 1, Ready_loop 8] {#} [1] [1]"
  have call: "strand_call c c1 \<Longrightarrow> c1 = c2 \<Longrightarrow> strand_step c c2" and internal: "strand_internal c c1 \<Longrightarrow> c1 = c2 \<Longrightarrow> strand_step c c2"
    for c c1 c2 :: "(bool, nat) strand_config" by (simp_all add: strand_step_def)
  note d = strand_demo_def strand_demo_impl_def set_stack_def upd_strand_def fun_eq_iff
  show "strand_step ?s ?c2"
    by (rule call [OF Create [of 8]])
      (simp_all add: strand_start_def new_strand_service_def create_implementation_def Let_def upd_strand_opt_def d)
  show "strand_step ?c2 ?c3"
    by (rule call [OF Request [of _ True 8 Post 1 "Some Acquired_lock" "service ?c3" "[Acquired 8 1 False]" "accepted ?c3"]])
      (simp_all add: in_user_code_def strand_post_def add_function_def enqueue_locked_def d)
  show "strand_step ?c3 ?c4"
    by (rule internal [OF Push [of _ True 8 1 False "[]"]]) (simp_all add: push_ready_def d)
  show "strand_step ?c4 ?c5"
    by (rule internal [OF Submit [of _ True 8 False "[]"]]) (simp_all add: d)
  show "strand_step ?c5 ?c6"
    by (rule internal [OF Invoke [of _ False 8]]) (simp_all add: in_user_code_def d)
  show "strand_step ?c6 ?c7"
    by (rule internal [OF Take [of _ False 8 "[]" 1 "service ?c7"]]) (simp_all add: take_ready_cases d)
  show "strand_step ?c7 (strand_demo True [2] [] [] [Handler 8 1, Ready_loop 8] {#} [1, 2] [1])"
    by (rule call [OF Request [of _ True 8 Post 2 "Some Enqueued"
          "service (strand_demo True [2] [] [] [Handler 8 1, Ready_loop 8] {#} [1, 2] [1])" "[]"
          "accepted (strand_demo True [2] [] [] [Handler 8 1, Ready_loop 8] {#} [1, 2] [1])"]])
      (simp_all add: in_user_code_def strand_post_def add_function_def enqueue_locked_def d)
qed

lemma strand_demo_reachable:
  "strand_reachable (strand_demo True [2] [] [] [Handler 8 1, Ready_loop 8] {#} [1, 2] [1])"
  "strand_reachable (strand_demo False [] [] [] [] {#} [] [])"
  unfolding strand_reachable_def using strand_demo_steps by (meson converse_rtranclp_into_rtranclp r_into_rtranclp)+

section \<open>Properties\<close>

text \<open>
  C31: While a thread runs a function of a strand, however deep in nested dispatches, the strand counts as
  running in that thread, no other thread runs a function of it or does anything else that holds it,
  and no invoker of it is waiting: the functions of a strand never run concurrently.
\<close>

theorem strand_mutual_exclusion:
  fixes c :: "('t :: finite, 'op) strand_config"
  assumes "strand_reachable c" "Handler s a \<in> set (stacks c t)"
  shows "running_in_this_thread s (stacks c t) \<and> s \<in> alive c \<and> s \<notin># invokers c \<and>
    (Handler s b \<in> set (stacks c u) \<longrightarrow> u = t) \<and> (fr \<in> set (stacks c u) \<and> owns_strand s fr \<longrightarrow> u = t)"
proof -
  have inv: "strand_inv c" by (rule reachable_inv [OF assms(1)])
  then have ok: "stack_ok (stacks c v)" for v by (simp add: strand_inv_def)
  have loop: "Ready_loop s \<in> set (stacks c v)" if "Handler s b \<in> set (stacks c v)" for b v
    by (rule handler_in_loop [OF ok that])
  have r: "Ready_loop s \<in> set (stacks c t)" "owns_strand s (Ready_loop s)" using loop [OF assms(2)] by simp_all
  have al: "s \<in> alive c" using holders_in [OF r] inv by (auto simp: strand_inv_def)
  have one: "count (invokers c) s + size (holders c s) \<le> 1"
    using strand_ok_holders [OF reachable_strand_ok [OF assms(1) al]] by (simp split: if_splits)
  moreover have "0 < size (holders c s)" using holders_in [OF r] by (auto simp: nonempty_has_size [symmetric])
  ultimately have n: "s \<notin># invokers c" by (simp add: not_in_iff)
  have other: "u = t" if "fr \<in> set (stacks c u)" "owns_strand s fr" for u fr
    using holders_two [OF that r] one by (cases "u = t") simp_all
  show ?thesis using r(1) al n other [of fr u] other [OF loop, of b u] by (simp add: running_in_this_thread_def)
qed

theorem strand_mutual_exclusion_witness:
  "(8 :: sref) \<notin># invokers (strand_demo True [2] [] [] [Handler 8 1, Ready_loop 8] {#} [1, 2] [1])"
  using strand_mutual_exclusion [OF strand_demo_reachable(1), of 8 1 False] by (simp add: strand_demo_def)

text \<open>
  C32: A strand takes its functions in the order in which they were added, each once: those added are
  those begun, then at most one that its thread is about to put into the ready queue, then the ready
  queue, then the waiting queue. As long as a function has not begun, exactly one invoker or thread
  holds the strand, so the function is not forgotten. After a shutdown no more functions begin.
\<close>

theorem strand_first_in_first_out:
  fixes c :: "('t :: finite, 'op) strand_config"
  assumes "strand_reachable c" "s \<in> alive c"
  shows "prefix (begun c s) (accepted c s) \<and>
    (\<not> shut_down (impl_of c s) \<longrightarrow>
      (\<exists>mid. accepted c s = begun c s @ mid @ ready_queue (impl_of c s) @ waiting_queue (impl_of c s) \<and>
        (mid = [] \<or> (\<exists>t a inline. mid = [a] \<and> Acquired s a inline \<in> set (stacks c t)))) \<and>
      (begun c s \<noteq> accepted c s \<longrightarrow> count (invokers c) s + size (holders c s) = 1)) \<and>
    (shut_down (impl_of c s) \<longrightarrow> ready_queue (impl_of c s) = [] \<and> waiting_queue (impl_of c s) = [])"
proof -
  note ok = reachable_strand_ok [OF assms]
  have from_holder: "\<exists>t. fr \<in> set (stacks c t)" if "fr \<in># holders c s" for fr
  proof (rule ccontr)
    assume "\<nexists>t. fr \<in> set (stacks c t)"
    then have "count (holders c s) fr = 0" by (simp add: holders_def count_sum count_eq_zero_iff flip: mset_filter)
    then show False using that by (simp add: count_eq_zero_iff)
  qed
  show ?thesis
  proof (cases "shut_down (impl_of c s)")
    case False
    have "\<exists>mid. accepted c s = begun c s @ mid @ ready_queue (impl_of c s) @ waiting_queue (impl_of c s) \<and>
        (mid = [] \<or> (\<exists>t a inline. mid = [a] \<and> Acquired s a inline \<in> set (stacks c t)))"
    proof (cases "\<exists>a i. Acquired s a i \<in># holders c s")
      case True
      then obtain a i where a: "Acquired s a i \<in># holders c s" by blast
      then show ?thesis using ok from_holder [OF a] by (intro exI [of _ "[a]"]) (auto simp: strand_ok_def)
    next
      case none: False
      then show ?thesis using ok False by (intro exI [of _ "[]"]) (simp add: strand_ok_def)
    qed
    moreover have "count (invokers c) s + size (holders c s) = 1" if "begun c s \<noteq> accepted c s"
    proof -
      have "locked (impl_of c s)"
      proof (rule ccontr)
        assume "\<not> locked (impl_of c s)"
        then have "holders c s = {#} \<and> begun c s = accepted c s" using ok False by (auto simp: strand_ok_def)
        then show False using that by simp
      qed
      then show ?thesis using ok False by (simp add: strand_ok_def)
    qed
    ultimately show ?thesis using False by auto
  qed (use ok in \<open>simp add: strand_ok_def\<close>)
qed

theorem strand_first_in_first_out_witness:
  "\<exists>mid. [1, 2] = [1] @ mid @ [] @ [2 :: nat] \<and>
     (mid = [] \<or> (\<exists>t a inline. mid = [a] \<and>
        Acquired 8 a inline \<in> set (stacks (strand_demo True [2] [] [] [Handler 8 1, Ready_loop 8] {#} [1, 2] [1]) t)))"
proof -
  let ?c = "strand_demo True [2] [] [] [Handler 8 1, Ready_loop 8] {#} [1, 2] [1]"
  have c: "8 \<in> alive ?c" "\<not> shut_down (impl_of ?c 8)" "accepted ?c 8 = [1, 2]" "begun ?c 8 = [1]"
    "ready_queue (impl_of ?c 8) = []" "waiting_queue (impl_of ?c 8) = [2]"
    by (simp_all add: strand_demo_def impl_of_def strand_demo_impl_def)
  show ?thesis using strand_first_in_first_out [OF strand_demo_reachable(1) c(1)] c(2) unfolding c(3-6) by blast
qed

text \<open>
  C33: Once the program makes no more calls, the library, the inner executor and the functions come to
  rest: a run takes at most \<open>strand_work\<close> steps, it stops only when no thread is in a strand and no invoker
  is left, and then every function that was added to a strand has begun, unless the service was shut
  down, and the strand is not locked. This holds when functions end by exceptions as well.
\<close>

theorem strand_comes_to_rest:
  fixes c :: "('t :: finite, 'op) strand_config"
  assumes "strand_reachable c"
  shows "(\<exists>c'. strand_internal\<^sup>*\<^sup>* c c' \<and> quiet c') \<and>
    ((strand_internal ^^ n) c c' \<longrightarrow> n \<le> strand_work c) \<and>
    (strand_internal\<^sup>*\<^sup>* c c' \<and> \<not> quiet c' \<longrightarrow> (\<exists>c''. strand_internal c' c'')) \<and>
    (strand_internal\<^sup>*\<^sup>* c c' \<and> quiet c' \<and> s \<in> alive c \<and> \<not> shut_down (impl_of c s) \<longrightarrow>
       begun c' s = accepted c s \<and> \<not> locked (impl_of c' s))"
proof -
  have inv: "strand_inv c" by (rule reachable_inv [OF assms])
  have steps: "strand_work c' + n \<le> strand_work c \<and> strand_inv c'" if "(strand_internal ^^ n) c c'" for n c'
    using that
  proof (induction n arbitrary: c')
    case (Suc n)
    then obtain c1 where c1: "(strand_internal ^^ n) c c1" "strand_internal c1 c'" by auto
    show ?case
      using Suc.IH [OF c1(1)] internal_decreases [OF c1(2)] internal_keeps_inv [OF c1(2)] by simp
  qed (use inv in simp)
  have "begun c' s = accepted c s \<and> \<not> locked (impl_of c' s)"
    if run: "strand_internal\<^sup>*\<^sup>* c c'" and q: "quiet c'" and al: "s \<in> alive c" and sh: "\<not> shut_down (impl_of c s)"
  proof -
    obtain m where "(strand_internal ^^ m) c c'" using run by (auto simp: rtranclp_power)
    then have inv': "strand_inv c'" using steps by blast
    note same = internal_run [OF run]
    have ok: "strand_ok s (impl_of c' s) (count (invokers c') s) (holders c' s) (accepted c s) (begun c' s)"
      using inv' al same by (simp add: strand_inv_def)
    have "holders c' s = {#}" "count (invokers c') s = 0" using q by (simp_all add: quiet_def holders_def)
    then show ?thesis using ok sh same by (auto simp: strand_ok_def split: if_splits)
  qed
  then show ?thesis
    using quiet_reached [OF inv] steps [of n c'] internal_enabled [of c'] by (auto simp: quiet_def)
qed

theorem strand_comes_to_rest_witness:
  "\<exists>c'. strand_internal\<^sup>*\<^sup>* (strand_demo True [2] [] [] [Handler 8 1, Ready_loop 8] {#} [1, 2] [1]) c' \<and> quiet c' \<and> begun c' 8 = [1, 2]"
proof -
  let ?c = "strand_demo True [2] [] [] [Handler 8 1, Ready_loop 8] {#} [1, 2] [1]"
  have c: "8 \<in> alive ?c" "\<not> shut_down (impl_of ?c 8)" "accepted ?c 8 = [1, 2]"
    by (simp_all add: strand_demo_def impl_of_def strand_demo_impl_def)
  note rest = strand_comes_to_rest [OF strand_demo_reachable(1)]
  obtain c' where "strand_internal\<^sup>*\<^sup>* ?c c'" "quiet c'" using rest by blast
  then show ?thesis using rest [of _ c' 8] c by auto
qed

text \<open>
  The service knows every living strand: when no thread is in a strand, \<open>shutdown\<close> returns, it hands
  back the functions of all the strands that had not begun, strand by strand, so that they are destroyed,
  and afterwards every strand refuses new functions.
\<close>

theorem strand_shutdown_refuses:
  fixes c :: "('t :: finite, 'op) strand_config"
  assumes "strand_reachable c" "\<forall>t. stacks c t = []"
  shows "\<exists>v ops xs. strand_shutdown (service c) = Some (v, ops) \<and> distinct xs \<and> set xs = alive c \<and>
    ops = concat (map (\<lambda>s. waiting_queue (impl_of c s) @ ready_queue (impl_of c s)) xs) \<and>
    (s \<in> alive c \<longrightarrow> enqueue_locked s a v = (Refused, v) \<and>
       (\<not> shut_down (impl_of c s) \<longrightarrow> accepted c s = begun c s @ ready_queue (impl_of c s) @ waiting_queue (impl_of c s)))"
proof -
  obtain xs where xs: "strands_linked (service c) xs" "set xs = alive c"
    using reachable_inv [OF assms(1)] by (auto simp: strand_inv_def)
  then have d: "dseg (\<lambda>s. impl_next (strands (service c) s)) (\<lambda>s. impl_prev (strands (service c) s)) None (impl_list (service c)) xs None" "distinct xs"
    by (simp_all add: strands_linked_def)
  obtain v where v: "shutdown_loop (impl_list (service c)) (service c) [] =
      Some (v, [] @ concat (map (\<lambda>s. waiting_queue (strands (service c) s) @ ready_queue (strands (service c) s)) xs))"
    "\<forall>s. strands v s = (if s \<in> set xs then (strands (service c) s)\<lparr>shut_down := True, waiting_queue := [], ready_queue := []\<rparr>
       else strands (service c) s)"
    using shutdown_loop_result [OF d, of "[]"] by blast
  have "enqueue_locked s a v = (Refused, v)" if "s \<in> alive c" using that v(2) xs(2) by (simp add: enqueue_locked_def)
  moreover have "accepted c s = begun c s @ ready_queue (impl_of c s) @ waiting_queue (impl_of c s)"
    if "s \<in> alive c" "\<not> shut_down (impl_of c s)"
    using reachable_strand_ok [OF assms(1) that(1)] that(2) assms(2) by (simp add: strand_ok_def holders_def)
  ultimately show ?thesis using v(1) d(2) xs(2) by (auto simp: strand_shutdown_def impl_of_def)
qed

theorem strand_shutdown_refuses_witness:
  "\<exists>v ops. strand_shutdown (service (strand_demo False [] [] [] [] {#} [] [])) = Some (v, ops) \<and> enqueue_locked 8 3 v = (Refused, v)"
proof -
  let ?c = "strand_demo False [] [] [] [] {#} [] []"
  have "\<forall>t. stacks ?c t = []" "8 \<in> alive ?c" by (simp_all add: strand_demo_def)
  then show ?thesis using strand_shutdown_refuses [OF strand_demo_reachable(2), of 8 3] by blast
qed

end
