(* ===== verification/Dynamic_Buffers.thy ===== *)
theory Dynamic_Buffers
  imports Prelude
begin

text \<open>
  Dynamic buffers: \<open>dynamic_string_buffer\<close> and \<open>dynamic_vector_buffer\<close> of \<open>src/ext/asio/asio/buffer.hpp\<close> and
  \<open>basic_streambuf\<close> of \<open>src/ext/asio/asio/basic_streambuf.hpp\<close>. A string and a vector are their bytes and their
  capacity. What the standard library leaves open is a record of parameters: the largest length of a
  container, above which \<open>resize\<close> throws, and the capacity after growing. A result \<open>Inl b\<close> is a thrown
  \<open>std::length_error\<close> that leaves the object as \<open>b\<close>.
\<close>

record container_env =
  max_length :: nat
  new_capacity :: "nat \<Rightarrow> nat \<Rightarrow> nat"

text \<open>The largest \<open>std::size_t\<close>, and subtraction of that type.\<close>

definition size_max :: nat where
  "size_max = 2 ^ 64 - 1"

definition size_sub :: "nat \<Rightarrow> nat \<Rightarrow> nat" where
  "size_sub a b = (if b \<le> a then a - b else a + 2 ^ 64 - b)"

text \<open>What the library promises of a container: it holds one element, and its length stays below the largest \<open>std::size_t\<close>.\<close>

definition container_ok :: "container_env \<Rightarrow> bool" where
  "container_ok E \<longleftrightarrow> 1 \<le> max_length E \<and> max_length E < size_max"

definition resized :: "nat \<Rightarrow> u8 list \<Rightarrow> u8 list" where
  "resized n xs = take n xs @ replicate (n - length xs) 0"

text \<open>Bytes written into memory at an offset, as far as the memory goes.\<close>

definition overwrite :: "nat \<Rightarrow> u8 list \<Rightarrow> u8 list \<Rightarrow> u8 list" where
  "overwrite pos d xs = take (length xs) (take pos xs @ d @ drop (pos + length d) xs)"

section \<open>Strings and vectors\<close>

record dynamic_buffer =
  db_bytes :: "u8 list"
  db_capacity :: nat
  db_size :: nat
  db_max_size :: nat

definition db_resize :: "container_env \<Rightarrow> nat \<Rightarrow> dynamic_buffer \<Rightarrow> dynamic_buffer + dynamic_buffer" where
  "db_resize E n b =
     (if max_length E < n then Inl b
      else Inr (b\<lparr>db_bytes := resized n (db_bytes b),
                  db_capacity := if n \<le> db_capacity b then db_capacity b else new_capacity E (db_capacity b) n\<rparr>))"

text \<open>\<open>db_size\<close> is the largest \<open>std::size_t\<close> until \<open>prepare\<close> is called.\<close>

definition dsb_construct :: "u8 list \<Rightarrow> nat \<Rightarrow> nat \<Rightarrow> dynamic_buffer" where
  "dsb_construct bytes cap maximum_size = \<lparr>db_bytes = bytes, db_capacity = cap, db_size = size_max, db_max_size = maximum_size\<rparr>"

definition dsb_size :: "dynamic_buffer \<Rightarrow> nat" where
  "dsb_size b = (if db_size b \<noteq> size_max then db_size b else min (length (db_bytes b)) (db_max_size b))"

definition dsb_capacity :: "dynamic_buffer \<Rightarrow> nat" where
  "dsb_capacity b = min (db_capacity b) (db_max_size b)"

definition dsb_data :: "dynamic_buffer \<Rightarrow> u8 list" where
  "dsb_data b = take (db_size b) (db_bytes b)"

definition dsb_data_at :: "nat \<Rightarrow> nat \<Rightarrow> dynamic_buffer \<Rightarrow> u8 list" where
  "dsb_data_at pos n b = take n (drop pos (take (db_max_size b) (db_bytes b)))"

text \<open>The memory that \<open>prepare\<close> returns starts at \<open>db_size\<close>.\<close>

definition dsb_prepare :: "container_env \<Rightarrow> nat \<Rightarrow> dynamic_buffer \<Rightarrow> dynamic_buffer + dynamic_buffer" where
  "dsb_prepare E n b =
     (if db_max_size b < dsb_size b \<or> db_max_size b - dsb_size b < n then Inl b
      else
        (let sz = (if db_size b = size_max then length (db_bytes b) else db_size b)
         in db_resize E (sz + n) (b\<lparr>db_size := sz\<rparr>)))"

definition dsb_commit :: "container_env \<Rightarrow> nat \<Rightarrow> dynamic_buffer \<Rightarrow> dynamic_buffer + dynamic_buffer" where
  "dsb_commit E n b =
     (let sz = (db_size b + min n (size_sub (length (db_bytes b)) (db_size b))) mod 2 ^ 64
      in db_resize E sz (b\<lparr>db_size := sz\<rparr>))"

definition dsb_grow :: "container_env \<Rightarrow> nat \<Rightarrow> dynamic_buffer \<Rightarrow> dynamic_buffer + dynamic_buffer" where
  "dsb_grow E n b =
     (if db_max_size b < dsb_size b \<or> db_max_size b - dsb_size b < n then Inl b
      else db_resize E (dsb_size b + n) b)"

definition dsb_shrink :: "container_env \<Rightarrow> nat \<Rightarrow> dynamic_buffer \<Rightarrow> dynamic_buffer + dynamic_buffer" where
  "dsb_shrink E n b = db_resize E (if n > dsb_size b then 0 else dsb_size b - n) b"

definition dsb_consume :: "nat \<Rightarrow> dynamic_buffer \<Rightarrow> dynamic_buffer" where
  "dsb_consume n b =
     (if db_size b \<noteq> size_max
      then (let k = min n (db_size b) in b\<lparr>db_bytes := drop k (db_bytes b), db_size := db_size b - k\<rparr>)
      else b\<lparr>db_bytes := drop n (db_bytes b)\<rparr>)"

text \<open>The class for vectors has the same members; only \<open>consume\<close> differs.\<close>

definition dvb_consume :: "nat \<Rightarrow> dynamic_buffer \<Rightarrow> dynamic_buffer" where
  "dvb_consume n b =
     (if db_size b \<noteq> size_max
      then (let k = min n (db_size b) in b\<lparr>db_bytes := drop k (db_bytes b), db_size := db_size b - k\<rparr>)
      else b\<lparr>db_bytes := drop (min (dsb_size b) n) (db_bytes b)\<rparr>)"

section \<open>Stream buffers\<close>

text \<open>The pointers are offsets into the vector; \<open>eback\<close> is always its start.\<close>

record streambuf =
  sb_buffer :: "u8 list"
  sb_cap :: nat
  sb_max_size :: nat
  gptr :: nat
  egptr :: nat
  pptr :: nat
  epptr :: nat

definition buffer_delta :: nat where
  "buffer_delta = 128"

definition sb_construct :: "container_env \<Rightarrow> nat \<Rightarrow> streambuf" where
  "sb_construct E maximum_size =
     (let pend = min maximum_size buffer_delta
      in \<lparr>sb_buffer = resized (max pend 1) [], sb_cap = new_capacity E 0 (max pend 1), sb_max_size = maximum_size,
          gptr = 0, egptr = 0, pptr = 0, epptr = pend\<rparr>)"

definition sb_size :: "streambuf \<Rightarrow> nat" where
  "sb_size b = pptr b - gptr b"

definition sb_data :: "streambuf \<Rightarrow> u8 list" where
  "sb_data b = take (pptr b - gptr b) (drop (gptr b) (sb_buffer b))"

text \<open>\<open>pbump\<close> and \<open>gbump\<close> take an \<open>int\<close>.\<close>

definition as_int :: "nat \<Rightarrow> int" where
  "as_int n = sint (word_of_nat n :: 32 word)"

definition bumped :: "nat \<Rightarrow> nat \<Rightarrow> nat" where
  "bumped p n = nat (int p + as_int n)"

text \<open>The bytes are moved before the size is checked; when the check fails the pointers stay.\<close>

definition sb_reserve :: "container_env \<Rightarrow> nat \<Rightarrow> streambuf \<Rightarrow> streambuf + streambuf" where
  "sb_reserve E n b =
     (if n \<le> epptr b - pptr b then Inr b
      else
        (let gnext = gptr b;
             pnext = pptr b - gnext;
             b0 = (if gnext > 0 then b\<lparr>sb_buffer := overwrite 0 (take pnext (drop gnext (sb_buffer b))) (sb_buffer b)\<rparr> else b)
         in if n > epptr b - pnext
            then
              (if n \<le> sb_max_size b \<and> pnext \<le> sb_max_size b - n
               then
                 (let pend = pnext + n
                  in if max_length E < max pend 1 then Inl b0
                     else Inr (b0\<lparr>sb_buffer := resized (max pend 1) (sb_buffer b0),
                                 sb_cap := if max pend 1 \<le> sb_cap b then sb_cap b else new_capacity E (sb_cap b) (max pend 1),
                                 gptr := 0, egptr := pnext, pptr := pnext, epptr := pend\<rparr>))
               else Inl b0)
            else Inr (b0\<lparr>gptr := 0, egptr := pnext, pptr := pnext\<rparr>)))"

text \<open>The memory that \<open>prepare\<close> returns starts at \<open>pptr\<close>.\<close>

definition sb_prepare :: "container_env \<Rightarrow> nat \<Rightarrow> streambuf \<Rightarrow> streambuf + streambuf" where
  "sb_prepare E n b = sb_reserve E n b"

definition sb_commit :: "nat \<Rightarrow> streambuf \<Rightarrow> streambuf" where
  "sb_commit n b = (let p = bumped (pptr b) (min n (epptr b - pptr b)) in b\<lparr>pptr := p, egptr := p\<rparr>)"

definition sb_consume :: "nat \<Rightarrow> streambuf \<Rightarrow> streambuf" where
  "sb_consume n b =
     (let b1 = (if egptr b < pptr b then b\<lparr>egptr := pptr b\<rparr> else b);
          k = (if gptr b1 + n > pptr b1 then pptr b1 - gptr b1 else n)
      in b1\<lparr>gptr := bumped (gptr b1) k\<rparr>)"

text \<open>\<open>None\<close> is the end of the file.\<close>

definition sb_underflow :: "streambuf \<Rightarrow> u8 option \<times> streambuf" where
  "sb_underflow b =
     (if gptr b < pptr b then (Some (sb_buffer b ! gptr b), b\<lparr>egptr := pptr b\<rparr>) else (None, b))"

definition sb_overflow :: "container_env \<Rightarrow> u8 option \<Rightarrow> streambuf \<Rightarrow> streambuf + streambuf" where
  "sb_overflow E c b =
     (case c of
        None \<Rightarrow> Inr b
      | Some x \<Rightarrow>
          (case (if pptr b = epptr b
                 then (let buffer_size = pptr b - gptr b
                       in if buffer_size < sb_max_size b \<and> sb_max_size b - buffer_size < buffer_delta
                          then sb_reserve E (sb_max_size b - buffer_size) b
                          else sb_reserve E buffer_delta b)
                 else Inr b) of
             Inl b1 \<Rightarrow> Inl b1
           | Inr b1 \<Rightarrow> Inr (b1\<lparr>sb_buffer := (sb_buffer b1)[pptr b1 := x], pptr := bumped (pptr b1) 1\<rparr>)))"

definition read_size_helper :: "nat \<Rightarrow> streambuf \<Rightarrow> nat" where
  "read_size_helper max_size b = min (max 512 (size_sub (sb_cap b) (sb_size b))) (min max_size (size_sub (sb_max_size b) (sb_size b)))"

section \<open>The requirements on dynamic buffers\<close>

text \<open>
  The members that the algorithms on dynamic buffers use, in the two versions of the requirements. What a read
  writes into the memory that \<open>prepare\<close> or \<open>data(pos, n)\<close> hands out is the component \<open>v1_stored\<close> or \<open>v2_stored\<close>.
\<close>

record 'b dynamic_buffer_v1 =
  v1_size :: "'b \<Rightarrow> nat"
  v1_max_size :: "'b \<Rightarrow> nat"
  v1_capacity :: "'b \<Rightarrow> nat"
  v1_data :: "'b \<Rightarrow> u8 list"
  v1_prepare :: "nat \<Rightarrow> 'b \<Rightarrow> 'b + 'b"
  v1_stored :: "u8 list \<Rightarrow> 'b \<Rightarrow> 'b"
  v1_commit :: "nat \<Rightarrow> 'b \<Rightarrow> 'b + 'b"

record 'b dynamic_buffer_v2 =
  v2_size :: "'b \<Rightarrow> nat"
  v2_max_size :: "'b \<Rightarrow> nat"
  v2_capacity :: "'b \<Rightarrow> nat"
  v2_data :: "nat \<Rightarrow> nat \<Rightarrow> 'b \<Rightarrow> u8 list"
  v2_grow :: "nat \<Rightarrow> 'b \<Rightarrow> 'b + 'b"
  v2_stored :: "nat \<Rightarrow> u8 list \<Rightarrow> 'b \<Rightarrow> 'b"
  v2_shrink :: "nat \<Rightarrow> 'b \<Rightarrow> 'b + 'b"

definition string_v1 :: "container_env \<Rightarrow> dynamic_buffer dynamic_buffer_v1" where
  "string_v1 E =
     \<lparr>v1_size = dsb_size, v1_max_size = db_max_size, v1_capacity = dsb_capacity, v1_data = dsb_data,
      v1_prepare = dsb_prepare E, v1_stored = (\<lambda>d b. b\<lparr>db_bytes := overwrite (db_size b) d (db_bytes b)\<rparr>),
      v1_commit = dsb_commit E\<rparr>"

definition string_v2 :: "container_env \<Rightarrow> dynamic_buffer dynamic_buffer_v2" where
  "string_v2 E =
     \<lparr>v2_size = dsb_size, v2_max_size = db_max_size, v2_capacity = dsb_capacity, v2_data = dsb_data_at,
      v2_grow = dsb_grow E, v2_stored = (\<lambda>pos d b. b\<lparr>db_bytes := overwrite pos d (db_bytes b)\<rparr>),
      v2_shrink = dsb_shrink E\<rparr>"

text \<open>\<open>basic_streambuf_ref\<close> calls the members of its \<open>basic_streambuf\<close>.\<close>

definition streambuf_v1 :: "container_env \<Rightarrow> streambuf dynamic_buffer_v1" where
  "streambuf_v1 E =
     \<lparr>v1_size = sb_size, v1_max_size = sb_max_size, v1_capacity = sb_cap, v1_data = sb_data,
      v1_prepare = sb_prepare E, v1_stored = (\<lambda>d b. b\<lparr>sb_buffer := overwrite (pptr b) d (sb_buffer b)\<rparr>),
      v1_commit = (\<lambda>n b. Inr (sb_commit n b))\<rparr>"

section \<open>The contract of a dynamic buffer\<close>

text \<open>
  What an algorithm that reads into a dynamic buffer relies on: a read of at most \<open>n\<close> bytes between
  \<open>begin_read n\<close> and \<open>end_read\<close> appends what it received, and only a buffer whose maximum size is above what
  the container can hold refuses room below it.
\<close>

locale growing_buffer =
  fixes bsize bmax :: "'b \<Rightarrow> nat"
    and bdata :: "'b \<Rightarrow> u8 list"
    and begin_read :: "nat \<Rightarrow> 'b \<Rightarrow> 'b + 'b"
    and end_read :: "nat \<Rightarrow> nat \<Rightarrow> u8 list \<Rightarrow> 'b \<Rightarrow> 'b + 'b"
    and wf :: "'b \<Rightarrow> bool"
    and limit :: nat
  assumes size_data: "wf b \<Longrightarrow> bsize b = length (bdata b)"
    and size_le: "wf b \<Longrightarrow> bsize b \<le> bmax b"
    and size_less: "wf b \<Longrightarrow> bsize b < size_max"
    and max_le: "wf b \<Longrightarrow> bmax b \<le> size_max"
    and refused: "wf b \<Longrightarrow> n \<le> bmax b - bsize b \<Longrightarrow> begin_read n b = Inl b1 \<Longrightarrow> 0 < n \<and> limit < bsize b + n"
    and appended: "wf b \<Longrightarrow> n \<le> bmax b - bsize b \<Longrightarrow> n \<le> 65536 \<Longrightarrow> begin_read n b = Inr b1 \<Longrightarrow> length d \<le> n
      \<Longrightarrow> \<exists>b2. end_read (bsize b) n d b1 = Inr b2 \<and> wf b2 \<and> bdata b2 = bdata b @ d \<and> bmax b2 = bmax b"
begin

lemma room_left:
  assumes "wf b" and "bsize b \<noteq> bmax b"
  shows "size_sub (bmax b) (bsize b) = bmax b - bsize b" and "0 < bmax b - bsize b"
  using assms size_le [of b] by (auto simp: size_sub_def)

lemma begin_zero:
  assumes "wf b"
  obtains b1 where "begin_read 0 b = Inr b1"
  using refused [of b 0] assms by (cases "begin_read 0 b") auto

lemma empty_read:
  assumes "wf b" and "begin_read 0 b = Inr b1"
  obtains b2 where "end_read (bsize b) 0 [] b1 = Inr b2" "wf b2" "bdata b2 = bdata b" "bmax b2 = bmax b"
  using appended [of b 0 b1 "[]"] assms by auto

end

text \<open>Strings: the two versions of the members keep the size in different places.\<close>

definition string_ok_v1 :: "container_env \<Rightarrow> dynamic_buffer \<Rightarrow> bool" where
  "string_ok_v1 E b \<longleftrightarrow>
     length (db_bytes b) \<le> max_length E \<and> length (db_bytes b) \<le> db_max_size b \<and> db_max_size b \<le> size_max \<and>
     (db_size b = size_max \<or> db_size b = length (db_bytes b))"

definition string_ok_v2 :: "container_env \<Rightarrow> dynamic_buffer \<Rightarrow> bool" where
  "string_ok_v2 E b \<longleftrightarrow>
     length (db_bytes b) \<le> max_length E \<and> length (db_bytes b) \<le> db_max_size b \<and> db_max_size b \<le> size_max \<and>
     db_size b = size_max"

definition streambuf_ok :: "container_env \<Rightarrow> streambuf \<Rightarrow> bool" where
  "streambuf_ok E b \<longleftrightarrow>
     gptr b \<le> egptr b \<and> egptr b \<le> pptr b \<and> pptr b \<le> epptr b \<and> epptr b \<le> sb_max_size b \<and> sb_max_size b \<le> size_max \<and>
     length (sb_buffer b) = max (epptr b) 1 \<and> length (sb_buffer b) \<le> max_length E"

lemma length_resized [simp]: "length (resized n xs) = n"
  by (simp add: resized_def)

lemma length_overwrite [simp]: "length (overwrite pos d xs) = length xs"
  by (simp add: overwrite_def)

lemma take_resized: "k \<le> n \<Longrightarrow> k \<le> length xs \<Longrightarrow> take k (resized n xs) = take k xs"
  by (simp add: resized_def)

lemma resized_prefix: "n \<le> length xs \<Longrightarrow> resized n xs = take n xs"
  by (simp add: resized_def)

lemma overwrite_inside:
  "pos + length d \<le> length xs \<Longrightarrow> overwrite pos d xs = take pos xs @ d @ drop (pos + length d) xs"
  by (simp add: overwrite_def)

text \<open>Writing into fresh memory and giving the rest back appends what was written.\<close>

lemma append_in_place:
  assumes "length d \<le> n"
  shows "take (length xs + length d) (overwrite (length xs) d (resized (length xs + n) xs)) = xs @ d"
  using assms by (simp add: overwrite_inside take_resized)

lemma size_sub_le [simp]: "b \<le> a \<Longrightarrow> size_sub a b = a - b"
  by (simp add: size_sub_def)

lemma as_int_small: "n < 2 ^ 31 \<Longrightarrow> as_int n = int n"
  by (simp add: as_int_def signed_of_nat signed_take_bit_int_eq_self)

lemma bumped_small: "n < 2 ^ 31 \<Longrightarrow> bumped p n = p + n"
  by (simp add: bumped_def as_int_small)


subsection \<open>Strings, version 1\<close>

lemma dsb_data_ok: "container_ok E \<Longrightarrow> string_ok_v1 E b \<Longrightarrow> dsb_data b = db_bytes b"
  by (auto simp: dsb_data_def string_ok_v1_def container_ok_def)

lemma dsb_size_ok: "container_ok E \<Longrightarrow> string_ok_v1 E b \<Longrightarrow> dsb_size b = length (db_bytes b)"
  by (auto simp: dsb_size_def string_ok_v1_def container_ok_def)

lemma string_v1_read:
  assumes E: "container_ok E" and ok: "string_ok_v1 E b" and prep: "dsb_prepare E n b = Inr b1" and d: "length d \<le> n"
  shows "\<exists>b2. dsb_commit E (length d) (b1\<lparr>db_bytes := overwrite (db_size b1) d (db_bytes b1)\<rparr>) = Inr b2 \<and>
    string_ok_v1 E b2 \<and> dsb_data b2 = dsb_data b @ d \<and> db_max_size b2 = db_max_size b"
proof -
  define len where "len = length (db_bytes b)"
  have room: "n \<le> db_max_size b - len" and fits: "len + n \<le> max_length E"
    and b1: "db_bytes b1 = resized (len + n) (db_bytes b)" "db_size b1 = len" "db_max_size b1 = db_max_size b"
    using E ok prep
    by (auto simp: dsb_prepare_def db_resize_def len_def dsb_size_ok string_ok_v1_def Let_def split: if_splits)
  have lt: "len + length d < 2 ^ 64"
    using fits d E by (simp add: container_ok_def size_max_def)
  have "dsb_commit E (length d) (b1\<lparr>db_bytes := overwrite (db_size b1) d (db_bytes b1)\<rparr>)
      = db_resize E (len + length d) (b1\<lparr>db_bytes := overwrite len d (db_bytes b1), db_size := len + length d\<rparr>)"
    using d lt by (simp add: dsb_commit_def b1 Let_def)
  moreover have "resized (len + length d) (overwrite len d (db_bytes b1)) = db_bytes b @ d"
    using d append_in_place [of d n "db_bytes b"] by (simp add: b1 len_def resized_prefix)
  ultimately show ?thesis
    using E ok fits room d lt b1
    by (auto simp: db_resize_def string_ok_v1_def dsb_data_def len_def container_ok_def)
qed

lemma string_v1_refused:
  assumes "container_ok E" and "string_ok_v1 E b" and "n \<le> db_max_size b - dsb_size b" and "dsb_prepare E n b = Inl b1"
  shows "0 < n \<and> max_length E < dsb_size b + n"
  using assms
  by (auto simp: dsb_prepare_def db_resize_def dsb_size_ok string_ok_v1_def Let_def split: if_splits)

interpretation str1: growing_buffer dsb_size db_max_size dsb_data "dsb_prepare E"
    "\<lambda>pos n d b. dsb_commit E (length d) (b\<lparr>db_bytes := overwrite (db_size b) d (db_bytes b)\<rparr>)"
    "\<lambda>b. container_ok E \<and> string_ok_v1 E b" "max_length E" for E
proof (unfold_locales, goal_cases)
  case (5 b n b1) then show ?case using string_v1_refused by blast
next
  case (6 b n b1 d) then show ?case using string_v1_read by blast
qed (auto simp: dsb_size_ok dsb_data_ok string_ok_v1_def container_ok_def)

subsection \<open>Strings, version 2\<close>

lemma string_ok_v2_v1: "string_ok_v2 E b \<Longrightarrow> string_ok_v1 E b"
  by (simp add: string_ok_v2_def string_ok_v1_def)

lemma dsb_all_data:
  assumes "container_ok E" and "string_ok_v2 E b"
  shows "dsb_data_at 0 (dsb_size b) b = db_bytes b"
  using assms by (simp add: dsb_data_at_def dsb_size_ok [OF _ string_ok_v2_v1]) (simp add: string_ok_v2_def)

lemma string_v2_read:
  assumes E: "container_ok E" and ok: "string_ok_v2 E b" and grow: "dsb_grow E n b = Inr b1" and d: "length d \<le> n"
  shows "\<exists>b2. dsb_shrink E (size_sub n (length d)) (b1\<lparr>db_bytes := overwrite (dsb_size b) d (db_bytes b1)\<rparr>) = Inr b2 \<and>
    string_ok_v2 E b2 \<and> db_bytes b2 = db_bytes b @ d \<and> db_max_size b2 = db_max_size b"
    and "length (dsb_data_at (dsb_size b) n b1) = n"
proof -
  define len where "len = length (db_bytes b)"
  have len: "dsb_size b = len"
    using E ok by (simp add: len_def dsb_size_ok [OF _ string_ok_v2_v1])
  have room: "n \<le> db_max_size b - len" "len \<le> db_max_size b" and fits: "len + n \<le> max_length E"
    and b1: "db_bytes b1 = resized (len + n) (db_bytes b)" "db_size b1 = size_max" "db_max_size b1 = db_max_size b"
    using ok grow len
    by (auto simp: dsb_grow_def db_resize_def string_ok_v2_def Let_def len_def split: if_splits)
  show "length (dsb_data_at (dsb_size b) n b1) = n"
    using room by (simp add: dsb_data_at_def len b1)
  let ?b = "b1\<lparr>db_bytes := overwrite len d (db_bytes b1)\<rparr>"
  have sz: "dsb_size ?b = len + n"
    using room by (simp add: dsb_size_def b1)
  have "dsb_shrink E (size_sub n (length d)) ?b = db_resize E (len + length d) ?b"
    using d by (auto simp: dsb_shrink_def sz)
  moreover have "resized (len + length d) (overwrite len d (db_bytes b1)) = db_bytes b @ d"
    using d append_in_place [of d n "db_bytes b"] by (simp add: b1 len_def resized_prefix)
  ultimately show "\<exists>b2. dsb_shrink E (size_sub n (length d)) (b1\<lparr>db_bytes := overwrite (dsb_size b) d (db_bytes b1)\<rparr>) = Inr b2 \<and>
    string_ok_v2 E b2 \<and> db_bytes b2 = db_bytes b @ d \<and> db_max_size b2 = db_max_size b"
    using ok fits room d b1
    by (auto simp: db_resize_def string_ok_v2_def len len_def)
qed

lemma string_v2_refused:
  assumes "container_ok E" and "string_ok_v2 E b" and "n \<le> db_max_size b - dsb_size b" and "dsb_grow E n b = Inl b1"
  shows "0 < n \<and> max_length E < dsb_size b + n"
  using assms dsb_size_ok [OF _ string_ok_v2_v1]
  by (auto simp: dsb_grow_def db_resize_def string_ok_v2_def split: if_splits)

interpretation str2: growing_buffer dsb_size db_max_size db_bytes "dsb_grow E"
    "\<lambda>pos n d b. dsb_shrink E (size_sub n (length d)) (b\<lparr>db_bytes := overwrite pos d (db_bytes b)\<rparr>)"
    "\<lambda>b. container_ok E \<and> string_ok_v2 E b" "max_length E" for E
proof (unfold_locales, goal_cases)
  case (5 b n b1) then show ?case using string_v2_refused by blast
next
  case (6 b n b1 d) then show ?case using string_v2_read by blast
qed (auto simp: dsb_size_ok [OF _ string_ok_v2_v1], auto simp: string_ok_v2_def container_ok_def)

subsection \<open>Stream buffers\<close>

lemma sb_size_data: "streambuf_ok E b \<Longrightarrow> length (sb_data b) = sb_size b"
  by (auto simp: streambuf_ok_def sb_data_def sb_size_def)

lemma moved_front:
  assumes "k + g \<le> length xs"
  shows "take k (overwrite 0 (take k (drop g xs)) xs) = take k (drop g xs)"
  using assms by (simp add: overwrite_inside)

definition sb_shifted :: "streambuf \<Rightarrow> streambuf" where
  "sb_shifted b =
     (if gptr b > 0 then b\<lparr>sb_buffer := overwrite 0 (take (pptr b - gptr b) (drop (gptr b) (sb_buffer b))) (sb_buffer b)\<rparr> else b)"

lemma sb_shifted_simps [simp]:
  "gptr (sb_shifted b) = gptr b" "egptr (sb_shifted b) = egptr b" "pptr (sb_shifted b) = pptr b"
  "epptr (sb_shifted b) = epptr b" "sb_cap (sb_shifted b) = sb_cap b" "sb_max_size (sb_shifted b) = sb_max_size b"
  "length (sb_buffer (sb_shifted b)) = length (sb_buffer b)"
  by (auto simp: sb_shifted_def)

lemma sb_shifted_data:
  "streambuf_ok E b \<Longrightarrow> take (pptr b - gptr b) (sb_buffer (sb_shifted b)) = sb_data b"
  by (auto simp: sb_shifted_def sb_data_def streambuf_ok_def moved_front)

text \<open>The three ways in which \<open>reserve\<close> returns, and the one in which it throws.\<close>

lemma sb_reserve_cases:
  assumes ok: "streambuf_ok E b"
  obtains "n \<le> epptr b - pptr b" and "sb_reserve E n b = Inr b"
  | "n \<le> epptr b - sb_size b"
    and "sb_reserve E n b = Inr ((sb_shifted b)\<lparr>gptr := 0, egptr := sb_size b, pptr := sb_size b\<rparr>)"
  | cap' where "epptr b < sb_size b + n" and "sb_size b + n \<le> sb_max_size b" and "sb_size b + n \<le> max_length E"
    and "sb_reserve E n b = Inr ((sb_shifted b)\<lparr>sb_buffer := resized (max (sb_size b + n) 1) (sb_buffer (sb_shifted b)),
      sb_cap := cap', gptr := 0, egptr := sb_size b, pptr := sb_size b, epptr := sb_size b + n\<rparr>)"
  | "epptr b - pptr b < n" and "sb_max_size b < sb_size b + n \<or> max_length E < sb_size b + n"
    and "sb_reserve E n b = Inl (sb_shifted b)"
proof -
  have m1: "1 \<le> max_length E"
    using ok by (auto simp: streambuf_ok_def)
  consider "n \<le> epptr b - pptr b" | "epptr b - pptr b < n" "n \<le> epptr b - sb_size b"
    | "epptr b - pptr b < n" "epptr b - sb_size b < n" "sb_size b + n \<le> sb_max_size b" "sb_size b + n \<le> max_length E"
    | "epptr b - pptr b < n" "epptr b - sb_size b < n" "sb_max_size b < sb_size b + n \<or> max_length E < sb_size b + n"
    by linarith
  then show thesis
  proof cases
    case 1 then show thesis by (intro that(1)) (simp_all add: sb_reserve_def)
  next
    case 2 then show thesis
      by (intro that(2)) (simp_all add: sb_reserve_def sb_size_def sb_shifted_def Let_def)
  next
    case 3
    have pos: "\<not> n \<le> epptr b - pptr b" "\<not> n \<le> epptr b - (pptr b - gptr b)"
      and room: "n \<le> sb_max_size b" "pptr b - gptr b \<le> sb_max_size b - n"
      and fits: "\<not> max_length E < max (pptr b - gptr b + n) 1"
      using 3 m1 by (simp_all add: sb_size_def)
    show thesis
      by (rule that(3) [OF _ 3(3) 3(4)]) (use 3(2) pos room fits in \<open>simp_all add: sb_reserve_def sb_size_def sb_shifted_def Let_def\<close>)
  next
    case 4
    have pos: "\<not> n \<le> epptr b - pptr b" "\<not> n \<le> epptr b - (pptr b - gptr b)"
      and full: "\<not> (n \<le> sb_max_size b \<and> pptr b - gptr b \<le> sb_max_size b - n) \<or> max_length E < max (pptr b - gptr b + n) 1"
      using 4 by (auto simp: sb_size_def)
    have "sb_reserve E n b = Inl (sb_shifted b)"
      using pos full by (auto simp: sb_reserve_def sb_shifted_def Let_def)
    with 4 show thesis by (intro that(4))
  qed
qed

lemma sb_reserve_ok:
  assumes ok: "streambuf_ok E b" and res: "sb_reserve E n b = Inr b1"
  shows "streambuf_ok E b1 \<and> sb_data b1 = sb_data b \<and> sb_max_size b1 = sb_max_size b \<and> pptr b1 + n \<le> epptr b1"
  using ok
proof (cases rule: sb_reserve_cases [of E b n])
  case 1 with ok res show ?thesis by (auto simp: streambuf_ok_def)
next
  case 2 with ok res sb_shifted_data [OF ok] show ?thesis
    by (auto simp: streambuf_ok_def sb_size_def sb_data_def)
next
  case (3 cap')
  have "sb_size b \<le> length (sb_buffer b)"
    using ok by (auto simp: streambuf_ok_def sb_size_def)
  with 3 ok res sb_shifted_data [OF ok] show ?thesis
    by (auto simp: streambuf_ok_def sb_data_def sb_size_def take_resized)
next
  case 4 with res show ?thesis by simp
qed

lemma sb_commit_ok:
  assumes ok: "streambuf_ok E b" and k: "k < 2 ^ 31"
  shows "streambuf_ok E (sb_commit k b)"
    and "sb_data (sb_commit k b) = sb_data b @ take (min k (epptr b - pptr b)) (drop (pptr b) (sb_buffer b))"
    and "sb_max_size (sb_commit k b) = sb_max_size b"
proof -
  have p: "bumped (pptr b) (min k (epptr b - pptr b)) = pptr b + min k (epptr b - pptr b)"
    using k by (intro bumped_small) simp
  show "streambuf_ok E (sb_commit k b)" "sb_max_size (sb_commit k b) = sb_max_size b"
    using ok by (auto simp: sb_commit_def p Let_def streambuf_ok_def)
  have "gptr b \<le> pptr b" using ok by (simp add: streambuf_ok_def)
  then have "pptr b + min k (epptr b - pptr b) - gptr b = (pptr b - gptr b) + min k (epptr b - pptr b)"
    and "drop (pptr b - gptr b) (drop (gptr b) (sb_buffer b)) = drop (pptr b) (sb_buffer b)" by simp_all
  then show "sb_data (sb_commit k b) = sb_data b @ take (min k (epptr b - pptr b)) (drop (pptr b) (sb_buffer b))"
    by (simp add: sb_commit_def p Let_def sb_data_def take_add)
qed

lemma streambuf_read:
  assumes ok: "streambuf_ok E b" and prep: "sb_prepare E n b = Inr b1" and d: "length d \<le> n" and n: "n \<le> 65536"
  shows "\<exists>b2. sb_commit (length d) (b1\<lparr>sb_buffer := overwrite (pptr b1) d (sb_buffer b1)\<rparr>) = b2 \<and>
    streambuf_ok E b2 \<and> sb_data b2 = sb_data b @ d \<and> sb_max_size b2 = sb_max_size b"
proof -
  let ?b = "b1\<lparr>sb_buffer := overwrite (pptr b1) d (sb_buffer b1)\<rparr>"
  have b1: "streambuf_ok E b1" "sb_data b1 = sb_data b" "sb_max_size b1 = sb_max_size b" "pptr b1 + n \<le> epptr b1"
    using sb_reserve_ok [OF ok, of n b1] prep by (simp_all add: sb_prepare_def)
  have room: "pptr b1 + length d \<le> length (sb_buffer b1)"
    using b1 d by (auto simp: streambuf_ok_def)
  have okb: "streambuf_ok E ?b" using b1(1) by (auto simp: streambuf_ok_def)
  have "sb_data ?b = sb_data b1"
    using room by (simp add: sb_data_def overwrite_inside drop_take)
  moreover have "take (min (length d) (epptr b1 - pptr b1)) (drop (pptr b1) (overwrite (pptr b1) d (sb_buffer b1))) = d"
    using room d b1(4) by (auto simp: overwrite_inside min_def)
  ultimately show ?thesis
    using sb_commit_ok [OF okb, of "length d"] d n b1 by simp
qed

interpretation sbuf: growing_buffer sb_size sb_max_size sb_data "sb_prepare E"
    "\<lambda>pos n d b. Inr (sb_commit (length d) (b\<lparr>sb_buffer := overwrite (pptr b) d (sb_buffer b)\<rparr>))"
    "\<lambda>b. container_ok E \<and> streambuf_ok E b" "max_length E" for E
proof (unfold_locales, goal_cases)
  case (5 b n b1)
  then have "sb_size b + n \<le> sb_max_size b" by (auto simp: streambuf_ok_def sb_size_def)
  with 5 show ?case
    by (auto simp: sb_prepare_def elim!: sb_reserve_cases [of E b n])
next
  case (6 b n b1 d) then show ?case using streambuf_read [of E b n b1 d] by auto
qed (auto simp: sb_size_data, auto simp: streambuf_ok_def container_ok_def sb_size_def)

text \<open>The other members keep the pointers in order.\<close>

lemma sb_construct_ok:
  "container_ok E \<Longrightarrow> buffer_delta \<le> max_length E \<Longrightarrow> m \<le> size_max \<Longrightarrow> streambuf_ok E (sb_construct E m)"
  by (auto simp: streambuf_ok_def sb_construct_def Let_def container_ok_def buffer_delta_def)

lemma sb_consume_ok:
  assumes ok: "streambuf_ok E b" and small: "sb_size b < 2 ^ 31"
  shows "streambuf_ok E (sb_consume n b)" and "sb_data (sb_consume n b) = drop n (sb_data b)"
proof -
  define k where "k = (if gptr b + n > pptr b then pptr b - gptr b else n)"
  have k: "k < 2 ^ 31" "gptr b + k \<le> pptr b" "k = min n (pptr b - gptr b)"
    using ok small by (auto simp: k_def streambuf_ok_def sb_size_def)
  have b: "sb_consume n b = b\<lparr>egptr := pptr b, gptr := gptr b + k\<rparr>"
    using ok bumped_small [OF k(1)] by (auto simp: sb_consume_def Let_def k_def streambuf_ok_def)
  show "streambuf_ok E (sb_consume n b)"
    using ok k by (auto simp: b streambuf_ok_def)
  show "sb_data (sb_consume n b) = drop n (sb_data b)"
    using k by (auto simp: b sb_data_def drop_take min_def add.commute)
qed

lemma sb_underflow_ok:
  assumes "streambuf_ok E b"
  shows "streambuf_ok E (snd (sb_underflow b))" and "sb_data (snd (sb_underflow b)) = sb_data b"
    and "fst (sb_underflow b) = (if sb_data b = [] then None else Some (hd (sb_data b)))"
  using assms
  by (auto simp: sb_underflow_def streambuf_ok_def sb_data_def hd_drop_conv_nth hd_take)

lemma sb_overflow_ok:
  assumes ok: "streambuf_ok E b" and res: "sb_overflow E (Some x) b = Inr b1"
  shows "sb_data b1 = sb_data b @ [x]" and "gptr b1 \<le> pptr b1 \<and> pptr b1 \<le> epptr b1 \<and> sb_max_size b1 = sb_max_size b"
proof -
  obtain b0 where ok0: "streambuf_ok E b0" "sb_data b0 = sb_data b" "sb_max_size b0 = sb_max_size b" "pptr b0 < epptr b0"
    and b1: "b1 = b0\<lparr>sb_buffer := (sb_buffer b0)[pptr b0 := x], pptr := pptr b0 + 1\<rparr>"
  proof (cases "pptr b = epptr b")
    case False
    with ok res that [of b] show thesis
      by (auto simp: sb_overflow_def bumped_small streambuf_ok_def)
  next
    case True
    define k where "k = (if sb_size b < sb_max_size b \<and> sb_max_size b - sb_size b < buffer_delta
      then sb_max_size b - sb_size b else buffer_delta)"
    have "0 < k" by (auto simp: k_def buffer_delta_def)
    moreover obtain b0 where "sb_reserve E k b = Inr b0"
      and "b1 = b0\<lparr>sb_buffer := (sb_buffer b0)[pptr b0 := x], pptr := pptr b0 + 1\<rparr>"
      using res True by (auto simp: sb_overflow_def bumped_small k_def sb_size_def Let_def split: sum.splits if_splits)
    ultimately show thesis
      using that [of b0] sb_reserve_ok [OF ok, of k b0] by auto
  qed
  have "pptr b0 < length (sb_buffer b0)" "gptr b0 \<le> pptr b0"
    using ok0 by (auto simp: streambuf_ok_def)
  then show "sb_data b1 = sb_data b @ [x]"
    using ok0(2) by (simp add: b1 sb_data_def Suc_diff_le take_Suc_conv_app_nth flip: drop_update_swap) 
      (simp add: drop_update_swap take_update_cancel)
  show "gptr b1 \<le> pptr b1 \<and> pptr b1 \<le> epptr b1 \<and> sb_max_size b1 = sb_max_size b"
    using ok0 by (auto simp: b1 streambuf_ok_def)
qed

lemma dsb_construct_ok:
  "length bytes \<le> max_length E \<Longrightarrow> length bytes \<le> m \<Longrightarrow> m \<le> size_max \<Longrightarrow> string_ok_v2 E (dsb_construct bytes c m)"
  by (simp add: string_ok_v2_def dsb_construct_def)

lemma dsb_consume_v1:
  assumes "container_ok E" and "string_ok_v1 E b"
  shows "string_ok_v1 E (dsb_consume n b)" and "dsb_data (dsb_consume n b) = drop n (dsb_data b)"
  using assms by (auto simp: dsb_consume_def string_ok_v1_def dsb_data_def container_ok_def Let_def min_def)

lemma dsb_consume_v2:
  assumes "string_ok_v2 E b"
  shows "string_ok_v2 E (dsb_consume n b)" and "db_bytes (dsb_consume n b) = drop n (db_bytes b)"
  using assms by (auto simp: dsb_consume_def string_ok_v2_def)

text \<open>The two classes consume alike.\<close>

lemma dvb_consume_equal: "string_ok_v2 E b \<Longrightarrow> dvb_consume n b = dsb_consume n b"
  by (auto simp: dvb_consume_def dsb_consume_def string_ok_v2_def dsb_size_def min_def)

text \<open>
  A failed \<open>reserve\<close> has moved the bytes and not the pointers: unless the get area starts at the front, it no longer holds the input.
\<close>

lemma sb_prepare_throws:
  assumes ok: "streambuf_ok E b" and n: "sb_max_size b < sb_size b + n"
  shows "sb_prepare E n b = Inl (sb_shifted b)"
  using ok
proof (cases rule: sb_reserve_cases [of E b n])
  case 1 with ok n show ?thesis by (auto simp: streambuf_ok_def sb_size_def)
next
  case 2 with ok n show ?thesis by (auto simp: streambuf_ok_def sb_size_def)
qed (use n in \<open>auto simp: sb_prepare_def\<close>)

lemma sb_shifted_input:
  "sb_data (sb_shifted b) = take (sb_size b) (drop (gptr b) (overwrite 0 (sb_data b) (sb_buffer b)))"
  by (cases "gptr b = 0") (auto simp: sb_data_def sb_shifted_def sb_size_def overwrite_def)

lemma damaged_input:
  assumes "streambuf_ok E b"
  shows "sb_data (sb_shifted b) = drop (gptr b) (sb_data b) @ drop (sb_size b - gptr b) (sb_data b)"
proof (rule nth_equalityI)
  have len: "length (sb_data b) = sb_size b" "length (sb_data (sb_shifted b)) = sb_size b"
    using assms by (auto simp: sb_data_def sb_size_def streambuf_ok_def)
  have lb: "gptr b + sb_size b \<le> length (sb_buffer b)"
    using assms by (auto simp: sb_size_def streambuf_ok_def)
  show "length (sb_data (sb_shifted b)) = length (drop (gptr b) (sb_data b) @ drop (sb_size b - gptr b) (sb_data b))"
    by (simp add: len)
  fix i assume "i < length (sb_data (sb_shifted b))"
  then have i: "i < sb_size b" by (simp add: len)
  have "sb_data (sb_shifted b) ! i = overwrite 0 (sb_data b) (sb_buffer b) ! (gptr b + i)"
    using i lb by (simp add: sb_shifted_input)
  also have "\<dots> = (if gptr b + i < sb_size b then sb_data b ! (gptr b + i) else sb_buffer b ! (gptr b + i))"
    using i lb len by (simp add: overwrite_inside nth_append)
  also have "sb_buffer b ! (gptr b + i) = sb_data b ! i"
    using i lb by (simp add: sb_data_def sb_size_def nth_drop)
  finally have nth: "sb_data (sb_shifted b) ! i =
    (if gptr b + i < sb_size b then sb_data b ! (gptr b + i) else sb_data b ! i)" .
  show "sb_data (sb_shifted b) ! i = (drop (gptr b) (sb_data b) @ drop (sb_size b - gptr b) (sb_data b)) ! i"
  proof (cases "i < sb_size b - gptr b")
    case True
    then have "gptr b + i < sb_size b" by simp
    with True i len show ?thesis by (simp add: nth nth_append)
  next
    case False
    have eq: "sb_size b - gptr b + (i - (sb_size b - gptr b)) = i" and "\<not> gptr b + i < sb_size b"
      using False by simp_all
    then have "sb_data (sb_shifted b) ! i = drop (sb_size b - gptr b) (sb_data b) ! (i - (sb_size b - gptr b))"
      using len by (simp add: nth)
    moreover have "length (drop (gptr b) (sb_data b)) = sb_size b - gptr b" by (simp add: len)
    ultimately show ?thesis using False by (simp only: nth_append if_False)
  qed
qed

end
