(* ===== verification/Read_Until.thy ===== *)
theory Read_Until
  imports Dynamic_Buffers Error_Codes "HOL-Library.Sublist"
begin

text \<open>
  The algorithms of \<open>src/ext/asio/asio/impl/read_until.hpp\<close> that read into a dynamic buffer until it contains a
  delimiter: \<open>read_until\<close> for a character, a string and a match condition, over both versions of the
  requirements on dynamic buffers, and the operations behind \<open>async_read_until\<close>. The stream is an argument:
  a number of bytes asked for and a state give the bytes received, an error code and the next state.
\<close>

section \<open>Searching\<close>

text \<open>A position in the data is an offset; \<open>end\<close> is its length.\<close>

fun std_find :: "u8 \<Rightarrow> u8 list \<Rightarrow> nat" where
  "std_find c [] = 0"
| "std_find c (x # xs) = (if x = c then 0 else Suc (std_find c xs))"

text \<open>
  The inner loop of \<open>partial_search\<close>: what is left of both sequences, and whether \<open>test_iter2\<close> has moved.
\<close>

datatype attempt = Whole | Partial | Mismatch

fun test_match :: "bool \<Rightarrow> u8 list \<Rightarrow> u8 list \<Rightarrow> attempt" where
  "test_match advanced xs [] = Whole"
| "test_match advanced [] (y # ys) = (if advanced then Partial else Mismatch)"
| "test_match advanced (x # xs) (y # ys) = (if x \<noteq> y then Mismatch else test_match True xs ys)"

fun partial_search :: "u8 list \<Rightarrow> u8 list \<Rightarrow> nat \<times> bool" where
  "partial_search [] delim = (0, False)"
| "partial_search (x # xs) delim =
     (case test_match False (x # xs) delim of
        Whole \<Rightarrow> (0, True)
      | Partial \<Rightarrow> (0, False)
      | Mismatch \<Rightarrow> (case partial_search xs delim of (i, full) \<Rightarrow> (Suc i, full)))"

text \<open>A search ends the operation with a length, or gives the position at which the next search starts.\<close>

datatype found = Match_end nat | Search_from nat

type_synonym search = "nat \<Rightarrow> u8 list \<Rightarrow> found"

definition delim_search :: "u8 \<Rightarrow> search" where
  "delim_search delim start_pos data =
     (let iter = start_pos + std_find delim (drop start_pos data)
      in if iter \<noteq> length data then Match_end (iter + 1) else Search_from (length data))"

definition string_search :: "u8 list \<Rightarrow> search" where
  "string_search delim start_pos data =
     (case partial_search (drop start_pos data) delim of
        (i, full) \<Rightarrow>
          if start_pos + i \<noteq> length data
          then (if full then Match_end (start_pos + i + length delim) else Search_from (start_pos + i))
          else Search_from (length data))"

text \<open>A match condition gets the data from \<open>start_pos\<close> and returns an offset into it.\<close>

definition match_search :: "(u8 list \<Rightarrow> nat \<times> bool) \<Rightarrow> search" where
  "match_search match_condition start_pos data =
     (case match_condition (drop start_pos data) of
        (i, full) \<Rightarrow>
          if full then Match_end (start_pos + i)
          else if start_pos + i \<noteq> length data then Search_from (start_pos + i)
          else Search_from (length data))"

section \<open>The synchronous loops\<close>

type_synonym 'w read_stream = "nat \<Rightarrow> 'w \<Rightarrow> u8 list \<times> error_code \<times> 'w"

definition bytes_to_read :: "nat \<Rightarrow> nat \<Rightarrow> nat \<Rightarrow> nat" where
  "bytes_to_read cap sz max_size = min (max 512 (size_sub cap sz)) (min 65536 (size_sub max_size sz))"

text \<open>A call throws, or stores an error code and returns a number; the buffer is what the caller finds afterwards.\<close>

datatype 'b until_outcome = Threw 'b | Returned error_code nat 'b

partial_function (option) read_until_v1 ::
  "'b dynamic_buffer_v1 \<Rightarrow> search \<Rightarrow> 'w read_stream \<Rightarrow> nat \<Rightarrow> 'b \<Rightarrow> 'w \<Rightarrow> ('b until_outcome \<times> 'w) option" where
  "read_until_v1 B search read_some search_position b w =
     (case search search_position (v1_data B b) of
        Match_end n \<Rightarrow> Some (Returned ec_success n b, w)
      | Search_from next_position \<Rightarrow>
          if v1_size B b = v1_max_size B b then Some (Returned (make_misc_error not_found) 0 b, w)
          else
            (let n = bytes_to_read (v1_capacity B b) (v1_size B b) (v1_max_size B b)
             in case v1_prepare B n b of
                  Inl b1 \<Rightarrow> Some (Threw b1, w)
                | Inr b1 \<Rightarrow>
                    (case read_some n w of
                       (d, ec, w1) \<Rightarrow>
                         (case v1_commit B (length d) (v1_stored B d b1) of
                            Inl b2 \<Rightarrow> Some (Threw b2, w1)
                          | Inr b2 \<Rightarrow>
                              if ec_failed ec then Some (Returned ec 0 b2, w1)
                              else read_until_v1 B search read_some next_position b2 w1))))"

partial_function (option) read_until_v2 ::
  "'b dynamic_buffer_v2 \<Rightarrow> search \<Rightarrow> 'w read_stream \<Rightarrow> nat \<Rightarrow> 'b \<Rightarrow> 'w \<Rightarrow> ('b until_outcome \<times> 'w) option" where
  "read_until_v2 B search read_some search_position b w =
     (case search search_position (v2_data B 0 (v2_size B b) b) of
        Match_end n \<Rightarrow> Some (Returned ec_success n b, w)
      | Search_from next_position \<Rightarrow>
          if v2_size B b = v2_max_size B b then Some (Returned (make_misc_error not_found) 0 b, w)
          else
            (let n = bytes_to_read (v2_capacity B b) (v2_size B b) (v2_max_size B b);
                 pos = v2_size B b
             in case v2_grow B n b of
                  Inl b1 \<Rightarrow> Some (Threw b1, w)
                | Inr b1 \<Rightarrow>
                    (case read_some (length (v2_data B pos n b1)) w of
                       (d, ec, w1) \<Rightarrow>
                         (case v2_shrink B (size_sub n (length d)) (v2_stored B pos d b1) of
                            Inl b2 \<Rightarrow> Some (Threw b2, w1)
                          | Inr b2 \<Rightarrow>
                              if ec_failed ec then Some (Returned ec 0 b2, w1)
                              else read_until_v2 B search read_some next_position b2 w1))))"

text \<open>The overloads with an error code.\<close>

definition read_until_delim_v1 where
  "read_until_delim_v1 B read_some delim = read_until_v1 B (delim_search delim) read_some 0"

definition read_until_string_v1 where
  "read_until_string_v1 B read_some delim = read_until_v1 B (string_search delim) read_some 0"

definition read_until_match_v1 where
  "read_until_match_v1 B read_some match_condition = read_until_v1 B (match_search match_condition) read_some 0"

definition read_until_delim_v2 where
  "read_until_delim_v2 B read_some delim = read_until_v2 B (delim_search delim) read_some 0"

definition read_until_string_v2 where
  "read_until_string_v2 B read_some delim = read_until_v2 B (string_search delim) read_some 0"

definition read_until_match_v2 where
  "read_until_match_v2 B read_some match_condition = read_until_v2 B (match_search match_condition) read_some 0"

text \<open>The overloads for a stream buffer.\<close>

definition read_until_delim_streambuf where
  "read_until_delim_streambuf E read_some delim = read_until_delim_v1 (streambuf_v1 E) read_some delim"

definition read_until_string_streambuf where
  "read_until_string_streambuf E read_some delim = read_until_string_v1 (streambuf_v1 E) read_some delim"

definition read_until_match_streambuf where
  "read_until_match_streambuf E read_some match_condition = read_until_match_v1 (streambuf_v1 E) read_some match_condition"

text \<open>The overloads without an error code throw it.\<close>

datatype 'b thrown_or_returned = Length_error 'b | System_error system_error 'b | Bytes nat 'b

definition throwing :: "'b until_outcome \<Rightarrow> 'b thrown_or_returned" where
  "throwing r =
     (case r of
        Threw b \<Rightarrow> Length_error b
      | Returned ec n b \<Rightarrow> (case throw_error ec ''read_until'' of Some e \<Rightarrow> System_error e b | None \<Rightarrow> Bytes n b))"

definition read_until_string_v1_throwing where
  "read_until_string_v1_throwing B read_some delim b w =
     map_option (map_prod throwing id) (read_until_string_v1 B read_some delim b w)"

definition read_until_delim_v1_throwing where
  "read_until_delim_v1_throwing B read_some delim b w =
     map_option (map_prod throwing id) (read_until_delim_v1 B read_some delim b w)"

definition read_until_match_v1_throwing where
  "read_until_match_v1_throwing B read_some match_condition b w =
     map_option (map_prod throwing id) (read_until_match_v1 B read_some match_condition b w)"

definition read_until_string_v2_throwing where
  "read_until_string_v2_throwing B read_some delim b w =
     map_option (map_prod throwing id) (read_until_string_v2 B read_some delim b w)"

definition read_until_delim_v2_throwing where
  "read_until_delim_v2_throwing B read_some delim b w =
     map_option (map_prod throwing id) (read_until_delim_v2 B read_some delim b w)"

definition read_until_match_v2_throwing where
  "read_until_match_v2_throwing B read_some match_condition b w =
     map_option (map_prod throwing id) (read_until_match_v2 B read_some match_condition b w)"

section \<open>The asynchronous operations\<close>

text \<open>
  The members of an operation that change. A call of \<open>operator()\<close> ends by starting a read into memory of the
  buffer, for version 2 at a position in it, by calling the handler, or by an exception.
\<close>

record 'b until_op =
  uo_buffers :: 'b
  uo_search_position :: nat
  uo_bytes_to_read :: nat

datatype 'b until_step =
    Start_read nat nat "'b until_op"
  | Complete error_code nat 'b
  | Op_threw 'b

text \<open>\<open>not_found\<close> of the operations is the largest \<open>std::size_t\<close>.\<close>

definition complete_until :: "error_code \<Rightarrow> 'b until_op \<Rightarrow> 'b until_step" where
  "complete_until ec op =
     Complete (if uo_search_position op = size_max then make_misc_error not_found else ec)
       (if ec_failed ec \<or> uo_search_position op = size_max then 0 else uo_search_position op) (uo_buffers op)"

definition look_v1 :: "'b dynamic_buffer_v1 \<Rightarrow> search \<Rightarrow> 'b until_op \<Rightarrow> 'b until_op" where
  "look_v1 B search op =
     (let b = uo_buffers op
      in case search (uo_search_position op) (v1_data B b) of
           Match_end n \<Rightarrow> op\<lparr>uo_search_position := n, uo_bytes_to_read := 0\<rparr>
         | Search_from p \<Rightarrow>
             if v1_size B b = v1_max_size B b then op\<lparr>uo_search_position := size_max, uo_bytes_to_read := 0\<rparr>
             else op\<lparr>uo_search_position := p,
                     uo_bytes_to_read := bytes_to_read (v1_capacity B b) (v1_size B b) (v1_max_size B b)\<rparr>)"

definition loop_v1 :: "'b dynamic_buffer_v1 \<Rightarrow> search \<Rightarrow> error_code \<Rightarrow> int \<Rightarrow> 'b until_op \<Rightarrow> 'b until_step" where
  "loop_v1 B search ec start op =
     (let op1 = look_v1 B search op
      in if start = 0 \<and> uo_bytes_to_read op1 = 0 then complete_until ec op1
         else (case v1_prepare B (uo_bytes_to_read op1) (uo_buffers op1) of
                 Inl b \<Rightarrow> Op_threw b
               | Inr b \<Rightarrow> Start_read 0 (uo_bytes_to_read op1) (op1\<lparr>uo_buffers := b\<rparr>)))"

definition until_op_v1 ::
  "'b dynamic_buffer_v1 \<Rightarrow> search \<Rightarrow> error_code \<Rightarrow> nat \<Rightarrow> int \<Rightarrow> 'b until_op \<Rightarrow> 'b until_step" where
  "until_op_v1 B search ec bytes_transferred start op =
     (if start = 1 then loop_v1 B search ec start op
      else
        (case v1_commit B bytes_transferred (uo_buffers op) of
           Inl b \<Rightarrow> Op_threw b
         | Inr b \<Rightarrow>
             (let op1 = op\<lparr>uo_buffers := b\<rparr>
              in if ec_failed ec \<or> bytes_transferred = 0 then complete_until ec op1
                 else loop_v1 B search ec start op1)))"

definition look_v2 :: "'b dynamic_buffer_v2 \<Rightarrow> search \<Rightarrow> 'b until_op \<Rightarrow> 'b until_op" where
  "look_v2 B search op =
     (let b = uo_buffers op
      in case search (uo_search_position op) (v2_data B 0 (v2_size B b) b) of
           Match_end n \<Rightarrow> op\<lparr>uo_search_position := n, uo_bytes_to_read := 0\<rparr>
         | Search_from p \<Rightarrow>
             if v2_size B b = v2_max_size B b then op\<lparr>uo_search_position := size_max, uo_bytes_to_read := 0\<rparr>
             else op\<lparr>uo_search_position := p,
                     uo_bytes_to_read := bytes_to_read (v2_capacity B b) (v2_size B b) (v2_max_size B b)\<rparr>)"

definition loop_v2 :: "'b dynamic_buffer_v2 \<Rightarrow> search \<Rightarrow> error_code \<Rightarrow> int \<Rightarrow> 'b until_op \<Rightarrow> 'b until_step" where
  "loop_v2 B search ec start op =
     (let op1 = look_v2 B search op
      in if start = 0 \<and> uo_bytes_to_read op1 = 0 then complete_until ec op1
         else
           (let pos = v2_size B (uo_buffers op1)
            in case v2_grow B (uo_bytes_to_read op1) (uo_buffers op1) of
                 Inl b \<Rightarrow> Op_threw b
               | Inr b \<Rightarrow> Start_read pos (length (v2_data B pos (uo_bytes_to_read op1) b)) (op1\<lparr>uo_buffers := b\<rparr>)))"

definition until_op_v2 ::
  "'b dynamic_buffer_v2 \<Rightarrow> search \<Rightarrow> error_code \<Rightarrow> nat \<Rightarrow> int \<Rightarrow> 'b until_op \<Rightarrow> 'b until_step" where
  "until_op_v2 B search ec bytes_transferred start op =
     (if start = 1 then loop_v2 B search ec start op
      else
        (case v2_shrink B (size_sub (uo_bytes_to_read op) bytes_transferred) (uo_buffers op) of
           Inl b \<Rightarrow> Op_threw b
         | Inr b \<Rightarrow>
             (let op1 = op\<lparr>uo_buffers := b\<rparr>
              in if ec_failed ec \<or> bytes_transferred = 0 then complete_until ec op1
                 else loop_v2 B search ec start op1)))"

text \<open>\<open>async_read_until\<close>, through the function object that starts the operation.\<close>

definition start_until_v1 :: "'b dynamic_buffer_v1 \<Rightarrow> search \<Rightarrow> 'b \<Rightarrow> 'b until_step" where
  "start_until_v1 B search b =
     until_op_v1 B search ec_success 0 1 \<lparr>uo_buffers = b, uo_search_position = 0, uo_bytes_to_read = 0\<rparr>"

definition start_until_v2 :: "'b dynamic_buffer_v2 \<Rightarrow> search \<Rightarrow> 'b \<Rightarrow> 'b until_step" where
  "start_until_v2 B search b =
     until_op_v2 B search ec_success 0 1 \<lparr>uo_buffers = b, uo_search_position = 0, uo_bytes_to_read = 0\<rparr>"

text \<open>The operation with its stream: every read stores what it received and resumes the operation.\<close>

partial_function (option) drive_until_v1 ::
  "'b dynamic_buffer_v1 \<Rightarrow> search \<Rightarrow> 'w read_stream \<Rightarrow> 'b until_step \<Rightarrow> 'w \<Rightarrow> ('b until_outcome \<times> 'w) option" where
  "drive_until_v1 B search read_some st w =
     (case st of
        Complete ec n b \<Rightarrow> Some (Returned ec n b, w)
      | Op_threw b \<Rightarrow> Some (Threw b, w)
      | Start_read pos n op \<Rightarrow>
          (case read_some n w of
             (d, ec, w1) \<Rightarrow>
               drive_until_v1 B search read_some
                 (until_op_v1 B search ec (length d) 0 (op\<lparr>uo_buffers := v1_stored B d (uo_buffers op)\<rparr>)) w1))"

partial_function (option) drive_until_v2 ::
  "'b dynamic_buffer_v2 \<Rightarrow> search \<Rightarrow> 'w read_stream \<Rightarrow> 'b until_step \<Rightarrow> 'w \<Rightarrow> ('b until_outcome \<times> 'w) option" where
  "drive_until_v2 B search read_some st w =
     (case st of
        Complete ec n b \<Rightarrow> Some (Returned ec n b, w)
      | Op_threw b \<Rightarrow> Some (Threw b, w)
      | Start_read pos n op \<Rightarrow>
          (case read_some n w of
             (d, ec, w1) \<Rightarrow>
               drive_until_v2 B search read_some
                 (until_op_v2 B search ec (length d) 0 (op\<lparr>uo_buffers := v2_stored B pos d (uo_buffers op)\<rparr>)) w1))"

definition async_read_until_v1 where
  "async_read_until_v1 B search read_some b w = drive_until_v1 B search read_some (start_until_v1 B search b) w"

definition async_read_until_v2 where
  "async_read_until_v2 B search read_some b w = drive_until_v2 B search read_some (start_until_v2 B search b) w"

text \<open>The overloads, by what is looked for and by the kind of buffer.\<close>

definition async_read_until_delim_v1 where
  "async_read_until_delim_v1 B read_some delim = async_read_until_v1 B (delim_search delim) read_some"

definition async_read_until_string_v1 where
  "async_read_until_string_v1 B read_some delim = async_read_until_v1 B (string_search delim) read_some"

definition async_read_until_match_v1 where
  "async_read_until_match_v1 B read_some match_condition = async_read_until_v1 B (match_search match_condition) read_some"

definition async_read_until_delim_v2 where
  "async_read_until_delim_v2 B read_some delim = async_read_until_v2 B (delim_search delim) read_some"

definition async_read_until_string_v2 where
  "async_read_until_string_v2 B read_some delim = async_read_until_v2 B (string_search delim) read_some"

definition async_read_until_match_v2 where
  "async_read_until_match_v2 B read_some match_condition = async_read_until_v2 B (match_search match_condition) read_some"

definition async_read_until_delim_streambuf where
  "async_read_until_delim_streambuf E read_some delim = async_read_until_delim_v1 (streambuf_v1 E) read_some delim"

definition async_read_until_string_streambuf where
  "async_read_until_string_streambuf E read_some delim = async_read_until_string_v1 (streambuf_v1 E) read_some delim"

definition async_read_until_match_streambuf where
  "async_read_until_match_streambuf E read_some match_condition = async_read_until_match_v1 (streambuf_v1 E) read_some match_condition"

section \<open>The contract of a search\<close>

text \<open>
  The reference: the end of the first occurrence of the delimiter, which must start inside the data. A start
  position is safe when no occurrence starts before it, whatever is appended to the data.
\<close>

definition first_match :: "u8 list \<Rightarrow> u8 list \<Rightarrow> nat option" where
  "first_match delim data =
     map_option (\<lambda>i. i + length delim) (find (\<lambda>i. prefix delim (drop i data)) [0..<length data])"

definition safe_start :: "u8 list \<Rightarrow> nat \<Rightarrow> u8 list \<Rightarrow> bool" where
  "safe_start delim p data \<longleftrightarrow>
     p \<le> length data \<and> (\<forall>i<p. \<not> prefix delim (drop i data) \<and> \<not> prefix (drop i data) delim)"

locale matcher =
  fixes search :: search
    and first_end :: "u8 list \<Rightarrow> nat option"
    and safe :: "nat \<Rightarrow> u8 list \<Rightarrow> bool"
  assumes safe_0: "safe 0 data"
    and match_found: "safe p data \<Longrightarrow> search p data = Match_end n \<Longrightarrow> first_end data = Some n \<and> n \<le> length data"
    and match_missed: "safe p data \<Longrightarrow> search p data = Search_from q
      \<Longrightarrow> first_end data = None \<and> q \<le> length data \<and> safe q (data @ later)"
begin

text \<open>Searching from a safe position gives what searching all the data gives.\<close>

lemma search_from_start:
  assumes "safe p data"
  shows "search p data = Match_end n \<longleftrightarrow> search 0 data = Match_end n"
  using match_found [OF assms] match_found [OF safe_0, of data] match_missed [OF assms] match_missed [OF safe_0, of data]
  by (cases "search p data"; cases "search 0 data") fastforce+

end

subsection \<open>Strings\<close>

lemma safe_start_append:
  assumes "safe_start delim p data"
  shows "safe_start delim p (data @ later)"
  using assms
  by (auto simp: safe_start_def prefix_append dest: append_prefixD)

lemma first_match_Some:
  assumes "prefix delim (drop i data)" and "i < length data" and "\<And>j. j < i \<Longrightarrow> \<not> prefix delim (drop j data)"
  shows "first_match delim data = Some (i + length delim)"
proof -
  have "find (\<lambda>i. prefix delim (drop i data)) [0..<length data] = Some i"
    using assms by (auto simp: find_Some_iff intro!: exI [of _ i])
  then show ?thesis by (simp add: first_match_def)
qed

lemma first_match_None:
  "first_match delim data = None \<longleftrightarrow> (\<forall>i<length data. \<not> prefix delim (drop i data))"
  by (auto simp: first_match_def find_None_iff)

lemma test_match_Whole: "test_match a xs ys = Whole \<longleftrightarrow> prefix ys xs"
  by (induction a xs ys rule: test_match.induct) auto

lemma test_match_Partial:
  "test_match a xs ys = Partial \<longleftrightarrow> prefix xs ys \<and> xs \<noteq> ys \<and> (a \<or> xs \<noteq> [])"
  by (induction a xs ys rule: test_match.induct) auto

lemma test_match_Mismatch:
  "xs \<noteq> [] \<Longrightarrow> test_match a xs ys = Mismatch \<longleftrightarrow> \<not> prefix ys xs \<and> \<not> prefix xs ys"
  using test_match_Whole [of a xs ys] test_match_Partial [of a xs ys] by (cases "test_match a xs ys") auto

lemma partial_search_result:
  assumes "partial_search xs delim = (i, full)"
  shows "i \<le> length xs \<and> (\<forall>j<i. \<not> prefix delim (drop j xs) \<and> \<not> prefix (drop j xs) delim) \<and>
    (full \<longrightarrow> i < length xs \<and> prefix delim (drop i xs)) \<and>
    (\<not> full \<longrightarrow> i < length xs \<longrightarrow> prefix (drop i xs) delim \<and> drop i xs \<noteq> delim)"
  using assms
proof (induction xs arbitrary: i)
  case (Cons x xs)
  show ?case
  proof (cases "test_match False (x # xs) delim")
    case Mismatch
    then obtain k where k: "partial_search xs delim = (k, full)" "i = Suc k"
      using Cons.prems by (auto split: prod.splits)
    have "\<not> prefix delim (x # xs) \<and> \<not> prefix (x # xs) delim"
      using Mismatch test_match_Mismatch [of "x # xs" False delim] by simp
    with Cons.IH [OF k(1)] k(2) show ?thesis by (auto simp: less_Suc_eq_0_disj)
  qed (use Cons.prems test_match_Whole [of False "x # xs" delim] test_match_Partial [of False "x # xs" delim] in auto)
qed simp

lemma short_rest:
  assumes "prefix (drop i xs) delim" and "drop i xs \<noteq> delim" and "i \<le> j"
  shows "\<not> prefix delim (drop j xs)"
proof
  assume "prefix delim (drop j xs)"
  then have "length delim \<le> length xs - j" using prefix_length_le by fastforce
  moreover have "length xs - i < length delim"
    using assms prefix_length_less [of "drop i xs" delim] by (simp add: strict_prefix_def)
  ultimately show False using assms(3) by simp
qed

lemma string_search_matcher: "matcher (string_search delim) (first_match delim) (safe_start delim)"
proof
  fix p data n q and later :: "u8 list"
  assume safe: "safe_start delim p data"
  obtain i full where ps: "partial_search (drop p data) delim = (i, full)" by force
  have p: "p \<le> length data" using safe by (simp add: safe_start_def)
  note r = partial_search_result [OF ps, simplified]
  have before: "\<not> prefix delim (drop j data) \<and> \<not> prefix (drop j data) delim" if "j < p + i" for j
  proof (cases "j < p")
    case True with safe show ?thesis by (simp add: safe_start_def)
  next
    case False
    then obtain k where "j = p + k" using le_Suc_ex not_less by blast
    with that r show ?thesis by (auto simp: add.commute)
  qed
  have pi: "p + i \<le> length data" using p conjunct1 [OF r] by linarith
  {
    assume "string_search delim p data = Match_end n"
    then have full: "full" "p + i \<noteq> length data" "n = p + i + length delim"
      by (auto simp: string_search_def ps split: if_splits)
    then have pre: "prefix delim (drop (p + i) data)" "p + i < length data"
      using r pi by (auto simp: add.commute)
    then have "first_match delim data = Some n"
      using before full(3) by (auto intro!: first_match_Some)
    moreover have "length delim \<le> length data - (p + i)"
      using prefix_length_le [OF pre(1)] by simp
    ultimately show "first_match delim data = Some n \<and> n \<le> length data"
      using full(3) pi by simp
  next
    assume s: "string_search delim p data = Search_from q"
    have q: "q = p + i" and rest: "p + i < length data \<Longrightarrow> prefix (drop (p + i) data) delim \<and> drop (p + i) data \<noteq> delim"
      using s r pi by (auto simp: string_search_def ps add.commute split: if_splits)
    have "\<not> prefix delim (drop j data)" if "j < length data" for j
      using that before [of j] rest short_rest [of "p + i" data delim j] by (cases "j < p + i") auto
    then have "first_match delim data = None" by (simp add: first_match_None)
    moreover have "safe_start delim q data"
      using before pi q by (simp add: safe_start_def)
    ultimately show "first_match delim data = None \<and> q \<le> length data \<and> safe_start delim q (data @ later)"
      using pi q safe_start_append by blast
  }
qed (simp add: safe_start_def)

interpretation str_match: matcher "string_search delim" "first_match delim" "safe_start delim" for delim
  by (rule string_search_matcher)

subsection \<open>Characters\<close>

lemma std_find_partial_search: "fst (partial_search xs [c]) = std_find c xs"
  and partial_search_char: "snd (partial_search xs [c]) \<longleftrightarrow> std_find c xs < length xs"
  by (induction xs) (auto split: prod.splits)

text \<open>Looking for a character is looking for the string of that character.\<close>

lemma delim_search_string: "p \<le> length data \<Longrightarrow> delim_search c p data = string_search [c] p data"
proof -
  assume "p \<le> length data"
  obtain i full where ps: "partial_search (drop p data) [c] = (i, full)" by force
  then have "std_find c (drop p data) = i" and "full \<longleftrightarrow> i < length data - p" and "i \<le> length data - p"
    using std_find_partial_search [of "drop p data" c] partial_search_char [of "drop p data" c]
      partial_search_result [OF ps] by simp_all
  with \<open>p \<le> length data\<close> show ?thesis
    by (auto simp: delim_search_def string_search_def ps Let_def)
qed

interpretation char_match: matcher "delim_search c" "first_match [c]" "safe_start [c]" for c
proof
  fix p data n q and later :: "u8 list"
  assume safe: "safe_start [c] p data"
  then have eq: "delim_search c p data = string_search [c] p data"
    by (simp add: delim_search_string safe_start_def)
  show "delim_search c p data = Match_end n \<Longrightarrow> first_match [c] data = Some n \<and> n \<le> length data"
    using str_match.match_found [OF safe] eq by simp
  show "delim_search c p data = Search_from q \<Longrightarrow> first_match [c] data = None \<and> q \<le> length data \<and> safe_start [c] q (data @ later)"
    using str_match.match_missed [OF safe] eq by simp
qed (simp add: safe_start_def)

end
