(* ===== verification/Read_Until_Properties.thy ===== *)
theory Read_Until_Properties
  imports Read_Until
begin

text \<open>
  What \<open>read_until\<close> and \<open>async_read_until\<close> return: the loops under the contracts of the buffer and of the
  search, their instances for strings and stream buffers, and the comparison of the two forms.
\<close>

section \<open>Results\<close>

text \<open>
  The stream delivers what it counts: \<open>hist\<close> is what has been received in a state, a read gets no more than
  it asks for, and one that succeeds on some memory gets something.
\<close>

definition delivers :: "'w read_stream \<Rightarrow> ('w \<Rightarrow> u8 list) \<Rightarrow> bool" where
  "delivers read_some hist \<longleftrightarrow>
     (\<forall>n w d ec w1. read_some n w = (d, ec, w1) \<longrightarrow>
        length d \<le> n \<and> hist w1 = hist w @ d \<and> (0 < n \<longrightarrow> \<not> ec_failed ec \<longrightarrow> d \<noteq> []))"

text \<open>
  The result of a call that started with \<open>data\<close>: what was received is appended, the number of bytes ends
  the first match and 0 goes with an error, and nothing is read once the data contain a match. An exception
  means that the data held no match and that the next read would not fit into \<open>limit\<close> bytes.
\<close>

definition until_result ::
  "(u8 list \<Rightarrow> nat option) \<Rightarrow> nat \<Rightarrow> nat \<Rightarrow> ('b \<Rightarrow> u8 list) \<Rightarrow> 'w read_stream \<Rightarrow> ('w \<Rightarrow> u8 list) \<Rightarrow> u8 list \<Rightarrow> 'w
     \<Rightarrow> 'b until_outcome \<times> 'w \<Rightarrow> bool" where
  "until_result first_end limit maximum bdata read_some hist data w r \<longleftrightarrow>
     (case r of
        (Threw b1, w1) \<Rightarrow>
          limit < maximum \<and>
          (\<exists>ds n. hist w1 = hist w @ ds \<and> first_end (data @ ds) = None \<and> n \<le> 65536 \<and>
             length (data @ ds) + n \<le> maximum \<and> limit < length (data @ ds) + n)
      | (Returned ec n b1, w1) \<Rightarrow>
          \<exists>ds. hist w1 = hist w @ ds \<and> bdata b1 = data @ ds \<and>
            (ds = [] \<or> (\<exists>e d. ds = e @ d \<and> length d \<le> 65536 \<and> first_end (data @ e) = None)) \<and>
            (if ec = ec_success then first_end (bdata b1) = Some n
             else n = 0 \<and>
               (ec = make_misc_error not_found \<and> first_end (bdata b1) = None \<and> length (bdata b1) = maximum \<or>
                ec_failed ec \<and> (\<exists>k w0 d. read_some k w0 = (d, ec, w1)))))"

lemma not_found_failed [simp]: "make_misc_error not_found \<noteq> ec_success" "ec_failed (make_misc_error not_found)" "\<not> ec_failed ec_success"
  by (simp_all add: make_misc_error_def ec_success_def ec_failed_def)

lemma bytes_to_read_range:
  "m < n \<Longrightarrow> n \<le> size_max \<Longrightarrow> 0 < bytes_to_read cap m n \<and> bytes_to_read cap m n \<le> n - m \<and> bytes_to_read cap m n \<le> 65536"
  by (auto simp: bytes_to_read_def min_def max_def)

section \<open>The loops under their contracts\<close>

locale until_sync = growing_buffer bsize bmax bdata begin_read end_read wf limit + matcher search first_end safe
  for bsize bmax :: "'b \<Rightarrow> nat" and bdata :: "'b \<Rightarrow> u8 list" and begin_read :: "nat \<Rightarrow> 'b \<Rightarrow> 'b + 'b"
    and end_read :: "nat \<Rightarrow> nat \<Rightarrow> u8 list \<Rightarrow> 'b \<Rightarrow> 'b + 'b" and wf :: "'b \<Rightarrow> bool" and limit :: nat
    and search :: search and first_end :: "u8 list \<Rightarrow> nat option" and safe :: "nat \<Rightarrow> u8 list \<Rightarrow> bool" +
  fixes capacity :: "'b \<Rightarrow> nat"
    and loop :: "'w read_stream \<Rightarrow> nat \<Rightarrow> 'b \<Rightarrow> 'w \<Rightarrow> ('b until_outcome \<times> 'w) option"
  assumes loop_step: "wf b \<Longrightarrow> loop read_some p b w =
     (case search p (bdata b) of
        Match_end n \<Rightarrow> Some (Returned ec_success n b, w)
      | Search_from q \<Rightarrow>
          if bsize b = bmax b then Some (Returned (make_misc_error not_found) 0 b, w)
          else
            (let n = bytes_to_read (capacity b) (bsize b) (bmax b)
             in case begin_read n b of
                  Inl b1 \<Rightarrow> Some (Threw b1, w)
                | Inr b1 \<Rightarrow>
                    (case read_some n w of
                       (d, ec, w1) \<Rightarrow>
                         (case end_read (bsize b) n d b1 of
                            Inl b2 \<Rightarrow> Some (Threw b2, w1)
                          | Inr b2 \<Rightarrow> if ec_failed ec then Some (Returned ec 0 b2, w1) else loop read_some q b2 w1))))"
begin

lemma asked:
  assumes "wf b" and "bsize b \<noteq> bmax b" and "n = bytes_to_read (capacity b) (bsize b) (bmax b)"
  shows "0 < n" and "n \<le> bmax b - bsize b" and "n \<le> 65536"
  using assms bytes_to_read_range [of "bsize b" "bmax b" "capacity b"] size_le [of b] max_le [of b] by auto

text \<open>One round that reads.\<close>

lemma round_cases:
  assumes wf: "wf b" and safe: "safe p (bdata b)" and miss: "search p (bdata b) = Search_from q"
    and room: "bsize b \<noteq> bmax b" and n: "n = bytes_to_read (capacity b) (bsize b) (bmax b)"
    and del: "delivers read_some hist"
  obtains b1 where "begin_read n b = Inl b1" and "limit < bsize b + n" and "bsize b + n \<le> bmax b" and "n \<le> 65536"
  | b1 d ec w1 b2 where "begin_read n b = Inr b1" and "read_some n w = (d, ec, w1)"
    and "end_read (bsize b) n d b1 = Inr b2" and "wf b2" and "bdata b2 = bdata b @ d" and "bmax b2 = bmax b"
    and "safe q (bdata b2)" and "hist w1 = hist w @ d" and "length d \<le> 65536" and "ec_failed ec \<or> d \<noteq> []"
proof (cases "begin_read n b")
  case (Inl b1)
  then show thesis
    using that(1) refused [OF wf _ Inl] asked(2,3) [OF wf room n] size_le [OF wf] by simp
next
  case (Inr b1)
  obtain d ec w1 where rd: "read_some n w = (d, ec, w1)" by (rule prod_cases3)
  then have d: "length d \<le> n" "hist w1 = hist w @ d" "ec_failed ec \<or> d \<noteq> []"
    using del asked(1) [OF wf room n] unfolding delivers_def by blast+
  obtain b2 where "end_read (bsize b) n d b1 = Inr b2" "wf b2" "bdata b2 = bdata b @ d" "bmax b2 = bmax b"
    using appended [OF wf _ _ Inr d(1)] asked [OF wf room n] by blast
  moreover have "safe q (bdata b2)"
    using match_missed [OF safe miss, of d] calculation(3) by simp
  ultimately show thesis
    using that(2) [OF Inr rd] d asked(3) [OF wf room n] by fastforce
qed

lemma until_result_later:
  assumes r: "until_result first_end limit maximum bdata read_some hist (data @ d) w1 r"
    and "hist w1 = hist w @ d" and "length d \<le> 65536" and "first_end data = None"
  shows "until_result first_end limit maximum bdata read_some hist data w r"
proof -
  obtain out w2 where r2: "r = (out, w2)" by force
  show ?thesis
  proof (cases out)
    case (Returned ec n b1)
    then obtain ds where ds: "hist w2 = hist w1 @ ds" "bdata b1 = (data @ d) @ ds"
      "ds = [] \<or> (\<exists>e d'. ds = e @ d' \<and> length d' \<le> 65536 \<and> first_end ((data @ d) @ e) = None)"
      "if ec = ec_success then first_end (bdata b1) = Some n
       else n = 0 \<and> (ec = make_misc_error not_found \<and> first_end (bdata b1) = None \<and> length (bdata b1) = maximum \<or>
         ec_failed ec \<and> (\<exists>k w0 d. read_some k w0 = (d, ec, w2)))"
      using r by (auto simp: until_result_def r2)
    have "\<exists>e d'. d @ ds = e @ d' \<and> length d' \<le> 65536 \<and> first_end (data @ e) = None"
      using ds(3)
    proof
      assume "ds = []"
      with assms(3,4) show ?thesis by (intro exI [of _ "[]"] exI [of _ d]) simp
    next
      assume "\<exists>e d'. ds = e @ d' \<and> length d' \<le> 65536 \<and> first_end ((data @ d) @ e) = None"
      then obtain e d' where "ds = e @ d'" "length d' \<le> 65536" "first_end ((data @ d) @ e) = None" by blast
      then show ?thesis by (intro exI [of _ "d @ e"] exI [of _ d']) simp
    qed
    with ds(1,2,4) show ?thesis
      unfolding until_result_def r2 Returned prod.case until_outcome.case
      by (intro exI [of _ "d @ ds"]) (simp add: assms(2))
  next
    case (Threw b1)
    then obtain ds n where "limit < maximum" "hist w2 = hist w1 @ ds" "first_end ((data @ d) @ ds) = None" "n \<le> 65536"
      "length ((data @ d) @ ds) + n \<le> maximum" "limit < length ((data @ d) @ ds) + n"
      using r by (auto simp: until_result_def r2)
    then show ?thesis
      unfolding until_result_def r2 Threw prod.case until_outcome.case
      by (intro conjI exI [of _ "d @ ds"] exI [of _ n]) (simp_all add: assms(2))
  qed
qed

lemma until_resultI:
  assumes "hist w1 = hist w @ ds" and "bdata b1 = data @ ds" and "ds \<noteq> [] \<Longrightarrow> length ds \<le> 65536 \<and> first_end data = None"
    and "if ec = ec_success then first_end (bdata b1) = Some n
      else n = 0 \<and> (ec = make_misc_error not_found \<and> first_end (bdata b1) = None \<and> length (bdata b1) = maximum \<or>
         ec_failed ec \<and> (\<exists>k w0 d. read_some k w0 = (d, ec, w1)))"
  shows "until_result first_end limit maximum bdata read_some hist data w (Returned ec n b1, w1)"
proof -
  have "ds = [] \<or> (\<exists>e d. ds = e @ d \<and> length d \<le> 65536 \<and> first_end (data @ e) = None)"
    proof (cases "ds = []")
      case False
      with assms(3) show ?thesis by (intro disjI2 exI [of _ "[]"] exI [of _ ds]) simp
    qed simp
  with assms(1,2,4) show ?thesis
    unfolding until_result_def prod.case until_outcome.case by (intro exI [of _ ds]) simp
qed

theorem sync_result:
  assumes del: "delivers read_some hist" and "wf b" and "safe p (bdata b)"
  shows "\<exists>r. loop read_some p b w = Some r \<and>
    until_result first_end limit (bmax b) bdata read_some hist (bdata b) w r"
  using assms(2,3)
proof (induction "bmax b - bsize b" arbitrary: b p w rule: less_induct)
  case less
  note wf = less.prems(1) and safe = less.prems(2)
  show ?case
  proof (cases "search p (bdata b)")
    case (Match_end n)
    with match_found [OF safe] show ?thesis
      by (auto simp: loop_step [OF wf] intro!: until_resultI [of _ _ _ "[]"])
  next
    case miss: (Search_from q)
    have none: "first_end (bdata b) = None" using match_missed [OF safe miss] by blast
    show ?thesis
    proof (cases "bsize b = bmax b")
      case True
      with miss none size_data [OF wf] show ?thesis
        by (auto simp: loop_step [OF wf] intro!: until_resultI [of _ _ _ "[]"])
    next
      case room: False
      define n where "n = bytes_to_read (capacity b) (bsize b) (bmax b)"
      show ?thesis
      proof (cases rule: round_cases [OF wf safe miss room n_def del, where w = w])
        case (1 b1)
        have "until_result first_end limit (bmax b) bdata read_some hist (bdata b) w (Threw b1, w)"
          unfolding until_result_def prod.case until_outcome.case
          using 1 none size_data [OF wf] by (intro conjI exI [of _ "[]"] exI [of _ n]) simp_all
        with 1 miss room show ?thesis
          by (auto simp: loop_step [OF wf] n_def [symmetric])
      next
        case (2 b1 d ec w1 b2)
        have step: "loop read_some p b w = (if ec_failed ec then Some (Returned ec 0 b2, w1) else loop read_some q b2 w1)"
          using miss room 2(1-3) by (simp add: loop_step [OF wf] n_def [symmetric])
        show ?thesis
        proof (cases "ec_failed ec")
          case True
          moreover have "ec \<noteq> ec_success" using True by auto
          ultimately have "until_result first_end limit (bmax b) bdata read_some hist (bdata b) w (Returned ec 0 b2, w1)"
            using 2 none by (intro until_resultI [of _ _ _ d]) auto
          with True show ?thesis by (simp add: step)
        next
          case False
          have "bmax b2 - bsize b2 < bmax b - bsize b"
            using 2 False room size_data [OF wf] size_data [OF \<open>wf b2\<close>] size_le [OF wf] by (cases d) auto
          from less.hyps [OF this \<open>wf b2\<close> \<open>safe q (bdata b2)\<close>, of w1] obtain r
            where "loop read_some q b2 w1 = Some r"
              and "until_result first_end limit (bmax b) bdata read_some hist (bdata b @ d) w1 r"
            using 2 by auto
          with False 2 none show ?thesis by (auto simp: step intro: until_result_later)
        qed
      qed
    qed
  qed
qed

end

section \<open>The asynchronous form\<close>

definition ended :: "error_code \<Rightarrow> nat \<Rightarrow> 'b \<Rightarrow> 'b until_outcome" where
  "ended ec q b =
     Returned (if q = size_max then make_misc_error not_found else ec) (if ec_failed ec \<or> q = size_max then 0 else q) b"

text \<open>
  A stream whose reads of no bytes succeed with nothing, as those of a socket do, and whose success is the
  code \<open>error_code()\<close>.
\<close>

definition plain_stream :: "'w read_stream \<Rightarrow> bool" where
  "plain_stream read_some \<longleftrightarrow>
     (\<forall>w. read_some 0 w = ([], ec_success, w)) \<and>
     (\<forall>n w d ec w1. read_some n w = (d, ec, w1) \<longrightarrow> \<not> ec_failed ec \<longrightarrow> ec = ec_success)"

text \<open>Outcomes up to the data of the buffer.\<close>

definition up_to_data :: "('b \<Rightarrow> u8 list) \<Rightarrow> ('b until_outcome \<times> 'w) option \<Rightarrow> (u8 list until_outcome \<times> 'w) option" where
  "up_to_data bdata = map_option (map_prod (map_until_outcome bdata) id)"

lemma up_to_data_simps [simp]:
  "up_to_data bdata (Some (Threw b, w)) = Some (Threw (bdata b), w)"
  "up_to_data bdata (Some (Returned ec n b, w)) = Some (Returned ec n (bdata b), w)"
  by (simp_all add: up_to_data_def)

locale until_async =
  until_sync bsize bmax bdata begin_read end_read wf limit search first_end safe capacity loop
  for bsize bmax :: "'b \<Rightarrow> nat" and bdata :: "'b \<Rightarrow> u8 list" and begin_read :: "nat \<Rightarrow> 'b \<Rightarrow> 'b + 'b"
    and end_read :: "nat \<Rightarrow> nat \<Rightarrow> u8 list \<Rightarrow> 'b \<Rightarrow> 'b + 'b" and wf :: "'b \<Rightarrow> bool" and limit :: nat
    and search :: search and first_end :: "u8 list \<Rightarrow> nat option" and safe :: "nat \<Rightarrow> u8 list \<Rightarrow> bool"
    and capacity :: "'b \<Rightarrow> nat" and loop :: "'w read_stream \<Rightarrow> nat \<Rightarrow> 'b \<Rightarrow> 'w \<Rightarrow> ('b until_outcome \<times> 'w) option" +
  fixes arun :: "'w read_stream \<Rightarrow> error_code \<Rightarrow> int \<Rightarrow> nat \<Rightarrow> 'b \<Rightarrow> 'w \<Rightarrow> ('b until_outcome \<times> 'w) option"
  assumes async_step: "wf b \<Longrightarrow> arun read_some ec start p b w =
     (case (case search p (bdata b) of
              Match_end n \<Rightarrow> (n, 0)
            | Search_from q \<Rightarrow>
                if bsize b = bmax b then (size_max, 0) else (q, bytes_to_read (capacity b) (bsize b) (bmax b))) of
        (q, n) \<Rightarrow>
          if start = 0 \<and> n = 0 then Some (ended ec q b, w)
          else
            (case begin_read n b of
               Inl b1 \<Rightarrow> Some (Threw b1, w)
             | Inr b1 \<Rightarrow>
                 (case read_some n w of
                    (d, ec1, w1) \<Rightarrow>
                      (case end_read (bsize b) n d b1 of
                         Inl b2 \<Rightarrow> Some (Threw b2, w1)
                       | Inr b2 \<Rightarrow>
                           if ec_failed ec1 \<or> d = [] then Some (ended ec1 q b2, w1)
                           else arun read_some ec1 0 q b2 w1))))"
begin

text \<open>A search that is over on the first call costs a read of no bytes.\<close>

lemma finished_at_once:
  assumes plain: "plain_stream read_some" and wf: "wf b"
    and q: "(case search p (bdata b) of Match_end n \<Rightarrow> q = n | Search_from _ \<Rightarrow> bsize b = bmax b \<and> q = size_max)"
  shows "up_to_data bdata (arun read_some ec_success start p b w) = Some (map_until_outcome bdata (ended ec_success q b), w)"
proof -
  obtain b1 where b1: "begin_read 0 b = Inr b1" by (rule begin_zero [OF wf])
  obtain b2 where b2: "end_read (bsize b) 0 [] b1 = Inr b2" "bdata b2 = bdata b"
    by (rule empty_read [OF wf b1])
  have rd: "read_some 0 w = ([], ec_success, w)" using plain by (simp add: plain_stream_def)
  show ?thesis
    using q b1 b2 rd
    by (auto simp: async_step [OF wf] ended_def split: found.splits)
qed

theorem async_is_sync:
  assumes del: "delivers read_some hist" and plain: "plain_stream read_some"
    and "wf b" and "safe p (bdata b)"
  shows "up_to_data bdata (arun read_some ec_success start p b w) = up_to_data bdata (loop read_some p b w)"
  using assms(3,4)
proof (induction "bmax b - bsize b" arbitrary: b p w start rule: less_induct)
  case less
  note wf = less.prems(1) and safe = less.prems(2)
  show ?case
  proof (cases "search p (bdata b)")
    case (Match_end n)
    then have "n \<noteq> size_max"
      using match_found [OF safe] size_less [OF wf] size_data [OF wf] by fastforce
    with Match_end finished_at_once [OF plain wf, where p = p and q = n and start = start and w = w] show ?thesis
      by (simp add: loop_step [OF wf] ended_def)
  next
    case miss: (Search_from q)
    have q: "q \<noteq> size_max"
      using match_missed [OF safe miss] size_less [OF wf] size_data [OF wf] by fastforce
    show ?thesis
    proof (cases "bsize b = bmax b")
      case True
      with miss finished_at_once [OF plain wf, where p = p and q = size_max and start = start and w = w] show ?thesis
        by (simp add: loop_step [OF wf] ended_def)
    next
      case room: False
      define n where "n = bytes_to_read (capacity b) (bsize b) (bmax b)"
      have n: "n \<noteq> 0" using asked(1) [OF wf room n_def] by simp
      show ?thesis
      proof (cases rule: round_cases [OF wf safe miss room n_def del, where w = w])
        case (1 b1)
        with miss room n show ?thesis
          by (simp add: loop_step [OF wf] async_step [OF wf] n_def [symmetric])
      next
        case (2 b1 d ec w1 b2)
        have steps: "loop read_some p b w = (if ec_failed ec then Some (Returned ec 0 b2, w1) else loop read_some q b2 w1)"
          "arun read_some ec_success start p b w =
            (if ec_failed ec \<or> d = [] then Some (ended ec q b2, w1) else arun read_some ec 0 q b2 w1)"
          using miss room n 2(1-3) by (simp_all add: loop_step [OF wf] async_step [OF wf] n_def [symmetric])
        show ?thesis
        proof (cases "ec_failed ec")
          case True
          then show ?thesis using q by (simp add: steps ended_def)
        next
          case False
          then have "d \<noteq> []" "ec = ec_success"
            using 2 plain unfolding plain_stream_def by blast+
          moreover have "bmax b2 - bsize b2 < bmax b - bsize b"
            using 2 \<open>d \<noteq> []\<close> room size_data [OF wf] size_data [OF \<open>wf b2\<close>] size_le [OF wf] by (cases d) auto
          ultimately show ?thesis
            using False less.hyps [OF _ \<open>wf b2\<close> \<open>safe q (bdata b2)\<close>, of 0 w1] by (simp add: steps)
        qed
      qed
    qed
  qed
qed

text \<open>A read that succeeds with nothing ends the operation, with the position of the next search for a result.\<close>

lemma empty_read_ends:
  assumes wf: "wf b" and none: "first_end (bdata b) = None" and room: "bsize b \<noteq> bmax b" and fits: "bmax b \<le> limit"
    and rd: "\<And>n. 0 < n \<Longrightarrow> read_some n w = ([], ec_success, w1)"
  shows "\<exists>q b1. arun read_some ec_success start 0 b w = Some (Returned ec_success q b1, w1) \<and>
    bdata b1 = bdata b \<and> search 0 (bdata b) = Search_from q"
proof (cases "search 0 (bdata b)")
  case (Match_end n)
  with match_found [OF safe_0] none show ?thesis by fastforce
next
  case (Search_from q)
  define n where "n = bytes_to_read (capacity b) (bsize b) (bmax b)"
  note n = asked [OF wf room n_def]
  obtain b1 where b1: "begin_read n b = Inr b1"
    using refused [OF wf n(2)] fits n(2) size_le [OF wf] by (cases "begin_read n b") auto
  obtain b2 where "end_read (bsize b) n [] b1 = Inr b2" "bdata b2 = bdata b"
    using appended [OF wf n(2,3) b1, of "[]"] by auto
  moreover have "q \<noteq> size_max"
    using match_missed [OF safe_0 Search_from] size_less [OF wf] size_data [OF wf] by fastforce
  ultimately show ?thesis
    using Search_from room b1 n(1) rd [OF n(1)]
    by (simp add: async_step [OF wf] n_def [symmetric] ended_def)
qed

end

section \<open>The two versions of the requirements\<close>

text \<open>The loops of version 1 and version 2, with their operations, meet the contract of the loop.\<close>

lemma drive_until_v1_simps [simp]:
  "drive_until_v1 B search read_some (Complete ec n b) w = Some (Returned ec n b, w)"
  "drive_until_v1 B search read_some (Op_threw b) w = Some (Threw b, w)"
  "drive_until_v1 B search read_some (Start_read pos n op) w =
     (case read_some n w of
        (d, ec, w1) \<Rightarrow>
          drive_until_v1 B search read_some
            (until_op_v1 B search ec (length d) 0 (op\<lparr>uo_buffers := v1_stored B d (uo_buffers op)\<rparr>)) w1)"
  by (subst drive_until_v1.simps, simp)+

lemma drive_until_v2_simps [simp]:
  "drive_until_v2 B search read_some (Complete ec n b) w = Some (Returned ec n b, w)"
  "drive_until_v2 B search read_some (Op_threw b) w = Some (Threw b, w)"
  "drive_until_v2 B search read_some (Start_read pos n op) w =
     (case read_some n w of
        (d, ec, w1) \<Rightarrow>
          drive_until_v2 B search read_some
            (until_op_v2 B search ec (length d) 0 (op\<lparr>uo_buffers := v2_stored B pos d (uo_buffers op)\<rparr>)) w1)"
  by (subst drive_until_v2.simps, simp)+

definition running_v1 where
  "running_v1 B search read_some ec start p b w =
     drive_until_v1 B search read_some
       (loop_v1 B search ec start \<lparr>uo_buffers = b, uo_search_position = p, uo_bytes_to_read = 0\<rparr>) w"

definition running_v2 where
  "running_v2 B search read_some ec start p b w =
     drive_until_v2 B search read_some
       (loop_v2 B search ec start \<lparr>uo_buffers = b, uo_search_position = p, uo_bytes_to_read = 0\<rparr>) w"

text \<open>What a look at the buffer leaves does not depend on the number of bytes of the last read.\<close>

lemma look_v1_record:
  "look_v1 B search \<lparr>uo_buffers = b, uo_search_position = p, uo_bytes_to_read = k\<rparr> =
     (case (case search p (v1_data B b) of
              Match_end n \<Rightarrow> (n, 0)
            | Search_from q \<Rightarrow>
                if v1_size B b = v1_max_size B b then (size_max, 0)
                else (q, bytes_to_read (v1_capacity B b) (v1_size B b) (v1_max_size B b))) of
        (q, n) \<Rightarrow> \<lparr>uo_buffers = b, uo_search_position = q, uo_bytes_to_read = n\<rparr>)"
  by (simp add: look_v1_def Let_def split: found.split)

lemma loop_v1_bytes:
  "loop_v1 B search ec start \<lparr>uo_buffers = b, uo_search_position = p, uo_bytes_to_read = k\<rparr> =
   loop_v1 B search ec start \<lparr>uo_buffers = b, uo_search_position = p, uo_bytes_to_read = 0\<rparr>"
  by (simp add: loop_v1_def look_v1_record)

lemma look_v2_record:
  "look_v2 B search \<lparr>uo_buffers = b, uo_search_position = p, uo_bytes_to_read = k\<rparr> =
     (case (case search p (v2_data B 0 (v2_size B b) b) of
              Match_end n \<Rightarrow> (n, 0)
            | Search_from q \<Rightarrow>
                if v2_size B b = v2_max_size B b then (size_max, 0)
                else (q, bytes_to_read (v2_capacity B b) (v2_size B b) (v2_max_size B b))) of
        (q, n) \<Rightarrow> \<lparr>uo_buffers = b, uo_search_position = q, uo_bytes_to_read = n\<rparr>)"
  by (simp add: look_v2_def Let_def split: found.split)

lemma loop_v2_bytes:
  "loop_v2 B search ec start \<lparr>uo_buffers = b, uo_search_position = p, uo_bytes_to_read = k\<rparr> =
   loop_v2 B search ec start \<lparr>uo_buffers = b, uo_search_position = p, uo_bytes_to_read = 0\<rparr>"
  by (simp add: loop_v2_def look_v2_record)

locale v1_until =
  growing_buffer "v1_size B" "v1_max_size B" "v1_data B" "v1_prepare B"
    "\<lambda>pos n d b. v1_commit B (length d) (v1_stored B d b)" wf limit +
  matcher search first_end safe
  for B :: "'b dynamic_buffer_v1" and wf limit search first_end safe

sublocale v1_until < run: until_async "v1_size B" "v1_max_size B" "v1_data B" "v1_prepare B"
    "\<lambda>pos n d b. v1_commit B (length d) (v1_stored B d b)" wf limit search first_end safe
    "v1_capacity B" "read_until_v1 B search" "running_v1 B search"
proof (unfold_locales, goal_cases)
  case (1 b read_some p w)
  show ?case by (subst read_until_v1.simps) (simp split: found.split)
next
  case (2 b read_some ec start p w)
  obtain q n where qn: "(case search p (v1_data B b) of Match_end n \<Rightarrow> (n, 0)
      | Search_from q \<Rightarrow> if v1_size B b = v1_max_size B b then (size_max, 0)
          else (q, bytes_to_read (v1_capacity B b) (v1_size B b) (v1_max_size B b))) = (q, n)" by force
  show ?case
    unfolding running_v1_def [of _ _ _ ec start p b w] loop_v1_def look_v1_record qn
    by (auto simp: until_op_v1_def running_v1_def loop_v1_bytes [of _ _ _ _ _ _ n] complete_until_def ended_def split: sum.splits prod.splits)
qed

locale v2_until =
  growing_buffer "v2_size B" "v2_max_size B" "\<lambda>b. v2_data B 0 (v2_size B b) b" "v2_grow B"
    "\<lambda>pos n d b. v2_shrink B (size_sub n (length d)) (v2_stored B pos d b)" wf limit +
  matcher search first_end safe
  for B :: "'b dynamic_buffer_v2" and wf limit search first_end safe +
  assumes region: "wf b \<Longrightarrow> v2_grow B n b = Inr b1 \<Longrightarrow> length (v2_data B (v2_size B b) n b1) = n"

sublocale v2_until < run: until_async "v2_size B" "v2_max_size B" "\<lambda>b. v2_data B 0 (v2_size B b) b" "v2_grow B"
    "\<lambda>pos n d b. v2_shrink B (size_sub n (length d)) (v2_stored B pos d b)" wf limit search first_end safe
    "v2_capacity B" "read_until_v2 B search" "running_v2 B search"
proof (unfold_locales, goal_cases)
  case (1 b read_some p w)
  then show ?case by (subst read_until_v2.simps) (auto simp: Let_def region split: found.split sum.split)
next
  case (2 b read_some ec start p w)
  obtain q n where qn: "(case search p (v2_data B 0 (v2_size B b) b) of Match_end n \<Rightarrow> (n, 0)
      | Search_from q \<Rightarrow> if v2_size B b = v2_max_size B b then (size_max, 0)
          else (q, bytes_to_read (v2_capacity B b) (v2_size B b) (v2_max_size B b))) = (q, n)" by force
  show ?case
    unfolding running_v2_def [of _ _ _ ec start p b w] loop_v2_def look_v2_record qn
    using 2 by (auto simp: until_op_v2_def running_v2_def loop_v2_bytes [of _ _ _ _ _ _ n] region complete_until_def ended_def split: sum.splits prod.splits)
qed

section \<open>Strings and stream buffers\<close>

lemma v1_views [simp]:
  "v1_size (string_v1 E) = dsb_size" "v1_max_size (string_v1 E) = db_max_size" "v1_data (string_v1 E) = dsb_data"
  "v1_prepare (string_v1 E) = dsb_prepare E" "v1_commit (string_v1 E) = dsb_commit E"
  "v1_stored (string_v1 E) d b = b\<lparr>db_bytes := overwrite (db_size b) d (db_bytes b)\<rparr>"
  "v1_size (streambuf_v1 E) = sb_size" "v1_max_size (streambuf_v1 E) = sb_max_size" "v1_data (streambuf_v1 E) = sb_data"
  "v1_prepare (streambuf_v1 E) = sb_prepare E" "v1_commit (streambuf_v1 E) n c = Inr (sb_commit n c)"
  "v1_stored (streambuf_v1 E) d c = c\<lparr>sb_buffer := overwrite (pptr c) d (sb_buffer c)\<rparr>"
  by (simp_all add: string_v1_def streambuf_v1_def)

lemma v2_views [simp]:
  "v2_size (string_v2 E) = dsb_size" "v2_max_size (string_v2 E) = db_max_size" "v2_data (string_v2 E) = dsb_data_at"
  "v2_grow (string_v2 E) = dsb_grow E" "v2_shrink (string_v2 E) = dsb_shrink E"
  "v2_stored (string_v2 E) pos d b = b\<lparr>db_bytes := overwrite pos d (db_bytes b)\<rparr>"
  by (simp_all add: string_v2_def)

text \<open>On the data that the algorithms see, version 2 keeps the same contract.\<close>

lemma string_v2_contract:
  "growing_buffer dsb_size db_max_size (\<lambda>b. dsb_data_at 0 (dsb_size b) b) (dsb_grow E)
     (\<lambda>pos n d b. dsb_shrink E (size_sub n (length d)) (b\<lparr>db_bytes := overwrite pos d (db_bytes b)\<rparr>))
     (\<lambda>b. container_ok E \<and> string_ok_v2 E b) (max_length E)"
proof (unfold_locales, goal_cases)
  case (1 b) then show ?case using str2.size_data [of E b] dsb_all_data [of E b] by simp
next
  case (2 b) then show ?case using str2.size_le by blast
next
  case (3 b) then show ?case using str2.size_less by blast
next
  case (4 b) then show ?case using str2.max_le by blast
next
  case (5 b n b1) then show ?case using str2.refused by blast
next
  case (6 b n b1 d)
  then obtain b2 where b2: "dsb_shrink E (size_sub n (length d)) (b1\<lparr>db_bytes := overwrite (dsb_size b) d (db_bytes b1)\<rparr>) = Inr b2"
    "string_ok_v2 E b2" "db_bytes b2 = db_bytes b @ d" "db_max_size b2 = db_max_size b"
    using string_v2_read(1) by blast
  with 6 show ?case by (auto simp: dsb_all_data)
qed

lemma string_v2_region:
  "container_ok E \<Longrightarrow> string_ok_v2 E b \<Longrightarrow> dsb_grow E n b = Inr b1 \<Longrightarrow> length (dsb_data_at (dsb_size b) n b1) = n"
  using string_v2_read(2) [of E b n b1 "[]"] by simp

interpretation until_string_sb: v1_until "streambuf_v1 E" "\<lambda>b. container_ok E \<and> streambuf_ok E b" "max_length E"
    "string_search delim" "first_match delim" "safe_start delim" for E delim
  using sbuf.growing_buffer_axioms [of E] str_match.matcher_axioms [of delim] by (simp add: v1_until_def)

interpretation until_delim_sb: v1_until "streambuf_v1 E" "\<lambda>b. container_ok E \<and> streambuf_ok E b" "max_length E"
    "delim_search c" "first_match [c]" "safe_start [c]" for E c
  using sbuf.growing_buffer_axioms [of E] char_match.matcher_axioms [of c] by (simp add: v1_until_def)

interpretation until_string_1: v1_until "string_v1 E" "\<lambda>b. container_ok E \<and> string_ok_v1 E b" "max_length E"
    "string_search delim" "first_match delim" "safe_start delim" for E delim
  using str1.growing_buffer_axioms [of E] str_match.matcher_axioms [of delim] by (simp add: v1_until_def)

interpretation until_string_2: v2_until "string_v2 E" "\<lambda>b. container_ok E \<and> string_ok_v2 E b" "max_length E"
    "string_search delim" "first_match delim" "safe_start delim" for E delim
  using string_v2_contract [of E] str_match.matcher_axioms [of delim] string_v2_region [of E]
  by (auto simp: v2_until_def v2_until_axioms_def)

interpretation until_delim_2: v2_until "string_v2 E" "\<lambda>b. container_ok E \<and> string_ok_v2 E b" "max_length E"
    "delim_search c" "first_match [c]" "safe_start [c]" for E c
  using string_v2_contract [of E] char_match.matcher_axioms [of c] string_v2_region [of E]
  by (auto simp: v2_until_def v2_until_axioms_def)

section \<open>Properties\<close>

lemma start_until_running:
  "async_read_until_v1 B search read_some b w = running_v1 B search read_some ec_success 1 0 b w"
  "async_read_until_v2 C search read_some c w = running_v2 C search read_some ec_success 1 0 c w"
  by (simp_all add: async_read_until_v1_def start_until_v1_def until_op_v1_def running_v1_def
      async_read_until_v2_def start_until_v2_def until_op_v2_def running_v2_def)

text \<open>A stream that gives one byte at a time and ends with \<open>eof\<close>, and a container for the examples.\<close>

definition byte_stream :: "(u8 list \<times> u8 list) read_stream" where
  "byte_stream n w =
     (if n = 0 then ([], ec_success, w)
      else (case snd w of
              [] \<Rightarrow> ([], make_misc_error eof, w)
            | x # xs \<Rightarrow> ([x], ec_success, (fst w @ [x], xs))))"

definition small_container :: container_env where
  "small_container = \<lparr>max_length = 4096, new_capacity = (\<lambda>c n. n)\<rparr>"

lemma byte_stream_ok: "delivers byte_stream fst" "plain_stream byte_stream"
  by (auto simp: delivers_def plain_stream_def byte_stream_def split: if_splits list.splits)

lemma small_streambuf:
  "container_ok small_container" "m \<le> size_max \<Longrightarrow> streambuf_ok small_container (sb_construct small_container m)"
  by (simp_all add: container_ok_def small_container_def size_max_def sb_construct_ok buffer_delta_def)

lemma small_simps:
  "max_length small_container = 4096" "sb_max_size (sb_construct E m) = m" "sb_data (sb_construct E m) = []"
  "sb_size (sb_construct E m) = 0"
  by (simp_all add: small_container_def sb_construct_def sb_data_def sb_size_def Let_def)

text \<open>
  C34: \<open>read_until\<close> of a string into a stream buffer returns whenever the stream makes progress. It appends
  what the stream delivered to the input; it succeeds exactly with the end of the first occurrence of the delimiter,
  however the occurrence was split over the reads, reads no further once there is one, and returns 0 with
  \<open>not_found\<close> for a full buffer without one or with the error of the stream. It throws only when the
  maximum size is more than the container can hold, and then only when the input holds no occurrence and
  together with the next read (of at most 65536 bytes) is more than the container can hold.
\<close>

theorem read_until_first_match:
  assumes "delivers read_some hist" and "container_ok E" and "streambuf_ok E b"
  shows "\<exists>r. read_until_string_streambuf E read_some delim b w = Some r \<and>
    until_result (first_match delim) (max_length E) (sb_max_size b) sb_data read_some hist (sb_data b) w r"
  using until_string_sb.run.sync_result [OF assms(1), of E b delim 0 w] assms(2,3)
  by (simp add: read_until_string_streambuf_def read_until_string_v1_def safe_start_def)

theorem read_until_first_match_witness:
  "\<exists>r. read_until_string_streambuf small_container byte_stream [13, 10] (sb_construct small_container 1024) ([], [65, 13, 13, 10, 66]) = Some r \<and>
    until_result (first_match [13, 10]) 4096 1024 sb_data byte_stream fst [] ([], [65, 13, 13, 10, 66]) r"
  using read_until_first_match [OF byte_stream_ok(1) small_streambuf(1) small_streambuf(2) [of 1024], of "[13, 10]" "([], [65, 13, 13, 10, 66])"]
  by (simp add: size_max_def small_simps)

text \<open>
  C35: \<open>async_read_until\<close> gives its handler what \<open>read_until\<close> returns, and leaves the same input in the
  buffer and the same state of the stream, when reads of no bytes succeed at once and other successful reads
  get at least one byte.
\<close>

theorem async_read_until_is_sync:
  assumes "delivers read_some hist" and "plain_stream read_some" and "container_ok E" and "streambuf_ok E b"
  shows "up_to_data sb_data (async_read_until_string_streambuf E read_some delim b w) =
    up_to_data sb_data (read_until_string_streambuf E read_some delim b w)"
  using until_string_sb.run.async_is_sync [OF assms(1,2), of E b delim 0 1 w] assms(3,4)
  by (simp add: read_until_string_streambuf_def read_until_string_v1_def async_read_until_string_streambuf_def
      async_read_until_string_v1_def start_until_running safe_start_def)

theorem async_read_until_is_sync_witness:
  "up_to_data sb_data (async_read_until_string_streambuf small_container byte_stream [10] (sb_construct small_container 1024) ([], [65, 10])) =
    up_to_data sb_data (read_until_string_streambuf small_container byte_stream [10] (sb_construct small_container 1024) ([], [65, 10]))"
  by (rule async_read_until_is_sync [OF byte_stream_ok small_streambuf(1) small_streambuf(2)]) (simp add: size_max_def)

text \<open>The other overloads, with what their buffers hold.\<close>

lemma read_until_delim_streambuf_correct:
  assumes "delivers read_some hist" and "container_ok E" and "streambuf_ok E b"
  shows "\<exists>r. read_until_delim_streambuf E read_some c b w = Some r \<and>
      until_result (first_match [c]) (max_length E) (sb_max_size b) sb_data read_some hist (sb_data b) w r"
    and "plain_stream read_some \<Longrightarrow> up_to_data sb_data (async_read_until_delim_streambuf E read_some c b w) =
      up_to_data sb_data (read_until_delim_streambuf E read_some c b w)"
  using until_delim_sb.run.sync_result [OF assms(1), of E b c 0 w] until_delim_sb.run.async_is_sync [OF assms(1), of E b c 0 1 w]
    assms(2,3)
  by (simp_all add: read_until_delim_streambuf_def read_until_delim_v1_def async_read_until_delim_streambuf_def
      async_read_until_delim_v1_def start_until_running safe_start_def)

abbreviation v2_bytes :: "dynamic_buffer \<Rightarrow> u8 list" where
  "v2_bytes b \<equiv> dsb_data_at 0 (dsb_size b) b"

lemma read_until_string_v2_correct:
  assumes "delivers read_some hist" and "container_ok E" and "string_ok_v2 E b"
  shows "\<exists>r. read_until_string_v2 (string_v2 E) read_some delim b w = Some r \<and>
      until_result (first_match delim) (max_length E) (db_max_size b) v2_bytes read_some hist (v2_bytes b) w r"
    and "plain_stream read_some \<Longrightarrow> up_to_data v2_bytes (async_read_until_string_v2 (string_v2 E) read_some delim b w) =
      up_to_data v2_bytes (read_until_string_v2 (string_v2 E) read_some delim b w)"
  using until_string_2.run.sync_result [OF assms(1), of E b delim 0 w] until_string_2.run.async_is_sync [OF assms(1), of E b delim 0 1 w]
    assms(2,3)
  by (simp_all add: read_until_string_v2_def async_read_until_string_v2_def start_until_running safe_start_def)

lemma read_until_delim_v2_correct:
  assumes "delivers read_some hist" and "container_ok E" and "string_ok_v2 E b"
  shows "\<exists>r. read_until_delim_v2 (string_v2 E) read_some c b w = Some r \<and>
      until_result (first_match [c]) (max_length E) (db_max_size b) v2_bytes read_some hist (v2_bytes b) w r"
    and "plain_stream read_some \<Longrightarrow> up_to_data v2_bytes (async_read_until_delim_v2 (string_v2 E) read_some c b w) =
      up_to_data v2_bytes (read_until_delim_v2 (string_v2 E) read_some c b w)"
  using until_delim_2.run.sync_result [OF assms(1), of E b c 0 w] until_delim_2.run.async_is_sync [OF assms(1), of E b c 0 1 w]
    assms(2,3)
  by (simp_all add: read_until_delim_v2_def async_read_until_delim_v2_def start_until_running safe_start_def)

lemma read_until_string_v1_correct:
  assumes "delivers read_some hist" and "container_ok E" and "string_ok_v1 E b"
  shows "\<exists>r. read_until_string_v1 (string_v1 E) read_some delim b w = Some r \<and>
      until_result (first_match delim) (max_length E) (db_max_size b) dsb_data read_some hist (dsb_data b) w r"
    and "plain_stream read_some \<Longrightarrow> up_to_data dsb_data (async_read_until_string_v1 (string_v1 E) read_some delim b w) =
      up_to_data dsb_data (read_until_string_v1 (string_v1 E) read_some delim b w)"
  using until_string_1.run.sync_result [OF assms(1), of E b delim 0 w] until_string_1.run.async_is_sync [OF assms(1), of E b delim 0 1 w]
    assms(2,3)
  by (simp_all add: read_until_string_v1_def async_read_until_string_v1_def start_until_running safe_start_def)

text \<open>The overloads without an error code throw exactly the failures.\<close>

lemma throwing_returned:
  "throwing (Returned ec n b) =
     (if ec_failed ec then System_error (the (throw_error ec ''read_until'')) b else Bytes n b)"
  by (simp add: throwing_def throw_error_def)

text \<open>
  C36: A read that completes without an error and without bytes ends \<open>async_read_until\<close>: the handler gets
  success and the position of the next search, although the buffer has no occurrence of the delimiter.
\<close>

theorem async_empty_read_succeeds:
  assumes "container_ok E" and "streambuf_ok E b" and "first_match delim (sb_data b) = None"
    and "sb_size b \<noteq> sb_max_size b" and "sb_max_size b \<le> max_length E"
    and "\<And>n. 0 < n \<Longrightarrow> read_some n w = ([], ec_success, w1)"
  shows "\<exists>n b1. async_read_until_string_streambuf E read_some delim b w = Some (Returned ec_success n b1, w1) \<and>
    first_match delim (sb_data b1) = None \<and> string_search delim 0 (sb_data b1) = Search_from n"
  using until_string_sb.run.empty_read_ends [of E b delim read_some w w1 1] assms
  by (auto simp: async_read_until_string_streambuf_def async_read_until_string_v1_def start_until_running)

theorem async_empty_read_succeeds_witness:
  "\<exists>n b1. async_read_until_string_streambuf small_container (\<lambda>n w. ([], ec_success, w)) [10] (sb_construct small_container 1024) () =
      Some (Returned ec_success n b1, ()) \<and>
    first_match [10] (sb_data b1) = None \<and> string_search [10] 0 (sb_data b1) = Search_from n"
  by (rule async_empty_read_succeeds [OF small_streambuf(1) small_streambuf(2)])
    (simp_all add: size_max_def small_simps first_match_def)

text \<open>
  C37: \<open>prepare\<close> of a stream buffer refuses more than the maximum size, but not without effect: the bytes have
  been moved to the front and the pointers have not, so the input loses as many bytes at its front as were
  consumed before, and ends with its old last bytes repeated.
\<close>

theorem refused_prepare_damages_input:
  assumes "streambuf_ok E b" and "sb_max_size b < sb_size b + n"
  shows "\<exists>b1. sb_prepare E n b = Inl b1 \<and> gptr b1 = gptr b \<and> pptr b1 = pptr b \<and>
    sb_data b1 = drop (gptr b) (sb_data b) @ drop (sb_size b - gptr b) (sb_data b)"
  using sb_prepare_throws [OF assms] damaged_input [OF assms(1)] by auto

theorem refused_prepare_damages_input_witness:
  "sb_data \<lparr>sb_buffer = [1, 2, 3], sb_cap = 3, sb_max_size = 3, gptr = 1, egptr = 3, pptr = 3, epptr = 3\<rparr> = [2, 3] \<and>
   (\<exists>b1. sb_prepare small_container 2
      \<lparr>sb_buffer = [1, 2, 3], sb_cap = 3, sb_max_size = 3, gptr = 1, egptr = 3, pptr = 3, epptr = 3\<rparr> = Inl b1 \<and> sb_data b1 = [3, 3])"
  using refused_prepare_damages_input [of small_container
      "\<lparr>sb_buffer = [1, 2, 3], sb_cap = 3, sb_max_size = 3, gptr = 1, egptr = 3, pptr = 3, epptr = 3\<rparr>" 2]
  by (auto simp: streambuf_ok_def sb_size_def sb_data_def size_max_def small_simps)

end
