(* ===== verification/Ip_Address.thy ===== *)
theory Ip_Address
  imports Error_Codes
begin

text \<open>
  Internet addresses: \<open>address_v4\<close>, \<open>address_v6\<close> and \<open>address\<close> of \<open>src/ext/asio/asio/ip/\<close> with their
  predicates, orders and conversions, the address iterators, and the endpoint that pairs an address
  with a port (\<open>ip/detail/endpoint.hpp\<close>). The host is little-endian. Texts are produced and read by the
  operating system and are arguments of the definitions that use them.
\<close>

unbundle bit_operations_syntax

section \<open>Byte order\<close>

text \<open>An integer in memory, lowest byte first, and what \<open>htonl\<close>, \<open>ntohl\<close>, \<open>htons\<close> and \<open>ntohs\<close> make of it.\<close>

fun le_word :: "u8 list \<Rightarrow> 'a::len word" where
  "le_word [] = 0"
| "le_word (b # bs) = ucast b OR push_bit 8 (le_word bs)"

definition le_bytes4 :: "u32 \<Rightarrow> u8 list" where
  "le_bytes4 w = [ucast w, ucast (drop_bit 8 w), ucast (drop_bit 16 w), ucast (drop_bit 24 w)]"

definition le_bytes2 :: "u16 \<Rightarrow> u8 list" where
  "le_bytes2 w = [ucast w, ucast (drop_bit 8 w)]"

definition host_to_network_long :: "u32 \<Rightarrow> u32" where
  "host_to_network_long w = le_word (rev (le_bytes4 w))"

definition network_to_host_long :: "u32 \<Rightarrow> u32" where
  "network_to_host_long w = le_word (rev (le_bytes4 w))"

definition host_to_network_short :: "u16 \<Rightarrow> u16" where
  "host_to_network_short w = le_word (rev (le_bytes2 w))"

definition network_to_host_short :: "u16 \<Rightarrow> u16" where
  "network_to_host_short w = le_word (rev (le_bytes2 w))"

section \<open>Version 4\<close>

text \<open>The member \<open>addr_.s_addr\<close> is in network byte order.\<close>

datatype address_v4 = Address_v4 (s_addr: u32)

definition v4_default :: address_v4 where
  "v4_default = Address_v4 0"

definition v4_from_bytes :: "u8 list \<Rightarrow> address_v4" where
  "v4_from_bytes bytes = Address_v4 (le_word bytes)"

definition v4_from_uint :: "u32 \<Rightarrow> address_v4" where
  "v4_from_uint addr = Address_v4 (host_to_network_long addr)"

definition v4_to_bytes :: "address_v4 \<Rightarrow> u8 list" where
  "v4_to_bytes a = le_bytes4 (s_addr a)"

definition to_uint :: "address_v4 \<Rightarrow> u32" where
  "to_uint a = network_to_host_long (s_addr a)"

definition v4_is_loopback :: "address_v4 \<Rightarrow> bool" where
  "v4_is_loopback a \<longleftrightarrow> to_uint a AND 0xFF000000 = 0x7F000000"

definition v4_is_unspecified :: "address_v4 \<Rightarrow> bool" where
  "v4_is_unspecified a \<longleftrightarrow> to_uint a = 0"

definition is_class_a :: "address_v4 \<Rightarrow> bool" where
  "is_class_a a \<longleftrightarrow> to_uint a AND 0x80000000 = 0"

definition is_class_b :: "address_v4 \<Rightarrow> bool" where
  "is_class_b a \<longleftrightarrow> to_uint a AND 0xC0000000 = 0x80000000"

definition is_class_c :: "address_v4 \<Rightarrow> bool" where
  "is_class_c a \<longleftrightarrow> to_uint a AND 0xE0000000 = 0xC0000000"

definition v4_is_multicast :: "address_v4 \<Rightarrow> bool" where
  "v4_is_multicast a \<longleftrightarrow> to_uint a AND 0xF0000000 = 0xE0000000"

definition v4_less :: "address_v4 \<Rightarrow> address_v4 \<Rightarrow> bool" where
  "v4_less a1 a2 \<longleftrightarrow> to_uint a1 < to_uint a2"

definition v4_loopback :: address_v4 where
  "v4_loopback = v4_from_uint 0x7F000001"

definition v4_any_broadcast :: address_v4 where
  "v4_any_broadcast = v4_from_uint 0xFFFFFFFF"

definition v4_broadcast :: "address_v4 \<Rightarrow> address_v4 \<Rightarrow> address_v4" where
  "v4_broadcast addr msk = v4_from_uint (to_uint addr OR (to_uint msk XOR 0xFFFFFFFF))"

definition v4_netmask :: "address_v4 \<Rightarrow> address_v4" where
  "v4_netmask addr =
     (if is_class_a addr then v4_from_uint 0xFF000000
      else if is_class_b addr then v4_from_uint 0xFFFF0000
      else if is_class_c addr then v4_from_uint 0xFFFFFF00
      else v4_from_uint 0xFFFFFFFF)"

text \<open>\<open>inet_pton\<close> gives the bytes or an error code.\<close>

definition make_address_v4 :: "(string \<Rightarrow> error_code + u8 list) \<Rightarrow> string \<Rightarrow> error_code + address_v4" where
  "make_address_v4 inet_pton str = map_sum id v4_from_bytes (inet_pton str)"

text \<open>The iterator: \<open>++\<close> and \<open>--\<close>.\<close>

definition v4_succ :: "address_v4 \<Rightarrow> address_v4" where
  "v4_succ a = v4_from_uint ((to_uint a + 1) AND 0xFFFFFFFF)"

definition v4_pred :: "address_v4 \<Rightarrow> address_v4" where
  "v4_pred a = v4_from_uint ((to_uint a - 1) AND 0xFFFFFFFF)"

section \<open>Version 6\<close>

datatype address_v6 = Address_v6 (s6_addr: "u8 list") (scope_id: u32)

definition v6_ok :: "address_v6 \<Rightarrow> bool" where
  "v6_ok a \<longleftrightarrow> length (s6_addr a) = 16"

definition v6_default :: address_v6 where
  "v6_default = Address_v6 (replicate 16 0) 0"

definition v6_from_bytes :: "u8 list \<Rightarrow> u32 \<Rightarrow> address_v6" where
  "v6_from_bytes bytes scope = Address_v6 bytes scope"

definition v6_to_bytes :: "address_v6 \<Rightarrow> u8 list" where
  "v6_to_bytes a = s6_addr a"

definition v6_set_scope_id :: "u32 \<Rightarrow> address_v6 \<Rightarrow> address_v6" where
  "v6_set_scope_id scope a = Address_v6 (s6_addr a) scope"

definition v6_is_loopback :: "address_v6 \<Rightarrow> bool" where
  "v6_is_loopback a \<longleftrightarrow> (\<forall>i<15. s6_addr a ! i = 0) \<and> s6_addr a ! 15 = 1"

definition v6_is_unspecified :: "address_v6 \<Rightarrow> bool" where
  "v6_is_unspecified a \<longleftrightarrow> (\<forall>i<16. s6_addr a ! i = 0)"

definition is_link_local :: "address_v6 \<Rightarrow> bool" where
  "is_link_local a \<longleftrightarrow> s6_addr a ! 0 = 0xfe \<and> s6_addr a ! 1 AND 0xc0 = 0x80"

definition is_site_local :: "address_v6 \<Rightarrow> bool" where
  "is_site_local a \<longleftrightarrow> s6_addr a ! 0 = 0xfe \<and> s6_addr a ! 1 AND 0xc0 = 0xc0"

definition is_v4_mapped :: "address_v6 \<Rightarrow> bool" where
  "is_v4_mapped a \<longleftrightarrow> (\<forall>i<10. s6_addr a ! i = 0) \<and> s6_addr a ! 10 = 0xff \<and> s6_addr a ! 11 = 0xff"

definition is_v4_compatible :: "address_v6 \<Rightarrow> bool" where
  "is_v4_compatible a \<longleftrightarrow>
     (\<forall>i<12. s6_addr a ! i = 0) \<and>
     \<not> (s6_addr a ! 12 = 0 \<and> s6_addr a ! 13 = 0 \<and> s6_addr a ! 14 = 0 \<and> (s6_addr a ! 15 = 0 \<or> s6_addr a ! 15 = 1))"

definition v6_is_multicast :: "address_v6 \<Rightarrow> bool" where
  "v6_is_multicast a \<longleftrightarrow> s6_addr a ! 0 = 0xff"

definition is_multicast_global :: "address_v6 \<Rightarrow> bool" where
  "is_multicast_global a \<longleftrightarrow> s6_addr a ! 0 = 0xff \<and> s6_addr a ! 1 AND 0x0f = 0x0e"

definition is_multicast_link_local :: "address_v6 \<Rightarrow> bool" where
  "is_multicast_link_local a \<longleftrightarrow> s6_addr a ! 0 = 0xff \<and> s6_addr a ! 1 AND 0x0f = 0x02"

definition is_multicast_node_local :: "address_v6 \<Rightarrow> bool" where
  "is_multicast_node_local a \<longleftrightarrow> s6_addr a ! 0 = 0xff \<and> s6_addr a ! 1 AND 0x0f = 0x01"

definition is_multicast_org_local :: "address_v6 \<Rightarrow> bool" where
  "is_multicast_org_local a \<longleftrightarrow> s6_addr a ! 0 = 0xff \<and> s6_addr a ! 1 AND 0x0f = 0x08"

definition is_multicast_site_local :: "address_v6 \<Rightarrow> bool" where
  "is_multicast_site_local a \<longleftrightarrow> s6_addr a ! 0 = 0xff \<and> s6_addr a ! 1 AND 0x0f = 0x05"

text \<open>\<open>memcmp\<close>: the sign of the first difference.\<close>

fun memcmp :: "u8 list \<Rightarrow> u8 list \<Rightarrow> int" where
  "memcmp (x # xs) (y # ys) = (if x = y then memcmp xs ys else if x < y then - 1 else 1)"
| "memcmp _ _ = 0"

definition v6_equal :: "address_v6 \<Rightarrow> address_v6 \<Rightarrow> bool" where
  "v6_equal a1 a2 \<longleftrightarrow> memcmp (s6_addr a1) (s6_addr a2) = 0 \<and> scope_id a1 = scope_id a2"

definition v6_less :: "address_v6 \<Rightarrow> address_v6 \<Rightarrow> bool" where
  "v6_less a1 a2 \<longleftrightarrow>
     (let memcmp_result = memcmp (s6_addr a1) (s6_addr a2)
      in if memcmp_result < 0 then True
         else if memcmp_result > 0 then False
         else scope_id a1 < scope_id a2)"

definition v6_loopback :: address_v6 where
  "v6_loopback = (case v6_default of Address_v6 bytes scope \<Rightarrow> Address_v6 (bytes[15 := 1]) scope)"

text \<open>An exception \<open>bad_address_cast\<close> is \<open>None\<close>.\<close>

definition v6_to_v4 :: "address_v6 \<Rightarrow> address_v4 option" where
  "v6_to_v4 a =
     (if \<not> is_v4_mapped a \<and> \<not> is_v4_compatible a then None
      else Some (v4_from_bytes [s6_addr a ! 12, s6_addr a ! 13, s6_addr a ! 14, s6_addr a ! 15]))"

definition v4_mapped :: "address_v4 \<Rightarrow> address_v6" where
  "v4_mapped addr =
     (let v4_bytes = v4_to_bytes addr
      in v6_from_bytes [0, 0, 0, 0, 0, 0, 0, 0, 0, 0, 0xFF, 0xFF, v4_bytes ! 0, v4_bytes ! 1, v4_bytes ! 2, v4_bytes ! 3] 0)"

definition v4_compatible :: "address_v4 \<Rightarrow> address_v6" where
  "v4_compatible addr =
     (let v4_bytes = v4_to_bytes addr
      in v6_from_bytes [0, 0, 0, 0, 0, 0, 0, 0, 0, 0, 0, 0, v4_bytes ! 0, v4_bytes ! 1, v4_bytes ! 2, v4_bytes ! 3] 0)"

definition make_v4_from_mapped :: "address_v6 \<Rightarrow> address_v4 option" where
  "make_v4_from_mapped v6_addr =
     (if \<not> is_v4_mapped v6_addr then None
      else (let v6_bytes = v6_to_bytes v6_addr
            in Some (v4_from_bytes [v6_bytes ! 12, v6_bytes ! 13, v6_bytes ! 14, v6_bytes ! 15])))"

definition make_v6_from_v4 :: "address_v4 \<Rightarrow> address_v6" where
  "make_v6_from_v4 v4_addr =
     (let v4_bytes = v4_to_bytes v4_addr
      in v6_from_bytes [0, 0, 0, 0, 0, 0, 0, 0, 0, 0, 0xFF, 0xFF, v4_bytes ! 0, v4_bytes ! 1, v4_bytes ! 2, v4_bytes ! 3] 0)"

definition make_address_v6 :: "(string \<Rightarrow> error_code + u8 list \<times> u32) \<Rightarrow> string \<Rightarrow> error_code + address_v6" where
  "make_address_v6 inet_pton str = map_sum id (\<lambda>(bytes, scope). v6_from_bytes bytes scope) (inet_pton str)"

text \<open>The iterator goes over the bytes from the last to the first; the index is one more than \<open>i\<close> in the code.\<close>

fun v6_succ_loop :: "nat \<Rightarrow> u8 list \<Rightarrow> u8 list" where
  "v6_succ_loop 0 bytes = bytes"
| "v6_succ_loop (Suc i) bytes =
     (if bytes ! i < 0xFF then bytes[i := bytes ! i + 1] else v6_succ_loop i (bytes[i := 0]))"

definition v6_succ :: "address_v6 \<Rightarrow> address_v6" where
  "v6_succ a = Address_v6 (v6_succ_loop 16 (s6_addr a)) (scope_id a)"

fun v6_pred_loop :: "nat \<Rightarrow> u8 list \<Rightarrow> u8 list" where
  "v6_pred_loop 0 bytes = bytes"
| "v6_pred_loop (Suc i) bytes =
     (if bytes ! i > 0 then bytes[i := bytes ! i - 1] else v6_pred_loop i (bytes[i := 0xFF]))"

definition v6_pred :: "address_v6 \<Rightarrow> address_v6" where
  "v6_pred a = Address_v6 (v6_pred_loop 16 (s6_addr a)) (scope_id a)"

section \<open>Either version\<close>

datatype address_type = Ipv4 | Ipv6

datatype address = Address (type_of_address: address_type) (ipv4_address: address_v4) (ipv6_address: address_v6)

definition address_default :: address where
  "address_default = Address Ipv4 v4_default v6_default"

definition address_from_v4 :: "address_v4 \<Rightarrow> address" where
  "address_from_v4 a = Address Ipv4 a v6_default"

definition address_from_v6 :: "address_v6 \<Rightarrow> address" where
  "address_from_v6 a = Address Ipv6 v4_default a"

definition is_v4 :: "address \<Rightarrow> bool" where
  "is_v4 a \<longleftrightarrow> type_of_address a = Ipv4"

definition is_v6 :: "address \<Rightarrow> bool" where
  "is_v6 a \<longleftrightarrow> type_of_address a = Ipv6"

definition to_v4 :: "address \<Rightarrow> address_v4 option" where
  "to_v4 a = (if type_of_address a \<noteq> Ipv4 then None else Some (ipv4_address a))"

definition to_v6 :: "address \<Rightarrow> address_v6 option" where
  "to_v6 a = (if type_of_address a \<noteq> Ipv6 then None else Some (ipv6_address a))"

definition is_loopback :: "address \<Rightarrow> bool" where
  "is_loopback a = (if type_of_address a = Ipv4 then v4_is_loopback (ipv4_address a) else v6_is_loopback (ipv6_address a))"

definition is_unspecified :: "address \<Rightarrow> bool" where
  "is_unspecified a =
     (if type_of_address a = Ipv4 then v4_is_unspecified (ipv4_address a) else v6_is_unspecified (ipv6_address a))"

definition is_multicast :: "address \<Rightarrow> bool" where
  "is_multicast a = (if type_of_address a = Ipv4 then v4_is_multicast (ipv4_address a) else v6_is_multicast (ipv6_address a))"

definition address_equal :: "address \<Rightarrow> address \<Rightarrow> bool" where
  "address_equal a1 a2 =
     (if type_of_address a1 \<noteq> type_of_address a2 then False
      else if type_of_address a1 = Ipv6 then v6_equal (ipv6_address a1) (ipv6_address a2)
      else s_addr (ipv4_address a1) = s_addr (ipv4_address a2))"

text \<open>\<open>ipv4\<close> is the smaller enumerator.\<close>

definition address_less :: "address \<Rightarrow> address \<Rightarrow> bool" where
  "address_less a1 a2 =
     (if type_of_address a1 = Ipv4 \<and> type_of_address a2 = Ipv6 then True
      else if type_of_address a1 = Ipv6 \<and> type_of_address a2 = Ipv4 then False
      else if type_of_address a1 = Ipv6 then v6_less (ipv6_address a1) (ipv6_address a2)
      else v4_less (ipv4_address a1) (ipv4_address a2))"

definition make_address ::
  "(string \<Rightarrow> error_code + u8 list) \<Rightarrow> (string \<Rightarrow> error_code + u8 list \<times> u32) \<Rightarrow> string \<Rightarrow> error_code + address" where
  "make_address inet_pton4 inet_pton6 str =
     (case make_address_v6 inet_pton6 str of
        Inr a \<Rightarrow> Inr (address_from_v6 a)
      | Inl _ \<Rightarrow>
          (case make_address_v4 inet_pton4 str of
             Inr a \<Rightarrow> Inr (address_from_v4 a)
           | Inl ec \<Rightarrow> Inl ec))"

section \<open>Endpoints\<close>

text \<open>The union \<open>data_\<close>: the family in its first member says which of the two it holds. Ports and the version 4 address are in network byte order.\<close>

datatype sockaddr =
    Sockaddr_in (sin_port: u16) (sin_addr: u32)
  | Sockaddr_in6 (sin6_port: u16) (sin6_flowinfo: u32) (sin6_addr: "u8 list") (sin6_scope_id: u32)

fun endpoint_is_v4 :: "sockaddr \<Rightarrow> bool" where
  "endpoint_is_v4 (Sockaddr_in _ _) = True"
| "endpoint_is_v4 (Sockaddr_in6 _ _ _ _) = False"

definition endpoint_default :: sockaddr where
  "endpoint_default = Sockaddr_in 0 0"

definition endpoint_any :: "bool \<Rightarrow> u16 \<Rightarrow> sockaddr" where
  "endpoint_any af_inet port_num =
     (if af_inet then Sockaddr_in (host_to_network_short port_num) 0
      else Sockaddr_in6 (host_to_network_short port_num) 0 (replicate 16 0) 0)"

definition endpoint_new :: "address \<Rightarrow> u16 \<Rightarrow> sockaddr" where
  "endpoint_new addr port_num =
     (if is_v4 addr
      then Sockaddr_in (host_to_network_short port_num) (host_to_network_long (to_uint (ipv4_address addr)))
      else Sockaddr_in6 (host_to_network_short port_num) 0 (v6_to_bytes (ipv6_address addr)) (scope_id (ipv6_address addr)))"

fun endpoint_port :: "sockaddr \<Rightarrow> u16" where
  "endpoint_port (Sockaddr_in p _) = network_to_host_short p"
| "endpoint_port (Sockaddr_in6 p _ _ _) = network_to_host_short p"

fun endpoint_set_port :: "u16 \<Rightarrow> sockaddr \<Rightarrow> sockaddr" where
  "endpoint_set_port port_num (Sockaddr_in p a) = Sockaddr_in (host_to_network_short port_num) a"
| "endpoint_set_port port_num (Sockaddr_in6 p f a s) = Sockaddr_in6 (host_to_network_short port_num) f a s"

fun endpoint_address :: "sockaddr \<Rightarrow> address" where
  "endpoint_address (Sockaddr_in p a) = address_from_v4 (v4_from_uint (network_to_host_long a))"
| "endpoint_address (Sockaddr_in6 p f a s) = address_from_v6 (v6_from_bytes a s)"

definition endpoint_set_address :: "address \<Rightarrow> sockaddr \<Rightarrow> sockaddr" where
  "endpoint_set_address addr e = endpoint_new addr (endpoint_port e)"

definition endpoint_equal :: "sockaddr \<Rightarrow> sockaddr \<Rightarrow> bool" where
  "endpoint_equal e1 e2 \<longleftrightarrow>
     address_equal (endpoint_address e1) (endpoint_address e2) \<and> endpoint_port e1 = endpoint_port e2"

definition endpoint_less :: "sockaddr \<Rightarrow> sockaddr \<Rightarrow> bool" where
  "endpoint_less e1 e2 =
     (if address_less (endpoint_address e1) (endpoint_address e2) then True
      else if \<not> address_equal (endpoint_address e1) (endpoint_address e2) then False
      else endpoint_port e1 < endpoint_port e2)"

text \<open>\<open>resize\<close> throws \<open>invalid_argument\<close> for more than the size of \<open>sockaddr_storage\<close>.\<close>

definition endpoint_resize :: "nat \<Rightarrow> error_code option" where
  "endpoint_resize new_size = (if new_size > 128 then Some (make_basic_error invalid_argument) else None)"

section \<open>Byte order and memory\<close>

lemma u8_bit_high: "8 \<le> k \<Longrightarrow> \<not> bit (a :: u8) k"
  using bit_imp_le_length [of a k] by auto

lemma le_word_bytes4: "le_word (le_bytes4 w) = w"
proof (rule bit_word_eqI)
  fix n assume "n < LENGTH(32)"
  then consider "n < 8" | "8 \<le> n" "n < 16" | "16 \<le> n" "n < 24" | "24 \<le> n" "n < 32" by fastforce
  then show "bit (le_word (le_bytes4 w) :: u32) n = bit w n"
    by cases (auto simp: le_bytes4_def bit_simps)
qed

lemma le_bytes4_word: "le_bytes4 (le_word [a, b, c, d]) = [a, b, c, d]"
  by (auto simp: le_bytes4_def bit_simps u8_bit_high intro!: bit_word_eqI)

lemma le_word_bytes2: "le_word (le_bytes2 w) = w"
proof (rule bit_word_eqI)
  fix n assume "n < LENGTH(16)"
  then consider "n < 8" | "8 \<le> n" "n < 16" by fastforce
  then show "bit (le_word (le_bytes2 w) :: u16) n = bit w n"
    by cases (auto simp: le_bytes2_def bit_simps)
qed

lemma le_bytes2_word: "le_bytes2 (le_word [a, b]) = [a, b]"
  by (auto simp: le_bytes2_def bit_simps u8_bit_high intro!: bit_word_eqI)

lemma le_bytes4_cases: obtains a b c d where "le_bytes4 w = [a, b, c, d]"
  by (simp add: le_bytes4_def)

lemma network_long_roundtrip [simp]:
  "network_to_host_long (host_to_network_long w) = w" "host_to_network_long (network_to_host_long w) = w"
proof -
  obtain a b c d where w: "le_bytes4 w = [a, b, c, d]" by (rule le_bytes4_cases)
  show "network_to_host_long (host_to_network_long w) = w" "host_to_network_long (network_to_host_long w) = w"
    using le_word_bytes4 [of w]
    by (simp_all only: network_to_host_long_def host_to_network_long_def w le_bytes4_word rev.simps append.simps)
qed

lemma network_short_roundtrip [simp]: "network_to_host_short (host_to_network_short w) = w"
proof -
  obtain a b where w: "le_bytes2 w = [a, b]" by (simp add: le_bytes2_def)
  show ?thesis
    using le_word_bytes2 [of w]
    by (simp only: network_to_host_short_def host_to_network_short_def w le_bytes2_word rev.simps append.simps)
qed

lemma to_uint_v4_from_uint [simp]: "to_uint (v4_from_uint w) = w"
  by (simp add: to_uint_def v4_from_uint_def)

lemma v4_from_uint_to_uint [simp]: "v4_from_uint (to_uint a) = a"
  by (cases a) (simp add: to_uint_def v4_from_uint_def)

lemma to_uint_inject: "to_uint a = to_uint b \<longleftrightarrow> a = b"
  by (metis v4_from_uint_to_uint)

lemma s_addr_inject: "s_addr a = s_addr b \<longleftrightarrow> a = b"
  by (cases a; cases b) simp

lemma v4_from_bytes_to_bytes [simp]: "v4_from_bytes (v4_to_bytes a) = a"
  by (cases a) (simp add: v4_from_bytes_def v4_to_bytes_def le_word_bytes4)

lemma v4_to_bytes_from_bytes: "v4_to_bytes (v4_from_bytes [a, b, c, d]) = [a, b, c, d]"
  by (simp only: v4_from_bytes_def v4_to_bytes_def le_bytes4_word address_v4.sel)

text \<open>The bytes of an address are those of its integer, highest first.\<close>

lemma v4_to_bytes_from_uint: "v4_to_bytes (v4_from_uint w) = rev (le_bytes4 w)"
proof -
  obtain a b c d where w: "le_bytes4 w = [a, b, c, d]" by (rule le_bytes4_cases)
  show ?thesis
    by (simp only: v4_to_bytes_def v4_from_uint_def address_v4.sel host_to_network_long_def w rev.simps append.simps le_bytes4_word)
qed

lemma length_v4_to_bytes [simp]: "length (v4_to_bytes a) = 4"
  by (simp add: v4_to_bytes_def le_bytes4_def)

text \<open>Version 4 addresses are ordered as their integers.\<close>

instantiation address_v4 :: linorder
begin

definition less_address_v4 :: "address_v4 \<Rightarrow> address_v4 \<Rightarrow> bool" where
  "less_address_v4 a b \<longleftrightarrow> v4_less a b"

definition less_eq_address_v4 :: "address_v4 \<Rightarrow> address_v4 \<Rightarrow> bool" where
  "less_eq_address_v4 a b \<longleftrightarrow> \<not> v4_less b a"

instance
  by standard (auto simp: less_address_v4_def less_eq_address_v4_def v4_less_def to_uint_inject)

end

section \<open>The value of a version 6 address\<close>

fun be_value :: "u8 list \<Rightarrow> nat" where
  "be_value [] = 0"
| "be_value (b # bs) = unat b * 256 ^ length bs + be_value bs"

lemma u8_less: "unat (b :: u8) < 256"
  using unsigned_less [of b] by simp

lemma be_value_less: "be_value bs < 256 ^ length bs"
proof (induction bs)
  case (Cons b bs)
  have "unat b * 256 ^ length bs + be_value bs < (unat b + 1) * 256 ^ length bs"
    using Cons.IH by simp
  also have "\<dots> \<le> 256 * 256 ^ length bs"
    using u8_less [of b] by (intro mult_right_mono) auto
  finally show ?case by simp
qed simp

lemma be_value_append: "be_value (xs @ ys) = be_value xs * 256 ^ length ys + be_value ys"
  by (induction xs) (simp_all add: algebra_simps power_add)

lemma be_value_inject: "length xs = length ys \<Longrightarrow> be_value xs = be_value ys \<longleftrightarrow> xs = ys"
proof (induction xs ys rule: list_induct2)
  case (Cons x xs y ys)
  have "unat x = unat y \<and> be_value xs = be_value ys" if "be_value (x # xs) = be_value (y # ys)"
  proof -
    have "be_value (x # xs) div 256 ^ length xs = unat x" "be_value (y # ys) div 256 ^ length xs = unat y"
      using be_value_less [of xs] be_value_less [of ys] Cons.hyps by simp_all
    with that Cons.hyps show ?thesis by simp
  qed
  with Cons.IH show ?case using word_unat_eq_iff [of x y] by blast
qed simp

lemma memcmp_be_value:
  "length xs = length ys \<Longrightarrow>
     (memcmp xs ys < 0 \<longleftrightarrow> be_value xs < be_value ys) \<and> (memcmp xs ys = 0 \<longleftrightarrow> be_value xs = be_value ys)"
proof (induction xs ys rule: list_induct2)
  case (Cons x xs y ys)
  have lt: "be_value (a # as) < be_value (b # bs)" if "a < b" "length as = length bs" for a b :: u8 and as bs
  proof -
    have "be_value (a # as) < (unat a + 1) * 256 ^ length as"
      using be_value_less [of as] by simp
    also have "\<dots> \<le> unat b * 256 ^ length bs"
      using that by (simp add: word_less_nat_alt mult_right_mono del: mult_Suc)
    finally show ?thesis by simp
  qed
  show ?case
    using Cons lt [of x y xs ys] lt [of y x ys xs] by (cases x y rule: linorder_cases) auto
qed simp

definition v6_value :: "address_v6 \<Rightarrow> nat" where
  "v6_value a = be_value (s6_addr a)"

lemma v6_equal_iff: "v6_ok a \<Longrightarrow> v6_ok b \<Longrightarrow> v6_equal a b \<longleftrightarrow> a = b"
  using memcmp_be_value [of "s6_addr a" "s6_addr b"] be_value_inject [of "s6_addr a" "s6_addr b"]
  by (cases a; cases b) (auto simp: v6_equal_def v6_ok_def)

lemma v6_less_iff:
  "v6_ok a \<Longrightarrow> v6_ok b \<Longrightarrow>
     v6_less a b \<longleftrightarrow> v6_value a < v6_value b \<or> v6_value a = v6_value b \<and> scope_id a < scope_id b"
  using memcmp_be_value [of "s6_addr a" "s6_addr b"]
  by (auto simp: v6_less_def v6_ok_def v6_value_def)

lemma v6_value_inject: "v6_ok a \<Longrightarrow> v6_ok b \<Longrightarrow> v6_value a = v6_value b \<Longrightarrow> scope_id a = scope_id b \<Longrightarrow> a = b"
  using be_value_inject [of "s6_addr a" "s6_addr b"] by (cases a; cases b) (auto simp: v6_ok_def v6_value_def)

lemma v6_value_less: "v6_ok a \<Longrightarrow> v6_value a < 2 ^ 128"
  using be_value_less [of "s6_addr a"] by (simp add: v6_ok_def v6_value_def)

text \<open>The iterator counts.\<close>

lemma v6_succ_loop_value:
  "\<exists>zs. v6_succ_loop (length xs) (xs @ ys) = zs @ ys \<and> length zs = length xs \<and>
     be_value zs = (be_value xs + 1) mod 256 ^ length xs"
proof (induction xs arbitrary: ys rule: rev_induct)
  case (snoc b xs)
  show ?case
  proof (cases "b < 0xFF")
    case True
    then have "unat (b + 1) = unat b + 1"
      by (simp add: word_less_nat_alt unat_word_ariths)
    moreover have "be_value xs * 256 + unat b + 1 < 256 ^ length xs * 256"
    proof -
      have "be_value xs + 1 \<le> 256 ^ length xs" using be_value_less [of xs] by simp
      then have "(be_value xs + 1) * 256 \<le> 256 ^ length xs * 256" by (rule mult_right_mono) simp
      moreover have "unat b + 1 < 256" using True by (simp add: word_less_nat_alt)
      ultimately show ?thesis by simp
    qed
    ultimately show ?thesis
      using True by (intro exI [of _ "xs @ [b + 1]"]) (simp add: be_value_append nth_append list_update_append)
  next
    case False
    then have ub: "unat b = 255" using u8_less [of b] by (simp add: word_less_nat_alt)
    obtain zs where zs: "v6_succ_loop (length xs) (xs @ 0 # ys) = zs @ 0 # ys" "length zs = length xs"
      "be_value zs = (be_value xs + 1) mod 256 ^ length xs"
      using snoc.IH [of "0 # ys"] by blast
    have "be_value (zs @ [0]) = (be_value xs + 1) mod 256 ^ length xs * 256"
      by (simp add: be_value_append zs(3))
    also have "\<dots> = ((be_value xs + 1) * 256) mod (256 ^ length xs * 256)" by (rule mult_mod_left)
    also have "(be_value xs + 1) * 256 = be_value (xs @ [b]) + 1" using ub by (simp add: be_value_append)
    also have "(256 :: nat) ^ length xs * 256 = 256 ^ length (xs @ [b])" by (simp add: mult.commute)
    finally show ?thesis
      using zs(1,2) False by (intro exI [of _ "zs @ [0]"]) (simp add: nth_append list_update_append)
  qed
qed simp

lemma v6_succ_ok:
  assumes "v6_ok a"
  shows "v6_ok (v6_succ a)" and "v6_value (v6_succ a) = (v6_value a + 1) mod 2 ^ 128" and "scope_id (v6_succ a) = scope_id a"
  using v6_succ_loop_value [of "s6_addr a" "[]"] assms by (auto simp: v6_ok_def v6_succ_def v6_value_def)

lemma v6_pred_loop_value:
  "\<exists>zs. v6_pred_loop (length xs) (xs @ ys) = zs @ ys \<and> length zs = length xs \<and>
     (be_value zs + 1) mod 256 ^ length xs = be_value xs"
proof (induction xs arbitrary: ys rule: rev_induct)
  case (snoc b xs)
  show ?case
  proof (cases "b > 0")
    case True
    then have "b \<noteq> 0" "0 < unat b" by (auto simp: word_less_nat_alt)
    then have "unat (b - 1) + 1 = unat b"
      using unat_minus_one [of b] by simp
    then have "be_value (xs @ [b - 1]) + 1 = be_value (xs @ [b])"
      by (simp add: be_value_append)
    moreover have "be_value (xs @ [b]) mod 256 ^ length (xs @ [b]) = be_value (xs @ [b])"
      using be_value_less [of "xs @ [b]"] by (simp only: mod_less)
    ultimately show ?thesis
      using True by (intro exI [of _ "xs @ [b - 1]"]) (simp add: nth_append list_update_append)
  next
    case False
    then have b: "unat b = 0" by (simp add: word_less_nat_alt)
    obtain zs where zs: "v6_pred_loop (length xs) (xs @ 0xFF # ys) = zs @ 0xFF # ys" "length zs = length xs"
      "(be_value zs + 1) mod 256 ^ length xs = be_value xs"
      using snoc.IH [of "0xFF # ys"] by blast
    have "be_value (zs @ [0xFF]) + 1 = (be_value zs + 1) * 256" by (simp add: be_value_append)
    also have "\<dots> mod (256 ^ length xs * 256) = (be_value zs + 1) mod 256 ^ length xs * 256"
      by (rule mult_mod_left [symmetric])
    also have "\<dots> = be_value (xs @ [b])" using b zs(3) by (simp add: be_value_append)
    also have "(256 :: nat) ^ length xs * 256 = 256 ^ length (xs @ [b])" by (simp add: mult.commute)
    finally show ?thesis
      using zs(1,2) False by (intro exI [of _ "zs @ [0xFF]"]) (simp add: nth_append list_update_append)
  qed
qed simp

lemma v6_succ_pred:
  assumes "v6_ok a"
  shows "v6_ok (v6_pred a)" and "v6_succ (v6_pred a) = a"
proof -
  have p: "v6_ok (v6_pred a) \<and> (v6_value (v6_pred a) + 1) mod 2 ^ 128 = v6_value a \<and> scope_id (v6_pred a) = scope_id a"
    using v6_pred_loop_value [of "s6_addr a" "[]"] assms by (auto simp: v6_ok_def v6_pred_def v6_value_def)
  then show "v6_ok (v6_pred a)" by blast
  show "v6_succ (v6_pred a) = a"
    using p v6_succ_ok [of "v6_pred a"] assms by (intro v6_value_inject) auto
qed

lemma v4_succ_pred: "v4_succ (v4_pred a) = a" "v4_pred (v4_succ a) = a"
proof -
  have all_ones: "w AND 0xFFFFFFFF = w" for w :: u32
  proof -
    have "(0xFFFFFFFF :: u32) = - 1" by simp
    then show ?thesis by (simp only: and.right_neutral)
  qed
  show "v4_succ (v4_pred a) = a" "v4_pred (v4_succ a) = a"
    by (simp_all only: v4_succ_def v4_pred_def all_ones to_uint_v4_from_uint diff_add_cancel add_diff_cancel_right' v4_from_uint_to_uint)
qed

section \<open>Conversions\<close>

lemma v4_mapped_roundtrip:
  "make_v4_from_mapped (make_v6_from_v4 a) = Some a" "v6_to_v4 (v4_mapped a) = Some a" "v6_ok (make_v6_from_v4 a)"
proof -
  obtain b0 b1 b2 b3 where b: "v4_to_bytes a = [b0, b1, b2, b3]"
    unfolding v4_to_bytes_def by (rule le_bytes4_cases)
  then have a: "v4_from_bytes [b0, b1, b2, b3] = a" using v4_from_bytes_to_bytes [of a] by simp
  show "make_v4_from_mapped (make_v6_from_v4 a) = Some a" "v6_to_v4 (v4_mapped a) = Some a" "v6_ok (make_v6_from_v4 a)"
    by (simp_all add: make_v4_from_mapped_def make_v6_from_v4_def v6_to_v4_def v4_mapped_def b a v6_from_bytes_def
        is_v4_mapped_def v6_to_bytes_def v6_ok_def nth_Cons' less_Suc_eq numeral_eq_Suc)
qed

text \<open>An address of which only one version is set, as the constructors and assignments leave it.\<close>

fun address_ok :: "address \<Rightarrow> bool" where
  "address_ok (Address Ipv4 a b) \<longleftrightarrow> b = v6_default"
| "address_ok (Address Ipv6 a b) \<longleftrightarrow> a = v4_default \<and> v6_ok b"

lemma v6_default_ok [simp]: "v6_ok v6_default"
  by (simp add: v6_ok_def v6_default_def)

lemma address_equal_iff: "address_ok a \<Longrightarrow> address_ok b \<Longrightarrow> address_equal a b \<longleftrightarrow> a = b"
  by (cases a rule: address_ok.cases; cases b rule: address_ok.cases)
    (auto simp: address_equal_def v6_equal_iff s_addr_inject)

text \<open>The comparison is a strict linear order.\<close>

lemma address_less_linear:
  assumes "address_ok a" and "address_ok b"
  shows "address_less a b \<or> a = b \<or> address_less b a" and "address_less a b \<Longrightarrow> \<not> address_less b a"
proof -
  have "v6_less x y \<or> x = y \<or> v6_less y x" if "v6_ok x" "v6_ok y" for x y
    using that v6_value_inject [OF that] linorder_less_linear [of "v6_value x" "v6_value y"]
      linorder_less_linear [of "scope_id x" "scope_id y"] v6_less_iff [OF that] v6_less_iff [OF that(2,1)]
    by presburger
  then show "address_less a b \<or> a = b \<or> address_less b a"
    using assms to_uint_inject
    by (cases a rule: address_ok.cases; cases b rule: address_ok.cases) (auto simp: address_less_def v4_less_def)
  show "address_less a b \<Longrightarrow> \<not> address_less b a"
    using assms
    by (cases a rule: address_ok.cases; cases b rule: address_ok.cases) (auto simp: address_less_def v4_less_def v6_less_iff)
qed

lemma address_less_trans:
  "address_ok a \<Longrightarrow> address_ok b \<Longrightarrow> address_ok c \<Longrightarrow> address_less a b \<Longrightarrow> address_less b c \<Longrightarrow> address_less a c"
  by (cases a rule: address_ok.cases; cases b rule: address_ok.cases; cases c rule: address_ok.cases)
    (auto simp: address_less_def v4_less_def v6_less_iff)

text \<open>An endpoint gives back its address and its port.\<close>

lemma endpoint_roundtrip:
  assumes "address_ok a"
  shows "endpoint_address (endpoint_new a p) = a" and "endpoint_port (endpoint_new a p) = p"
    and "endpoint_address (endpoint_set_port q (endpoint_new a p)) = a" and "endpoint_port (endpoint_set_port q (endpoint_new a p)) = q"
  using assms
  by (cases a rule: address_ok.cases;
      auto simp: endpoint_new_def is_v4_def address_from_v4_def address_from_v6_def v6_from_bytes_def v6_to_bytes_def)+

end
