(* ===== verification/Ip_Network.thy ===== *)
theory Ip_Network
  imports Ip_Address Decimal
begin

text \<open>
  Networks and ranges of addresses: \<open>network_v4\<close> and \<open>network_v6\<close> of \<open>src/ext/asio/asio/ip/\<close> (and
  \<open>ip/impl/network_v4.ipp\<close>, \<open>ip/impl/network_v6.ipp\<close>), \<open>address_v4_range\<close> and \<open>address_v6_range\<close>. The constructors
  throw; their exceptions are values.
\<close>

unbundle bit_operations_syntax

section \<open>Ranges\<close>

text \<open>A range is the addresses of its two iterators.\<close>

record 'a range =
  range_begin :: 'a
  range_end :: 'a

definition range_v4_size :: "address_v4 range \<Rightarrow> u32" where
  "range_v4_size r = to_uint (range_end r) - to_uint (range_begin r)"

definition range_v4_empty :: "address_v4 range \<Rightarrow> bool" where
  "range_v4_empty r \<longleftrightarrow> range_v4_size r = 0"

definition range_v4_find :: "address_v4 \<Rightarrow> address_v4 range \<Rightarrow> address_v4" where
  "range_v4_find addr r =
     (if \<not> v4_less addr (range_begin r) \<and> v4_less addr (range_end r) then addr else range_end r)"

definition range_v6_empty :: "address_v6 range \<Rightarrow> bool" where
  "range_v6_empty r \<longleftrightarrow> v6_equal (range_begin r) (range_end r)"

definition range_v6_find :: "address_v6 \<Rightarrow> address_v6 range \<Rightarrow> address_v6" where
  "range_v6_find addr r =
     (if \<not> v6_less addr (range_begin r) \<and> v6_less addr (range_end r) then addr else range_end r)"

section \<open>Version 4\<close>

datatype network_exception = Prefix_too_large | Invalid_netmask | Netmask_out_of_range

text \<open>\<open>prefix_length_\<close> is an \<open>unsigned short\<close>; the code keeps it within 32 or 128.\<close>

record network_v4 =
  v4_address :: address_v4
  v4_prefix_length :: nat

definition network_v4_default :: network_v4 where
  "network_v4_default = \<lparr>v4_address = v4_default, v4_prefix_length = 0\<rparr>"

definition network_v4_new :: "address_v4 \<Rightarrow> nat \<Rightarrow> network_exception + network_v4" where
  "network_v4_new addr prefix_len =
     (if prefix_len > 32 then Inl Prefix_too_large
      else Inr \<lparr>v4_address = addr, v4_prefix_length = prefix_len\<rparr>)"

text \<open>One byte of the mask; the cases of the \<open>switch\<close> fall through.\<close>

definition mask_byte_bits :: "u8 \<Rightarrow> nat option" where
  "mask_byte_bits b =
     (if b = 254 then Some 7 else if b = 252 then Some 6 else if b = 248 then Some 5 else if b = 240 then Some 4
      else if b = 224 then Some 3 else if b = 192 then Some 2 else if b = 128 then Some 1 else if b = 0 then Some 0
      else None)"

fun mask_loop :: "bool \<Rightarrow> nat \<Rightarrow> u8 list \<Rightarrow> network_exception + nat" where
  "mask_loop finished len [] = Inr len"
| "mask_loop finished len (b # bs) =
     (if finished then (if b \<noteq> 0 then Inl Invalid_netmask else mask_loop True len bs)
      else if b = 255 then mask_loop False (len + 8) bs
      else (case mask_byte_bits b of
              Some n \<Rightarrow> mask_loop True (len + n) bs
            | None \<Rightarrow> Inl Netmask_out_of_range))"

definition network_v4_masked :: "address_v4 \<Rightarrow> address_v4 \<Rightarrow> network_exception + network_v4" where
  "network_v4_masked addr msk =
     map_sum id (\<lambda>len. \<lparr>v4_address = addr, v4_prefix_length = len\<rparr>) (mask_loop False 0 (v4_to_bytes msk))"

definition netmask :: "network_v4 \<Rightarrow> address_v4" where
  "netmask n =
     (let nmbits = 0xffffffff :: u32
      in v4_from_uint (if v4_prefix_length n = 0 then 0 else push_bit (32 - v4_prefix_length n) nmbits))"

definition network :: "network_v4 \<Rightarrow> address_v4" where
  "network n = v4_from_uint (to_uint (v4_address n) AND to_uint (netmask n))"

definition broadcast :: "network_v4 \<Rightarrow> address_v4" where
  "broadcast n = v4_from_uint (to_uint (network n) OR (to_uint (netmask n) XOR 0xFFFFFFFF))"

definition is_host :: "network_v4 \<Rightarrow> bool" where
  "is_host n \<longleftrightarrow> v4_prefix_length n = 32"

definition hosts :: "network_v4 \<Rightarrow> address_v4 range" where
  "hosts n =
     (if is_host n
      then \<lparr>range_begin = v4_address n, range_end = v4_from_uint (to_uint (v4_address n) + 1)\<rparr>
      else \<lparr>range_begin = v4_from_uint (to_uint (network n) + 1), range_end = broadcast n\<rparr>)"

definition canonical :: "network_v4 \<Rightarrow> network_exception + network_v4" where
  "canonical n = network_v4_masked (network n) (netmask n)"

definition network_v4_equal :: "network_v4 \<Rightarrow> network_v4 \<Rightarrow> bool" where
  "network_v4_equal a b \<longleftrightarrow> s_addr (v4_address a) = s_addr (v4_address b) \<and> v4_prefix_length a = v4_prefix_length b"

definition is_subnet_of :: "network_v4 \<Rightarrow> network_v4 \<Rightarrow> network_exception + bool" where
  "is_subnet_of n other =
     (if v4_prefix_length other \<ge> v4_prefix_length n then Inr False
      else
        (case network_v4_new (v4_address n) (v4_prefix_length other) of
           Inl e \<Rightarrow> Inl e
         | Inr me \<Rightarrow>
             (case canonical other of
                Inl e \<Rightarrow> Inl e
              | Inr a \<Rightarrow>
                  (case canonical me of
                     Inl e \<Rightarrow> Inl e
                   | Inr b \<Rightarrow> Inr (network_v4_equal a b)))))"

section \<open>Version 6\<close>

record network_v6 =
  v6_address :: address_v6
  v6_prefix_length :: nat

definition network_v6_default :: network_v6 where
  "network_v6_default = \<lparr>v6_address = v6_default, v6_prefix_length = 0\<rparr>"

definition network_v6_new :: "address_v6 \<Rightarrow> nat \<Rightarrow> network_exception + network_v6" where
  "network_v6_new addr prefix_len =
     (if prefix_len > 128 then Inl Prefix_too_large
      else Inr \<lparr>v6_address = addr, v6_prefix_length = prefix_len\<rparr>)"

text \<open>The constants are of type \<open>int\<close>; a byte keeps the low eight bits of the result.\<close>

definition network_byte :: "nat \<Rightarrow> nat \<Rightarrow> u8 \<Rightarrow> u8" where
  "network_byte len i b =
     (if len \<le> i * 8 then 0
      else if len < (i + 1) * 8 then b AND word_of_int (drop_bit (len mod 8) 0xFF00)
      else b)"

definition last_byte :: "nat \<Rightarrow> nat \<Rightarrow> u8 \<Rightarrow> u8" where
  "last_byte len i b =
     (if len \<le> i * 8 then 0xFF
      else if len < (i + 1) * 8 then b OR word_of_int (drop_bit (len mod 8) 0xFF)
      else b)"

fun byte_loop :: "(nat \<Rightarrow> u8 \<Rightarrow> u8) \<Rightarrow> nat \<Rightarrow> u8 list \<Rightarrow> u8 list" where
  "byte_loop f i [] = []"
| "byte_loop f i (b # bs) = f i b # byte_loop f (Suc i) bs"

definition v6_network :: "network_v6 \<Rightarrow> address_v6" where
  "v6_network n =
     v6_from_bytes (byte_loop (network_byte (v6_prefix_length n)) 0 (v6_to_bytes (v6_address n))) (scope_id (v6_address n))"

definition v6_hosts :: "network_v6 \<Rightarrow> address_v6 range" where
  "v6_hosts n =
     (let begin_bytes = byte_loop (network_byte (v6_prefix_length n)) 0 (v6_to_bytes (v6_address n));
          end_bytes = byte_loop (last_byte (v6_prefix_length n)) 0 (v6_to_bytes (v6_address n))
      in \<lparr>range_begin = v6_from_bytes begin_bytes (scope_id (v6_address n)),
          range_end = v6_succ (v6_from_bytes end_bytes (scope_id (v6_address n)))\<rparr>)"

definition v6_canonical :: "network_v6 \<Rightarrow> network_exception + network_v6" where
  "v6_canonical n = network_v6_new (v6_network n) (v6_prefix_length n)"

definition v6_is_host :: "network_v6 \<Rightarrow> bool" where
  "v6_is_host n \<longleftrightarrow> v6_prefix_length n = 128"

definition network_v6_equal :: "network_v6 \<Rightarrow> network_v6 \<Rightarrow> bool" where
  "network_v6_equal a b \<longleftrightarrow> v6_equal (v6_address a) (v6_address b) \<and> v6_prefix_length a = v6_prefix_length b"

definition v6_is_subnet_of :: "network_v6 \<Rightarrow> network_v6 \<Rightarrow> network_exception + bool" where
  "v6_is_subnet_of n other =
     (if v6_prefix_length other \<ge> v6_prefix_length n then Inr False
      else
        (case network_v6_new (v6_address n) (v6_prefix_length other) of
           Inl e \<Rightarrow> Inl e
         | Inr me \<Rightarrow>
             (case v6_canonical other of
                Inl e \<Rightarrow> Inl e
              | Inr a \<Rightarrow>
                  (case v6_canonical me of
                     Inl e \<Rightarrow> Inl e
                   | Inr b \<Rightarrow> Inr (network_v6_equal a b)))))"

section \<open>Text\<close>

text \<open>\<open>%u\<close> prints a prefix length. \<open>atoi\<close> reads digits whose value an \<open>int\<close> can hold; for others its behaviour is undefined, here \<open>wild\<close>.\<close>

definition is_digit :: "char \<Rightarrow> bool" where
  "is_digit c \<longleftrightarrow> of_char c \<in> {48..57 :: nat}"

definition atoi :: "(string \<Rightarrow> int) \<Rightarrow> string \<Rightarrow> int" where
  "atoi wild str = (if read_digits str 0 < 2 ^ 31 then int (read_digits str 0) else wild str)"

definition network_v4_to_string :: "(address_v4 \<Rightarrow> string) \<Rightarrow> network_v4 \<Rightarrow> string" where
  "network_v4_to_string inet_ntop n = inet_ntop (v4_address n) @ ''/'' @ show_digits (v4_prefix_length n)"

definition network_v6_to_string :: "(address_v6 \<Rightarrow> string) \<Rightarrow> network_v6 \<Rightarrow> string" where
  "network_v6_to_string inet_ntop n = inet_ntop (v6_address n) @ ''/'' @ show_digits (v6_prefix_length n)"

text \<open>\<open>find_first_of\<close> and \<open>find_first_not_of\<close>; \<open>None\<close> is \<open>npos\<close>.\<close>

fun find_first :: "(char \<Rightarrow> bool) \<Rightarrow> nat \<Rightarrow> string \<Rightarrow> nat option" where
  "find_first p pos [] = None"
| "find_first p pos (c # cs) = (if p c then Some pos else find_first p (Suc pos) cs)"

text \<open>What both \<open>make_network\<close> functions do before they use the parts of the text.\<close>

definition split_network :: "string \<Rightarrow> (string \<times> string) option" where
  "split_network str =
     (case find_first (\<lambda>c. c = CHR ''/'') 0 str of
        None \<Rightarrow> None
      | Some pos \<Rightarrow>
          if pos = length str - 1 then None
          else if find_first (\<lambda>c. \<not> is_digit c) (pos + 1) (drop (pos + 1) str) \<noteq> None then None
          else Some (take pos str, drop (pos + 1) str))"

definition make_network_v4 ::
  "(string \<Rightarrow> error_code + u8 list) \<Rightarrow> (string \<Rightarrow> int) \<Rightarrow> string \<Rightarrow> error_code + (network_exception + network_v4)" where
  "make_network_v4 inet_pton wild str =
     (case split_network str of
        None \<Rightarrow> Inl (make_basic_error invalid_argument)
      | Some (addr_str, len_str) \<Rightarrow>
          (case make_address_v4 inet_pton addr_str of
             Inl ec \<Rightarrow> Inl ec
           | Inr addr \<Rightarrow>
               (let prefix_len = atoi wild len_str
                in if prefix_len < 0 \<or> prefix_len > 32 then Inl (make_basic_error invalid_argument)
                   else Inr (network_v4_new addr (nat prefix_len)))))"

definition make_network_v6 ::
  "(string \<Rightarrow> error_code + u8 list \<times> u32) \<Rightarrow> (string \<Rightarrow> int) \<Rightarrow> string \<Rightarrow> error_code + (network_exception + network_v6)" where
  "make_network_v6 inet_pton wild str =
     (case split_network str of
        None \<Rightarrow> Inl (make_basic_error invalid_argument)
      | Some (addr_str, len_str) \<Rightarrow>
          (case make_address_v6 inet_pton addr_str of
             Inl ec \<Rightarrow> Inl ec
           | Inr addr \<Rightarrow>
               (let prefix_len = atoi wild len_str
                in if prefix_len < 0 \<or> prefix_len > 128 then Inl (make_basic_error invalid_argument)
                   else Inr (network_v6_new addr (nat prefix_len)))))"

end
