(* ===== verification/Ip_Properties.thy ===== *)
theory Ip_Properties
  imports Ip_Network
begin

text \<open>
  What networks of addresses are: the addresses that agree with the network's address in the first
  \<open>prefix_length\<close> bits. Masks, subnets, the ranges of hosts and the texts of networks against that definition.
\<close>

unbundle bit_operations_syntax

section \<open>Version 4: masks\<close>

text \<open>The addresses of a network, by their bits.\<close>

definition v4_addresses :: "network_v4 \<Rightarrow> address_v4 set" where
  "v4_addresses n =
     {x. \<forall>i < v4_prefix_length n. bit (to_uint x) (31 - i) = bit (to_uint (v4_address n)) (31 - i)}"

definition prefix_mask :: "nat \<Rightarrow> u32" where
  "prefix_mask p = NOT (mask (32 - p))"

lemma to_uint_netmask:
  assumes "v4_prefix_length n \<le> 32"
  shows "to_uint (netmask n) = prefix_mask (v4_prefix_length n)"
proof -
  have ones: "(0xffffffff :: u32) = - 1" by simp
  have "(mask 32 :: u32) = - 1" by (simp add: mask_eq_exp_minus_1)
  then show ?thesis
    by (cases "v4_prefix_length n = 0")
      (simp_all only: netmask_def Let_def ones prefix_mask_def to_uint_v4_from_uint if_True if_False
        push_bit_minus_one_eq_not_mask diff_zero bit.compl_one if_cancel)
qed

lemma bit_prefix_mask: "p \<le> 32 \<Longrightarrow> j < 32 \<Longrightarrow> bit (prefix_mask p) j \<longleftrightarrow> 32 - p \<le> j"
  by (auto simp: prefix_mask_def bit_simps)

lemma same_prefix:
  assumes "p \<le> 32"
  shows "x AND prefix_mask p = y AND prefix_mask p \<longleftrightarrow> (\<forall>i<p. bit x (31 - i) = bit y (31 - i))"
proof
  assume eq: "x AND prefix_mask p = y AND prefix_mask p"
  show "\<forall>i<p. bit x (31 - i) = bit y (31 - i)"
  proof (intro allI impI)
    fix i assume "i < p"
    then have "bit (prefix_mask p) (31 - i)" using assms by (simp add: bit_prefix_mask)
    with eq show "bit x (31 - i) = bit y (31 - i)" by (metis bit_and_iff)
  qed
next
  assume all: "\<forall>i<p. bit x (31 - i) = bit y (31 - i)"
  show "x AND prefix_mask p = y AND prefix_mask p"
  proof (rule bit_word_eqI)
    fix j assume "j < LENGTH(32)"
    moreover have "bit x j = bit y j" if "32 - p \<le> j" "j < 32"
      using all [rule_format, of "31 - j"] that assms by auto
    ultimately show "bit (x AND prefix_mask p) j = bit (y AND prefix_mask p) j"
      using assms by (auto simp: bit_simps bit_prefix_mask)
  qed
qed

lemma v4_addresses_iff:
  assumes "v4_prefix_length n \<le> 32"
  shows "x \<in> v4_addresses n \<longleftrightarrow> to_uint x AND to_uint (netmask n) = to_uint (network n)"
  using assms by (simp add: v4_addresses_def same_prefix network_def to_uint_netmask)

text \<open>A netmask gives its prefix length back, and only a netmask is accepted.\<close>

definition mask_bytes :: "nat \<Rightarrow> u8 list" where
  "mask_bytes p = rev (le_bytes4 (if p = 0 then 0 else push_bit (32 - p) 0xffffffff))"

lemma netmask_bytes: "v4_to_bytes (netmask n) = mask_bytes (v4_prefix_length n)"
  by (simp add: netmask_def mask_bytes_def v4_to_bytes_from_uint Let_def)

lemma mask_loop_all: "\<forall>p\<in>set [0..<33]. mask_loop False 0 (mask_bytes p) = Inr p"
  by code_simp

lemma mask_loop_netmask: "p \<le> 32 \<Longrightarrow> mask_loop False 0 (mask_bytes p) = Inr p"
  using mask_loop_all by simp

lemma canonical_network:
  "v4_prefix_length n \<le> 32 \<Longrightarrow> canonical n = Inr (n\<lparr>v4_address := network n\<rparr>)"
  by (simp add: canonical_def network_v4_masked_def netmask_bytes mask_loop_netmask)

text \<open>One byte of a mask, and what is left of the mask.\<close>

lemma mask_loop_finished: "mask_loop True len bs = Inr m \<longleftrightarrow> m = len \<and> (\<forall>b\<in>set bs. b = 0)"
  by (induction bs) auto

lemma mask_bytes_split: "mask_byte_bits b = Some k \<Longrightarrow> mask_bytes k = [b, 0, 0, 0] \<and> mask_bytes (8 + k) = [255, b, 0, 0] \<and>
    mask_bytes (16 + k) = [255, 255, b, 0] \<and> mask_bytes (24 + k) = [255, 255, 255, b] \<and> k < 8"
  by (auto simp: mask_byte_bits_def mask_bytes_def le_bytes4_def split: if_splits)

lemma mask_loop_only:
  assumes "mask_loop False 0 [a, b, c, d] = Inr p"
  shows "p \<le> 32 \<and> [a, b, c, d] = mask_bytes p"
proof -
  have "mask_bytes 32 = [255, 255, 255, 255]" by (simp add: mask_bytes_def le_bytes4_def)
  with assms show ?thesis
    by (auto simp: mask_loop_finished split: if_splits option.splits dest!: mask_bytes_split)
qed

lemma netmask_only:
  assumes "network_v4_masked addr msk = Inr n"
  shows "n = \<lparr>v4_address = addr, v4_prefix_length = v4_prefix_length n\<rparr>" and "v4_prefix_length n \<le> 32" and "netmask n = msk"
proof -
  obtain a b c d where bytes: "v4_to_bytes msk = [a, b, c, d]"
    unfolding v4_to_bytes_def by (rule le_bytes4_cases)
  obtain p where p: "mask_loop False 0 [a, b, c, d] = Inr p" and n: "n = \<lparr>v4_address = addr, v4_prefix_length = p\<rparr>"
    using assms by (cases "mask_loop False 0 [a, b, c, d]") (auto simp: network_v4_masked_def bytes)
  show "n = \<lparr>v4_address = addr, v4_prefix_length = v4_prefix_length n\<rparr>" "v4_prefix_length n \<le> 32"
    using n mask_loop_only [OF p] by simp_all
  have "v4_to_bytes (netmask n) = v4_to_bytes msk"
    using mask_loop_only [OF p] n by (simp add: netmask_bytes bytes)
  then show "netmask n = msk" by (metis v4_from_bytes_to_bytes)
qed

section \<open>Version 4: subnets\<close>

lemma v4_subset:
  assumes p: "v4_prefix_length n \<le> 32" and q: "v4_prefix_length m \<le> 32"
  shows "v4_addresses n \<subset> v4_addresses m \<longleftrightarrow>
    v4_prefix_length m < v4_prefix_length n \<and>
    (\<forall>i < v4_prefix_length m. bit (to_uint (v4_address n)) (31 - i) = bit (to_uint (v4_address m)) (31 - i))"
    (is "?l \<longleftrightarrow> ?r")
proof -
  let ?p = "v4_prefix_length n" and ?q = "v4_prefix_length m"
  let ?a = "to_uint (v4_address n)"
  have member: "v4_address n \<in> v4_addresses n" by (simp add: v4_addresses_def)
  have flip: "bit (flip_bit (31 - k) ?a) (31 - i) \<longleftrightarrow> bit ?a (31 - i) \<noteq> (i = k)" if "i < 32" "k < 32" for i k
    using that by (auto simp: bit_simps)
  show ?thesis
  proof
    assume l: ?l
    then have agree: "\<forall>i < ?q. bit ?a (31 - i) = bit (to_uint (v4_address m)) (31 - i)"
      using member by (auto simp: v4_addresses_def)
    have "?q < ?p"
    proof (rule ccontr)
      assume "\<not> ?q < ?p"
      then consider "?p = ?q" | "?p < ?q" by linarith
      then show False
      proof cases
        case 1
        with agree have "v4_addresses n = v4_addresses m" by (simp add: v4_addresses_def)
        with l show False by blast
      next
        case 2
        let ?x = "v4_from_uint (flip_bit (31 - ?p) ?a)"
        have "?x \<in> v4_addresses n" using 2 q flip by (auto simp: v4_addresses_def)
        moreover have "?x \<notin> v4_addresses m"
          using 2 q flip [of ?p ?p] agree by (auto simp: v4_addresses_def intro!: exI [of _ ?p])
        ultimately show False using l by blast
      qed
    qed
    with agree show ?r by blast
  next
    assume r: ?r
    then have "v4_addresses n \<subseteq> v4_addresses m" by (auto simp: v4_addresses_def)
    moreover have "v4_from_uint (flip_bit (31 - ?q) ?a) \<in> v4_addresses m"
      using r p flip by (auto simp: v4_addresses_def)
    moreover have "v4_from_uint (flip_bit (31 - ?q) ?a) \<notin> v4_addresses n"
      using r p flip [of ?q ?q] by (auto simp: v4_addresses_def intro!: exI [of _ ?q])
    ultimately show ?l by blast
  qed
qed

lemma is_subnet_of_strict_subset:
  assumes p: "v4_prefix_length n \<le> 32" and q: "v4_prefix_length m \<le> 32"
  shows "is_subnet_of n m = Inr (v4_addresses n \<subset> v4_addresses m)"
proof (cases "v4_prefix_length m < v4_prefix_length n")
  case True
  let ?me = "n\<lparr>v4_prefix_length := v4_prefix_length m\<rparr>"
  have "network ?me = network m \<longleftrightarrow>
      (\<forall>i < v4_prefix_length m. bit (to_uint (v4_address n)) (31 - i) = bit (to_uint (v4_address m)) (31 - i))"
    using q by (simp add: network_def to_uint_netmask flip: to_uint_inject) (simp add: same_prefix)
  then have "network_v4_equal (m\<lparr>v4_address := network m\<rparr>) (?me\<lparr>v4_address := network ?me\<rparr>) \<longleftrightarrow> v4_addresses n \<subset> v4_addresses m"
    using True v4_subset [OF p q] by (auto simp: network_v4_equal_def s_addr_inject)
  moreover have "network_v4_new (v4_address n) (v4_prefix_length m) = Inr ?me"
    using q by (simp add: network_v4_new_def)
  ultimately show ?thesis
    using True q canonical_network [of m] canonical_network [of ?me] by (simp add: is_subnet_of_def)
qed (use v4_subset [OF p q] in \<open>auto simp: is_subnet_of_def\<close>)

section \<open>Masks as arithmetic\<close>

lemma unat_and_not_mask: "unat (x AND NOT (mask k)) = unat x div 2 ^ k * 2 ^ k" for x :: "'a::len word"
proof -
  have "(x AND NOT (mask k)) AND take_bit k x = 0" "(x AND NOT (mask k)) OR take_bit k x = x"
    by (auto intro!: bit_word_eqI simp: bit_simps)
  then have "unat (x AND NOT (mask k)) AND unat (take_bit k x) = 0"
    and "unat (x AND NOT (mask k)) OR unat (take_bit k x) = unat x"
    by (metis unsigned_and_eq unsigned_0, metis unsigned_or_eq)
  then have "unat x = unat (x AND NOT (mask k)) + unat (take_bit k x)"
    by (simp add: disjunctive_add_eq_or)
  moreover have "unat (take_bit k x) = unat x mod 2 ^ k"
    unfolding take_bit_eq_mod [symmetric] by (rule unsigned_take_bit_eq)
  ultimately have "unat x = unat (x AND NOT (mask k)) + unat x mod 2 ^ k" by simp
  then show ?thesis
    using div_mult_mod_eq [of "unat x" "2 ^ k"] by linarith
qed

lemma unat_or_mask:
  fixes x :: "'a::len word"
  assumes "k \<le> LENGTH('a)"
  shows "unat (x OR mask k) = unat x div 2 ^ k * 2 ^ k + (2 ^ k - 1)"
proof -
  have "(x AND NOT (mask k)) AND mask k = 0" "(x AND NOT (mask k)) OR mask k = x OR mask k"
    by (auto intro!: bit_word_eqI simp: bit_simps)
  then have "unat (x AND NOT (mask k)) AND unat (mask k :: 'a word) = 0"
    and "unat (x AND NOT (mask k)) OR unat (mask k :: 'a word) = unat (x OR mask k)"
    by (metis unsigned_and_eq unsigned_0, metis unsigned_or_eq)
  then have "unat (x OR mask k) = unat (x AND NOT (mask k)) + unat (mask k :: 'a word)"
    by (simp add: disjunctive_add_eq_or)
  moreover have "unat (mask k :: 'a word) = 2 ^ k - 1"
  proof -
    have "unat (word_of_nat (mask k) :: 'a word) = take_bit LENGTH('a) (mask k)"
      by (simp only: unsigned_of_nat of_nat_id)
    then have "unat (mask k :: 'a word) = mask k" using assms by (simp add: of_nat_mask_eq min_def)
    also have "(mask k :: nat) = 2 ^ k - 1" by (rule mask_eq_exp_minus_1)
    finally show ?thesis .
  qed
  ultimately show ?thesis by (simp add: unat_and_not_mask)
qed

lemma u32_less: "unat (w :: u32) < 2 ^ 32"
  using unsigned_less [of w] by simp

lemma div_block: "0 < m \<Longrightarrow> x div m = q \<longleftrightarrow> q * m \<le> x \<and> x < q * m + m" for m x q :: nat
proof
  assume m: "0 < m" and q: "x div m = q"
  have "q * m + x mod m = x" using div_mult_mod_eq [of x m] by (simp only: q)
  with mod_less_divisor [OF m, of x] show "q * m \<le> x \<and> x < q * m + m" by linarith
qed (auto intro!: div_nat_eqI simp: algebra_simps)

section \<open>Version 4: hosts\<close>

lemma v4_block:
  assumes "v4_prefix_length n \<le> 32"
  defines "k \<equiv> 32 - v4_prefix_length n"
  shows "unat (to_uint (network n)) = unat (to_uint (v4_address n)) div 2 ^ k * 2 ^ k"
    and "unat (to_uint (broadcast n)) = unat (to_uint (v4_address n)) div 2 ^ k * 2 ^ k + (2 ^ k - 1)"
    and "x \<in> v4_addresses n \<longleftrightarrow> unat (to_uint x) div 2 ^ k = unat (to_uint (v4_address n)) div 2 ^ k"
proof -
  have net: "to_uint (network n) = to_uint (v4_address n) AND NOT (mask k)"
    using assms by (simp add: network_def to_uint_netmask prefix_mask_def)
  show N: "unat (to_uint (network n)) = unat (to_uint (v4_address n)) div 2 ^ k * 2 ^ k"
    by (simp only: net unat_and_not_mask)
  have "to_uint (netmask n) XOR 0xFFFFFFFF = mask k"
  proof -
    have "(0xFFFFFFFF :: u32) = - 1" by simp
    moreover have "NOT (mask k) XOR (- 1 :: u32) = mask k"
      by (rule bit_word_eqI) (auto simp: bit_simps)
    ultimately show ?thesis using assms by (simp only: to_uint_netmask prefix_mask_def)
  qed
  then have "to_uint (broadcast n) = to_uint (network n) OR mask k"
    by (simp add: broadcast_def)
  then show "unat (to_uint (broadcast n)) = unat (to_uint (v4_address n)) div 2 ^ k * 2 ^ k + (2 ^ k - 1)"
    by (simp add: unat_or_mask k_def N)
  have "x \<in> v4_addresses n \<longleftrightarrow> to_uint x AND NOT (mask k) = to_uint (v4_address n) AND NOT (mask k)"
    using assms(1) net by (simp add: v4_addresses_iff to_uint_netmask prefix_mask_def k_def)
  then show "x \<in> v4_addresses n \<longleftrightarrow> unat (to_uint x) div 2 ^ k = unat (to_uint (v4_address n)) div 2 ^ k"
    by (simp add: word_unat_eq_iff unat_and_not_mask)
qed

text \<open>The hosts of a network are its addresses but the first and the last.\<close>

lemma hosts_between:
  assumes p: "v4_prefix_length n < 32"
  shows "range_begin (hosts n) \<le> x \<and> x < range_end (hosts n) \<longleftrightarrow>
    x \<in> v4_addresses n \<and> x \<noteq> network n \<and> x \<noteq> broadcast n"
    and "unat (range_v4_size (hosts n)) = 2 ^ (32 - v4_prefix_length n) - 2"
proof -
  define k where "k = 32 - v4_prefix_length n"
  define N where "N = unat (to_uint (v4_address n)) div 2 ^ k * 2 ^ k"
  note b = v4_block [of n, folded k_def, folded N_def]
  have k: "0 < k" using p by (simp add: k_def)
  then have two: "2 \<le> (2 :: nat) ^ k" using power_increasing [of 1 k "2 :: nat"] by simp
  have "N + (2 ^ k - 1) < 2 ^ 32"
    using b(2) p u32_less [of "to_uint (broadcast n)"] by simp
  then have first: "unat (to_uint (network n) + 1) = N + 1"
    using b(1) p two by (simp add: unat_word_ariths)
  have x: "x \<in> v4_addresses n \<longleftrightarrow> N \<le> unat (to_uint x) \<and> unat (to_uint x) \<le> N + (2 ^ k - 1)"
  proof -
    have "x \<in> v4_addresses n \<longleftrightarrow> unat (to_uint x) div 2 ^ k = N div 2 ^ k"
      using b(3) [of x] p by (simp add: N_def)
    also have "\<dots> \<longleftrightarrow> N \<le> unat (to_uint x) \<and> unat (to_uint x) < N + 2 ^ k"
      by (simp add: div_block N_def)
    also have "\<dots> \<longleftrightarrow> N \<le> unat (to_uint x) \<and> unat (to_uint x) \<le> N + (2 ^ k - 1)" using two by auto
    finally show ?thesis .
  qed
  have r: "hosts n = \<lparr>range_begin = v4_from_uint (to_uint (network n) + 1), range_end = broadcast n\<rparr>"
    using p by (simp add: hosts_def is_host_def)
  show "range_begin (hosts n) \<le> x \<and> x < range_end (hosts n) \<longleftrightarrow>
    x \<in> v4_addresses n \<and> x \<noteq> network n \<and> x \<noteq> broadcast n"
    using x b(1,2) p first
    by (auto simp: r less_address_v4_def less_eq_address_v4_def v4_less_def word_less_nat_alt word_unat_eq_iff simp flip: to_uint_inject)
  have "unat (to_uint (broadcast n) - (to_uint (network n) + 1)) = unat (to_uint (broadcast n)) - unat (to_uint (network n) + 1)"
    using b(2) p first two by (intro unat_sub) (simp add: word_le_nat_alt)
  then show "unat (range_v4_size (hosts n)) = 2 ^ (32 - v4_prefix_length n) - 2"
    using b(2) p first by (simp add: r range_v4_size_def k_def)
qed

section \<open>Version 6: networks as blocks\<close>

lemma shifted_bytes:
  "\<forall>s\<in>set [1..<8]. word_of_int (drop_bit s 0xFF00) = (NOT (mask (8 - s)) :: u8) \<and>
     word_of_int (drop_bit s 0xFF) = (mask (8 - s) :: u8)"
  by code_simp

lemma inner_byte:
  assumes "i * 8 < len" and "len < (i + 1) * 8"
  shows "unat (network_byte len i b) = unat b div 2 ^ ((i + 1) * 8 - len) * 2 ^ ((i + 1) * 8 - len)"
    and "unat (last_byte len i b) = unat b div 2 ^ ((i + 1) * 8 - len) * 2 ^ ((i + 1) * 8 - len) + (2 ^ ((i + 1) * 8 - len) - 1)"
proof -
  obtain k where k: "len = k + i * 8" using assms(1) by (metis add.commute le_Suc_ex less_imp_le_nat)
  then have "len mod 8 = k" using assms by simp
  with k assms have s: "len mod 8 \<in> set [1..<8]" "8 - len mod 8 = (i + 1) * 8 - len" by auto
  have "network_byte len i b = b AND NOT (mask ((i + 1) * 8 - len))" "last_byte len i b = b OR mask ((i + 1) * 8 - len)"
    using assms shifted_bytes [rule_format, OF s(1)] s(2) by (simp_all add: network_byte_def last_byte_def)
  then show "unat (network_byte len i b) = unat b div 2 ^ ((i + 1) * 8 - len) * 2 ^ ((i + 1) * 8 - len)"
    and "unat (last_byte len i b) = unat b div 2 ^ ((i + 1) * 8 - len) * 2 ^ ((i + 1) * 8 - len) + (2 ^ ((i + 1) * 8 - len) - 1)"
    using assms by (simp_all add: unat_and_not_mask unat_or_mask)
qed

lemma length_byte_loop [simp]: "length (byte_loop f i bs) = length bs"
  by (induction f i bs rule: byte_loop.induct) simp_all

lemma pow256: "(256 :: nat) ^ n = 2 ^ (8 * n)"
  by (simp add: power_mult)

lemma small_div: "v < 2 ^ a \<Longrightarrow> a \<le> k \<Longrightarrow> v div 2 ^ k = (0 :: nat)"
  using power_increasing [of a k "2 :: nat"] by (intro div_less) linarith

text \<open>A byte in front of a block of \<open>m\<close> values.\<close>

lemma block_div:
  fixes x v m j :: nat
  assumes "v < m"
  shows "(x * m + v) div (m * 2 ^ j) * (m * 2 ^ j) = x div 2 ^ j * 2 ^ j * m"
proof -
  have "(x * m + v) div m = x" using assms by simp
  then have "(x * m + v) div (m * 2 ^ j) = x div 2 ^ j" by (simp add: div_mult2_eq)
  then show ?thesis by (simp only: ac_simps)
qed

lemma byte_loop_network:
  "be_value (byte_loop (network_byte len) i bs) =
     be_value bs div 2 ^ (8 * (i + length bs) - len) * 2 ^ (8 * (i + length bs) - len)"
proof (induction bs arbitrary: i)
  case (Cons b bs)
  let ?L = "length bs" and ?k = "8 * (i + length (b # bs)) - len"
  have k: "8 * (Suc i + ?L) - len = ?k" by simp
  have v: "be_value bs < 2 ^ (8 * ?L)" using be_value_less [of bs] by (simp add: pow256)
  consider "len \<le> i * 8" | "i * 8 < len" "len < (i + 1) * 8" | "(i + 1) * 8 \<le> len" by linarith
  then show ?case
  proof cases
    case 1
    have "be_value (b # bs) < 2 ^ (8 * length (b # bs))"
      using be_value_less [of "b # bs"] by (simp only: pow256)
    then have "be_value (b # bs) div 2 ^ ?k = 0" by (rule small_div) (use 1 in simp)
    moreover have "be_value bs div 2 ^ ?k = 0" 
    proof (rule small_div [OF v])
      have "?k = 8 * i - len + 8 + 8 * ?L" using 1 by simp
      then show "8 * ?L \<le> ?k" by linarith
    qed
    ultimately have "be_value (b # bs) div 2 ^ ?k = 0" "be_value bs div 2 ^ ?k = 0" by simp_all
    with 1 Cons.IH [of "Suc i"] show ?thesis by (simp add: network_byte_def k)
  next
    case 2
    have ke: "?k = 8 * ?L + ((i + 1) * 8 - len)" using 2 by simp
    have "be_value bs div 2 ^ ?k = 0"
      by (rule small_div [OF v]) (simp only: ke le_add1)
    then have "be_value (byte_loop (network_byte len) (Suc i) bs) = 0"
      using Cons.IH [of "Suc i"] by (simp only: k)
    then have "be_value (byte_loop (network_byte len) i (b # bs)) = unat (network_byte len i b) * 2 ^ (8 * ?L)"
      by (simp add: pow256)
    also have "\<dots> = (unat b * 2 ^ (8 * ?L) + be_value bs) div (2 ^ (8 * ?L) * 2 ^ ((i + 1) * 8 - len)) * (2 ^ (8 * ?L) * 2 ^ ((i + 1) * 8 - len))"
      by (simp only: inner_byte(1) [OF 2] block_div [OF v])
    also have "2 ^ (8 * ?L) * 2 ^ ((i + 1) * 8 - len) = (2 :: nat) ^ ?k" by (simp only: ke power_add)
    finally show ?thesis by (simp only: be_value.simps pow256)
  next
    case 3
    define d where "d = 8 * ?L - ?k"
    have kd: "8 * ?L = d + ?k" using 3 by (simp add: d_def)
    have "(unat b * 2 ^ (8 * ?L) + be_value bs) div 2 ^ ?k = unat b * 2 ^ d + be_value bs div 2 ^ ?k"
      by (simp only: kd power_add) (simp add: mult.assoc [symmetric])
    then have "be_value (b # bs) div 2 ^ ?k * 2 ^ ?k = unat b * (2 ^ d * 2 ^ ?k) + be_value bs div 2 ^ ?k * 2 ^ ?k"
      by (simp only: be_value.simps pow256 add_mult_distrib mult.assoc)
    moreover have "network_byte len i b = b" using 3 by (simp add: network_byte_def)
    moreover have "(2 :: nat) ^ (8 * ?L) = 2 ^ d * 2 ^ ?k" by (simp only: kd power_add)
    ultimately show ?thesis
      using Cons.IH [of "Suc i"] by (simp only: byte_loop.simps be_value.simps length_byte_loop pow256 k)
  qed
qed simp

text \<open>The last address of a network: the same, with ones where the first has zeros.\<close>

lemma all_ones: "(2 :: nat) ^ a * (2 ^ j - 1) + (2 ^ a - 1) = 2 ^ (a + j) - 1"
proof -
  have "(2 :: nat) ^ a * (2 ^ j - 1) = 2 ^ a * 2 ^ j - 2 ^ a" by (simp add: diff_mult_distrib2)
  moreover have "(2 :: nat) ^ a \<le> 2 ^ a * 2 ^ j" "1 \<le> (2 :: nat) ^ a" by simp_all
  ultimately show ?thesis by (simp add: power_add)
qed

lemma byte_loop_last:
  "be_value (byte_loop (last_byte len) i bs) =
     be_value (byte_loop (network_byte len) i bs) + (2 ^ min (8 * (i + length bs) - len) (8 * length bs) - 1)"
proof (induction bs arbitrary: i)
  case (Cons b bs)
  let ?L = "length bs" and ?k = "8 * (i + length (b # bs)) - len"
  have k: "8 * (Suc i + ?L) - len = ?k" by simp
  consider "len \<le> i * 8" | "i * 8 < len" "len < (i + 1) * 8" | "(i + 1) * 8 \<le> len" by linarith
  then show ?case
  proof cases
    case 1
    then have m: "min ?k (8 * ?L) = 8 * ?L" "min ?k (8 * length (b # bs)) = 8 * ?L + 8" by auto
    have "be_value (byte_loop (last_byte len) i (b # bs)) = 255 * 2 ^ (8 * ?L) + be_value (byte_loop (last_byte len) (Suc i) bs)"
      using 1 by (simp add: last_byte_def pow256)
    moreover have "be_value (byte_loop (network_byte len) i (b # bs)) = be_value (byte_loop (network_byte len) (Suc i) bs)"
      using 1 by (simp add: network_byte_def)
    moreover have "(2 :: nat) ^ (8 * ?L + 8) = 256 * 2 ^ (8 * ?L)" "1 \<le> (2 :: nat) ^ (8 * ?L)"
      by (simp_all add: power_add)
    ultimately show ?thesis
      using Cons.IH [of "Suc i"] by (simp only: k m)
  next
    case 2
    define e where "e = (i + 1) * 8 - len"
    have ke: "?k = 8 * ?L + e" "e < 8" using 2 by (simp_all add: e_def)
    have m: "min ?k (8 * ?L) = 8 * ?L" "min ?k (8 * length (b # bs)) = 8 * ?L + e" using ke by auto
    have ih: "be_value (byte_loop (last_byte len) (Suc i) bs) =
        be_value (byte_loop (network_byte len) (Suc i) bs) + (2 ^ (8 * ?L) - 1)"
      using Cons.IH [of "Suc i"] by (simp only: k m)
    have "be_value (byte_loop (last_byte len) i (b # bs)) =
        (unat (network_byte len i b) + (2 ^ e - 1)) * 2 ^ (8 * ?L) + be_value (byte_loop (last_byte len) (Suc i) bs)"
      using inner_byte [OF 2, of b] by (simp add: pow256 e_def)
    then have "be_value (byte_loop (last_byte len) i (b # bs)) =
        be_value (byte_loop (network_byte len) i (b # bs)) + (2 ^ (8 * ?L) * (2 ^ e - 1) + (2 ^ (8 * ?L) - 1))"
      by (simp only: byte_loop.simps be_value.simps length_byte_loop pow256 ih add_mult_distrib add_mult_distrib2 ac_simps)
    then show ?thesis by (simp only: all_ones m)
  next
    case 3
    then have m: "min ?k (8 * ?L) = ?k" "min ?k (8 * length (b # bs)) = ?k" by auto
    have "last_byte len i b = network_byte len i b" using 3 by (simp add: last_byte_def network_byte_def)
    then show ?thesis
      using Cons.IH [of "Suc i"] by (simp only: k m byte_loop.simps be_value.simps length_byte_loop add.assoc)
  qed
qed simp

text \<open>The addresses of a network, by their value; all have the scope of the network's address.\<close>

definition v6_addresses :: "network_v6 \<Rightarrow> address_v6 set" where
  "v6_addresses n =
     {x. v6_ok x \<and> scope_id x = scope_id (v6_address n) \<and>
         v6_value x div 2 ^ (128 - v6_prefix_length n) = v6_value (v6_address n) div 2 ^ (128 - v6_prefix_length n)}"

lemma v6_network_ok:
  assumes "v6_ok (v6_address n)"
  shows "v6_ok (v6_network n)" and "scope_id (v6_network n) = scope_id (v6_address n)"
    and "v6_value (v6_network n) = v6_value (v6_address n) div 2 ^ (128 - v6_prefix_length n) * 2 ^ (128 - v6_prefix_length n)"
  using assms byte_loop_network [of "v6_prefix_length n" 0 "s6_addr (v6_address n)"]
  by (simp_all add: v6_network_def v6_ok_def v6_value_def v6_from_bytes_def v6_to_bytes_def)

lemma v6_hosts_ends:
  assumes ok: "v6_ok (v6_address n)"
  shows "range_begin (v6_hosts n) = v6_network n"
    and "v6_ok (range_end (v6_hosts n))" and "scope_id (range_end (v6_hosts n)) = scope_id (v6_address n)"
    and "v6_value (range_end (v6_hosts n)) = (v6_value (v6_network n) + 2 ^ (128 - v6_prefix_length n)) mod 2 ^ 128"
proof -
  let ?last = "Address_v6 (byte_loop (last_byte (v6_prefix_length n)) 0 (s6_addr (v6_address n))) (scope_id (v6_address n))"
  have l: "length (s6_addr (v6_address n)) = 16" using ok by (simp add: v6_ok_def)
  have "v6_value ?last = v6_value (v6_network n) + (2 ^ (128 - v6_prefix_length n) - 1)"
    using byte_loop_last [of "v6_prefix_length n" 0 "s6_addr (v6_address n)"] l
    by (simp add: v6_value_def v6_network_def v6_from_bytes_def v6_to_bytes_def)
  then have last: "v6_value ?last + 1 = v6_value (v6_network n) + 2 ^ (128 - v6_prefix_length n)"
    by simp
  have okl: "v6_ok ?last" using l by (simp add: v6_ok_def)
  have e: "range_end (v6_hosts n) = v6_succ ?last"
    by (simp add: v6_hosts_def v6_from_bytes_def v6_to_bytes_def Let_def)
  show "range_begin (v6_hosts n) = v6_network n"
    by (simp add: v6_hosts_def v6_network_def)
  show "v6_ok (range_end (v6_hosts n))" "scope_id (range_end (v6_hosts n)) = scope_id (v6_address n)"
    "v6_value (range_end (v6_hosts n)) = (v6_value (v6_network n) + 2 ^ (128 - v6_prefix_length n)) mod 2 ^ 128"
    using v6_succ_ok [OF okl] last by (simp_all only: e address_v6.sel)
qed

lemma v6_succ_power:
  assumes "v6_ok a"
  shows "v6_ok ((v6_succ ^^ j) a) \<and> scope_id ((v6_succ ^^ j) a) = scope_id a \<and>
    v6_value ((v6_succ ^^ j) a) = (v6_value a + j) mod 2 ^ 128"
proof (induction j)
  case 0
  then show ?case using assms v6_value_less [OF assms] by simp
next
  case (Suc j)
  then show ?case using v6_succ_ok [of "(v6_succ ^^ j) a"] by (simp add: mod_Suc_eq)
qed

text \<open>What iterating from the beginning of the hosts visits before the end.\<close>

definition v6_visited :: "address_v6 range \<Rightarrow> nat \<Rightarrow> address_v6 set" where
  "v6_visited r j = (\<lambda>i. (v6_succ ^^ i) (range_begin r)) ` {..<j}"

lemma v6_block:
  assumes ok: "v6_ok (v6_address n)" and p: "v6_prefix_length n \<le> 128"
  defines "k \<equiv> 128 - v6_prefix_length n"
  shows "v6_value (v6_network n) + 2 ^ k \<le> 2 ^ 128"
    and "x \<in> v6_addresses n \<longleftrightarrow> v6_ok x \<and> scope_id x = scope_id (v6_address n) \<and>
      v6_value (v6_network n) \<le> v6_value x \<and> v6_value x < v6_value (v6_network n) + 2 ^ k"
proof -
  define q where "q = v6_value (v6_address n) div 2 ^ k"
  have N: "v6_value (v6_network n) = q * 2 ^ k"
    using v6_network_ok(3) [OF ok] by (simp only: q_def k_def)
  have "(2 :: nat) ^ 128 = 2 ^ (128 - k) * 2 ^ k" using p by (simp add: k_def flip: power_add)
  moreover have "q < 2 ^ (128 - k)"
    using v6_value_less [OF ok] calculation by (simp add: q_def less_mult_imp_div_less)
  ultimately have "(q + 1) * 2 ^ k \<le> 2 ^ 128" by (metis Suc_eq_plus1 Suc_leI mult_le_mono1)
  then show "v6_value (v6_network n) + 2 ^ k \<le> 2 ^ 128" by (simp add: N)
  show "x \<in> v6_addresses n \<longleftrightarrow> v6_ok x \<and> scope_id x = scope_id (v6_address n) \<and>
      v6_value (v6_network n) \<le> v6_value x \<and> v6_value x < v6_value (v6_network n) + 2 ^ k"
    using div_block [of "2 ^ k" "v6_value x" q] by (auto simp: v6_addresses_def N simp flip: k_def q_def)
qed

lemma v6_visits_block:
  assumes ok: "v6_ok (v6_address n)" and p: "v6_prefix_length n \<le> 128"
  defines "k \<equiv> 128 - v6_prefix_length n"
  shows "v6_visited (v6_hosts n) (2 ^ k) = v6_addresses n"
    and "(v6_succ ^^ (2 ^ k)) (range_begin (v6_hosts n)) = range_end (v6_hosts n)"
    and "0 < v6_prefix_length n \<Longrightarrow> range_end (v6_hosts n) \<notin> v6_addresses n"
    and "v6_prefix_length n = 0 \<Longrightarrow> range_end (v6_hosts n) = range_begin (v6_hosts n)"
proof -
  let ?N = "v6_value (v6_network n)"
  note b = v6_block [OF ok p, folded k_def] and e = v6_hosts_ends [OF ok, folded k_def] and net = v6_network_ok [OF ok]
  have at: "v6_ok ((v6_succ ^^ j) (v6_network n)) \<and> scope_id ((v6_succ ^^ j) (v6_network n)) = scope_id (v6_address n) \<and>
      v6_value ((v6_succ ^^ j) (v6_network n)) = (?N + j) mod 2 ^ 128" for j
    using v6_succ_power [OF net(1), of j] net(2) by simp
  show "v6_visited (v6_hosts n) (2 ^ k) = v6_addresses n"
  proof (intro set_eqI iffI)
    fix x assume "x \<in> v6_visited (v6_hosts n) (2 ^ k)"
    then obtain j where "j < 2 ^ k" "x = (v6_succ ^^ j) (v6_network n)"
      by (auto simp: v6_visited_def e(1))
    with at [of j] b(1) show "x \<in> v6_addresses n" by (simp add: b(2))
  next
    fix x assume x: "x \<in> v6_addresses n"
    then obtain j where j: "v6_value x = ?N + j" "j < 2 ^ k"
      by (auto simp: b(2) dest!: le_Suc_ex)
    then have "x = (v6_succ ^^ j) (v6_network n)"
      using x at [of j] v6_value_less [of x] by (intro v6_value_inject) (auto simp: b(2))
    with j(2) show "x \<in> v6_visited (v6_hosts n) (2 ^ k)" by (auto simp: v6_visited_def e(1))
  qed
  show "(v6_succ ^^ (2 ^ k)) (range_begin (v6_hosts n)) = range_end (v6_hosts n)"
    using at [of "2 ^ k"] e by (intro v6_value_inject) auto
  have val: "v6_value (range_end (v6_hosts n)) = (?N + 2 ^ k) mod 2 ^ 128" by (rule e(4))
  show "range_end (v6_hosts n) \<notin> v6_addresses n" if "0 < v6_prefix_length n"
  proof
    assume "range_end (v6_hosts n) \<in> v6_addresses n"
    then have r: "?N \<le> (?N + 2 ^ k) mod 2 ^ 128" "(?N + 2 ^ k) mod 2 ^ 128 < ?N + 2 ^ k"
      by (simp_all add: b(2) val)
    then have "?N + 2 ^ k = 2 ^ 128" using b(1) by (metis le_neq_implies_less less_irrefl mod_less)
    moreover from this r(1) have "?N = 0" by simp
    moreover have "(2 :: nat) ^ k < 2 ^ 128" using that p by (intro power_strict_increasing) (auto simp: k_def)
    ultimately show False by simp
  qed
  show "range_end (v6_hosts n) = range_begin (v6_hosts n)" if "v6_prefix_length n = 0"
  proof -
    have "?N = 0" "2 ^ k = (2 :: nat) ^ 128"
      using that b(1) by (simp_all add: k_def)
    then have "v6_value (range_end (v6_hosts n)) = v6_value (v6_network n)" by (simp add: val)
    with e net show ?thesis by (intro v6_value_inject) auto
  qed
qed

section \<open>Version 6: subnets\<close>

lemma v6_canonical_network: "v6_prefix_length n \<le> 128 \<Longrightarrow> v6_canonical n = Inr (n\<lparr>v6_address := v6_network n\<rparr>)"
  by (simp add: v6_canonical_def network_v6_new_def)

lemma v6_is_subnet_of_iff:
  assumes ok: "v6_ok (v6_address n)" "v6_ok (v6_address m)" and p: "v6_prefix_length n \<le> 128" "v6_prefix_length m \<le> 128"
  shows "v6_is_subnet_of n m = Inr (v6_prefix_length m < v6_prefix_length n \<and> v6_address n \<in> v6_addresses m)"
proof (cases "v6_prefix_length m < v6_prefix_length n")
  case True
  let ?me = "n\<lparr>v6_prefix_length := v6_prefix_length m\<rparr>"
  note a = v6_network_ok [OF ok(2)] and b = v6_network_ok [of ?me, simplified, OF ok(1)]
  have "v6_equal (v6_network m) (v6_network ?me) \<longleftrightarrow>
      v6_value (v6_network m) = v6_value (v6_network ?me) \<and> scope_id (v6_address m) = scope_id (v6_address n)"
    using a b v6_value_inject [of "v6_network m" "v6_network ?me"] by (auto simp: v6_equal_iff)
  also have "\<dots> \<longleftrightarrow> v6_address n \<in> v6_addresses m"
    using a(3) b(3) ok by (auto simp: v6_addresses_def)
  finally have "network_v6_equal (m\<lparr>v6_address := v6_network m\<rparr>) (?me\<lparr>v6_address := v6_network ?me\<rparr>) \<longleftrightarrow>
      v6_address n \<in> v6_addresses m" by (simp add: network_v6_equal_def)
  moreover have "network_v6_new (v6_address n) (v6_prefix_length m) = Inr ?me"
    using p by (simp add: network_v6_new_def)
  ultimately show ?thesis
    using True p v6_canonical_network [of m] v6_canonical_network [of ?me] by (simp add: v6_is_subnet_of_def)
qed (auto simp: v6_is_subnet_of_def)

section \<open>Texts\<close>

lemma find_first_append:
  "(\<And>c. c \<in> set xs \<Longrightarrow> \<not> p c) \<Longrightarrow> find_first p k (xs @ ys) = find_first p (k + length xs) ys"
  by (induction xs arbitrary: k) auto

lemma split_network_text:
  assumes "CHR ''/'' \<notin> set s"
  shows "split_network (s @ ''/'' @ show_digits k) = Some (s, show_digits k)"
proof -
  have "find_first (\<lambda>c. c = CHR ''/'') 0 (s @ ''/'' @ show_digits k) = Some (length s)"
    using assms by (subst find_first_append) auto
  moreover have "find_first (\<lambda>c. \<not> is_digit c) j (show_digits k) = None" for j
    using find_first_append [of "show_digits k" "\<lambda>c. \<not> is_digit c" j "[]"] show_digits_range [of _ k]
    by (simp add: is_digit_def)
  moreover have "length s \<noteq> length (s @ ''/'' @ show_digits k) - 1" by simp
  ultimately show ?thesis by (simp add: split_network_def del: length_append)
qed

lemma atoi_show_digits: "k < 2 ^ 31 \<Longrightarrow> atoi wild (show_digits k) = int k"
  by (simp add: atoi_def read_show_digits)

lemma network_v6_text:
  assumes "v6_prefix_length n \<le> 128" and "inet_pton (inet_ntop (v6_address n)) = Inr (s6_addr (v6_address n), scope_id (v6_address n))"
    and "CHR ''/'' \<notin> set (inet_ntop (v6_address n))"
  shows "make_network_v6 inet_pton wild (network_v6_to_string inet_ntop n) = Inr (Inr n)"
  using assms split_network_text [OF assms(3), of "v6_prefix_length n"]
  by (simp add: make_network_v6_def network_v6_to_string_def make_address_v6_def atoi_show_digits network_v6_new_def v6_from_bytes_def)

section \<open>Properties\<close>

text \<open>
  C38: \<open>is_subnet_of\<close> never throws for networks with a prefix of at most 32 bits, and says whether the
  addresses of the one network are a proper subset of the addresses of the other, where the addresses of a network are
  those that agree with its address in the bits of the prefix.
\<close>

theorem subnets_are_proper_subsets:
  assumes "network_v4_new a p = Inr n" and "network_v4_new b q = Inr m"
  shows "is_subnet_of n m = Inr (v4_addresses n \<subset> v4_addresses m)"
  using assms by (intro is_subnet_of_strict_subset) (auto simp: network_v4_new_def split: if_splits)

theorem subnets_are_proper_subsets_witness:
  "is_subnet_of \<lparr>v4_address = v4_loopback, v4_prefix_length = 16\<rparr> \<lparr>v4_address = v4_loopback, v4_prefix_length = 8\<rparr> =
    Inr (v4_addresses \<lparr>v4_address = v4_loopback, v4_prefix_length = 16\<rparr> \<subset> v4_addresses \<lparr>v4_address = v4_loopback, v4_prefix_length = 8\<rparr>)"
  by (rule subnets_are_proper_subsets [of v4_loopback 16 _ v4_loopback 8]) (simp_all add: network_v4_new_def)

text \<open>
  C39: The text of a network is read back as the same network, when the operating system reads back the text of
  its address and that text has no slash.
\<close>

theorem network_text_roundtrip:
  assumes "v4_prefix_length n \<le> 32" and "inet_pton (inet_ntop (v4_address n)) = Inr (v4_to_bytes (v4_address n))"
    and "CHR ''/'' \<notin> set (inet_ntop (v4_address n))"
  shows "make_network_v4 inet_pton wild (network_v4_to_string inet_ntop n) = Inr (Inr n)"
  using assms split_network_text [OF assms(3), of "v4_prefix_length n"]
  by (simp add: make_network_v4_def network_v4_to_string_def make_address_v4_def atoi_show_digits network_v4_new_def)

theorem network_text_roundtrip_witness:
  "make_network_v4 (\<lambda>s. Inr (v4_to_bytes v4_loopback)) (\<lambda>s. - 1)
     (network_v4_to_string (\<lambda>a. ''127.0.0.1'') \<lparr>v4_address = v4_loopback, v4_prefix_length = 24\<rparr>) =
   Inr (Inr \<lparr>v4_address = v4_loopback, v4_prefix_length = 24\<rparr>)"
  by (rule network_text_roundtrip) simp_all

text \<open>
  C40: Counting from the first host of a version 6 network visits exactly the addresses of the network, each
  before the end of the range is reached; but the network of all addresses has the end where it has the
  beginning, so its range of hosts is empty.
\<close>

theorem v6_hosts_exact:
  assumes "v6_ok (v6_address n)" and "v6_prefix_length n \<le> 128"
  shows "v6_visited (v6_hosts n) (2 ^ (128 - v6_prefix_length n)) = v6_addresses n \<and>
    (v6_succ ^^ 2 ^ (128 - v6_prefix_length n)) (range_begin (v6_hosts n)) = range_end (v6_hosts n) \<and>
    (range_end (v6_hosts n) \<notin> v6_addresses n \<longleftrightarrow> v6_prefix_length n \<noteq> 0) \<and>
    (range_v6_empty (v6_hosts n) \<longleftrightarrow> v6_prefix_length n = 0)"
proof -
  note v = v6_visits_block [OF assms] and e = v6_hosts_ends [OF assms(1)] and net = v6_network_ok [OF assms(1)]
  have first: "range_begin (v6_hosts n) \<in> v6_addresses n"
    using v6_block [OF assms] net by (simp add: e(1))
  have "range_v6_empty (v6_hosts n) \<longleftrightarrow> range_begin (v6_hosts n) = range_end (v6_hosts n)"
    using e net by (simp add: range_v6_empty_def v6_equal_iff)
  with v first show ?thesis by (cases "v6_prefix_length n = 0") auto
qed

theorem v6_hosts_exact_witness:
  "range_v6_empty (v6_hosts \<lparr>v6_address = v6_default, v6_prefix_length = 0\<rparr>) \<and>
   \<not> range_v6_empty (v6_hosts \<lparr>v6_address = v6_default, v6_prefix_length = 64\<rparr>)"
  using v6_hosts_exact [of "\<lparr>v6_address = v6_default, v6_prefix_length = 0\<rparr>"]
    v6_hosts_exact [of "\<lparr>v6_address = v6_default, v6_prefix_length = 64\<rparr>"]
  by simp

end
