(* ===== verification/Spec2Isabelle.thy ===== *)
theory Spec2Isabelle
  imports Server_Properties Object_Pool Ssl_Equivalence Socket_Transfer Service_Properties Timer_Properties Strand_Properties Read_Until_Properties Ip_Properties
begin

text \<open>
  A verification of the TLS echo server in \<open>src/\<close> and of the parts of the bundled asio library it
  runs on.

  \<^bold>\<open>The program.\<close> \<open>src/src/main.cc\<close> builds a \<open>Tcp_server\<close>, starts it, sleeps and lets the destructor
  shut it down. The server (\<open>src/src/tcp_server.cc\<close>) posts one worker for each thread to an
  \<open>asio::thread_pool\<close>; the workers run the event loop of an \<open>asio::io_context\<close>. Everything else the
  server does is a handler of that loop: \<open>listen\<close> starts an accept and posts a task that draws a
  client id, the accept's handler posts the handshake and the next \<open>listen\<close>, the handshake's
  handler starts the reads, each read appends to the client's messages, and the end of the stream
  starts the write of the response, after which the socket is shut down.

  \<^bold>\<open>Theories.\<close>
  \<^item> \<open>Prelude\<close>: the machine types and the shared lemmas.
  \<^item> \<open>Error_Codes\<close>: \<open>asio/error.hpp\<close>, \<open>asio/ssl/error.hpp\<close> and \<open>throw_error\<close>.
  \<^item> \<open>Decimal\<close>: decimal numbers as text. \<open>Server_Logger\<close>: \<open>src/include/server_logger.h\<close>, the text it writes.
  \<^item> \<open>Op_Queue\<close>: \<open>asio/detail/op_queue.hpp\<close> on pointers, and the locale \<open>fifo_queue\<close> it implements.
  \<^item> \<open>Scheduler\<close>: \<open>asio/detail/impl/scheduler.ipp\<close>, the event, the thread pool and the work guard. The
    locale \<open>handler_contract\<close> states what the loop needs of a handler to keep the order of the queue and the
    work count; \<open>posting_contract\<close> extends it with what makes the loop end when the work is done. The
    handlers that post are the interpretation of both. The lemmas are about one thread; the reactor is the script
    of what its runs hand over.
  \<^item> \<open>Timer_Queue\<close>: \<open>asio/detail/timer_queue.hpp\<close>, the heap and the linked list of timers on a store,
    related to the multiset of its entries. \<open>Linked_List\<close>: the doubly linked lists it shares with
    \<open>Object_Pool\<close>, the pool of \<open>asio/detail/object_pool.hpp\<close>.
  \<^item> \<open>Epoll_Reactor\<close>: \<open>asio/detail/impl/epoll_reactor.ipp\<close> and the set of timer queues, on the scheduler
    and the timer queues above. \<open>Reactor_Accounting\<close>: the calls a program makes, the steps of the
    threads, and that each keeps the operations and the work count. \<open>Reactor_Properties\<close>: the
    statements about reachable states, the order of completions and the timer descriptor.
  \<^item> \<open>Sockets\<close>: the handle and the state bits of a socket, \<open>asio/detail/impl/reactive_socket_service_base.ipp\<close>
    without the reactor and the calls of \<open>socket_ops.ipp\<close> it makes; \<open>Ssl_Context\<close>: the calls on the SSL
    context.
  \<^item> \<open>Socket_Io\<close>: sending, receiving, polling, connecting and accepting in \<open>socket_ops.ipp\<close>, with the
    synchronous and the non-blocking loops, on a system that is a parameter. What the manual says of a
    stream socket is \<open>stream_kernel\<close>, and \<open>patient\<close> says that blocking ends.
  \<^item> \<open>Reactor_Client\<close>: programs that use a service on the reactor, as a step relation over the calls of the
    service, and the locale \<open>reactor_client\<close>, the contract by which every run of such a program is a run of
    the reactor. The socket service and the timer service are its interpretations.
  \<^item> \<open>Socket_Service\<close>: the service of \<open>reactive_socket_service_base\<close> on the reactor, every call with its
    registration, cancelling and starting of operations. \<open>Service_Steps\<close>: a program that uses sockets
    as a step relation, the invariant on the descriptors the sockets own, and the simulation by the
    reactor's own steps. \<open>Service_Properties\<close>: the statements about reachable states, and \<open>Sockets\<close> as an
    abstraction of the service.
  \<^item> \<open>Chrono_Time\<close>: the saturating time arithmetic of \<open>asio/detail/chrono_time_traits.hpp\<close>.
    \<open>Deadline_Timer\<close>: the service of \<open>asio/detail/deadline_timer_service.hpp\<close> behind \<open>steady_timer\<close> and what the
    operations of the timer queue do to its heap. \<open>Timer_Program\<close>: programs that use timers, the invariant that
    ties a timer's expiry to its heap entry, and what a run of the reactor hands over. \<open>Timer_Properties\<close>:
    the statements about reachable states and the blocking wait.
  \<^item> \<open>Strand_Service\<close>: the strands of \<open>asio/detail/strand_executor_service.hpp\<close>, one function for each critical
    section and for the code between them. \<open>Strand_Steps\<close>: threads with a stack of activities whose steps
    interleave, on an inner executor that keeps a multiset of invokers, and the invariant of a strand.
    \<open>Strand_Properties\<close>: mutual exclusion, order, progress and shutdown.
  \<^item> \<open>Ssl_Stream\<close>: the engine of \<open>asio/ssl/detail/impl/engine.ipp\<close> around OpenSSL, the stream's core, the
    synchronous loop \<open>io\<close> and the asynchronous \<open>io_op\<close> of \<open>asio/ssl/detail/io.hpp\<close>, which suspends on the
    transport or on another operation. \<open>Ssl_Properties\<close>: the operations of a connection in sequence as
    a step relation, and what reaches the engine and the transport. \<open>Ssl_Equivalence\<close>: the asynchronous operation
    driven by a transport against the synchronous loop.
  \<^item> \<open>Buffers\<close>: \<open>asio/buffer.hpp\<close> (buffers, sizes, \<open>buffer_copy\<close>), the classes of
    \<open>asio/detail/consuming_buffers.hpp\<close> and the adapter's \<open>first\<close> and \<open>linearise\<close>. A buffer means the
    list of the addresses it covers. \<open>Async_Transfer\<close>: the completion conditions and the composed
    \<open>async_read\<close> and \<open>async_write\<close>; the locale \<open>consuming_sequence\<close> is what they need of a consuming
    class, and all three classes are interpretations of it.
    \<open>Socket_Transfer\<close>: the composed operations on a stream socket, through the \<open>do_perform\<close> functions of
    the reactor's operations; the locale \<open>transferable\<close> extends the contract, with the same classes as
    interpretations.
  \<^item> \<open>Dynamic_Buffers\<close>: \<open>dynamic_string_buffer\<close>, \<open>dynamic_vector_buffer\<close> and \<open>basic_streambuf\<close>, and the locale
    \<open>growing_buffer\<close>, what an algorithm that reads into them relies on. \<open>Read_Until\<close>: \<open>partial_search\<close>, the loops
    and the operations of \<open>asio/impl/read_until.hpp\<close>, over both versions of the requirements on dynamic buffers, and
    the locale \<open>matcher\<close>, the contract of a search. \<open>Read_Until_Properties\<close>: what the loops and the
    operations return under both contracts, and the instances for strings and stream buffers.
  \<^item> \<open>Ip_Address\<close>: \<open>asio/ip/address.hpp\<close> with both versions, their iterators and the endpoint; version 4 addresses
    are an instance of \<open>linorder\<close>. \<open>Ip_Network\<close>: \<open>asio/ip/network_v4.hpp\<close>, \<open>network_v6.hpp\<close> and the ranges of
    addresses. \<open>Ip_Properties\<close>: networks as the sets of addresses that share their prefix.
  \<^item> \<open>Tcp_Server\<close>: the class, one function for each method and each lambda. \<open>Server_Steps\<close>: the
    program as a step relation. A handler is taken from the queue in one step and has its effect
    in a later one, so the handlers of the worker threads interleave freely; the reactor completes
    pending operations in any order with any result. Data races inside a handler are not
    modelled: each handler's effect is atomic.
  \<^item> \<open>Server_Tokens\<close>: the locale \<open>token_measure\<close>, which sums a weight over queued handlers, running
    handlers and pending operations, interpreted with six weights. \<open>Server_Lifecycle\<close>: start,
    shutdown and the induction rule for reachable configurations. \<open>Server_Invariants\<close> and
    \<open>Server_Safety\<close>: the invariants. \<open>Server_Reads\<close>: the steps with what \<open>available\<close> announced and what the reads
    delivered, and the messages these stand for. \<open>Server_Properties\<close>: the statements about the server.

  \<^bold>\<open>Results of code that is not modelled.\<close> System calls, OpenSSL and the random generator are the
  fields of the record \<open>env\<close>, quantified in every statement. Loops that need not end are
  \<open>partial_function\<close>s (\<open>spare_id_loop\<close>, \<open>op_queue_destroy\<close>, \<open>io\<close>, \<open>io_op_loop\<close>, \<open>drive_io\<close>) or carry fuel (\<open>run_loop\<close>; the weight of the
  queued handlers and of what the reactor will hand over is enough), and theorems state when they return. The loops of \<open>Socket_Io\<close> and \<open>Socket_Transfer\<close> are partial as well; on a
  \<open>patient\<close> system they are shown to return.

  \<^bold>\<open>Not modelled.\<close> Memory management and the mutexes as objects (a critical section is one step). The
  templates that only forward: executors and their properties, the basic socket, acceptor and stream
  classes, handler allocation and tracking, coroutines and futures. What the build of this program does not
  compile: the Windows and WinRT back ends, the other reactors, regular expressions. What the program does not
  reach and what is mostly calls of the system: name resolution, serial ports, descriptors, signal sets, datagram
  sockets, buffered streams, the socket iostreams. The synchronous composed transfers and the forms of
  \<open>async_read\<close> and \<open>async_write\<close> on dynamic buffers are left out, the loops they share are those of \<open>Async_Transfer\<close>.
\<close>

end
